(* ===== verification/Prelude.thy ===== *)
theory Prelude
  imports Main "HOL-Library.Word"
begin

text \<open>
  The vocabulary the component theories share: Rust's machine integers as words, \<open>Result\<close> as a
  sum with the error on the left, the combinators the source writes as \<open>?\<close>, \<open>map_err\<close> and
  \<open>unwrap_or\<close>, the integer casts, and the byte-order conversions. The lemmas here mention no part
  of the program; they are declared into the collections below so that component proofs name the
  collection instead of the lemmas.
\<close>

unbundle bit_operations_syntax

section \<open>Collections\<close>

named_theorems cast_simps \<open>integer casts that cancel\<close>
named_theorems wire_simps \<open>rewriting an encoder's output to the list of fields it wrote\<close>
named_theorems read_simps \<open>what the readers return on a list of fields\<close>

section \<open>Machine integers\<close>

text \<open>
  A signed Rust integer is a word of the same width read with \<open>sint\<close>; \<open>as\<close> between the signed and
  the unsigned type of one width is then the identity, and between widths it is \<open>ucast\<close> (truncation,
  zero extension) or \<open>scast\<close> (sign extension), as the Rust reference defines it.
\<close>

type_synonym u8 = "8 word"
type_synonym u16 = "16 word"
type_synonym u32 = "32 word"
type_synonym u64 = "64 word"
type_synonym i32 = "32 word"
type_synonym i64 = "64 word"

text \<open>A byte slice or a \<open>Vec<u8>\<close>. \<open>usize\<close> values are \<open>nat\<close>; the target is 64-bit.\<close>

type_synonym bytes = "u8 list"

abbreviation (input) usize_modulus :: nat where
  "usize_modulus \<equiv> 18446744073709551616"

text \<open>
  No Rust allocation is larger than \<open>isize::MAX\<close> bytes, so this holds of every byte vector a run
  can build. It is the hypothesis of the round-trip theorems.
\<close>

definition fits :: "'a list \<Rightarrow> bool" where
  "fits bs \<longleftrightarrow> length bs < 9223372036854775808"

lemma fits_Nil [simp]: "fits []"
  by (simp add: fits_def)

lemma fits_mono: "fits ys \<Longrightarrow> length xs \<le> length ys \<Longrightarrow> fits xs"
  by (simp add: fits_def)

lemma fits_append: "fits (xs @ ys) \<Longrightarrow> fits xs \<and> fits ys"
  by (simp add: fits_def)

text \<open>\<open>checked_add\<close> on \<open>usize\<close>.\<close>

definition checked_add :: "nat \<Rightarrow> nat \<Rightarrow> nat option" where
  "checked_add a b = (if a + b < usize_modulus then Some (a + b) else None)"

lemma checked_add_Some [simp]: "checked_add a b = Some c \<longleftrightarrow> a + b < usize_modulus \<and> c = a + b"
  by (auto simp: checked_add_def)

text \<open>\<open>saturating_add\<close> on \<open>i64\<close>.\<close>

definition saturating_add_i64 :: "i64 \<Rightarrow> i64 \<Rightarrow> i64" where
  "saturating_add_i64 a b =
     word_of_int (max (- 9223372036854775808) (min 9223372036854775807 (sint a + sint b)))"

lemma sint_saturating_add_i64:
  "sint (saturating_add_i64 a b) = max (- 9223372036854775808) (min 9223372036854775807 (sint a + sint b))"
  unfolding saturating_add_i64_def
  by (subst signed_of_int) (simp add: signed_take_bit_int_eq_self max_def min_def)

section \<open>Casts\<close>

lemma bit_bound:
  fixes w :: "'a::len word"
  assumes "unat w < 2 ^ k" "bit w n"
  shows "n < k"
proof (rule ccontr)
  assume "\<not> n < k"
  then have "(2::nat) ^ k \<le> 2 ^ n" by simp
  with assms(1) have "unat w < 2 ^ n" by (rule less_le_trans)
  then have "unat w div 2 ^ n = 0" by simp
  moreover have "bit (unat w) n"
    using assms(2) by (simp add: bit_unsigned_iff)
  ultimately show False
    by (simp add: bit_iff_odd)
qed

lemma i32_through_u64 [cast_simps, simp]: "ucast (scast (x :: i32) :: u64) = x"
  by (rule bit_word_eqI) (auto simp: bit_simps)

lemma u8_through_u64 [cast_simps]: "ucast (ucast (x :: u8) :: u64) = x"
  by (rule bit_word_eqI) (auto simp: bit_simps)

section \<open>Results\<close>

text \<open>\<open>and_then\<close> is what \<open>?\<close> does with a value of the function's own error type.\<close>

fun and_then :: "'e + 'a \<Rightarrow> ('a \<Rightarrow> 'e + 'b) \<Rightarrow> 'e + 'b" where
  "and_then (Inl e) f = Inl e"
| "and_then (Inr a) f = f a"

text \<open>\<open>map_err\<close>, and the \<open>From\<close> conversion that \<open>?\<close> applies.\<close>

fun map_err :: "('e \<Rightarrow> 'f) \<Rightarrow> 'e + 'a \<Rightarrow> 'f + 'a" where
  "map_err f (Inl e) = Inl (f e)"
| "map_err f (Inr a) = Inr a"

fun unwrap_or :: "'a \<Rightarrow> 'a option \<Rightarrow> 'a" where
  "unwrap_or d None = d"
| "unwrap_or d (Some a) = a"

fun ok_or :: "'e \<Rightarrow> 'a option \<Rightarrow> 'e + 'a" where
  "ok_or e None = Inl e"
| "ok_or e (Some a) = Inr a"

text \<open>\<open>Result::ok\<close> followed by \<open>Option::flatten\<close>.\<close>

fun ok_flatten :: "'e + 'a option \<Rightarrow> 'a option" where
  "ok_flatten (Inl e) = None"
| "ok_flatten (Inr x) = x"

text \<open>A loop whose body may return early with an error.\<close>

fun fold_res :: "('s \<Rightarrow> 'a \<Rightarrow> 'e + 's) \<Rightarrow> 's \<Rightarrow> 'a list \<Rightarrow> 'e + 's" where
  "fold_res f s [] = Inr s"
| "fold_res f s (x # xs) = and_then (f s x) (\<lambda>s'. fold_res f s' xs)"

lemma and_then_Inr [simp]: "and_then r f = Inr b \<longleftrightarrow> (\<exists>a. r = Inr a \<and> f a = Inr b)"
  by (cases r) auto

lemma ok_or_Inr [simp]: "ok_or e x = Inr b \<longleftrightarrow> x = Some b"
  by (cases x) simp_all

lemma map_err_Inr [simp]: "map_err f r = Inr b \<longleftrightarrow> r = Inr b"
  by (cases r) simp_all

lemma and_then_cong [fundef_cong]:
  "r = r' \<Longrightarrow> (\<And>a. r' = Inr a \<Longrightarrow> f a = f' a) \<Longrightarrow> and_then r f = and_then r' f'"
  by (cases r') simp_all

lemma fold_res_append:
  "fold_res f s (xs @ ys) = and_then (fold_res f s xs) (\<lambda>s'. fold_res f s' ys)"
proof (induction xs arbitrary: s)
  case (Cons x xs)
  then show ?case by (cases "f s x") simp_all
qed simp

lemma fold_res_Inr: "fold_res (\<lambda>s x. Inr (f s x)) s xs = Inr (foldl f s xs)"
  by (induction xs arbitrary: s) simp_all

section \<open>Byte order\<close>

definition u16_to_be_bytes :: "u16 \<Rightarrow> bytes" where
  "u16_to_be_bytes w = [ucast (drop_bit 8 w), ucast w]"

definition u32_to_be_bytes :: "u32 \<Rightarrow> bytes" where
  "u32_to_be_bytes w = [ucast (drop_bit 24 w), ucast (drop_bit 16 w), ucast (drop_bit 8 w), ucast w]"

definition u16_from_be_bytes :: "u8 \<Rightarrow> u8 \<Rightarrow> u16" where
  "u16_from_be_bytes a b = push_bit 8 (ucast a) OR ucast b"

definition u32_from_be_bytes :: "u8 \<Rightarrow> u8 \<Rightarrow> u8 \<Rightarrow> u8 \<Rightarrow> u32" where
  "u32_from_be_bytes a b c d =
     push_bit 24 (ucast a) OR push_bit 16 (ucast b) OR push_bit 8 (ucast c) OR ucast d"

lemma length_to_be_bytes [simp]:
  "length (u16_to_be_bytes w) = 2" "length (u32_to_be_bytes v) = 4"
  by (simp_all add: u16_to_be_bytes_def u32_to_be_bytes_def)

lemma u16_be_roundtrip [cast_simps]:
  "u16_from_be_bytes (ucast (drop_bit 8 w)) (ucast w) = w"
  unfolding u16_from_be_bytes_def
  by (rule bit_word_eqI) (auto simp: bit_simps)

lemma u32_be_roundtrip [cast_simps]:
  "u32_from_be_bytes (ucast (drop_bit 24 w)) (ucast (drop_bit 16 w)) (ucast (drop_bit 8 w)) (ucast w) = w"
proof (rule bit_word_eqI)
  fix n :: nat
  assume n: "n < LENGTH(32)"
  consider "n < 8" | "8 \<le> n" "n < 16" | "16 \<le> n" "n < 24" | "24 \<le> n"
    by linarith
  then show "bit (u32_from_be_bytes (ucast (drop_bit 24 w)) (ucast (drop_bit 16 w))
      (ucast (drop_bit 8 w)) (ucast w)) n \<longleftrightarrow> bit w n"
    by cases (use n in \<open>auto simp: u32_from_be_bytes_def bit_simps\<close>)
qed

section \<open>Lists\<close>

lemma drop_eq_Cons: "i < length xs \<Longrightarrow> drop i xs = xs ! i # drop (Suc i) xs"
  by (simp add: Cons_nth_drop_Suc)

end
