(* ===== verification/Protobuf.thy ===== *)
theory Protobuf
  imports Prelude "HOL-Library.Sublist"
begin

text \<open>
  The protobuf wire codec of \<^verbatim>\<open>protocol/src/protobuf.rs\<close>: the \<open>Writer\<close> that appends tagged
  fields to a buffer, the \<open>Reader\<close> that walks a buffer by position, and the two collectors
  \<open>first_bytes\<close> and \<open>first_varint\<close> (which, despite their names, keep the last occurrence).
  Every message codec of the protocol crate is built from these. The abstract view is a list of
  fields: \<open>pb_enc\<close> is the wire form of such a list, and \<open>pb_fields\<close> is what the reader yields;
  the main lemma says that the reader inverts the writer on any list of fields.
\<close>

section \<open>Errors and fields\<close>

datatype pb_error = Truncated | VarintTooLong | UnsupportedWireType u32

datatype pb_field = Varint u32 u64 | Bytes u32 bytes

abbreviation WIRE_VARINT :: u32 where "WIRE_VARINT \<equiv> 0"
abbreviation WIRE_I64 :: u32 where "WIRE_I64 \<equiv> 1"
abbreviation WIRE_BYTES :: u32 where "WIRE_BYTES \<equiv> 2"
abbreviation WIRE_I32 :: u32 where "WIRE_I32 \<equiv> 5"

section \<open>Writing\<close>

record pb_writer =
  w_buf :: bytes

definition writer_new :: pb_writer where
  "writer_new = \<lparr>w_buf = []\<rparr>"

definition writer_push :: "u8 \<Rightarrow> pb_writer \<Rightarrow> pb_writer" where
  "writer_push b w = w\<lparr>w_buf := w_buf w @ [b]\<rparr>"

lemma unat_shift7_less: "128 \<le> (v :: u64) \<Longrightarrow> unat (drop_bit 7 v) < unat v"
proof -
  assume "128 \<le> v"
  then have "128 \<le> unat v"
    by (simp add: word_le_nat_alt)
  then show ?thesis
    by (simp add: unat_drop_bit_eq drop_bit_eq_div unat_div)
qed

function put_varint :: "u64 \<Rightarrow> pb_writer \<Rightarrow> pb_writer" where
  "put_varint v w =
     (if 0x80 \<le> v
      then put_varint (drop_bit 7 v) (writer_push ((ucast v AND 0x7f) OR 0x80) w)
      else writer_push (ucast v) w)"
  by pat_completeness auto
termination
  by (relation "measure (\<lambda>(v, w). unat v)") (auto dest: unat_shift7_less)

declare put_varint.simps [simp del]

definition put_tag :: "u32 \<Rightarrow> u32 \<Rightarrow> pb_writer \<Rightarrow> pb_writer" where
  "put_tag field wire = put_varint (push_bit 3 (ucast field) OR ucast wire)"

definition w_varint :: "u32 \<Rightarrow> u64 \<Rightarrow> pb_writer \<Rightarrow> pb_writer" where
  "w_varint field v w = put_varint v (put_tag field WIRE_VARINT w)"

definition w_bytes :: "u32 \<Rightarrow> bytes \<Rightarrow> pb_writer \<Rightarrow> pb_writer" where
  "w_bytes field v w =
     (let w' = put_varint (word_of_nat (length v)) (put_tag field WIRE_BYTES w)
      in w'\<lparr>w_buf := w_buf w' @ v\<rparr>)"

definition writer_finish :: "pb_writer \<Rightarrow> bytes" where
  "writer_finish w = w_buf w"

text \<open>
  A message builder in the source is \<open>Writer::new()\<close>, a chain of field calls in order, and
  \<open>finish()\<close>; \<open>write_msg\<close> runs such a chain, given as the list of its calls.
\<close>

definition write_msg :: "(pb_writer \<Rightarrow> pb_writer) list \<Rightarrow> bytes" where
  "write_msg ops = writer_finish (fold (\<lambda>op w. op w) ops writer_new)"

section \<open>Reading\<close>

record pb_reader =
  r_buf :: bytes
  r_pos :: nat

definition reader_new :: "bytes \<Rightarrow> pb_reader" where
  "reader_new buf = \<lparr>r_buf = buf, r_pos = 0\<rparr>"

text \<open>The loop of \<open>Reader::varint\<close>, with its two locals and the position it advances.\<close>

function varint_loop :: "bytes \<Rightarrow> nat \<Rightarrow> u64 \<Rightarrow> nat \<Rightarrow> (pb_error + u64) \<times> nat" where
  "varint_loop buf pos out shift =
     (if length buf \<le> pos then (Inl Truncated, pos)
      else if 63 < shift then (Inl VarintTooLong, pos)
      else
        let b = buf ! pos;
            out' = out OR push_bit shift (ucast (b AND 0x7f))
        in if b AND 0x80 = 0 then (Inr out', Suc pos)
           else varint_loop buf (Suc pos) out' (shift + 7))"
  by pat_completeness auto
termination
  by (relation "measure (\<lambda>(buf, pos, out, shift). length buf - pos)") auto

declare varint_loop.simps [simp del]

definition reader_varint :: "pb_reader \<Rightarrow> (pb_error + u64) \<times> pb_reader" where
  "reader_varint r =
     (case varint_loop (r_buf r) (r_pos r) 0 0 of (res, pos) \<Rightarrow> (res, r\<lparr>r_pos := pos\<rparr>))"

definition reader_take :: "nat \<Rightarrow> pb_reader \<Rightarrow> (pb_error + bytes) \<times> pb_reader" where
  "reader_take n r =
     (case checked_add (r_pos r) n of
        None \<Rightarrow> (Inl Truncated, r)
      | Some end' \<Rightarrow>
          if length (r_buf r) < end' then (Inl Truncated, r)
          else (Inr (take n (drop (r_pos r) (r_buf r))), r\<lparr>r_pos := end'\<rparr>))"

lemma varint_loop_pos:
  "varint_loop buf pos out shift = (res, pos') \<Longrightarrow>
     pos \<le> pos' \<and> (pos \<le> length buf \<longrightarrow> pos' \<le> length buf) \<and> (\<forall>v. res = Inr v \<longrightarrow> pos < pos')"
proof (induction buf pos out shift rule: varint_loop.induct)
  case (1 buf pos out shift)
  show ?case
  proof (cases "pos < length buf \<and> shift \<le> 63 \<and> buf ! pos AND 0x80 \<noteq> 0")
    case True
    with 1 show ?thesis
      by (simp add: varint_loop.simps [of buf pos] Let_def) force
  next
    case False
    with "1.prems" show ?thesis
      by (auto simp: varint_loop.simps [of buf pos] Let_def split: if_splits)
  qed
qed

text \<open>What every reader operation keeps: the buffer, and a position that only moves forward inside it.\<close>

definition advances :: "pb_reader \<Rightarrow> pb_reader \<Rightarrow> bool" where
  "advances r r' \<longleftrightarrow> r_buf r' = r_buf r \<and> r_pos r \<le> r_pos r' \<and>
     (r_pos r \<le> length (r_buf r) \<longrightarrow> r_pos r' \<le> length (r_buf r))"

lemma advances_refl [simp]: "advances r r"
  by (simp add: advances_def)

lemma advances_trans: "advances r r1 \<Longrightarrow> advances r1 r2 \<Longrightarrow> advances r r2"
  by (auto simp: advances_def)

lemma reader_varint_advances:
  "reader_varint r = (res, r') \<Longrightarrow> advances r r' \<and> (\<forall>v. res = Inr v \<longrightarrow> r_pos r < r_pos r')"
  using varint_loop_pos [of "r_buf r" "r_pos r" 0 0]
  by (auto simp: reader_varint_def advances_def split: prod.splits)

lemma reader_take_advances:
  "reader_take n r = (res, r') \<Longrightarrow> advances r r' \<and>
     (\<forall>bs. res = Inr bs \<longrightarrow> bs = take n (drop (r_pos r) (r_buf r)) \<and> length bs = n \<and> r_pos r' = r_pos r + n)"
  by (auto simp: reader_take_def advances_def split: option.splits if_splits)

lemma skip_progress:
  assumes "reader_varint r = (Inr t, r1)" "reader_take n r1 = (Inr bs, r2)"
    and "r_pos r < length (r_buf r)"
  shows "length (r_buf r2) - r_pos r2 < length (r_buf r) - r_pos r"
  using reader_varint_advances [OF assms(1)] reader_take_advances [OF assms(2)] assms(3)
  by (auto simp: advances_def)

text \<open>
  \<open>Reader::next_field\<close>: \<open>None\<close> at the end, an error, or a field; a fixed-width field is stepped
  over by calling itself again.
\<close>

function next_field :: "pb_reader \<Rightarrow> (pb_error + pb_field) option \<times> pb_reader" where
  "next_field r =
     (if length (r_buf r) \<le> r_pos r then (None, r)
      else case reader_varint r of
        (Inl e, r1) \<Rightarrow> (Some (Inl e), r1)
      | (Inr tag, r1) \<Rightarrow>
          let field = ucast (drop_bit 3 tag) :: u32;
              wire = ucast (tag AND 0x7) :: u32
          in if wire = WIRE_VARINT then
               (case reader_varint r1 of
                  (Inl e, r2) \<Rightarrow> (Some (Inl e), r2)
                | (Inr v, r2) \<Rightarrow> (Some (Inr (Varint field v)), r2))
             else if wire = WIRE_BYTES then
               (case reader_varint r1 of
                  (Inl e, r2) \<Rightarrow> (Some (Inl e), r2)
                | (Inr len, r2) \<Rightarrow>
                    (case reader_take (unat len) r2 of
                       (Inl e, r3) \<Rightarrow> (Some (Inl e), r3)
                     | (Inr b, r3) \<Rightarrow> (Some (Inr (Bytes field b)), r3)))
             else if wire = WIRE_I64 then
               (case reader_take 8 r1 of
                  (Inl e, r2) \<Rightarrow> (Some (Inl e), r2)
                | (Inr _, r2) \<Rightarrow> next_field r2)
             else if wire = WIRE_I32 then
               (case reader_take 4 r1 of
                  (Inl e, r2) \<Rightarrow> (Some (Inl e), r2)
                | (Inr _, r2) \<Rightarrow> next_field r2)
             else (Some (Inl (UnsupportedWireType wire)), r1))"
  by pat_completeness auto
termination
  by (relation "measure (\<lambda>r. length (r_buf r) - r_pos r)")
    (auto intro: skip_progress [OF sym sym])

declare next_field.simps [simp del]

lemma next_field_advances:
  "next_field r = (res, r') \<Longrightarrow> advances r r' \<and> (\<forall>f. res = Some (Inr f) \<longrightarrow> r_pos r < r_pos r')"
proof (induction r rule: next_field.induct)
  case (1 r)
  note step = "1.prems" [unfolded next_field.simps [of r]]
  obtain t r1 where t: "reader_varint r = (t, r1)"
    by (cases "reader_varint r")
  note adv = reader_varint_advances [OF t]
  show ?case
  proof (cases "r_pos r < length (r_buf r) \<and> (\<exists>tag. t = Inr tag)")
    case False
    with step t adv show ?thesis by (auto split: sum.splits if_splits)
  next
    case True
    then obtain tag where tag: "t = Inr tag" by blast
    have adv1: "advances r r1" "r_pos r < r_pos r1"
      using adv tag by auto
    have via: "advances r r' \<and> r_pos r < r_pos r'" if "advances r1 r'"
      using adv1 that advances_trans by (auto simp: advances_def)
    show ?thesis
      using True step t tag adv1 "1.IH" [OF _ t [symmetric] tag refl refl]
      by (auto simp: Let_def split: if_splits prod.splits sum.splits
          dest!: reader_varint_advances reader_take_advances intro!: via intro: advances_trans)
  qed
qed

section \<open>Loops over a message\<close>

text \<open>
  \<open>while let Some(f) = r.next_field() { ... f? ... }\<close>: the shape of every decoder. \<open>conv\<close> is the
  \<open>From<protobuf::Error>\<close> conversion the surrounding function's \<open>?\<close> applies; the body may itself fail.
\<close>

lemma next_field_progress:
  "next_field r = (Some (Inr f), r') \<Longrightarrow> length (r_buf r') - r_pos r' < length (r_buf r) - r_pos r"
proof -
  assume n: "next_field r = (Some (Inr f), r')"
  then have "r_pos r < length (r_buf r)"
    by (subst (asm) next_field.simps) (simp split: if_splits)
  with next_field_advances [OF n] show ?thesis
    by (auto simp: advances_def)
qed

function for_fields ::
    "(pb_error \<Rightarrow> 'e) \<Rightarrow> ('s \<Rightarrow> pb_field \<Rightarrow> 'e + 's) \<Rightarrow> 's \<Rightarrow> pb_reader \<Rightarrow> 'e + 's" where
  "for_fields conv body s r =
     (case next_field r of
        (None, _) \<Rightarrow> Inr s
      | (Some (Inl e), _) \<Rightarrow> Inl (conv e)
      | (Some (Inr f), r') \<Rightarrow>
          (case body s f of Inl e \<Rightarrow> Inl e | Inr s' \<Rightarrow> for_fields conv body s' r'))"
  by pat_completeness auto
termination
  by (relation "measure (\<lambda>(conv, body, s, r). length (r_buf r) - r_pos r)")
    (auto intro: next_field_progress [OF sym])

declare for_fields.simps [simp del]

definition first_bytes :: "bytes \<Rightarrow> u32 \<Rightarrow> pb_error + bytes option" where
  "first_bytes buf field =
     for_fields id
       (\<lambda>found f. Inr (case f of Bytes n v \<Rightarrow> if n = field then Some v else found
                              | Varint n v \<Rightarrow> found))
       None (reader_new buf)"

definition first_varint :: "bytes \<Rightarrow> u32 \<Rightarrow> pb_error + u64 option" where
  "first_varint buf field =
     for_fields id
       (\<lambda>found f. Inr (case f of Varint n v \<Rightarrow> if n = field then Some v else found
                              | Bytes n v \<Rightarrow> found))
       None (reader_new buf)"

section \<open>The abstract view: a message is a list of fields\<close>

function read_all :: "pb_reader \<Rightarrow> pb_error + pb_field list" where
  "read_all r =
     (case next_field r of
        (None, _) \<Rightarrow> Inr []
      | (Some (Inl e), _) \<Rightarrow> Inl e
      | (Some (Inr f), r') \<Rightarrow> and_then (read_all r') (\<lambda>fs. Inr (f # fs)))"
  by pat_completeness auto
termination
  by (relation "measure (\<lambda>r. length (r_buf r) - r_pos r)") (auto intro: next_field_progress [OF sym])

declare read_all.simps [simp del]

definition pb_fields :: "bytes \<Rightarrow> pb_error + pb_field list" where
  "pb_fields buf = read_all (reader_new buf)"

lemma for_fields_read_all:
  "read_all r = Inr fs \<Longrightarrow> for_fields conv body s r = fold_res body s fs"
proof (induction r arbitrary: s fs rule: read_all.induct)
  case (1 r)
  show ?case
    using "1.prems" "1.IH"
    by (subst for_fields.simps, subst (asm) read_all.simps)
      (auto split: prod.splits option.splits sum.splits)
qed

text \<open>A loop whose body cannot fail is a left fold over the fields, and fails as the reader does.\<close>

lemma for_fields_total:
  "for_fields conv (\<lambda>s f. Inr (g s f)) s r =
     (case read_all r of Inl e \<Rightarrow> Inl (conv e) | Inr fs \<Rightarrow> Inr (foldl g s fs))"
proof (induction r arbitrary: s rule: read_all.induct)
  case (1 r)
  show ?case
    using "1.IH"
    by (subst for_fields.simps, subst read_all.simps)
      (auto split: prod.splits option.splits sum.splits)
qed

lemma for_fields_pb_fields [read_simps]:
  "pb_fields buf = Inr fs \<Longrightarrow> for_fields conv body s (reader_new buf) = fold_res body s fs"
  by (simp add: pb_fields_def for_fields_read_all)

text \<open>The last value of a field, in the order the fields arrive.\<close>

definition last_bytes :: "u32 \<Rightarrow> pb_field list \<Rightarrow> bytes option" where
  "last_bytes n fs =
     foldl (\<lambda>found f. case f of Bytes m v \<Rightarrow> if m = n then Some v else found
                             | Varint m v \<Rightarrow> found) None fs"

definition last_varint :: "u32 \<Rightarrow> pb_field list \<Rightarrow> u64 option" where
  "last_varint n fs =
     foldl (\<lambda>found f. case f of Varint m v \<Rightarrow> if m = n then Some v else found
                             | Bytes m v \<Rightarrow> found) None fs"

lemma last_bytes_Nil [simp]: "last_bytes n [] = None"
  by (simp add: last_bytes_def)

lemma last_varint_Nil [simp]: "last_varint n [] = None"
  by (simp add: last_varint_def)

lemma last_bytes_snoc:
  "last_bytes n (fs @ [f]) =
     (case f of Bytes m v \<Rightarrow> if m = n then Some v else last_bytes n fs | Varint m v \<Rightarrow> last_bytes n fs)"
  by (cases f) (simp_all add: last_bytes_def)

lemma last_varint_snoc:
  "last_varint n (fs @ [f]) =
     (case f of Varint m v \<Rightarrow> if m = n then Some v else last_varint n fs | Bytes m v \<Rightarrow> last_varint n fs)"
  by (cases f) (simp_all add: last_varint_def)

lemma last_bytes_append:
  "last_bytes n (xs @ ys) = (case last_bytes n ys of Some v \<Rightarrow> Some v | None \<Rightarrow> last_bytes n xs)"
proof (induction ys rule: rev_induct)
  case (snoc y ys)
  then show ?case
    by (auto simp: last_bytes_snoc simp flip: append_assoc split: pb_field.splits)
qed simp

lemma last_varint_append:
  "last_varint n (xs @ ys) = (case last_varint n ys of Some v \<Rightarrow> Some v | None \<Rightarrow> last_varint n xs)"
proof (induction ys rule: rev_induct)
  case (snoc y ys)
  then show ?case
    by (auto simp: last_varint_snoc simp flip: append_assoc split: pb_field.splits)
qed simp

lemma last_bytes_Cons [simp]:
  "last_bytes n (f # fs) =
     (case last_bytes n fs of Some v \<Rightarrow> Some v
      | None \<Rightarrow> (case f of Bytes m v \<Rightarrow> if m = n then Some v else None | Varint m v \<Rightarrow> None))"
  using last_bytes_append [of n "[f]" fs] last_bytes_snoc [of n "[]" f]
  by (cases f) (simp_all split: option.splits)

lemma last_varint_Cons [simp]:
  "last_varint n (f # fs) =
     (case last_varint n fs of Some v \<Rightarrow> Some v
      | None \<Rightarrow> (case f of Varint m v \<Rightarrow> if m = n then Some v else None | Bytes m v \<Rightarrow> None))"
  using last_varint_append [of n "[f]" fs] last_varint_snoc [of n "[]" f]
  by (cases f) (simp_all split: option.splits)

lemma first_bytes_last:
  "first_bytes buf n = and_then (pb_fields buf) (\<lambda>fs. Inr (last_bytes n fs))"
  by (simp add: first_bytes_def for_fields_total pb_fields_def last_bytes_def split: sum.splits)

lemma first_varint_last:
  "first_varint buf n = and_then (pb_fields buf) (\<lambda>fs. Inr (last_varint n fs))"
  by (simp add: first_varint_def for_fields_total pb_fields_def last_varint_def split: sum.splits)

lemma first_fields [read_simps]:
  assumes "pb_fields buf = Inr fs"
  shows "first_bytes buf n = Inr (last_bytes n fs)" "first_varint buf n = Inr (last_varint n fs)"
  using assms by (simp_all add: first_bytes_last first_varint_last)

section \<open>The wire form of a list of fields\<close>

function varint_bytes :: "u64 \<Rightarrow> bytes" where
  "varint_bytes v =
     (if 0x80 \<le> v then ((ucast v AND 0x7f) OR 0x80) # varint_bytes (drop_bit 7 v) else [ucast v])"
  by pat_completeness auto
termination
  by (relation "measure unat") (auto dest: unat_shift7_less)

declare varint_bytes.simps [simp del]

lemma varint_bytes_not_Nil [simp]: "varint_bytes v \<noteq> []"
  by (subst varint_bytes.simps) simp

lemma put_varint_buf: "put_varint v w = w\<lparr>w_buf := w_buf w @ varint_bytes v\<rparr>"
proof (induction v w rule: put_varint.induct)
  case (1 v w)
  then show ?case
    by (subst put_varint.simps, subst varint_bytes.simps) (simp add: writer_push_def)
qed

definition field_tag :: "u32 \<Rightarrow> u32 \<Rightarrow> u64" where
  "field_tag field wire = push_bit 3 (ucast field) OR ucast wire"

fun enc_field :: "pb_field \<Rightarrow> bytes" where
  "enc_field (Varint n v) = varint_bytes (field_tag n WIRE_VARINT) @ varint_bytes v"
| "enc_field (Bytes n b) =
     varint_bytes (field_tag n WIRE_BYTES) @ varint_bytes (word_of_nat (length b)) @ b"

definition pb_enc :: "pb_field list \<Rightarrow> bytes" where
  "pb_enc fs = concat (map enc_field fs)"

lemma pb_enc_simps [simp]:
  "pb_enc [] = []" "pb_enc (f # fs) = enc_field f @ pb_enc fs" "pb_enc (fs @ gs) = pb_enc fs @ pb_enc gs"
  by (simp_all add: pb_enc_def)

lemma w_varint_buf: "w_varint n v w = w\<lparr>w_buf := w_buf w @ enc_field (Varint n v)\<rparr>"
  by (simp add: w_varint_def put_tag_def put_varint_buf field_tag_def)

lemma w_bytes_buf: "w_bytes n b w = w\<lparr>w_buf := w_buf w @ enc_field (Bytes n b)\<rparr>"
  by (simp add: w_bytes_def put_tag_def put_varint_buf field_tag_def Let_def)

text \<open>An operation of the writer that appends the wire form of a given list of fields.\<close>

definition writes :: "(pb_writer \<Rightarrow> pb_writer) list \<Rightarrow> pb_field list \<Rightarrow> bool" where
  "writes ops fs \<longleftrightarrow> (\<forall>w. fold (\<lambda>op w. op w) ops w = w\<lparr>w_buf := w_buf w @ pb_enc fs\<rparr>)"

lemma writes_Nil [wire_simps]: "writes [] []"
  by (simp add: writes_def)

lemma writes_varint [wire_simps]: "writes ops fs \<Longrightarrow> writes (w_varint n v # ops) (Varint n v # fs)"
  by (simp add: writes_def w_varint_buf)

lemma writes_bytes [wire_simps]: "writes ops fs \<Longrightarrow> writes (w_bytes n b # ops) (Bytes n b # fs)"
  by (simp add: writes_def w_bytes_buf)

lemma writes_append [wire_simps]: "writes ops fs \<Longrightarrow> writes ops' gs \<Longrightarrow> writes (ops @ ops') (fs @ gs)"
  by (simp add: writes_def)

lemma writes_map_bytes [wire_simps]:
  "writes (map (\<lambda>x. w_bytes n (g x)) xs) (map (\<lambda>x. Bytes n (g x)) xs)"
  by (induction xs) (auto intro: wire_simps)

lemma writes_map_varint [wire_simps]:
  "writes (map (\<lambda>x. w_varint n (g x)) xs) (map (\<lambda>x. Varint n (g x)) xs)"
  by (induction xs) (auto intro: wire_simps)

lemma writes_if [wire_simps]:
  "writes ops fs \<Longrightarrow> writes ops' gs \<Longrightarrow> writes (if c then ops else ops') (if c then fs else gs)"
  by simp

lemma writes_option [wire_simps]:
  "writes ops fs \<Longrightarrow> (\<And>x. writes (ops' x) (gs x)) \<Longrightarrow>
     writes (case y of None \<Rightarrow> ops | Some x \<Rightarrow> ops' x) (case y of None \<Rightarrow> fs | Some x \<Rightarrow> gs x)"
  by (cases y) simp_all

lemma write_msg_enc: "writes ops fs \<Longrightarrow> write_msg ops = pb_enc fs"
  by (simp add: writes_def write_msg_def writer_finish_def writer_new_def)

text \<open>A varint takes at most ten bytes, so a message is little longer than what it carries.\<close>

lemma length_varint_bytes_pow: "unat v < 2 ^ (7 * Suc k) \<Longrightarrow> length (varint_bytes v) \<le> Suc k"
proof (induction k arbitrary: v)
  case 0
  then have "\<not> 0x80 \<le> v" by (simp add: word_le_nat_alt)
  then show ?case by (simp add: varint_bytes.simps [of v])
next
  case (Suc k)
  have "7 * Suc (Suc k) = 7 * Suc k + 7" by simp
  then have "(2 :: nat) ^ (7 * Suc (Suc k)) = 2 ^ (7 * Suc k) * 2 ^ 7" by (simp only: power_add)
  with Suc.prems have "unat v < 2 ^ (7 * Suc k) * 2 ^ 7" by simp
  then have "unat (drop_bit 7 v) < 2 ^ (7 * Suc k)"
    by (simp add: drop_bit_eq_div unat_div less_mult_imp_div_less)
  from Suc.IH [OF this] show ?case by (simp add: varint_bytes.simps [of v])
qed

lemma length_varint_bytes: "length (varint_bytes v) \<le> 10"
proof -
  have "unat v < 2 ^ 64" using unsigned_less [of v, where ?'a = nat] by simp
  then have "unat v < 2 ^ (7 * Suc 9)" by simp
  from length_varint_bytes_pow [OF this] show ?thesis by simp
qed

fun field_size :: "pb_field \<Rightarrow> nat" where
  "field_size (Varint n v) = 20"
| "field_size (Bytes n b) = 20 + length b"

lemma length_enc_field: "length (enc_field f) \<le> field_size f"
  using length_varint_bytes
  by (cases f) (auto intro!: order.trans [OF add_mono [OF length_varint_bytes add_mono [OF length_varint_bytes order.refl]]]
      order.trans [OF add_mono [OF length_varint_bytes length_varint_bytes]])

lemma length_msg: "writes ops fs \<Longrightarrow> length (write_msg ops) \<le> sum_list (map field_size fs)"
proof -
  have "length (pb_enc fs) \<le> sum_list (map field_size fs)"
    by (induction fs) (simp_all add: add_mono length_enc_field)
  then show "writes ops fs \<Longrightarrow> ?thesis" by (simp add: write_msg_enc)
qed

section \<open>The reader inverts the writer\<close>

lemma mask7: "(0x7f :: u8) = mask 7" "(0x7f :: u64) = mask 7"
  by (simp_all add: mask_numeral)

lemma bit_0x80 [simp]: "bit (0x80 :: u8) n \<longleftrightarrow> n = 7" "bit (0x80 :: int) n \<longleftrightarrow> n = 7"
proof -
  have "(0x80 :: u8) = push_bit 7 1" "(0x80 :: int) = push_bit 7 1" by simp_all
  then show "bit (0x80 :: u8) n \<longleftrightarrow> n = 7" "bit (0x80 :: int) n \<longleftrightarrow> n = 7"
    by (simp_all only: bit_simps) auto
qed

lemma push_low7:
  "push_bit s (v AND 0x7f) OR push_bit (s + 7) (drop_bit 7 v) = push_bit s (v :: u64)"
proof (rule bit_word_eqI)
  fix n
  show "bit (push_bit s (v AND 0x7f) OR push_bit (s + 7) (drop_bit 7 v)) n = bit (push_bit s v) n"
    unfolding mask7 by (cases "s + 7 \<le> n") (auto simp: bit_simps)
qed

lemma group_of_byte:
  "ucast (((ucast (v :: u64) AND 0x7f) OR 0x80) AND 0x7f :: u8) = v AND 0x7f"
  unfolding mask7 by (rule bit_word_eqI) (auto simp: bit_simps)

lemma cont_bit_set: "((x AND 0x7f) OR 0x80) AND 0x80 \<noteq> (0 :: u8)"
proof
  assume "((x AND 0x7f) OR 0x80) AND 0x80 = (0 :: u8)"
  then have "bit (((x AND 0x7f) OR 0x80) AND 0x80 :: u8) 7 = bit (0 :: u8) 7" by simp
  then show False by (simp add: bit_and_iff bit_or_iff)
qed

lemma last_byte_clear:
  assumes "\<not> 0x80 \<le> (v :: u64)"
  shows "(ucast v :: u8) AND 0x80 = 0" "ucast ((ucast v :: u8) AND 0x7f) = v"
proof -
  have "unat v < 2 ^ 7"
    using assms by (simp add: word_le_nat_alt)
  note high = bit_bound [OF this]
  show "(ucast v :: u8) AND 0x80 = 0"
    by (rule bit_word_eqI) (auto simp: bit_simps dest: high)
  show "ucast ((ucast v :: u8) AND 0x7f) = v"
    unfolding mask7 by (rule bit_word_eqI) (auto simp: bit_simps dest: high)
qed

lemma varint_loop_enc:
  "drop pos buf = varint_bytes v @ rest \<Longrightarrow> shift \<le> 63 \<Longrightarrow> unat v < 2 ^ (64 - shift) \<Longrightarrow>
     varint_loop buf pos out shift = (Inr (out OR push_bit shift v), pos + length (varint_bytes v))"
proof (induction v arbitrary: pos out shift rule: varint_bytes.induct)
  case (1 v)
  have len: "pos < length buf"
    using "1.prems"(1) varint_bytes_not_Nil [of v] by (metis append_is_Nil_conv drop_eq_Nil2 not_le)
  show ?case
  proof (cases "0x80 \<le> v")
    case True
    from True "1.prems"(1) have split: "buf ! pos = (ucast v AND 0x7f) OR 0x80"
      "drop (Suc pos) buf = varint_bytes (drop_bit 7 v) @ rest"
      using len by (auto simp: drop_eq_Cons varint_bytes.simps [of v])
    have big: "128 \<le> unat v"
      using True by (simp add: word_le_nat_alt)
    have room: "shift + 7 < 64"
    proof (rule ccontr)
      assume "\<not> shift + 7 < 64"
      then have "(2::nat) ^ (64 - shift) \<le> 2 ^ 7" by (intro power_increasing) auto
      with big "1.prems"(3) show False by simp
    qed
    have "64 - shift = (64 - (shift + 7)) + 7"
      using room by simp
    then have "(2::nat) ^ (64 - shift) = 2 ^ (64 - (shift + 7)) * 2 ^ 7"
      by (simp only: power_add)
    then have "unat v < 2 ^ (64 - (shift + 7)) * 128"
      using "1.prems"(3) by simp
    then have small: "unat (drop_bit 7 v) < 2 ^ (64 - (shift + 7))"
      by (simp add: drop_bit_eq_div unat_div less_mult_imp_div_less)
    have "varint_loop buf pos out shift =
        varint_loop buf (Suc pos) (out OR push_bit shift (v AND 0x7f)) (shift + 7)"
      using len "1.prems"(2) cont_bit_set
      by (subst varint_loop.simps) (simp add: split(1) group_of_byte)
    also have "\<dots> = (Inr ((out OR push_bit shift (v AND 0x7f)) OR push_bit (shift + 7) (drop_bit 7 v)),
        Suc pos + length (varint_bytes (drop_bit 7 v)))"
      using room small by (intro "1.IH" [OF True split(2)]) simp_all
    finally show ?thesis
      using True push_low7 [of shift v] by (simp add: varint_bytes.simps [of v] or.assoc)
  next
    case False
    from False "1.prems"(1) have "buf ! pos = ucast v"
      using len by (auto simp: drop_eq_Cons varint_bytes.simps [of v])
    with False len "1.prems"(2) show ?thesis
      using last_byte_clear [OF False]
      by (subst varint_loop.simps) (simp add: varint_bytes.simps [of v])
  qed
qed

lemma field_tag_parts [simp]:
  "ucast (drop_bit 3 (field_tag n WIRE_VARINT)) = n" "field_tag n WIRE_VARINT AND 7 = 0"
  "ucast (drop_bit 3 (field_tag n WIRE_BYTES)) = n" "field_tag n WIRE_BYTES AND 7 = 2"
proof -
  have seven: "(7 :: u64) = mask 3" and two: "(2 :: u64) = push_bit 1 1"
    by (simp_all add: mask_numeral)
  have "(2 :: int) = push_bit 1 1"
    by simp
  then have bit_two: "bit (2 :: u64) k \<longleftrightarrow> k = 1" "bit (2 :: int) k \<longleftrightarrow> k = 1" for k
    unfolding two by (simp_all only: bit_simps) auto
  show "ucast (drop_bit 3 (field_tag n WIRE_VARINT)) = n" "ucast (drop_bit 3 (field_tag n WIRE_BYTES)) = n"
    by (rule bit_word_eqI, auto simp: field_tag_def bit_ucast_iff bit_drop_bit_eq bit_or_iff bit_push_bit_iff bit_two)+
  show "field_tag n WIRE_VARINT AND 7 = 0" "field_tag n WIRE_BYTES AND 7 = 2"
    unfolding seven
    by (rule bit_word_eqI,
        auto simp: field_tag_def bit_ucast_iff bit_drop_bit_eq bit_or_iff bit_push_bit_iff bit_and_iff bit_mask_iff bit_two)+
qed

lemma reader_varint_enc:
  assumes "drop (r_pos r) (r_buf r) = varint_bytes v @ rest"
  shows "reader_varint r = (Inr v, r\<lparr>r_pos := r_pos r + length (varint_bytes v)\<rparr>)"
proof -
  have "unat v < 2 ^ 64"
    using unsigned_less [of v, where ?'a = nat] by simp
  with varint_loop_enc [OF assms, of 0 0] show ?thesis
    by (simp add: reader_varint_def)
qed

lemma drop_after: "drop p buf = xs @ rest \<Longrightarrow> drop (p + length xs) buf = rest"
  by (metis append_eq_conv_conj drop_drop add.commute)

lemma reader_take_enc:
  assumes "drop (r_pos r) (r_buf r) = bs @ rest" "fits (r_buf r)"
    and "r_pos r \<le> length (r_buf r)"
  shows "reader_take (length bs) r = (Inr bs, r\<lparr>r_pos := r_pos r + length bs\<rparr>)"
proof -
  have "length (drop (r_pos r) (r_buf r)) = length bs + length rest"
    using assms(1) by simp
  then have "r_pos r + length bs \<le> length (r_buf r)"
    using assms(3) by simp
  then show ?thesis
    using assms(1,2) by (simp add: reader_take_def checked_add_def fits_def)
qed

lemma next_field_enc:
  assumes "drop (r_pos r) (r_buf r) = enc_field f @ rest" "fits (r_buf r)"
  shows "next_field r = (Some (Inr f), r\<lparr>r_pos := r_pos r + length (enc_field f)\<rparr>)"
proof -
  have "enc_field f \<noteq> []" by (cases f) simp_all
  then have pos: "r_pos r < length (r_buf r)"
    using assms(1) by (metis append_is_Nil_conv drop_eq_Nil2 not_le)
  show ?thesis
  proof (cases f)
    case (Varint n v)
    let ?t = "varint_bytes (field_tag n WIRE_VARINT)"
    let ?r1 = "r\<lparr>r_pos := r_pos r + length ?t\<rparr>"
    from assms(1) Varint have d: "drop (r_pos r) (r_buf r) = ?t @ varint_bytes v @ rest" by simp
    have "reader_varint r = (Inr (field_tag n WIRE_VARINT), ?r1)"
      by (rule reader_varint_enc [OF d])
    moreover have "reader_varint ?r1 = (Inr v, r\<lparr>r_pos := r_pos r + length (enc_field f)\<rparr>)"
      using reader_varint_enc [of ?r1 v rest] drop_after [OF d] Varint by (simp add: add.assoc)
    ultimately show ?thesis
      using pos Varint by (subst next_field.simps) simp
  next
    case (Bytes n b)
    let ?t = "varint_bytes (field_tag n WIRE_BYTES)" and ?l = "varint_bytes (word_of_nat (length b))"
    let ?r1 = "r\<lparr>r_pos := r_pos r + length ?t\<rparr>"
    let ?r2 = "r\<lparr>r_pos := r_pos r + length ?t + length ?l\<rparr>"
    from assms(1) Bytes have d: "drop (r_pos r) (r_buf r) = ?t @ ?l @ b @ rest" by simp
    note d1 = drop_after [OF d]
    note d2 = drop_after [OF d1]
    have total: "length (r_buf r) = r_pos r + length ?t + length ?l + length b + length rest"
      using arg_cong [OF d, of length] pos by simp
    have len: "unat (word_of_nat (length b) :: u64) = length b"
      using assms(2) total by (simp add: fits_def unat_of_nat)
    have "reader_varint r = (Inr (field_tag n WIRE_BYTES), ?r1)"
      by (rule reader_varint_enc [OF d])
    moreover have "reader_varint ?r1 = (Inr (word_of_nat (length b)), ?r2)"
      using reader_varint_enc [of ?r1 _ "b @ rest"] d1 by simp
    moreover have "reader_take (length b) ?r2 = (Inr b, r\<lparr>r_pos := r_pos r + length (enc_field f)\<rparr>)"
      using reader_take_enc [of ?r2 b rest] d2 assms(2) total Bytes by (simp add: add.assoc)
    ultimately show ?thesis
      using pos Bytes len by (subst next_field.simps) simp
  qed
qed

lemma read_all_enc:
  "drop (r_pos r) (r_buf r) = pb_enc fs \<Longrightarrow> fits (r_buf r) \<Longrightarrow> r_pos r \<le> length (r_buf r) \<Longrightarrow>
     read_all r = Inr fs"
proof (induction fs arbitrary: r)
  case Nil
  then show ?case by (subst read_all.simps, subst next_field.simps) simp
next
  case (Cons f fs)
  from Cons.prems(1) have d: "drop (r_pos r) (r_buf r) = enc_field f @ pb_enc fs" by simp
  let ?r = "r\<lparr>r_pos := r_pos r + length (enc_field f)\<rparr>"
  have "r_pos ?r \<le> length (r_buf r)"
    using arg_cong [OF d, of length] Cons.prems(3) by simp
  with Cons.prems(2) drop_after [OF d] have "read_all ?r = Inr fs"
    by (intro Cons.IH) simp_all
  then show ?case
    using next_field_enc [OF d Cons.prems(2)] by (subst read_all.simps) simp
qed

lemma pb_fields_enc [read_simps]: "fits (pb_enc fs) \<Longrightarrow> pb_fields (pb_enc fs) = Inr fs"
  by (simp add: pb_fields_def reader_new_def read_all_enc)

lemma fits_pb_enc: "fits (pb_enc fs) \<Longrightarrow> Bytes n b \<in> set fs \<Longrightarrow> fits b"
proof (induction fs)
  case (Cons f fs)
  then show ?case
    by (auto simp: fits_def)
qed simp

text \<open>The form the message proofs use: what a builder wrote is what a decoder sees.\<close>

lemma read_msg: "writes ops fs \<Longrightarrow> fits (write_msg ops) \<Longrightarrow> pb_fields (write_msg ops) = Inr fs"
  by (simp add: write_msg_enc pb_fields_enc)

lemma fits_msg: "writes ops fs \<Longrightarrow> fits (write_msg ops) \<Longrightarrow> Bytes n b \<in> set fs \<Longrightarrow> fits b"
  by (auto simp: write_msg_enc intro: fits_pb_enc)

lemma fits_msg_all:
  "writes ops fs \<Longrightarrow> fits (write_msg ops) \<Longrightarrow>
     list_all (\<lambda>f. case f of Bytes n b \<Rightarrow> fits b | Varint n v \<Rightarrow> True) fs"
  by (auto simp: list_all_iff split: pb_field.splits dest: fits_msg)

lemma last_field_map [simp]:
  "last_bytes n (map (\<lambda>x. Varint m (g x)) xs) = None"
  "last_varint n (map (\<lambda>x. Bytes m (h x)) xs) = None"
  by (induction xs) simp_all

lemma last_field_map_other [simp]:
  "m \<noteq> n \<Longrightarrow> last_bytes n (map (\<lambda>x. Bytes m (h x)) xs) = None"
  "m \<noteq> n \<Longrightarrow> last_varint n (map (\<lambda>x. Varint m (g x)) xs) = None"
  by (induction xs) simp_all

section \<open>What the reader returns on any bytes\<close>

lemma next_field_bytes:
  "next_field r = (Some (Inr (Bytes n b)), r') \<Longrightarrow> sublist b (r_buf r)"
proof (induction r rule: next_field.induct)
  case (1 r)
  note step = "1.prems" [unfolded next_field.simps [of r]]
  obtain t r1 where t: "reader_varint r = (t, r1)"
    by (cases "reader_varint r")
  have slice: "sublist (take m (drop k buf)) buf" for m k and buf :: bytes
    by (metis sublist_drop sublist_order.order.trans sublist_take)
  have buf1: "r_buf r1 = r_buf r"
    using reader_varint_advances [OF t] by (simp add: advances_def)
  show ?case
    using step t "1.IH" [OF _ t [symmetric] _ refl refl] buf1
    by (auto simp: Let_def slice advances_def split: if_splits prod.splits sum.splits
        dest!: reader_varint_advances reader_take_advances)
qed

lemma read_all_slices:
  "read_all r = Inr fs \<Longrightarrow> r_pos r \<le> length (r_buf r) \<Longrightarrow>
     length fs \<le> length (r_buf r) - r_pos r \<and> (\<forall>n b. Bytes n b \<in> set fs \<longrightarrow> sublist b (r_buf r))"
proof (induction r arbitrary: fs rule: read_all.induct)
  case (1 r)
  note step = "1.prems"(1) [unfolded read_all.simps [of r]]
  obtain res r1 where n: "next_field r = (res, r1)"
    by (cases "next_field r")
  show ?case
  proof (cases "\<exists>f. res = Some (Inr f)")
    case True
    then obtain f where f: "res = Some (Inr f)" by blast
    with step n obtain gs where gs: "read_all r1 = Inr gs" "fs = f # gs" by auto
    have adv: "advances r r1" using next_field_advances [OF n] by blast
    then have "r_pos r1 \<le> length (r_buf r1)" "r_buf r1 = r_buf r"
      using "1.prems"(2) by (auto simp: advances_def)
    with "1.IH" [OF n [symmetric] f refl gs(1)] next_field_progress [of r f r1] next_field_bytes [of r _ _ r1] n f gs(2)
    show ?thesis by (cases f) auto
  next
    case False
    with step n show ?thesis by (auto split: option.splits sum.splits)
  qed
qed

text \<open>Evaluating a builder on concrete values.\<close>

lemma small_varints: "\<not> 128 \<le> (1 :: u64)" "\<not> 128 \<le> (0 :: u64)"
  by (simp_all add: word_le_nat_alt)

lemmas write_eval = small_varints write_msg_def writer_new_def writer_finish_def writer_push_def w_varint_def w_bytes_def
  put_tag_def put_varint.simps

section \<open>Properties\<close>

text \<open>The call of the writer that appends a given field.\<close>

fun field_op :: "pb_field \<Rightarrow> pb_writer \<Rightarrow> pb_writer" where
  "field_op (Varint n v) = w_varint n v"
| "field_op (Bytes n b) = w_bytes n b"

lemma writes_field_ops: "writes (map field_op fs) fs"
proof (induction fs)
  case (Cons f fs)
  then show ?case by (cases f) (auto intro: wire_simps)
qed (auto intro: wire_simps)

text \<open>
  The reader inverts the writer. Whatever sequence of varint and length-delimited fields is
  written, with any field numbers and values, reading the buffer yields those fields in that order,
  and looking one up by number yields its last occurrence.
\<close>

theorem writer_reader_roundtrip:
  assumes "fits (write_msg (map field_op fs))"
  shows "pb_fields (write_msg (map field_op fs)) = Inr fs \<and>
    first_bytes (write_msg (map field_op fs)) n = Inr (last_bytes n fs) \<and>
    first_varint (write_msg (map field_op fs)) n = Inr (last_varint n fs)"
  using read_msg [OF writes_field_ops assms] by (simp add: read_simps)

theorem writer_reader_roundtrip_witness:
  "pb_fields (write_msg (map field_op [Varint 1 300, Bytes 2 [7, 8], Varint 1 5])) =
     Inr [Varint 1 300, Bytes 2 [7, 8], Varint 1 5] \<and>
   first_varint (write_msg (map field_op [Varint 1 300, Bytes 2 [7, 8], Varint 1 5])) 1 = Inr (Some 5)"
proof -
  have "write_msg (map field_op [Varint 1 300, Bytes 2 [7, 8], Varint 1 5]) = [8, 172, 2, 18, 2, 7, 8, 8, 5]"
    by (simp only: write_msg_enc [OF writes_field_ops]) (simp add: field_tag_def varint_bytes.simps)
  then have "fits (write_msg (map field_op [Varint 1 300, Bytes 2 [7, 8], Varint 1 5]))"
    by (simp only: fits_def) simp
  from writer_reader_roundtrip [OF this, of 1] show ?thesis by simp
qed

text \<open>
  On any bytes at all the reader ends, and what it hands out is inside the buffer: it yields at
  most one field per byte, and every length-delimited value is a contiguous slice of the input,
  never more than was there.
\<close>

theorem reader_stays_inside:
  assumes "pb_fields buf = Inr fs"
  shows "length fs \<le> length buf \<and> (\<forall>n b. Bytes n b \<in> set fs \<longrightarrow> sublist b buf)"
  using read_all_slices [of "reader_new buf" fs] assms by (simp add: pb_fields_def reader_new_def)

theorem reader_stays_inside_witness:
  "pb_fields (pb_enc [Bytes 3 [1, 2]]) = Inr [Bytes 3 [1, 2]] \<and> sublist [1, 2] (pb_enc [Bytes 3 [1, 2]])"
proof -
  have "pb_enc [Bytes 3 [1, 2]] = [26, 2, 1, 2]"
    by (simp add: field_tag_def) (simp add: varint_bytes.simps)
  then have *: "pb_fields (pb_enc [Bytes 3 [1, 2]]) = Inr [Bytes 3 [1, 2]]"
    by (intro pb_fields_enc) (simp only: fits_def, simp)
  with reader_stays_inside [OF *] show ?thesis by simp
qed

text \<open>
  A length-delimited field that claims more bytes than are left is refused as truncated,
  whatever the claimed length, including one that would overflow the position.
\<close>

theorem overlong_field_truncated:
  assumes "drop (r_pos r) (r_buf r) = varint_bytes (field_tag n WIRE_BYTES) @ varint_bytes len @ rest"
    and "length rest < unat len"
  shows "fst (next_field r) = Some (Inl Truncated)"
proof -
  let ?t = "varint_bytes (field_tag n WIRE_BYTES)"
  let ?r1 = "r\<lparr>r_pos := r_pos r + length ?t\<rparr>"
  have pos: "r_pos r < length (r_buf r)"
    using assms(1) varint_bytes_not_Nil [of "field_tag n WIRE_BYTES"]
    by (metis append_is_Nil_conv drop_eq_Nil2 not_le)
  have total: "length (r_buf r) = r_pos r + length ?t + length (varint_bytes len) + length rest"
    using arg_cong [OF assms(1), of length] pos by simp
  have "reader_varint r = (Inr (field_tag n WIRE_BYTES), ?r1)"
    by (rule reader_varint_enc [OF assms(1)])
  moreover have "reader_varint ?r1 = (Inr len, ?r1\<lparr>r_pos := r_pos r + length ?t + length (varint_bytes len)\<rparr>)"
    using reader_varint_enc [of ?r1 len rest] drop_after [OF assms(1)] by simp
  ultimately show ?thesis
    using pos total assms(2) by (subst next_field.simps) (auto simp: reader_take_def split: option.splits)
qed

theorem overlong_field_truncated_witness:
  "fst (next_field (reader_new [10, 5, 1, 2])) = Some (Inl Truncated)"
proof (rule overlong_field_truncated [of _ 1 5 "[1, 2]"])
  show "drop (r_pos (reader_new [10, 5, 1, 2])) (r_buf (reader_new [10, 5, 1, 2])) =
      varint_bytes (field_tag 1 WIRE_BYTES) @ varint_bytes 5 @ [1, 2]"
    by (simp add: reader_new_def field_tag_def) (simp add: varint_bytes.simps)
qed simp

end
