(* ===== verification/Rust_Std.thy ===== *)
theory Rust_Std
  imports Prelude "HOL-Library.AList"
begin

text \<open>
  The parts of Rust's standard library the sources lean on: UTF-8 strings (a \<open>String\<close> is its
  bytes) with the lossy decoding of attacker-controlled names, and \<open>HashMap\<close>. The map is stated as
  an interface with its laws, and the association list the model uses is an interpretation of it.
\<close>

section \<open>UTF-8\<close>

type_synonym rstring = bytes

definition str :: "string \<Rightarrow> rstring" where
  "str s = map of_char s"

text \<open>
  One step of \<open>core::str\<close>'s decoder at the head of a non-empty get_range: whether a well-formed
  character starts here and its width, or the length of the ill-formed prefix it skips. A byte past
  the end reads as 0, which is no continuation byte.
\<close>

definition byte_at :: "bytes \<Rightarrow> nat \<Rightarrow> u8" where
  "byte_at bs i = (if i < length bs then bs ! i else 0)"

definition is_cont :: "u8 \<Rightarrow> bool" where
  "is_cont b \<longleftrightarrow> 0x80 \<le> b \<and> b \<le> 0xBF"

definition second_of_3 :: "u8 \<Rightarrow> u8 \<Rightarrow> bool" where
  "second_of_3 b0 b1 \<longleftrightarrow>
     (if b0 = 0xE0 then 0xA0 \<le> b1 \<and> b1 \<le> 0xBF
      else if b0 = 0xED then 0x80 \<le> b1 \<and> b1 \<le> 0x9F
      else is_cont b1)"

definition second_of_4 :: "u8 \<Rightarrow> u8 \<Rightarrow> bool" where
  "second_of_4 b0 b1 \<longleftrightarrow>
     (if b0 = 0xF0 then 0x90 \<le> b1 \<and> b1 \<le> 0xBF
      else if b0 = 0xF4 then 0x80 \<le> b1 \<and> b1 \<le> 0x8F
      else is_cont b1)"

definition utf8_char :: "bytes \<Rightarrow> bool \<times> nat" where
  "utf8_char bs =
     (let b0 = byte_at bs 0; b1 = byte_at bs 1; b2 = byte_at bs 2; b3 = byte_at bs 3 in
      if b0 < 0x80 then (True, 1)
      else if 0xC2 \<le> b0 \<and> b0 \<le> 0xDF then (if is_cont b1 then (True, 2) else (False, 1))
      else if 0xE0 \<le> b0 \<and> b0 \<le> 0xEF then
        (if second_of_3 b0 b1 then (if is_cont b2 then (True, 3) else (False, 2)) else (False, 1))
      else if 0xF0 \<le> b0 \<and> b0 \<le> 0xF4 then
        (if second_of_4 b0 b1
         then (if is_cont b2 then (if is_cont b3 then (True, 4) else (False, 3)) else (False, 2))
         else (False, 1))
      else (False, 1))"

lemma utf8_char_pos: "utf8_char bs = (ok, n) \<Longrightarrow> 0 < n"
  by (auto simp: utf8_char_def Let_def split: if_splits)

function utf8_valid :: "bytes \<Rightarrow> bool" where
  "utf8_valid bs =
     (if bs = [] then True
      else case utf8_char bs of (ok, n) \<Rightarrow> ok \<and> utf8_valid (drop n bs))"
  by pat_completeness auto
termination
  by (relation "measure length") (auto dest: utf8_char_pos [OF sym])

function from_utf8_lossy :: "bytes \<Rightarrow> rstring" where
  "from_utf8_lossy bs =
     (if bs = [] then []
      else case utf8_char bs of (ok, n) \<Rightarrow>
        (if ok then take n bs else [0xEF, 0xBF, 0xBD]) @ from_utf8_lossy (drop n bs))"
  by pat_completeness auto
termination
  by (relation "measure length") (auto dest: utf8_char_pos [OF sym])

declare utf8_valid.simps [simp del] from_utf8_lossy.simps [simp del]

text \<open>\<open>std::str::from_utf8\<close>.\<close>

definition from_utf8 :: "bytes \<Rightarrow> rstring option" where
  "from_utf8 bs = (if utf8_valid bs then Some bs else None)"

lemma utf8_valid_Nil [simp]: "utf8_valid []"
  by (simp add: utf8_valid.simps)

lemma from_utf8_lossy_Nil [simp]: "from_utf8_lossy [] = []"
  by (simp add: from_utf8_lossy.simps)

lemma from_utf8_lossy_valid [simp]: "utf8_valid bs \<Longrightarrow> from_utf8_lossy bs = bs"
proof (induction bs rule: from_utf8_lossy.induct)
  case (1 bs)
  obtain ok n where c: "utf8_char bs = (ok, n)" by (cases "utf8_char bs")
  show ?case
  proof (cases "bs = []")
    case False
    with "1.prems" c have "ok" "utf8_valid (drop n bs)"
      by (simp_all add: utf8_valid.simps [of bs])
    with "1.IH" [OF False c [symmetric]] have "from_utf8_lossy (drop n bs) = drop n bs"
      by blast
    with False c \<open>ok\<close> show ?thesis
      by (simp add: from_utf8_lossy.simps [of bs])
  qed simp
qed

lemma ascii_utf8_valid: "(\<forall>b \<in> set bs. b < 0x80) \<Longrightarrow> utf8_valid bs"
proof (induction bs)
  case (Cons b bs)
  then have "utf8_char (b # bs) = (True, 1)"
    by (simp add: utf8_char_def byte_at_def)
  with Cons show ?case
    by (subst utf8_valid.simps) simp
qed simp

text \<open>The decision about a character reads only the bytes it covers.\<close>

lemma utf8_char_True:
  "utf8_char bs = (True, n) \<longleftrightarrow>
     (let b0 = byte_at bs 0; b1 = byte_at bs 1; b2 = byte_at bs 2; b3 = byte_at bs 3 in
      n = 1 \<and> b0 < 0x80 \<or>
      n = 2 \<and> 0xC2 \<le> b0 \<and> b0 \<le> 0xDF \<and> is_cont b1 \<or>
      n = 3 \<and> 0xE0 \<le> b0 \<and> b0 \<le> 0xEF \<and> second_of_3 b0 b1 \<and> is_cont b2 \<or>
      n = 4 \<and> 0xF0 \<le> b0 \<and> b0 \<le> 0xF4 \<and> second_of_4 b0 b1 \<and> is_cont b2 \<and> is_cont b3)"
proof -
  have "\<not> b < 0x80" if "0xC2 \<le> b" for b :: u8
    using that by unat_arith
  moreover have "\<not> b \<le> 0xDF" "\<not> b < 0x80" if "0xE0 \<le> b" for b :: u8
    using that by unat_arith+
  moreover have "\<not> b \<le> 0xDF" "\<not> b \<le> 0xEF" "\<not> b < 0x80" if "0xF0 \<le> b" for b :: u8
    using that by unat_arith+
  ultimately show ?thesis
    unfolding utf8_char_def Let_def by (simp split: if_splits) blast
qed

lemma cont_zero [simp]: "\<not> is_cont 0" "\<not> second_of_3 b 0" "\<not> second_of_4 b 0"
  by (simp_all add: is_cont_def second_of_3_def second_of_4_def)

lemma utf8_char_prefix:
  assumes "utf8_char bs = (True, n)" "bs \<noteq> []"
  shows "n \<le> length bs" "utf8_char (take n bs @ ys) = (True, n)"
proof -
  have byte_at_beyond: "\<not> is_cont (byte_at bs i) \<and> \<not> second_of_3 b (byte_at bs i) \<and> \<not> second_of_4 b (byte_at bs i)"
    if "length bs \<le> i" for i b
    using that by (simp add: byte_at_def)
  show le: "n \<le> length bs"
  proof (rule ccontr)
    assume "\<not> n \<le> length bs"
    then have "n \<noteq> 1 \<and> length bs \<le> n - 1"
      using assms(2) by (cases bs) auto
    with byte_at_beyond [of "n - 1"] assms(1) show False
      unfolding utf8_char_True Let_def by auto
  qed
  have same: "byte_at (take k bs @ ys) i = byte_at bs i" if "i < k" "k \<le> length bs" for i k
    using that by (simp add: byte_at_def nth_append)
  from assms(1) le show "utf8_char (take n bs @ ys) = (True, n)"
    unfolding utf8_char_True Let_def by (elim disjE conjE) (simp_all add: same)
qed

lemma utf8_valid_char_append:
  assumes "utf8_char bs = (True, n)" "bs \<noteq> []" "utf8_valid ys"
  shows "utf8_valid (take n bs @ ys)"
proof -
  note p = utf8_char_prefix [OF assms(1,2)]
  have "take n bs \<noteq> []"
    using assms(2) utf8_char_pos [OF assms(1)] by simp
  moreover have "drop n (take n bs @ ys) = ys"
    using p(1) by simp
  ultimately show ?thesis
    using p(2) assms(3) by (subst utf8_valid.simps) simp
qed

lemma utf8_valid_append: "utf8_valid xs \<Longrightarrow> utf8_valid ys \<Longrightarrow> utf8_valid (xs @ ys)"
proof (induction xs rule: utf8_valid.induct)
  case (1 xs)
  show ?case
  proof (cases "xs = []")
    case False
    obtain n where c: "utf8_char xs = (True, n)" and v: "utf8_valid (drop n xs)"
      using "1.prems"(1) False by (subst (asm) utf8_valid.simps) (auto split: prod.splits)
    have "utf8_valid (drop n xs @ ys)" using "1.IH" [OF False c [symmetric]] v "1.prems"(2) by blast
    from utf8_valid_char_append [OF c False this] show ?thesis by (simp flip: append_assoc)
  qed (use 1 in simp)
qed

text \<open>Every byte of a character but its first is a continuation byte, so cutting before any other byte is safe.\<close>

lemma second_is_cont: "second_of_3 b c \<Longrightarrow> is_cont c" "second_of_4 b c \<Longrightarrow> is_cont c"
  by (auto simp: second_of_3_def second_of_4_def is_cont_def word_le_nat_alt split: if_splits)

lemma utf8_char_cont:
  assumes "utf8_char bs = (True, n)" "0 < i" "i < n"
  shows "is_cont (byte_at bs i)"
proof -
  have "i = 1 \<or> i = 2 \<or> i = 3" using assms unfolding utf8_char_True Let_def by linarith
  with assms show ?thesis unfolding utf8_char_True Let_def by (auto dest: second_is_cont)
qed

lemma utf8_valid_split:
  "utf8_valid (xs @ ys) \<Longrightarrow> ys = [] \<or> \<not> is_cont (hd ys) \<Longrightarrow> utf8_valid xs \<and> utf8_valid ys"
proof (induction "xs @ ys" arbitrary: xs rule: utf8_valid.induct)
  case 1
  show ?case
  proof (cases "xs = []")
    case False
    then have ne: "xs @ ys \<noteq> []" by simp
    obtain n where c: "utf8_char (xs @ ys) = (True, n)" and v: "utf8_valid (drop n (xs @ ys))"
      using "1.prems"(1) ne by (subst (asm) utf8_valid.simps) (auto split: prod.splits)
    have "n \<le> length xs"
    proof (rule ccontr)
      assume n: "\<not> n \<le> length xs"
      with utf8_char_prefix(1) [OF c ne] have "ys \<noteq> []" by auto
      then have "byte_at (xs @ ys) (length xs) = hd ys" by (simp add: byte_at_def nth_append hd_conv_nth)
      with utf8_char_cont [OF c, of "length xs"] False n "1.prems"(2) \<open>ys \<noteq> []\<close> show False by simp
    qed
    then have tk: "take n (xs @ ys) = take n xs" and dr: "drop n (xs @ ys) = drop n xs @ ys" by simp_all
    from "1.hyps" [OF ne c [symmetric] dr] v "1.prems"(2) dr have IH: "utf8_valid (drop n xs) \<and> utf8_valid ys" by simp
    from utf8_valid_char_append [OF c ne, of "drop n xs"] IH show ?thesis unfolding tk by simp
  qed (use 1 in simp)
qed

lemma from_utf8_lossy_is_valid: "utf8_valid (from_utf8_lossy bs)"
proof (induction bs rule: from_utf8_lossy.induct)
  case (1 bs)
  have bad: "utf8_valid ([0xEF, 0xBF, 0xBD] @ ys)" if "utf8_valid ys" for ys
    using utf8_valid_char_append [of "[0xEF, 0xBF, 0xBD]" 3 ys] that
    by (simp add: utf8_char_def byte_at_def is_cont_def second_of_3_def)
  show ?case
  proof (cases "bs = []")
    case False
    obtain ok n where c: "utf8_char bs = (ok, n)" by (cases "utf8_char bs")
    have "utf8_valid (from_utf8_lossy (drop n bs))"
      using "1.IH" [OF False c [symmetric]] .
    with False c bad show ?thesis
      by (subst from_utf8_lossy.simps) (cases ok, auto intro: utf8_valid_char_append)
  qed simp
qed

section \<open>Characters and formatting\<close>

definition is_ascii_graphic :: "u8 \<Rightarrow> bool" where
  "is_ascii_graphic b \<longleftrightarrow> 0x21 \<le> b \<and> b \<le> 0x7E"

lemma graphic_valid: "list_all is_ascii_graphic bs \<Longrightarrow> utf8_valid bs"
  by (rule ascii_utf8_valid) (auto simp: list_all_iff is_ascii_graphic_def word_le_nat_alt word_less_nat_alt)

text \<open>
  \<open>chars().any(|c| c.is_control())\<close> on UTF-8: U+0000 to U+001F and U+007F are single bytes, U+0080 to
  U+009F are \<open>C2\<close> and a continuation byte.
\<close>

fun has_control :: "rstring \<Rightarrow> bool" where
  "has_control [] = False"
| "has_control (b # bs) =
     (b < 0x20 \<or> b = 0x7F \<or> (b = 0xC2 \<and> (case bs of [] \<Rightarrow> False | c # _ \<Rightarrow> 0x80 \<le> c \<and> c \<le> 0x9F)) \<or>
      has_control bs)"

text \<open>\<open>format!("{x:02x}")\<close> and \<open>format!("{x:02X}")\<close>.\<close>

definition hex_digit :: "u8 \<Rightarrow> u8 \<Rightarrow> u8" where
  "hex_digit a n = (if n < 10 then 0x30 + n else a + (n - 10))"

definition hex_lower :: "u8 \<Rightarrow> rstring" where
  "hex_lower x = [hex_digit 0x61 (drop_bit 4 x), hex_digit 0x61 (x AND 0x0F)]"

definition hex_upper :: "u8 \<Rightarrow> rstring" where
  "hex_upper x = [hex_digit 0x41 (drop_bit 4 x), hex_digit 0x41 (x AND 0x0F)]"

lemma length_hex [simp]: "length (hex_lower x) = 2" "length (hex_upper x) = 2"
  by (simp_all add: hex_lower_def hex_upper_def)

text \<open>\<open>data.get(a..b)\<close>.\<close>

definition get_range :: "bytes \<Rightarrow> nat \<Rightarrow> nat \<Rightarrow> bytes option" where
  "get_range data a b = (if a \<le> b \<and> b \<le> length data then Some (take (b - a) (drop a data)) else None)"

text \<open>\<open>data.get(i)\<close>.\<close>

definition get_at :: "'a list \<Rightarrow> nat \<Rightarrow> 'a option" where
  "get_at data i = (if i < length data then Some (data ! i) else None)"

section \<open>HashMap\<close>

text \<open>
  The contract the sources use: what a lookup returns after an insertion and a removal, and that
  \<open>len\<close> counts the keys. Iteration order is never observed where the model uses it.
\<close>

locale hash_map =
  fixes emp :: 'm
    and get :: "'m \<Rightarrow> 'k \<Rightarrow> 'v option"
    and insert :: "'k \<Rightarrow> 'v \<Rightarrow> 'm \<Rightarrow> 'm"
    and remove :: "'k \<Rightarrow> 'm \<Rightarrow> 'm"
    and len :: "'m \<Rightarrow> nat"
    and wf :: "'m \<Rightarrow> bool"
  assumes wf_emp: "wf emp"
    and wf_insert: "wf m \<Longrightarrow> wf (insert k v m)"
    and wf_remove: "wf m \<Longrightarrow> wf (remove k m)"
    and get_emp: "get emp k = None"
    and get_insert: "get (insert k v m) = (get m)(k \<mapsto> v)"
    and get_remove: "wf m \<Longrightarrow> get (remove k m) = (get m)(k := None)"
    and finite_dom: "wf m \<Longrightarrow> finite (dom (get m))"
    and len_card: "wf m \<Longrightarrow> len m = card (dom (get m))"
begin

lemma len_insert:
  "wf m \<Longrightarrow> len (insert k v m) = (if get m k = None then Suc (len m) else len m)"
  by (auto simp: len_card wf_insert get_insert finite_dom card_insert_if domIff)

lemma len_remove_le: "wf m \<Longrightarrow> len (remove k m) \<le> len m"
  by (simp add: len_card wf_remove get_remove finite_dom card_mono)

lemma len_insert_le: "wf m \<Longrightarrow> len (insert k v m) \<le> Suc (len m)"
  by (simp add: len_insert)

end

type_synonym ('k, 'v) hashmap = "('k \<times> 'v) list"

abbreviation hm_empty :: "('k, 'v) hashmap" where "hm_empty \<equiv> []"
abbreviation hm_get :: "('k, 'v) hashmap \<Rightarrow> 'k \<Rightarrow> 'v option" where "hm_get \<equiv> map_of"
abbreviation hm_insert :: "'k \<Rightarrow> 'v \<Rightarrow> ('k, 'v) hashmap \<Rightarrow> ('k, 'v) hashmap" where
  "hm_insert \<equiv> AList.update"
abbreviation hm_remove :: "'k \<Rightarrow> ('k, 'v) hashmap \<Rightarrow> ('k, 'v) hashmap" where
  "hm_remove \<equiv> AList.delete"
abbreviation (input) hm_len :: "('k, 'v) hashmap \<Rightarrow> nat" where "hm_len \<equiv> length"

definition hm_wf :: "('k, 'v) hashmap \<Rightarrow> bool" where
  "hm_wf m \<longleftrightarrow> distinct (map fst m)"

interpretation hm: hash_map hm_empty hm_get hm_insert hm_remove hm_len hm_wf
proof (standard, goal_cases)
  case (8 m)
  then have "card (fst ` set m) = length m"
    by (metis hm_wf_def distinct_card length_map list.set_map)
  then show ?case by (simp add: dom_map_of_conv_image_fst)
qed (auto simp: hm_wf_def distinct_update distinct_delete update_conv' delete_conv' finite_dom_map_of)

end
