(* ===== verification/Machines.thy ===== *)
theory Machines
  imports Prelude
begin

text \<open>
  The interfaces the components share. A sans-IO component is fed events one at a time and returns
  the effects the caller must perform. \<open>run\<close> feeds a list of events and collects the effects in order. The locales
  state the contracts the program's machines share, and the lemmas the components use through their
  interpretations.
\<close>

fun run :: "('s \<Rightarrow> 'e \<Rightarrow> 's \<times> 'f list) \<Rightarrow> 's \<Rightarrow> 'e list \<Rightarrow> 's \<times> 'f list" where
  "run step s [] = (s, [])"
| "run step s (e # es) =
     (let (s1, out1) = step s e; (s2, out2) = run step s1 es in (s2, out1 @ out2))"

lemma run_append:
  "run step s (xs @ ys) =
     (let (s1, out1) = run step s xs; (s2, out2) = run step s1 ys in (s2, out1 @ out2))"
  by (induction xs arbitrary: s) (auto simp: Let_def split: prod.splits)

lemma run_snoc:
  "run step s (xs @ [e]) =
     (let (s1, out1) = run step s xs; (s2, out2) = step s1 e in (s2, out1 @ out2))"
  by (auto simp: run_append Let_def split: prod.splits)

text \<open>A machine with final states: once it is over, nothing it is fed changes or produces anything.\<close>

locale ending_machine =
  fixes step :: "'s \<Rightarrow> 'e \<Rightarrow> 's \<times> 'f list"
    and final :: "'s \<Rightarrow> bool"
  assumes final_stuck: "final s \<Longrightarrow> step s e = (s, [])"
begin

lemma run_final: "final s \<Longrightarrow> run step s es = (s, [])"
  by (induction es) (simp_all add: final_stuck)

lemma run_after_final:
  "run step s xs = (s', out) \<Longrightarrow> final s' \<Longrightarrow> run step s (xs @ ys) = (s', out)"
  by (simp add: run_append run_final)

end

text \<open>
  A machine with an invariant, which then holds after every run of admissible events. \<open>adm\<close> is what
  the environment guarantees of an event.
\<close>

locale invariant_machine =
  fixes step :: "'s \<Rightarrow> 'e \<Rightarrow> 's \<times> 'f list"
    and adm :: "'e \<Rightarrow> bool"
    and inv :: "'s \<Rightarrow> bool"
  assumes step_inv: "inv s \<Longrightarrow> adm e \<Longrightarrow> inv (fst (step s e))"
begin

lemma run_inv: "inv s \<Longrightarrow> list_all adm es \<Longrightarrow> inv (fst (run step s es))"
proof (induction es arbitrary: s)
  case (Cons e es)
  then have "inv (fst (step s e))" by (simp add: step_inv)
  with Cons show ?case
    by (auto simp: Let_def split: prod.splits) (metis fst_conv)
qed simp

end

text \<open>
  A machine with an invariant that also speaks of everything it has put out so far.
\<close>

locale history_machine =
  fixes step :: "'s \<Rightarrow> 'e \<Rightarrow> 's \<times> 'f list"
    and hist :: "'s \<Rightarrow> 'f list \<Rightarrow> bool"
  assumes step_hist: "hist s log \<Longrightarrow> step s e = (s', out) \<Longrightarrow> hist s' (log @ out)"
begin

lemma run_hist_from: "hist s log \<Longrightarrow> run step s es = (s', out) \<Longrightarrow> hist s' (log @ out)"
proof (induction es arbitrary: s log s' out)
  case (Cons e es)
  obtain s1 out1 where 1: "step s e = (s1, out1)" by fastforce
  obtain s2 out2 where 2: "run step s1 es = (s2, out2)" by fastforce
  from Cons.IH [OF step_hist [OF Cons.prems(1) 1] 2] Cons.prems(2) 1 2 show ?case by simp
qed simp

lemma run_hist: "hist s [] \<Longrightarrow> run step s es = (s', out) \<Longrightarrow> hist s' out"
  using run_hist_from [of s "[]"] by simp

end

text \<open>
  A message codec: what \<open>dec\<close> makes of an encoded message is the receiver's \<open>view\<close> of it. \<open>ok\<close> is the
  invariant of the values the encoder is given (strings are UTF-8, lists of the right length), and
  the buffer is one that exists in memory.
\<close>

locale message_codec =
  fixes enc :: "'m \<Rightarrow> bytes"
    and dec :: "bytes \<Rightarrow> 'e + 'v"
    and view :: "'m \<Rightarrow> 'v"
    and ok :: "'m \<Rightarrow> bool"
  assumes dec_enc: "ok m \<Longrightarrow> fits (enc m) \<Longrightarrow> dec (enc m) = Inr (view m)"
begin

lemma enc_same_view: "ok m \<Longrightarrow> ok n \<Longrightarrow> fits (enc m) \<Longrightarrow> enc m = enc n \<Longrightarrow> view m = view n"
  using dec_enc [of m] dec_enc [of n] by simp

lemma dec_enc_all:
  "\<forall>m \<in> set ms. ok m \<and> fits (enc m) \<Longrightarrow> map dec (map enc ms) = map (\<lambda>m. Inr (view m)) ms"
  by (simp add: dec_enc)

end

end
