(* ===== verification/Framing.thy ===== *)
theory Framing
  imports Machines
begin

text \<open>
  The 4-byte length prefix of \<^verbatim>\<open>protocol/src/framing.rs\<close>: \<open>encode\<close> and the \<open>Decoder\<close> that is
  fed whatever a socket delivers. A caller drains the decoder after every push; the theorems say
  that the frames it sees depend on the bytes only, not on how they were split into reads, and
  that a refused frame is refused on its prefix alone.
\<close>

section \<open>Model\<close>

abbreviation LENGTH_PREFIX :: nat where "LENGTH_PREFIX \<equiv> 4"
abbreviation MAX_FRAME :: nat where "MAX_FRAME \<equiv> 5242880"

datatype framing_error = Oversize nat

definition framing_encode :: "bytes \<Rightarrow> bytes" where
  "framing_encode payload = u32_to_be_bytes (word_of_nat (length payload)) @ payload"

record decoder =
  d_buf :: bytes

definition decoder_new :: decoder where
  "decoder_new = \<lparr>d_buf = []\<rparr>"

definition decoder_push :: "bytes \<Rightarrow> decoder \<Rightarrow> decoder" where
  "decoder_push bs d = d\<lparr>d_buf := d_buf d @ bs\<rparr>"

definition next_frame :: "decoder \<Rightarrow> (framing_error + bytes option) \<times> decoder" where
  "next_frame d =
     (let buf = d_buf d in
      if length buf < LENGTH_PREFIX then (Inr None, d)
      else
        let len = unat (u32_from_be_bytes (buf ! 0) (buf ! 1) (buf ! 2) (buf ! 3)) in
        if MAX_FRAME \<le> len then (Inl (Oversize len), d)
        else if length buf < LENGTH_PREFIX + len then (Inr None, d)
        else (Inr (Some (take len (drop LENGTH_PREFIX buf))),
              d\<lparr>d_buf := drop (LENGTH_PREFIX + len) buf\<rparr>))"

definition buffered :: "decoder \<Rightarrow> nat" where
  "buffered d = length (d_buf d)"

text \<open>
  The caller's loop: \<open>while let Some(f) = d.next_frame()?\<close>, run after each push until the decoder
  has no whole frame or refuses one.
\<close>

lemma next_frame_progress:
  "next_frame d = (Inr (Some f), d') \<Longrightarrow> length (d_buf d') < length (d_buf d)"
  by (auto simp: next_frame_def Let_def split: if_splits)

function drain :: "decoder \<Rightarrow> bytes list \<times> framing_error option \<times> decoder" where
  "drain d =
     (case next_frame d of
        (Inl e, d') \<Rightarrow> ([], Some e, d')
      | (Inr None, d') \<Rightarrow> ([], None, d')
      | (Inr (Some f), d') \<Rightarrow> (case drain d' of (fs, e, d'') \<Rightarrow> (f # fs, e, d'')))"
  by pat_completeness auto
termination
  by (relation "measure (\<lambda>d. length (d_buf d))") (auto intro: next_frame_progress [OF sym])

declare drain.simps [simp del]

fun feed :: "decoder \<Rightarrow> bytes list \<Rightarrow> bytes list \<times> framing_error option \<times> decoder" where
  "feed d [] = ([], None, d)"
| "feed d (c # cs) =
     (case drain (decoder_push c d) of
        (fs, Some e, d') \<Rightarrow> (fs, Some e, d')
      | (fs, None, d') \<Rightarrow> (case feed d' cs of (gs, e, d'') \<Rightarrow> (fs @ gs, e, d'')))"

section \<open>Draining and more bytes\<close>

lemma next_frame_push:
  assumes "next_frame d = (Inr (Some f), d')"
  shows "next_frame (decoder_push bs d) = (Inr (Some f), decoder_push bs d')"
  using assms by (auto simp: next_frame_def decoder_push_def Let_def nth_append split: if_splits)

lemma next_frame_push_err:
  assumes "next_frame d = (Inl e, d')"
  shows "d' = d" "next_frame (decoder_push bs d) = (Inl e, decoder_push bs d)"
  using assms by (auto simp: next_frame_def decoder_push_def Let_def nth_append split: if_splits)

lemma next_frame_wait: "next_frame d = (Inr None, d') \<Longrightarrow> d' = d"
  by (auto simp: next_frame_def Let_def split: if_splits)

lemma drain_push:
  "drain (decoder_push bs d) =
     (case drain d of
        (fs, Some e, d') \<Rightarrow> (fs, Some e, decoder_push bs d')
      | (fs, None, d') \<Rightarrow> (case drain (decoder_push bs d') of (gs, e, d'') \<Rightarrow> (fs @ gs, e, d'')))"
proof (induction d rule: drain.induct)
  case (1 d)
  obtain res d' where n: "next_frame d = (res, d')"
    by (cases "next_frame d")
  consider (err) e where "res = Inl e" | (wait) "res = Inr None" | (frame) f where "res = Inr (Some f)"
    by (metis option.exhaust sum.exhaust)
  then show ?case
  proof cases
    case err
    with n have "d' = d" "next_frame (decoder_push bs d) = (Inl e, decoder_push bs d)"
      using next_frame_push_err by blast+
    with n err show ?thesis
      by (simp add: drain.simps [of d] drain.simps [of "decoder_push bs d"])
  next
    case wait
    with n next_frame_wait have "d' = d" by blast
    with n wait show ?thesis
      by (simp add: drain.simps [of d] split: prod.splits)
  next
    case frame
    note IH = 1 [OF n [symmetric] frame refl]
    from IH n frame next_frame_push [of d f d' bs] show ?thesis
      by (simp add: drain.simps [of d] drain.simps [of "decoder_push bs d"] split: prod.splits option.splits)
  qed
qed

lemma decoder_push_push: "decoder_push b (decoder_push a d) = decoder_push (a @ b) d"
  by (simp add: decoder_push_def)

lemma drain_again: "drain d = (fs, None, d') \<Longrightarrow> drain d' = ([], None, d')"
proof (induction d arbitrary: fs rule: drain.induct)
  case (1 d)
  obtain res d1 where n: "next_frame d = (res, d1)"
    by (cases "next_frame d")
  consider (err) e where "res = Inl e" | (wait) "res = Inr None" | (frame) f where "res = Inr (Some f)"
    by (metis option.exhaust sum.exhaust)
  then show ?case
  proof cases
    case frame
    obtain gs where "drain d1 = (gs, None, d')"
      using "1.prems" n frame by (auto simp: drain.simps [of d] split: prod.splits)
    with "1.IH" n frame show ?thesis by metis
  next
    case wait
    with n next_frame_wait have "d1 = d" by blast
    then have "d' = d"
      using "1.prems" n wait by (auto simp: drain.simps [of d])
    with n wait \<open>d1 = d\<close> show ?thesis by (simp add: drain.simps [of d])
  qed (use "1.prems" n in \<open>auto simp: drain.simps [of d]\<close>)
qed

text \<open>The frames and the verdict of a read sequence are those of the joined bytes.\<close>

lemma feed_concat:
  assumes "drain d = ([], None, d)"
  shows "(\<lambda>(fs, e, d'). (fs, e)) (feed d cs) = (\<lambda>(fs, e, d'). (fs, e)) (drain (decoder_push (concat cs) d))"
  using assms
proof (induction cs arbitrary: d)
  case Nil
  then show ?case by (simp add: decoder_push_def)
next
  case (Cons c cs)
  obtain fs e d' where dr: "drain (decoder_push c d) = (fs, e, d')"
    by (cases "drain (decoder_push c d)") auto
  have joined: "decoder_push (concat (c # cs)) d = decoder_push (concat cs) (decoder_push c d)"
    by (simp add: decoder_push_push)
  show ?case
  proof (cases e)
    case None
    with dr drain_again have "drain d' = ([], None, d')" by blast
    from Cons.IH [OF this] None dr show ?thesis
      unfolding joined by (subst drain_push) (auto split: prod.splits)
  next
    case (Some e')
    with dr show ?thesis
      unfolding joined by (subst drain_push) simp
  qed
qed

section \<open>Encoded frames\<close>

lemma next_frame_encode:
  assumes "length p < MAX_FRAME" "d_buf d = framing_encode p @ rest"
  shows "next_frame d = (Inr (Some p), d\<lparr>d_buf := rest\<rparr>)"
proof -
  let ?w = "word_of_nat (length p) :: u32"
  have len: "unat ?w = length p"
    using assms(1) by (simp add: unat_of_nat)
  have buf: "d_buf d = u32_to_be_bytes ?w @ p @ rest"
    using assms(2) by (simp add: framing_encode_def)
  then have pre: "u32_from_be_bytes (d_buf d ! 0) (d_buf d ! 1) (d_buf d ! 2) (d_buf d ! 3) = ?w"
    using u32_be_roundtrip [of ?w] by (simp add: u32_to_be_bytes_def)
  have "length (d_buf d) = 4 + length p + length rest"
    using buf by simp
  then show ?thesis
    using assms(1) pre len buf by (simp add: next_frame_def Let_def)
qed

lemma drain_encode:
  assumes "\<forall>p \<in> set ps. length p < MAX_FRAME"
  shows "drain \<lparr>d_buf = concat (map framing_encode ps)\<rparr> = (ps, None, decoder_new)"
  using assms
proof (induction ps)
  case Nil
  show ?case
    by (subst drain.simps) (simp add: next_frame_def decoder_new_def)
next
  case (Cons p ps)
  then have "next_frame \<lparr>d_buf = concat (map framing_encode (p # ps))\<rparr> =
      (Inr (Some p), \<lparr>d_buf = concat (map framing_encode ps)\<rparr>)"
    using next_frame_encode [of p "\<lparr>d_buf = concat (map framing_encode (p # ps))\<rparr>"] by simp
  with Cons show ?case
    by (subst drain.simps) simp
qed

lemma feed_done:
  assumes "drain d = ([], None, d)" "feed d cs = (fs, None, d')"
  shows "drain (decoder_push (concat cs) d) = (fs, None, d')"
  using assms
proof (induction cs arbitrary: d fs)
  case Nil
  then show ?case by (simp add: decoder_push_def)
next
  case (Cons c cs)
  obtain gs e d1 where dr: "drain (decoder_push c d) = (gs, e, d1)"
    by (cases "drain (decoder_push c d)") auto
  with Cons.prems have "e = None" by (cases e) auto
  moreover obtain hs where "feed d1 cs = (hs, None, d')" "fs = gs @ hs"
    using Cons.prems dr \<open>e = None\<close> by (auto split: prod.splits)
  moreover have "drain d1 = ([], None, d1)"
    using dr \<open>e = None\<close> drain_again by blast
  ultimately have "drain (decoder_push (concat cs) d1) = (hs, None, d')"
    using Cons.IH by blast
  with dr \<open>e = None\<close> \<open>fs = gs @ hs\<close> show ?case
    using drain_push [of "concat cs" "decoder_push c d"] by (simp add: decoder_push_push)
qed

section \<open>Properties\<close>

text \<open>The frames a caller saw and whether it was told to drop the connection.\<close>

definition seen :: "bytes list \<times> framing_error option \<times> decoder \<Rightarrow> bytes list \<times> framing_error option" where
  "seen r = (case r of (fs, e, d) \<Rightarrow> (fs, e))"

lemma new_is_drained: "drain decoder_new = ([], None, decoder_new)"
  by (subst drain.simps) (simp add: next_frame_def decoder_new_def)

text \<open>
  C19: frames do not depend on how the socket split them. For any two ways of cutting the same bytes
  into reads, a fresh decoder yields the same frames in the same order and the same verdict.
\<close>

theorem framing_split_independent:
  assumes "concat cs = concat cs'"
  shows "seen (feed decoder_new cs) = seen (feed decoder_new cs')"
  using feed_concat [OF new_is_drained, of cs] feed_concat [OF new_is_drained, of cs'] assms
  by (simp add: seen_def)

theorem framing_split_independent_witness:
  "seen (feed decoder_new [[0, 0], [0, 1, 9, 0]]) = seen (feed decoder_new [[0, 0, 0, 1, 9], [0]])"
  by (rule framing_split_independent) simp

lemma framing_feed:
  assumes "concat cs = concat (map framing_encode ps)" "\<forall>p \<in> set ps. length p < MAX_FRAME"
  shows "feed decoder_new cs = (ps, None, decoder_new)"
proof -
  have push: "decoder_push (concat cs) decoder_new = \<lparr>d_buf = concat (map framing_encode ps)\<rparr>"
    using assms(1) by (simp add: decoder_push_def decoder_new_def)
  have "seen (feed decoder_new cs) = (ps, None)"
    using feed_concat [OF new_is_drained, of cs] drain_encode [OF assms(2)]
    by (simp add: push seen_def)
  then obtain d where d: "feed decoder_new cs = (ps, None, d)"
    by (cases "feed decoder_new cs") (auto simp: seen_def)
  with feed_done [OF new_is_drained this] drain_encode [OF assms(2)] show ?thesis
    by (simp add: push)
qed

text \<open>
  What \<open>encode\<close> wrote, in any number of frames and cut into reads anywhere, the decoder gives
  back frame by frame, with nothing left over and nothing refused.
\<close>

theorem framing_roundtrip:
  assumes "concat cs = concat (map framing_encode ps)" "\<forall>p \<in> set ps. length p < MAX_FRAME"
  shows "feed decoder_new cs = (ps, None, decoder_new)"
  using assms by (rule framing_feed)

theorem framing_roundtrip_witness:
  "feed decoder_new [[0, 0, 0], [2, 7], [8, 0, 0, 0, 0]] = ([[7, 8], []], None, decoder_new)"
  by (rule framing_roundtrip) (simp_all add: framing_encode_def u32_to_be_bytes_def)

text \<open>Encoded messages over a length-prefixed stream, for any codec.\<close>

context message_codec
begin

lemma stream_dec:
  assumes "concat cs = concat (map (\<lambda>m. framing_encode (enc m)) ms)"
    and "\<forall>m \<in> set ms. ok m \<and> length (enc m) < MAX_FRAME"
  shows "map dec (fst (feed decoder_new cs)) = map (\<lambda>m. Inr (view m)) ms"
proof -
  have "feed decoder_new cs = (map enc ms, None, decoder_new)"
    using assms by (intro framing_feed) (auto simp: comp_def)
  moreover have "\<forall>m \<in> set ms. ok m \<and> fits (enc m)"
    using assms(2) by (auto simp: fits_def)
  ultimately show ?thesis using dec_enc_all by simp
qed

end

text \<open>
  A prefix that announces \<open>MAX_FRAME\<close> bytes or more is refused at once, before any of the body
  has arrived, and goes on being refused whatever is pushed after it; so a decoder that is drained
  after each read never holds more than one frame's worth and that read.
\<close>

theorem framing_oversize_refused:
  assumes "d_buf d = u32_to_be_bytes w @ rest" "MAX_FRAME \<le> unat w"
  shows "next_frame (decoder_push bs d) = (Inl (Oversize (unat w)), decoder_push bs d) \<and>
    fst (snd (feed d (bs # cs))) = Some (Oversize (unat w))"
proof -
  have "next_frame d = (Inl (Oversize (unat w)), d)"
    using assms u32_be_roundtrip [of w] by (simp add: next_frame_def u32_to_be_bytes_def)
  then have n: "next_frame (decoder_push bs d) = (Inl (Oversize (unat w)), decoder_push bs d)"
    by (rule next_frame_push_err)
  then show ?thesis by (simp add: drain.simps [of "decoder_push bs d"])
qed

theorem framing_oversize_refused_witness:
  "next_frame (decoder_push [1] \<lparr>d_buf = [0, 80, 0, 0]\<rparr>) = (Inl (Oversize 5242880), decoder_push [1] \<lparr>d_buf = [0, 80, 0, 0]\<rparr>)"
proof -
  have "d_buf \<lparr>d_buf = [0, 80, 0, 0]\<rparr> = u32_to_be_bytes 5242880 @ []"
    by (simp add: u32_to_be_bytes_def)
  from framing_oversize_refused [OF this, of "[1]" "[]"] show ?thesis by simp
qed

lemma drained_bound:
  assumes "next_frame d = (Inr None, d')"
  shows "buffered d' < LENGTH_PREFIX + MAX_FRAME"
  using assms by (auto simp: next_frame_def buffered_def Let_def split: if_splits)

lemma drain_bound: "drain d = (fs, None, d') \<Longrightarrow> buffered d' < LENGTH_PREFIX + MAX_FRAME"
  using drain_again [of d fs d'] next_frame_wait [of d']
  by (subst (asm) (2) drain.simps) (auto split: prod.splits sum.splits option.splits dest: drained_bound)

text \<open>
  A decoder that is drained after every read holds less than one whole frame with its prefix, so
  an endless stream cannot make it grow.
\<close>

theorem decoder_bounded:
  assumes "feed decoder_new cs = (fs, None, d)"
  shows "buffered d < LENGTH_PREFIX + MAX_FRAME"
  using drain_bound [OF feed_done [OF new_is_drained assms]] .

theorem decoder_bounded_witness:
  "feed decoder_new [[0, 0, 0, 5], [1]] = ([], None, \<lparr>d_buf = [0, 0, 0, 5, 1]\<rparr>) \<and>
   buffered \<lparr>d_buf = [0, 0, 0, 5, 1]\<rparr> < LENGTH_PREFIX + MAX_FRAME"
proof -
  have *: "feed decoder_new [[0, 0, 0, 5], [1]] = ([], None, \<lparr>d_buf = [0, 0, 0, 5, 1]\<rparr>)"
    by (simp add: drain.simps next_frame_def decoder_new_def decoder_push_def u32_from_be_bytes_def)
  with decoder_bounded [OF *] show ?thesis by simp
qed

end
