(* ===== verification/Frames.thy ===== *)
theory Frames
  imports Protobuf Rust_Std Framing
begin

text \<open>
  The Nearby Connections message layer of \<^verbatim>\<open>protocol/src/frames.rs\<close>: the offline-frame envelope, one
  encoder per frame, and the parser that dispatches on the frame type. A \<open>String\<close> field is its
  UTF-8 bytes; the parser decodes it lossily, which is the identity on valid UTF-8.
\<close>

section \<open>Field numbers\<close>

abbreviation OF_VERSION :: u32 where "OF_VERSION \<equiv> 1"
abbreviation OF_V1 :: u32 where "OF_V1 \<equiv> 2"
abbreviation OF_VERSION_V1 :: u64 where "OF_VERSION_V1 \<equiv> 1"

abbreviation V1_TYPE :: u32 where "V1_TYPE \<equiv> 1"
abbreviation V1_CONNECTION_REQUEST :: u32 where "V1_CONNECTION_REQUEST \<equiv> 2"
abbreviation V1_CONNECTION_RESPONSE :: u32 where "V1_CONNECTION_RESPONSE \<equiv> 3"
abbreviation V1_PAYLOAD_TRANSFER :: u32 where "V1_PAYLOAD_TRANSFER \<equiv> 4"
abbreviation V1_BANDWIDTH_UPGRADE :: u32 where "V1_BANDWIDTH_UPGRADE \<equiv> 5"
abbreviation V1_KEEP_ALIVE :: u32 where "V1_KEEP_ALIVE \<equiv> 6"
abbreviation V1_DISCONNECTION :: u32 where "V1_DISCONNECTION \<equiv> 7"

abbreviation T_CONNECTION_REQUEST :: u64 where "T_CONNECTION_REQUEST \<equiv> 1"
abbreviation T_CONNECTION_RESPONSE :: u64 where "T_CONNECTION_RESPONSE \<equiv> 2"
abbreviation T_PAYLOAD_TRANSFER :: u64 where "T_PAYLOAD_TRANSFER \<equiv> 3"
abbreviation T_BANDWIDTH_UPGRADE :: u64 where "T_BANDWIDTH_UPGRADE \<equiv> 4"
abbreviation T_KEEP_ALIVE :: u64 where "T_KEEP_ALIVE \<equiv> 5"
abbreviation T_DISCONNECTION :: u64 where "T_DISCONNECTION \<equiv> 6"

abbreviation CR_ENDPOINT_ID :: u32 where "CR_ENDPOINT_ID \<equiv> 1"
abbreviation CR_ENDPOINT_NAME :: u32 where "CR_ENDPOINT_NAME \<equiv> 2"
abbreviation CR_HANDSHAKE_DATA :: u32 where "CR_HANDSHAKE_DATA \<equiv> 3"
abbreviation CR_NONCE :: u32 where "CR_NONCE \<equiv> 4"
abbreviation CR_MEDIUMS :: u32 where "CR_MEDIUMS \<equiv> 5"
abbreviation CR_ENDPOINT_INFO :: u32 where "CR_ENDPOINT_INFO \<equiv> 6"
abbreviation CR_MEDIUM_METADATA :: u32 where "CR_MEDIUM_METADATA \<equiv> 7"
abbreviation CR_KEEPALIVE_INTERVAL :: u32 where "CR_KEEPALIVE_INTERVAL \<equiv> 8"
abbreviation CR_KEEPALIVE_TIMEOUT :: u32 where "CR_KEEPALIVE_TIMEOUT \<equiv> 9"
abbreviation CR_CONNECTIONS_DEVICE :: u32 where "CR_CONNECTIONS_DEVICE \<equiv> 12"

abbreviation MM_SUPPORTS_5GHZ :: u32 where "MM_SUPPORTS_5GHZ \<equiv> 1"
abbreviation MM_SUPPORTS_6GHZ :: u32 where "MM_SUPPORTS_6GHZ \<equiv> 4"
abbreviation MM_MOBILE_RADIO :: u32 where "MM_MOBILE_RADIO \<equiv> 5"
abbreviation MM_AP_FREQUENCY :: u32 where "MM_AP_FREQUENCY \<equiv> 6"

definition AP_FREQUENCY_NONE :: u64 where
  "AP_FREQUENCY_NONE = scast (-1 :: i32)"

abbreviation CD_ENDPOINT_ID :: u32 where "CD_ENDPOINT_ID \<equiv> 1"
abbreviation CD_ENDPOINT_TYPE :: u32 where "CD_ENDPOINT_TYPE \<equiv> 2"
abbreviation CD_ENDPOINT_INFO :: u32 where "CD_ENDPOINT_INFO \<equiv> 4"
abbreviation ENDPOINT_TYPE_CONNECTIONS :: u64 where "ENDPOINT_TYPE_CONNECTIONS \<equiv> 1"

abbreviation RSP_STATUS :: u32 where "RSP_STATUS \<equiv> 1"
abbreviation RSP_HANDSHAKE_DATA :: u32 where "RSP_HANDSHAKE_DATA \<equiv> 2"
abbreviation RSP_RESPONSE :: u32 where "RSP_RESPONSE \<equiv> 3"
abbreviation RSP_OS_INFO :: u32 where "RSP_OS_INFO \<equiv> 4"
abbreviation RSP_MULTIPLEX_BITMASK :: u32 where "RSP_MULTIPLEX_BITMASK \<equiv> 5"
abbreviation RSP_SAFE_TO_DISCONNECT :: u32 where "RSP_SAFE_TO_DISCONNECT \<equiv> 7"
abbreviation RSP_KEEPALIVE_TIMEOUT :: u32 where "RSP_KEEPALIVE_TIMEOUT \<equiv> 9"
abbreviation MULTIPLEX_SOCKET_BITMASK_NONE :: u64 where "MULTIPLEX_SOCKET_BITMASK_NONE \<equiv> 0"
abbreviation SAFE_TO_DISCONNECT_VERSION :: u64 where "SAFE_TO_DISCONNECT_VERSION \<equiv> 1"
abbreviation KEEP_ALIVE_TIMEOUT_MILLIS :: u64 where "KEEP_ALIVE_TIMEOUT_MILLIS \<equiv> 600000"
abbreviation KEEP_ALIVE_INTERVAL_MILLIS :: u64 where "KEEP_ALIVE_INTERVAL_MILLIS \<equiv> 10000"
abbreviation OS_TYPE :: u32 where "OS_TYPE \<equiv> 1"

abbreviation PT_PACKET_TYPE :: u32 where "PT_PACKET_TYPE \<equiv> 1"
abbreviation PT_PAYLOAD_HEADER :: u32 where "PT_PAYLOAD_HEADER \<equiv> 2"
abbreviation PT_PAYLOAD_CHUNK :: u32 where "PT_PAYLOAD_CHUNK \<equiv> 3"
abbreviation PT_CONTROL_MESSAGE :: u32 where "PT_CONTROL_MESSAGE \<equiv> 4"

abbreviation PH_ID :: u32 where "PH_ID \<equiv> 1"
abbreviation PH_TYPE :: u32 where "PH_TYPE \<equiv> 2"
abbreviation PH_TOTAL_SIZE :: u32 where "PH_TOTAL_SIZE \<equiv> 3"
abbreviation PH_IS_SENSITIVE :: u32 where "PH_IS_SENSITIVE \<equiv> 4"
abbreviation PH_FILE_NAME :: u32 where "PH_FILE_NAME \<equiv> 5"
abbreviation PH_PARENT_FOLDER :: u32 where "PH_PARENT_FOLDER \<equiv> 6"

abbreviation PC_FLAGS :: u32 where "PC_FLAGS \<equiv> 1"
abbreviation PC_OFFSET :: u32 where "PC_OFFSET \<equiv> 2"
abbreviation PC_BODY :: u32 where "PC_BODY \<equiv> 3"

abbreviation CM_EVENT :: u32 where "CM_EVENT \<equiv> 1"
abbreviation CM_OFFSET :: u32 where "CM_OFFSET \<equiv> 2"

abbreviation DC_REQUEST_SAFE :: u32 where "DC_REQUEST_SAFE \<equiv> 1"
abbreviation DC_ACK_SAFE :: u32 where "DC_ACK_SAFE \<equiv> 2"

abbreviation KA_ACK :: u32 where "KA_ACK \<equiv> 1"
abbreviation KA_SEQ_NUM :: u32 where "KA_SEQ_NUM \<equiv> 2"

section \<open>Data\<close>

datatype response = Response_Unknown | Response_Accept | Response_Reject

fun response_num :: "response \<Rightarrow> u64" where
  "response_num Response_Unknown = 0"
| "response_num Response_Accept = 1"
| "response_num Response_Reject = 2"

definition response_from :: "u64 \<Rightarrow> response" where
  "response_from v = (if v = 1 then Response_Accept else if v = 2 then Response_Reject else Response_Unknown)"

datatype os_type = Os_Unknown | Os_Android | Os_ChromeOs | Os_Windows | Os_Apple | Os_Linux

fun os_type_num :: "os_type \<Rightarrow> u64" where
  "os_type_num Os_Unknown = 0"
| "os_type_num Os_Android = 1"
| "os_type_num Os_ChromeOs = 2"
| "os_type_num Os_Windows = 3"
| "os_type_num Os_Apple = 4"
| "os_type_num Os_Linux = 100"

definition os_type_from :: "u64 \<Rightarrow> os_type" where
  "os_type_from v =
     (if v = 1 then Os_Android else if v = 2 then Os_ChromeOs else if v = 3 then Os_Windows
      else if v = 4 then Os_Apple else if v = 100 then Os_Linux else Os_Unknown)"

datatype payload_type = Payload_Unknown | Payload_Bytes | Payload_File | Payload_Stream

fun payload_type_num :: "payload_type \<Rightarrow> u64" where
  "payload_type_num Payload_Unknown = 0"
| "payload_type_num Payload_Bytes = 1"
| "payload_type_num Payload_File = 2"
| "payload_type_num Payload_Stream = 3"

definition payload_type_from :: "u64 \<Rightarrow> payload_type" where
  "payload_type_from v =
     (if v = 1 then Payload_Bytes else if v = 2 then Payload_File else if v = 3 then Payload_Stream
      else Payload_Unknown)"

datatype packet_type = Packet_Unknown | Packet_Data | Packet_Control | Packet_PayloadAck

fun packet_type_num :: "packet_type \<Rightarrow> u64" where
  "packet_type_num Packet_Unknown = 0"
| "packet_type_num Packet_Data = 1"
| "packet_type_num Packet_Control = 2"
| "packet_type_num Packet_PayloadAck = 3"

definition packet_type_from :: "u64 \<Rightarrow> packet_type" where
  "packet_type_from v =
     (if v = 1 then Packet_Data else if v = 2 then Packet_Control else if v = 3 then Packet_PayloadAck
      else Packet_Unknown)"

abbreviation FLAG_LAST_CHUNK :: u64 where "FLAG_LAST_CHUNK \<equiv> 1"

record connection_request =
  cr_endpoint_id :: rstring
  cr_endpoint_name :: rstring
  cr_endpoint_info :: bytes
  cr_handshake_data :: bytes
  cr_nonce :: i64
  cr_mediums :: "u64 list"
  cr_keep_alive_interval_millis :: "u64 option"
  cr_keep_alive_timeout_millis :: "u64 option"

definition connection_request_default :: connection_request where
  "connection_request_default =
     \<lparr>cr_endpoint_id = [], cr_endpoint_name = [], cr_endpoint_info = [], cr_handshake_data = [],
      cr_nonce = 0, cr_mediums = [], cr_keep_alive_interval_millis = None,
      cr_keep_alive_timeout_millis = None\<rparr>"

record connection_response =
  crsp_response :: response
  crsp_os_type :: os_type
  crsp_handshake_data :: bytes
  crsp_safe_to_disconnect_version :: u64

record payload_header =
  ph_id :: i64
  ph_payload_type :: payload_type
  ph_total_size :: i64
  ph_is_sensitive :: bool
  ph_file_name :: rstring
  ph_parent_folder :: rstring

definition payload_header_default :: payload_header where
  "payload_header_default =
     \<lparr>ph_id = 0, ph_payload_type = Payload_Unknown, ph_total_size = 0, ph_is_sensitive = False,
      ph_file_name = [], ph_parent_folder = []\<rparr>"

record payload_chunk =
  pc_flags :: u64
  pc_offset :: i64
  pc_body :: bytes

definition is_last :: "payload_chunk \<Rightarrow> bool" where
  "is_last c \<longleftrightarrow> pc_flags c AND FLAG_LAST_CHUNK \<noteq> 0"

record payload_transfer =
  pt_packet_type :: packet_type
  pt_header :: payload_header
  pt_chunk :: "payload_chunk option"
  pt_control :: "(u64 \<times> i64) option"

datatype frame =
    Frame_ConnectionRequest connection_request
  | Frame_ConnectionResponse connection_response
  | Frame_PayloadTransfer payload_transfer
  | Frame_KeepAlive bool u64
  | Frame_Disconnection bool bool
  | Frame_BandwidthUpgrade bytes
  | Frame_Unknown u64

datatype frames_error = Frames_Protobuf pb_error | Frames_Malformed string

section \<open>Encoding\<close>

definition bool_u64 :: "bool \<Rightarrow> u64" where
  "bool_u64 b = (if b then 1 else 0)"

definition offline :: "u64 \<Rightarrow> u32 \<Rightarrow> bytes \<Rightarrow> bytes" where
  "offline frame_type field body =
     (let v1 = write_msg [w_varint V1_TYPE frame_type, w_bytes field body]
      in write_msg [w_varint OF_VERSION OF_VERSION_V1, w_bytes OF_V1 v1])"

definition medium_metadata :: bytes where
  "medium_metadata =
     write_msg [w_varint MM_SUPPORTS_5GHZ 0, w_varint MM_SUPPORTS_6GHZ 0,
       w_varint MM_MOBILE_RADIO 0, w_varint MM_AP_FREQUENCY AP_FREQUENCY_NONE]"

definition connections_device :: "rstring \<Rightarrow> bytes \<Rightarrow> bytes" where
  "connections_device endpoint_id endpoint_info =
     write_msg [w_bytes CD_ENDPOINT_ID endpoint_id, w_varint CD_ENDPOINT_TYPE ENDPOINT_TYPE_CONNECTIONS,
       w_bytes CD_ENDPOINT_INFO endpoint_info]"

definition frames_connection_request :: "connection_request \<Rightarrow> bytes" where
  "frames_connection_request req =
     offline T_CONNECTION_REQUEST V1_CONNECTION_REQUEST
       (write_msg
         ([w_bytes CR_ENDPOINT_ID (cr_endpoint_id req),
           w_bytes CR_ENDPOINT_NAME (cr_endpoint_name req),
           w_bytes CR_HANDSHAKE_DATA (cr_handshake_data req),
           w_varint CR_NONCE (cr_nonce req)] @
          map (\<lambda>m. w_varint CR_MEDIUMS m) (cr_mediums req) @
          [w_bytes CR_ENDPOINT_INFO (cr_endpoint_info req),
           w_bytes CR_MEDIUM_METADATA medium_metadata] @
          (case cr_keep_alive_interval_millis req of None \<Rightarrow> [] | Some v \<Rightarrow> [w_varint CR_KEEPALIVE_INTERVAL v]) @
          (case cr_keep_alive_timeout_millis req of None \<Rightarrow> [] | Some v \<Rightarrow> [w_varint CR_KEEPALIVE_TIMEOUT v]) @
          [w_bytes CR_CONNECTIONS_DEVICE (connections_device (cr_endpoint_id req) (cr_endpoint_info req))]))"

definition frames_connection_response :: "response \<Rightarrow> os_type \<Rightarrow> bytes" where
  "frames_connection_response resp os =
     (let os_info = write_msg [w_varint OS_TYPE (os_type_num os)]
      in offline T_CONNECTION_RESPONSE V1_CONNECTION_RESPONSE
           (write_msg
             [w_varint RSP_STATUS (if resp = Response_Accept then 0 else 1),
              w_varint RSP_RESPONSE (response_num resp),
              w_bytes RSP_OS_INFO os_info,
              w_varint RSP_MULTIPLEX_BITMASK MULTIPLEX_SOCKET_BITMASK_NONE,
              w_varint RSP_SAFE_TO_DISCONNECT SAFE_TO_DISCONNECT_VERSION,
              w_varint RSP_KEEPALIVE_TIMEOUT KEEP_ALIVE_TIMEOUT_MILLIS]))"

definition payload_data :: "payload_header \<Rightarrow> payload_chunk \<Rightarrow> bytes" where
  "payload_data header chunk =
     (let h = write_msg
            ([w_varint PH_ID (ph_id header),
              w_varint PH_TYPE (payload_type_num (ph_payload_type header)),
              w_varint PH_TOTAL_SIZE (ph_total_size header),
              w_varint PH_IS_SENSITIVE (bool_u64 (ph_is_sensitive header))] @
             (if ph_file_name header \<noteq> [] then [w_bytes PH_FILE_NAME (ph_file_name header)] else []) @
             (if ph_parent_folder header \<noteq> [] then [w_bytes PH_PARENT_FOLDER (ph_parent_folder header)] else []));
          c = write_msg
            [w_varint PC_FLAGS (pc_flags chunk), w_varint PC_OFFSET (pc_offset chunk),
             w_bytes PC_BODY (pc_body chunk)]
      in offline T_PAYLOAD_TRANSFER V1_PAYLOAD_TRANSFER
           (write_msg
             [w_varint PT_PACKET_TYPE (packet_type_num Packet_Data),
              w_bytes PT_PAYLOAD_HEADER h, w_bytes PT_PAYLOAD_CHUNK c]))"

definition payload_control :: "payload_header \<Rightarrow> u64 \<Rightarrow> i64 \<Rightarrow> bytes" where
  "payload_control header event offset =
     (let h = write_msg
            [w_varint PH_ID (ph_id header),
             w_varint PH_TYPE (payload_type_num (ph_payload_type header)),
             w_varint PH_TOTAL_SIZE (ph_total_size header)];
          cm = write_msg [w_varint CM_EVENT event, w_varint CM_OFFSET offset]
      in offline T_PAYLOAD_TRANSFER V1_PAYLOAD_TRANSFER
           (write_msg
             [w_varint PT_PACKET_TYPE (packet_type_num Packet_Control),
              w_bytes PT_PAYLOAD_HEADER h, w_bytes PT_CONTROL_MESSAGE cm]))"

definition bandwidth_upgrade :: "bytes \<Rightarrow> bytes" where
  "bandwidth_upgrade body = offline T_BANDWIDTH_UPGRADE V1_BANDWIDTH_UPGRADE body"

definition keep_alive :: "bool \<Rightarrow> u64 \<Rightarrow> bytes" where
  "keep_alive ack seq_num =
     offline T_KEEP_ALIVE V1_KEEP_ALIVE
       (write_msg [w_varint KA_ACK (bool_u64 ack), w_varint KA_SEQ_NUM seq_num])"

definition disconnection :: "bool \<Rightarrow> bool \<Rightarrow> bytes" where
  "disconnection request_safe ack_safe =
     offline T_DISCONNECTION V1_DISCONNECTION
       (write_msg
         ((if request_safe then [w_varint DC_REQUEST_SAFE 1] else []) @
          (if ack_safe then [w_varint DC_ACK_SAFE 1] else [])))"

section \<open>Decoding\<close>

abbreviation (input) fr_bytes :: "bytes \<Rightarrow> u32 \<Rightarrow> frames_error + bytes option" where
  "fr_bytes b n \<equiv> map_err Frames_Protobuf (first_bytes b n)"

abbreviation (input) fr_varint :: "bytes \<Rightarrow> u32 \<Rightarrow> frames_error + u64 option" where
  "fr_varint b n \<equiv> map_err Frames_Protobuf (first_varint b n)"

definition frames_string :: "bytes \<Rightarrow> rstring" where
  "frames_string b = from_utf8_lossy b"

definition parse_connection_request_field ::
    "connection_request \<Rightarrow> pb_field \<Rightarrow> frames_error + connection_request" where
  "parse_connection_request_field out f = Inr
     (case f of
        Bytes n v \<Rightarrow>
          (if n = CR_ENDPOINT_ID then out\<lparr>cr_endpoint_id := frames_string v\<rparr>
           else if n = CR_ENDPOINT_NAME then out\<lparr>cr_endpoint_name := frames_string v\<rparr>
           else if n = CR_ENDPOINT_INFO then out\<lparr>cr_endpoint_info := v\<rparr>
           else if n = CR_HANDSHAKE_DATA then out\<lparr>cr_handshake_data := v\<rparr>
           else out)
      | Varint n v \<Rightarrow>
          (if n = CR_NONCE then out\<lparr>cr_nonce := v\<rparr>
           else if n = CR_MEDIUMS then out\<lparr>cr_mediums := cr_mediums out @ [v]\<rparr>
           else if n = CR_KEEPALIVE_INTERVAL then out\<lparr>cr_keep_alive_interval_millis := Some v\<rparr>
           else if n = CR_KEEPALIVE_TIMEOUT then out\<lparr>cr_keep_alive_timeout_millis := Some v\<rparr>
           else out))"

definition parse_connection_request :: "bytes \<Rightarrow> frames_error + connection_request" where
  "parse_connection_request b =
     for_fields Frames_Protobuf parse_connection_request_field connection_request_default (reader_new b)"

definition parse_connection_response :: "bytes \<Rightarrow> frames_error + connection_response" where
  "parse_connection_response b =
     and_then (fr_varint b RSP_RESPONSE) (\<lambda>rv.
     and_then (case rv of
                 Some v \<Rightarrow> Inr (response_from v)
               | None \<Rightarrow>
                   and_then (fr_varint b RSP_STATUS) (\<lambda>st. Inr
                     (case st of
                        Some s \<Rightarrow> if s = 0 then Response_Accept else Response_Reject
                      | None \<Rightarrow> Response_Unknown))) (\<lambda>resp.
     and_then (fr_bytes b RSP_OS_INFO) (\<lambda>osb.
     and_then (case osb of
                 Some os \<Rightarrow> and_then (fr_varint os OS_TYPE) (\<lambda>v. Inr (os_type_from (unwrap_or 0 v)))
               | None \<Rightarrow> Inr Os_Unknown) (\<lambda>os_type.
     and_then (fr_bytes b RSP_HANDSHAKE_DATA) (\<lambda>hd.
     and_then (fr_varint b RSP_SAFE_TO_DISCONNECT) (\<lambda>sv.
     Inr \<lparr>crsp_response = resp, crsp_os_type = os_type, crsp_handshake_data = unwrap_or [] hd,
          crsp_safe_to_disconnect_version = unwrap_or 0 sv\<rparr>))))))"

definition parse_payload_header :: "bytes \<Rightarrow> frames_error + payload_header" where
  "parse_payload_header h =
     and_then (fr_varint h PH_ID) (\<lambda>i.
     and_then (fr_varint h PH_TYPE) (\<lambda>ty.
     and_then (fr_varint h PH_TOTAL_SIZE) (\<lambda>tot.
     and_then (fr_varint h PH_IS_SENSITIVE) (\<lambda>sens.
     and_then (fr_bytes h PH_FILE_NAME) (\<lambda>name.
     and_then (fr_bytes h PH_PARENT_FOLDER) (\<lambda>folder.
     Inr \<lparr>ph_id = unwrap_or 0 i, ph_payload_type = payload_type_from (unwrap_or 0 ty),
          ph_total_size = unwrap_or 0 tot, ph_is_sensitive = (unwrap_or 0 sens \<noteq> 0),
          ph_file_name = unwrap_or [] (map_option frames_string name),
          ph_parent_folder = unwrap_or [] (map_option frames_string folder)\<rparr>))))))"

definition parse_payload_chunk :: "bytes \<Rightarrow> frames_error + payload_chunk" where
  "parse_payload_chunk c =
     and_then (fr_varint c PC_FLAGS) (\<lambda>fl.
     and_then (fr_varint c PC_OFFSET) (\<lambda>off.
     and_then (fr_bytes c PC_BODY) (\<lambda>body.
     Inr \<lparr>pc_flags = unwrap_or 0 fl, pc_offset = unwrap_or 0 off, pc_body = unwrap_or [] body\<rparr>)))"

definition parse_payload_transfer :: "bytes \<Rightarrow> frames_error + payload_transfer" where
  "parse_payload_transfer b =
     and_then (fr_varint b PT_PACKET_TYPE) (\<lambda>ty.
     and_then (fr_bytes b PT_PAYLOAD_HEADER) (\<lambda>ho.
     and_then (case ho of Some h \<Rightarrow> parse_payload_header h | None \<Rightarrow> Inr payload_header_default) (\<lambda>header.
     and_then (fr_bytes b PT_PAYLOAD_CHUNK) (\<lambda>co.
     and_then (case co of Some c \<Rightarrow> and_then (parse_payload_chunk c) (\<lambda>c. Inr (Some c)) | None \<Rightarrow> Inr None) (\<lambda>chunk.
     and_then (fr_bytes b PT_CONTROL_MESSAGE) (\<lambda>mo.
     and_then (case mo of
                 Some c \<Rightarrow>
                   and_then (fr_varint c CM_EVENT) (\<lambda>ev.
                   and_then (fr_varint c CM_OFFSET) (\<lambda>off. Inr (Some (unwrap_or 0 ev, unwrap_or 0 off))))
               | None \<Rightarrow> Inr None) (\<lambda>control.
     Inr \<lparr>pt_packet_type = packet_type_from (unwrap_or 0 ty), pt_header = header, pt_chunk = chunk,
          pt_control = control\<rparr>)))))))"

text \<open>The match on the frame type at the end of \<open>parse\<close>.\<close>

definition frames_dispatch :: "u64 \<Rightarrow> bytes \<Rightarrow> bytes \<Rightarrow> frames_error + frame" where
  "frames_dispatch ty body v1 =
     (if ty = T_CONNECTION_REQUEST then
        and_then (parse_connection_request body) (\<lambda>r. Inr (Frame_ConnectionRequest r))
      else if ty = T_CONNECTION_RESPONSE then
        and_then (parse_connection_response body) (\<lambda>r. Inr (Frame_ConnectionResponse r))
      else if ty = T_PAYLOAD_TRANSFER then
        and_then (parse_payload_transfer body) (\<lambda>r. Inr (Frame_PayloadTransfer r))
      else if ty = T_KEEP_ALIVE then
        and_then (fr_varint body KA_ACK) (\<lambda>ack.
        and_then (fr_varint body KA_SEQ_NUM) (\<lambda>sq.
        Inr (Frame_KeepAlive (unwrap_or 0 ack \<noteq> 0) (unwrap_or 0 sq))))
      else if ty = T_DISCONNECTION then
        and_then (fr_bytes v1 V1_DISCONNECTION) (\<lambda>bo.
        let b = unwrap_or [] bo in
        and_then (fr_varint b DC_REQUEST_SAFE) (\<lambda>req.
        and_then (fr_varint b DC_ACK_SAFE) (\<lambda>ack.
        Inr (Frame_Disconnection (unwrap_or 0 req \<noteq> 0) (unwrap_or 0 ack \<noteq> 0)))))
      else if ty = T_BANDWIDTH_UPGRADE then Inr (Frame_BandwidthUpgrade body)
      else Inr (Frame_Unknown ty))"

definition frames_v1_field ::
    "u64 option \<times> (u32 \<times> bytes) option \<Rightarrow> pb_field \<Rightarrow> frames_error + u64 option \<times> (u32 \<times> bytes) option" where
  "frames_v1_field acc f =
     (case acc of (ty, body) \<Rightarrow> Inr
       (case f of
          Varint n v \<Rightarrow> if n = V1_TYPE then (Some v, body) else (ty, body)
        | Bytes n b \<Rightarrow> (ty, Some (n, b))))"

definition frames_parse :: "bytes \<Rightarrow> frames_error + frame" where
  "frames_parse bs =
     and_then (fr_bytes bs OF_V1) (\<lambda>o1.
     and_then (ok_or (Frames_Malformed ''no v1 frame'') o1) (\<lambda>v1.
     and_then (for_fields Frames_Protobuf frames_v1_field (None, None) (reader_new v1)) (\<lambda>(ty, body).
     and_then (ok_or (Frames_Malformed ''no frame type'') ty) (\<lambda>ty.
     frames_dispatch ty (unwrap_or [] (map_option snd body)) v1))))"

definition upgrade_body :: "bytes \<Rightarrow> bytes option" where
  "upgrade_body bs =
     (case frames_parse bs of
        Inr (Frame_BandwidthUpgrade b) \<Rightarrow> Some b
      | _ \<Rightarrow> None)"

section \<open>Round trips\<close>

lemma enum_roundtrips [simp]:
  "response_from (response_num a) = a"
  "os_type_from (os_type_num b) = b"
  "payload_type_from (payload_type_num c) = c"
  "packet_type_from (packet_type_num d) = d"
  by (cases a, simp_all add: response_from_def, cases b, simp_all add: os_type_from_def,
      cases c, simp_all add: payload_type_from_def, cases d, simp_all add: packet_type_from_def)

lemma bool_u64_neq [simp]: "bool_u64 b \<noteq> 0 \<longleftrightarrow> b" "bool_u64 b = 0 \<longleftrightarrow> \<not> b"
  by (simp_all add: bool_u64_def)

text \<open>The envelope: what \<open>offline\<close> wraps is what the dispatch receives.\<close>

lemma writes_v1: "writes [w_varint V1_TYPE ty, w_bytes n body] [Varint V1_TYPE ty, Bytes n body]"
  by (intro wire_simps)

lemma writes_offline:
  "writes [w_varint OF_VERSION OF_VERSION_V1, w_bytes OF_V1 v1] [Varint OF_VERSION OF_VERSION_V1, Bytes OF_V1 v1]"
  by (intro wire_simps)

lemma fits_offline:
  assumes "fits (offline ty n body)"
  shows "fits (write_msg [w_varint V1_TYPE ty, w_bytes n body])" "fits body"
proof -
  let ?v1 = "write_msg [w_varint V1_TYPE ty, w_bytes n body]"
  show v1: "fits ?v1"
    using fits_msg [OF writes_offline [of ?v1]] assms by (simp add: offline_def)
  show "fits body"
    using fits_msg [OF writes_v1 v1] by simp
qed

lemma frames_parse_offline:
  assumes "fits (offline ty n body)"
  shows "frames_parse (offline ty n body) =
    frames_dispatch ty body (write_msg [w_varint V1_TYPE ty, w_bytes n body])"
proof -
  let ?v1 = "write_msg [w_varint V1_TYPE ty, w_bytes n body]"
  note v1 = read_msg [OF writes_v1 fits_offline(1) [OF assms]]
  have "pb_fields (offline ty n body) = Inr [Varint OF_VERSION OF_VERSION_V1, Bytes OF_V1 ?v1]"
    using read_msg [OF writes_offline [of ?v1]] assms by (simp add: offline_def)
  with v1 show ?thesis
    by (simp add: frames_parse_def read_simps frames_v1_field_def)
qed

lemma frames_dispatch_simps:
  "frames_dispatch T_CONNECTION_REQUEST b v1 =
     and_then (parse_connection_request b) (\<lambda>r. Inr (Frame_ConnectionRequest r))"
  "frames_dispatch T_CONNECTION_RESPONSE b v1 =
     and_then (parse_connection_response b) (\<lambda>r. Inr (Frame_ConnectionResponse r))"
  "frames_dispatch T_PAYLOAD_TRANSFER b v1 =
     and_then (parse_payload_transfer b) (\<lambda>r. Inr (Frame_PayloadTransfer r))"
  by (simp_all add: frames_dispatch_def)

lemma keep_alive_roundtrip:
  "fits (keep_alive ack sq) \<Longrightarrow> frames_parse (keep_alive ack sq) = Inr (Frame_KeepAlive ack sq)"
proof -
  let ?ops = "[w_varint KA_ACK (bool_u64 ack), w_varint KA_SEQ_NUM sq]"
  assume f: "fits (keep_alive ack sq)"
  have "writes ?ops [Varint KA_ACK (bool_u64 ack), Varint KA_SEQ_NUM sq]"
    by (intro wire_simps)
  from read_msg [OF this fits_offline(2)] f
  have "pb_fields (write_msg ?ops) = Inr [Varint KA_ACK (bool_u64 ack), Varint KA_SEQ_NUM sq]"
    by (simp add: keep_alive_def)
  with frames_parse_offline f show ?thesis
    by (simp add: keep_alive_def frames_dispatch_def read_simps)
qed

lemma disconnection_roundtrip:
  assumes "fits (disconnection rq ack)"
  shows "frames_parse (disconnection rq ack) = Inr (Frame_Disconnection rq ack)"
proof -
  let ?ops = "(if rq then [w_varint DC_REQUEST_SAFE 1] else []) @ (if ack then [w_varint DC_ACK_SAFE 1] else [])"
  let ?fs = "(if rq then [Varint DC_REQUEST_SAFE 1] else []) @ (if ack then [Varint DC_ACK_SAFE 1] else [])"
  note f = assms [unfolded disconnection_def]
  have "writes ?ops ?fs"
    by (intro wire_simps)
  then have "pb_fields (write_msg ?ops) = Inr ?fs"
    by (rule read_msg [OF _ fits_offline(2) [OF f]])
  moreover note read_msg [OF writes_v1 fits_offline(1) [OF f]]
  ultimately show ?thesis
    using frames_parse_offline [OF f] by (simp add: disconnection_def frames_dispatch_def read_simps)
qed

lemma bandwidth_upgrade_roundtrip:
  "fits (bandwidth_upgrade body) \<Longrightarrow> frames_parse (bandwidth_upgrade body) = Inr (Frame_BandwidthUpgrade body)"
  by (simp add: bandwidth_upgrade_def frames_parse_offline frames_dispatch_def)

lemma connection_response_roundtrip:
  assumes "fits (frames_connection_response resp os)"
  shows "frames_parse (frames_connection_response resp os) =
    Inr (Frame_ConnectionResponse
      \<lparr>crsp_response = resp, crsp_os_type = os, crsp_handshake_data = [],
       crsp_safe_to_disconnect_version = SAFE_TO_DISCONNECT_VERSION\<rparr>)"
proof -
  let ?os = "write_msg [w_varint OS_TYPE (os_type_num os)]"
  let ?fs = "[Varint RSP_STATUS (if resp = Response_Accept then 0 else 1),
      Varint RSP_RESPONSE (response_num resp), Bytes RSP_OS_INFO ?os,
      Varint RSP_MULTIPLEX_BITMASK MULTIPLEX_SOCKET_BITMASK_NONE,
      Varint RSP_SAFE_TO_DISCONNECT SAFE_TO_DISCONNECT_VERSION,
      Varint RSP_KEEPALIVE_TIMEOUT KEEP_ALIVE_TIMEOUT_MILLIS]"
  note f = assms [unfolded frames_connection_response_def Let_def]
  have w: "writes [w_varint RSP_STATUS (if resp = Response_Accept then 0 else 1),
      w_varint RSP_RESPONSE (response_num resp), w_bytes RSP_OS_INFO ?os,
      w_varint RSP_MULTIPLEX_BITMASK MULTIPLEX_SOCKET_BITMASK_NONE,
      w_varint RSP_SAFE_TO_DISCONNECT SAFE_TO_DISCONNECT_VERSION,
      w_varint RSP_KEEPALIVE_TIMEOUT KEEP_ALIVE_TIMEOUT_MILLIS] ?fs"
    by (intro wire_simps)
  have wos: "writes [w_varint OS_TYPE (os_type_num os)] [Varint OS_TYPE (os_type_num os)]"
    by (intro wire_simps)
  note body = read_msg [OF w fits_offline(2) [OF f]]
  have "fits ?os"
    by (rule fits_msg [OF w fits_offline(2) [OF f]]) simp
  note read_msg [OF wos this]
  with body frames_parse_offline [OF f] show ?thesis
    by (simp add: frames_connection_response_def Let_def frames_dispatch_def
        parse_connection_response_def read_simps)
qed

text \<open>A Rust \<open>String\<close> is valid UTF-8: the invariant of the string fields of a message.\<close>

definition header_ok :: "payload_header \<Rightarrow> bool" where
  "header_ok h \<longleftrightarrow> utf8_valid (ph_file_name h) \<and> utf8_valid (ph_parent_folder h)"

definition request_ok :: "connection_request \<Rightarrow> bool" where
  "request_ok r \<longleftrightarrow> utf8_valid (cr_endpoint_id r) \<and> utf8_valid (cr_endpoint_name r)"

lemma parse_mediums:
  "fold_res parse_connection_request_field out (map (\<lambda>m. Varint CR_MEDIUMS m) ms) =
     Inr (out\<lparr>cr_mediums := cr_mediums out @ ms\<rparr>)"
  by (induction ms arbitrary: out) (simp_all add: parse_connection_request_field_def)

lemma connection_request_roundtrip:
  assumes "fits (frames_connection_request req)" "request_ok req"
  shows "frames_parse (frames_connection_request req) = Inr (Frame_ConnectionRequest req)"
proof -
  let ?ops = "[w_bytes CR_ENDPOINT_ID (cr_endpoint_id req),
           w_bytes CR_ENDPOINT_NAME (cr_endpoint_name req),
           w_bytes CR_HANDSHAKE_DATA (cr_handshake_data req),
           w_varint CR_NONCE (cr_nonce req)] @
          map (\<lambda>m. w_varint CR_MEDIUMS m) (cr_mediums req) @
          [w_bytes CR_ENDPOINT_INFO (cr_endpoint_info req),
           w_bytes CR_MEDIUM_METADATA medium_metadata] @
          (case cr_keep_alive_interval_millis req of None \<Rightarrow> [] | Some v \<Rightarrow> [w_varint CR_KEEPALIVE_INTERVAL v]) @
          (case cr_keep_alive_timeout_millis req of None \<Rightarrow> [] | Some v \<Rightarrow> [w_varint CR_KEEPALIVE_TIMEOUT v]) @
          [w_bytes CR_CONNECTIONS_DEVICE (connections_device (cr_endpoint_id req) (cr_endpoint_info req))]"
  let ?fs = "[Bytes CR_ENDPOINT_ID (cr_endpoint_id req),
           Bytes CR_ENDPOINT_NAME (cr_endpoint_name req),
           Bytes CR_HANDSHAKE_DATA (cr_handshake_data req),
           Varint CR_NONCE (cr_nonce req)] @
          map (\<lambda>m. Varint CR_MEDIUMS m) (cr_mediums req) @
          [Bytes CR_ENDPOINT_INFO (cr_endpoint_info req),
           Bytes CR_MEDIUM_METADATA medium_metadata] @
          (case cr_keep_alive_interval_millis req of None \<Rightarrow> [] | Some v \<Rightarrow> [Varint CR_KEEPALIVE_INTERVAL v]) @
          (case cr_keep_alive_timeout_millis req of None \<Rightarrow> [] | Some v \<Rightarrow> [Varint CR_KEEPALIVE_TIMEOUT v]) @
          [Bytes CR_CONNECTIONS_DEVICE (connections_device (cr_endpoint_id req) (cr_endpoint_info req))]"
  note f = assms(1) [unfolded frames_connection_request_def]
  have "writes ?ops ?fs"
    by (intro wire_simps)
  note body = read_msg [OF this fits_offline(2) [OF f]]
  have "fold_res parse_connection_request_field connection_request_default ?fs = Inr req"
    using assms(2)
    by (cases "cr_keep_alive_interval_millis req"; cases "cr_keep_alive_timeout_millis req")
      (simp_all add: fold_res_append parse_mediums, simp_all add: parse_connection_request_field_def
        connection_request_default_def frames_string_def request_ok_def)
  with body frames_parse_offline [OF f] show ?thesis
    by (simp add: frames_connection_request_def frames_dispatch_def parse_connection_request_def read_simps)
qed

lemma parse_payload_header_fields:
  assumes "pb_fields b = Inr ([Varint PH_ID (ph_id h), Varint PH_TYPE (payload_type_num (ph_payload_type h)),
      Varint PH_TOTAL_SIZE (ph_total_size h), Varint PH_IS_SENSITIVE (bool_u64 (ph_is_sensitive h))] @
     (if ph_file_name h \<noteq> [] then [Bytes PH_FILE_NAME (ph_file_name h)] else []) @
     (if ph_parent_folder h \<noteq> [] then [Bytes PH_PARENT_FOLDER (ph_parent_folder h)] else []))"
    and "header_ok h"
  shows "parse_payload_header b = Inr h"
  using assms(2)
  by (cases "ph_file_name h = []"; cases "ph_parent_folder h = []")
    (simp_all add: parse_payload_header_def first_fields [OF assms(1)] frames_string_def header_ok_def)

lemma parse_payload_data_fields:
  assumes b: "pb_fields b = Inr [Varint PT_PACKET_TYPE (packet_type_num Packet_Data),
      Bytes PT_PAYLOAD_HEADER hb, Bytes PT_PAYLOAD_CHUNK cb]"
    and "parse_payload_header hb = Inr h"
    and c: "pb_fields cb = Inr [Varint PC_FLAGS (pc_flags c), Varint PC_OFFSET (pc_offset c), Bytes PC_BODY (pc_body c)]"
  shows "parse_payload_transfer b =
    Inr \<lparr>pt_packet_type = Packet_Data, pt_header = h, pt_chunk = Some c, pt_control = None\<rparr>"
  using assms(2)
  by (simp add: parse_payload_transfer_def parse_payload_chunk_def first_fields [OF b] first_fields [OF c]
      packet_type_from_def)

lemma payload_data_roundtrip:
  assumes "fits (payload_data h c)" "header_ok h"
  shows "frames_parse (payload_data h c) =
    Inr (Frame_PayloadTransfer
      \<lparr>pt_packet_type = Packet_Data, pt_header = h, pt_chunk = Some c, pt_control = None\<rparr>)"
proof -
  let ?hops = "[w_varint PH_ID (ph_id h), w_varint PH_TYPE (payload_type_num (ph_payload_type h)),
      w_varint PH_TOTAL_SIZE (ph_total_size h), w_varint PH_IS_SENSITIVE (bool_u64 (ph_is_sensitive h))] @
     (if ph_file_name h \<noteq> [] then [w_bytes PH_FILE_NAME (ph_file_name h)] else []) @
     (if ph_parent_folder h \<noteq> [] then [w_bytes PH_PARENT_FOLDER (ph_parent_folder h)] else [])"
  let ?cops = "[w_varint PC_FLAGS (pc_flags c), w_varint PC_OFFSET (pc_offset c), w_bytes PC_BODY (pc_body c)]"
  note f = assms(1) [unfolded payload_data_def Let_def]
  have w: "writes [w_varint PT_PACKET_TYPE (packet_type_num Packet_Data),
      w_bytes PT_PAYLOAD_HEADER (write_msg ?hops), w_bytes PT_PAYLOAD_CHUNK (write_msg ?cops)]
      [Varint PT_PACKET_TYPE (packet_type_num Packet_Data),
      Bytes PT_PAYLOAD_HEADER (write_msg ?hops), Bytes PT_PAYLOAD_CHUNK (write_msg ?cops)]"
    and wh: "writes ?hops ([Varint PH_ID (ph_id h), Varint PH_TYPE (payload_type_num (ph_payload_type h)),
      Varint PH_TOTAL_SIZE (ph_total_size h), Varint PH_IS_SENSITIVE (bool_u64 (ph_is_sensitive h))] @
     (if ph_file_name h \<noteq> [] then [Bytes PH_FILE_NAME (ph_file_name h)] else []) @
     (if ph_parent_folder h \<noteq> [] then [Bytes PH_PARENT_FOLDER (ph_parent_folder h)] else []))"
    and wc: "writes ?cops [Varint PC_FLAGS (pc_flags c), Varint PC_OFFSET (pc_offset c), Bytes PC_BODY (pc_body c)]"
    by (intro wire_simps)+
  note body = read_msg [OF w fits_offline(2) [OF f]]
  have "fits (write_msg ?hops)" "fits (write_msg ?cops)"
    using fits_msg_all [OF w fits_offline(2) [OF f]] by (simp_all only: list.pred_inject pb_field.case)
  note h = parse_payload_header_fields [OF read_msg [OF wh this(1)] assms(2)]
    and c = read_msg [OF wc this(2)]
  show ?thesis
    by (simp only: payload_data_def Let_def frames_parse_offline [OF f] frames_dispatch_simps
        parse_payload_data_fields [OF body h c] and_then.simps)
qed

lemma parse_payload_control_fields:
  assumes b: "pb_fields b = Inr [Varint PT_PACKET_TYPE (packet_type_num Packet_Control),
      Bytes PT_PAYLOAD_HEADER hb, Bytes PT_CONTROL_MESSAGE mb]"
    and h: "pb_fields hb = Inr [Varint PH_ID (ph_id h), Varint PH_TYPE (payload_type_num (ph_payload_type h)),
      Varint PH_TOTAL_SIZE (ph_total_size h)]"
    and m: "pb_fields mb = Inr [Varint CM_EVENT ev, Varint CM_OFFSET off]"
  shows "parse_payload_transfer b =
    Inr \<lparr>pt_packet_type = Packet_Control,
       pt_header = h\<lparr>ph_is_sensitive := False, ph_file_name := [], ph_parent_folder := []\<rparr>,
       pt_chunk = None, pt_control = Some (ev, off)\<rparr>"
  by (simp add: parse_payload_transfer_def parse_payload_header_def first_fields [OF b]
      first_fields [OF h] first_fields [OF m] packet_type_from_def)

lemma payload_control_roundtrip:
  assumes "fits (payload_control h ev off)"
  shows "frames_parse (payload_control h ev off) =
    Inr (Frame_PayloadTransfer
      \<lparr>pt_packet_type = Packet_Control,
       pt_header = h\<lparr>ph_is_sensitive := False, ph_file_name := [], ph_parent_folder := []\<rparr>,
       pt_chunk = None, pt_control = Some (ev, off)\<rparr>)"
proof -
  let ?hops = "[w_varint PH_ID (ph_id h), w_varint PH_TYPE (payload_type_num (ph_payload_type h)),
      w_varint PH_TOTAL_SIZE (ph_total_size h)]"
  let ?mops = "[w_varint CM_EVENT ev, w_varint CM_OFFSET off]"
  note f = assms [unfolded payload_control_def Let_def]
  have w: "writes [w_varint PT_PACKET_TYPE (packet_type_num Packet_Control),
      w_bytes PT_PAYLOAD_HEADER (write_msg ?hops), w_bytes PT_CONTROL_MESSAGE (write_msg ?mops)]
      [Varint PT_PACKET_TYPE (packet_type_num Packet_Control),
      Bytes PT_PAYLOAD_HEADER (write_msg ?hops), Bytes PT_CONTROL_MESSAGE (write_msg ?mops)]"
    and wh: "writes ?hops [Varint PH_ID (ph_id h), Varint PH_TYPE (payload_type_num (ph_payload_type h)),
      Varint PH_TOTAL_SIZE (ph_total_size h)]"
    and wm: "writes ?mops [Varint CM_EVENT ev, Varint CM_OFFSET off]"
    by (intro wire_simps)+
  note body = read_msg [OF w fits_offline(2) [OF f]]
  have "fits (write_msg ?hops)" "fits (write_msg ?mops)"
    using fits_msg_all [OF w fits_offline(2) [OF f]] by (simp_all only: list.pred_inject pb_field.case)
  note h = read_msg [OF wh this(1)] and m = read_msg [OF wm this(2)]
  show ?thesis
    by (simp only: payload_control_def Let_def frames_parse_offline [OF f] frames_dispatch_simps
        parse_payload_control_fields [OF body h m] and_then.simps)
qed

section \<open>Every frame this side sends\<close>

datatype outgoing =
    Out_Request connection_request
  | Out_Response response os_type
  | Out_Data payload_header payload_chunk
  | Out_Control payload_header u64 i64
  | Out_KeepAlive bool u64
  | Out_Disconnection bool bool
  | Out_Upgrade bytes

fun outgoing_bytes :: "outgoing \<Rightarrow> bytes" where
  "outgoing_bytes (Out_Request r) = frames_connection_request r"
| "outgoing_bytes (Out_Response r os) = frames_connection_response r os"
| "outgoing_bytes (Out_Data h c) = payload_data h c"
| "outgoing_bytes (Out_Control h ev off) = payload_control h ev off"
| "outgoing_bytes (Out_KeepAlive ack sq) = keep_alive ack sq"
| "outgoing_bytes (Out_Disconnection rq ack) = disconnection rq ack"
| "outgoing_bytes (Out_Upgrade b) = bandwidth_upgrade b"

text \<open>
  What the peer's parser sees. A control frame's header carries the id, type and size only; a
  response carries the fixed safe-to-disconnect version and no handshake data.
\<close>

fun outgoing_frame :: "outgoing \<Rightarrow> frame" where
  "outgoing_frame (Out_Request r) = Frame_ConnectionRequest r"
| "outgoing_frame (Out_Response r os) = Frame_ConnectionResponse
     \<lparr>crsp_response = r, crsp_os_type = os, crsp_handshake_data = [],
      crsp_safe_to_disconnect_version = SAFE_TO_DISCONNECT_VERSION\<rparr>"
| "outgoing_frame (Out_Data h c) = Frame_PayloadTransfer
     \<lparr>pt_packet_type = Packet_Data, pt_header = h, pt_chunk = Some c, pt_control = None\<rparr>"
| "outgoing_frame (Out_Control h ev off) = Frame_PayloadTransfer
     \<lparr>pt_packet_type = Packet_Control,
      pt_header = h\<lparr>ph_is_sensitive := False, ph_file_name := [], ph_parent_folder := []\<rparr>,
      pt_chunk = None, pt_control = Some (ev, off)\<rparr>"
| "outgoing_frame (Out_KeepAlive ack sq) = Frame_KeepAlive ack sq"
| "outgoing_frame (Out_Disconnection rq ack) = Frame_Disconnection rq ack"
| "outgoing_frame (Out_Upgrade b) = Frame_BandwidthUpgrade b"

fun outgoing_ok :: "outgoing \<Rightarrow> bool" where
  "outgoing_ok (Out_Request r) = request_ok r"
| "outgoing_ok (Out_Data h c) = header_ok h"
| "outgoing_ok _ = True"

interpretation frames_codec: message_codec outgoing_bytes frames_parse outgoing_frame outgoing_ok
proof
  fix m assume "outgoing_ok m" "fits (outgoing_bytes m)"
  then show "frames_parse (outgoing_bytes m) = Inr (outgoing_frame m)"
    by (cases m) (simp_all add: connection_request_roundtrip connection_response_roundtrip payload_data_roundtrip
        payload_control_roundtrip keep_alive_roundtrip disconnection_roundtrip bandwidth_upgrade_roundtrip)
qed

section \<open>Properties\<close>

text \<open>
  Every offline frame this side can send (connection request and response, payload data and
  control, keep-alive, disconnection, bandwidth upgrade) is parsed by the peer to exactly what was
  sent, over the length-prefixed stream and however the stream is split into reads.
\<close>

theorem frames_over_stream:
  assumes "concat cs = concat (map (\<lambda>m. framing_encode (outgoing_bytes m)) ms)"
    and "\<forall>m \<in> set ms. outgoing_ok m \<and> length (outgoing_bytes m) < MAX_FRAME"
  shows "map frames_parse (fst (feed decoder_new cs)) = map (\<lambda>m. Inr (outgoing_frame m)) ms"
  using assms by (rule frames_codec.stream_dec)

definition sample_outgoing :: "outgoing list" where
  "sample_outgoing =
     [Out_KeepAlive True 5,
      Out_Data (payload_header_default\<lparr>ph_id := 7, ph_payload_type := Payload_Bytes\<rparr>)
        \<lparr>pc_flags = 1, pc_offset = 0, pc_body = [1, 2, 3]\<rparr>,
      Out_Disconnection True False]"

theorem frames_over_stream_witness:
  "map frames_parse (fst (feed decoder_new [concat (map (\<lambda>m. framing_encode (outgoing_bytes m)) sample_outgoing)])) =
     map (\<lambda>m. Inr (outgoing_frame m)) sample_outgoing"
proof (rule frames_over_stream)
  have "list_all (\<lambda>m. length (outgoing_bytes m) < MAX_FRAME) sample_outgoing"
    by (simp add: sample_outgoing_def payload_header_default_def write_eval keep_alive_def disconnection_def
        payload_data_def offline_def bool_u64_def)
  then show "\<forall>m \<in> set sample_outgoing. outgoing_ok m \<and> length (outgoing_bytes m) < MAX_FRAME"
    by (simp add: sample_outgoing_def header_ok_def payload_header_default_def)
qed simp

end
