(* ===== verification/Payload.thy ===== *)
theory Payload
  imports Frames Machines
begin

text \<open>
  Payload reassembly, \<^verbatim>\<open>protocol/src/payload.rs\<close>: the \<open>Assembler\<close> that tracks every payload in flight
  by id. It buffers BYTES payloads and streams FILE chunks, and refuses a chunk that does not start
  exactly where the last one ended, that overruns its declared size, that would buffer too much, or
  that would open too many payloads.
\<close>

section \<open>Model\<close>

abbreviation MAX_BYTES_PAYLOAD :: nat where "MAX_BYTES_PAYLOAD \<equiv> 1048576"
abbreviation MAX_IN_FLIGHT :: nat where "MAX_IN_FLIGHT \<equiv> 32"

datatype payload_event =
    Event_Bytes i64 bytes
  | Event_FileChunk i64 i64 bytes bool payload_header
  | Event_Cancelled i64
  | Event_Failed i64
  | Event_Pending

datatype payload_error =
    Error_Offset i64 i64 i64
  | Error_Overrun i64 i64
  | Error_TooLarge i64 nat
  | Error_Negative i64
  | Error_TooManyInFlight i64 nat

record in_flight =
  fl_header :: payload_header
  fl_received :: i64
  fl_buffer :: bytes

record assembler =
  asm_in_flight :: "(i64, in_flight) hashmap"

definition assembler_new :: assembler where
  "assembler_new = \<lparr>asm_in_flight = hm_empty\<rparr>"

definition asm_remove :: "i64 \<Rightarrow> assembler \<Rightarrow> assembler" where
  "asm_remove i a = a\<lparr>asm_in_flight := hm_remove i (asm_in_flight a)\<rparr>"

definition asm_put :: "i64 \<Rightarrow> in_flight \<Rightarrow> assembler \<Rightarrow> assembler" where
  "asm_put i e a = a\<lparr>asm_in_flight := hm_insert i e (asm_in_flight a)\<rparr>"

text \<open>The \<open>entry(id).or_insert_with(..)\<close> of \<open>accept\<close>.\<close>

definition entry_or_insert :: "payload_header \<Rightarrow> assembler \<Rightarrow> in_flight \<times> assembler" where
  "entry_or_insert h a =
     (case hm_get (asm_in_flight a) (ph_id h) of
        Some e \<Rightarrow> (e, a)
      | None \<Rightarrow>
          let e = \<lparr>fl_header = h, fl_received = 0, fl_buffer = []\<rparr> in (e, asm_put (ph_id h) e a))"

text \<open>The part of \<open>accept\<close> after the guards on a data chunk, from the entry on.\<close>

definition accept_chunk ::
    "payload_header \<Rightarrow> payload_chunk \<Rightarrow> assembler \<Rightarrow> (payload_error + payload_event) \<times> assembler" where
  "accept_chunk h chunk a0 =
     (let i = ph_id h; (entry, a) = entry_or_insert h a0 in
      if pc_offset chunk \<noteq> fl_received entry then
        (Inl (Error_Offset i (fl_received entry) (pc_offset chunk)), asm_remove i a)
      else
        let len = word_of_nat (length (pc_body chunk)) :: i64;
            total = saturating_add_i64 (fl_received entry) len;
            declared = ph_total_size (fl_header entry) in
        if 0 < sint declared \<and> sint declared < sint total then
          (Inl (Error_Overrun i declared), asm_remove i a)
        else
          let is_bytes = (ph_payload_type (fl_header entry) = Payload_Bytes) in
          if is_bytes \<and> MAX_BYTES_PAYLOAD < unat total then
            (Inl (Error_TooLarge i MAX_BYTES_PAYLOAD), asm_remove i a)
          else if is_bytes then
            let entry' = entry\<lparr>fl_received := total, fl_buffer := fl_buffer entry @ pc_body chunk\<rparr> in
            if is_last chunk then (Inr (Event_Bytes i (fl_buffer entry')), asm_remove i a)
            else (Inr Event_Pending, asm_put i entry' a)
          else
            let entry' = entry\<lparr>fl_received := total\<rparr> in
            (Inr (Event_FileChunk i (pc_offset chunk) (pc_body chunk) (is_last chunk) (fl_header entry)),
             if is_last chunk then asm_remove i a else asm_put i entry' a))"

definition accept :: "payload_transfer \<Rightarrow> assembler \<Rightarrow> (payload_error + payload_event) \<times> assembler" where
  "accept pt a =
     (let i = ph_id (pt_header pt) in
      case pt_packet_type pt of
        Packet_Control \<Rightarrow>
          (let event = unwrap_or 0 (map_option fst (pt_control pt))
           in (Inr (if event = 2 then Event_Cancelled i else Event_Failed i), asm_remove i a))
      | Packet_Data \<Rightarrow>
          (case pt_chunk pt of
             None \<Rightarrow> (Inr Event_Pending, a)
           | Some chunk \<Rightarrow>
               if sint (pc_offset chunk) < 0 \<or> sint (ph_total_size (pt_header pt)) < 0 then
                 (Inl (Error_Negative i), a)
               else if hm_get (asm_in_flight a) i = None \<and> MAX_IN_FLIGHT \<le> hm_len (asm_in_flight a) then
                 (Inl (Error_TooManyInFlight i MAX_IN_FLIGHT), a)
               else accept_chunk (pt_header pt) chunk a)
      | _ \<Rightarrow> (Inr Event_Pending, a))"

definition asm_cancel :: "i64 \<Rightarrow> assembler \<Rightarrow> assembler" where
  "asm_cancel i a = asm_remove i a"

definition asm_received :: "i64 \<Rightarrow> assembler \<Rightarrow> i64" where
  "asm_received i a = unwrap_or 0 (map_option fl_received (hm_get (asm_in_flight a) i))"

definition asm_count :: "assembler \<Rightarrow> nat" where
  "asm_count a = hm_len (asm_in_flight a)"

section \<open>The map operations seen through a lookup\<close>

definition asm_get :: "assembler \<Rightarrow> i64 \<Rightarrow> in_flight option" where
  "asm_get a = hm_get (asm_in_flight a)"

definition asm_wf :: "assembler \<Rightarrow> bool" where
  "asm_wf a \<longleftrightarrow> hm_wf (asm_in_flight a)"

lemma asm_get_put [simp]: "asm_get (asm_put i e a) = (asm_get a)(i \<mapsto> e)"
  by (simp add: asm_get_def asm_put_def hm.get_insert)

lemma asm_get_remove [simp]: "asm_wf a \<Longrightarrow> asm_get (asm_remove i a) = (asm_get a)(i := None)"
  by (simp add: asm_get_def asm_remove_def asm_wf_def hm.get_remove)

lemma asm_wf_ops [simp]:
  "asm_wf a \<Longrightarrow> asm_wf (asm_put i e a)" "asm_wf a \<Longrightarrow> asm_wf (asm_remove i a)" "asm_wf assembler_new"
  by (simp_all add: asm_wf_def asm_put_def asm_remove_def assembler_new_def hm.wf_insert hm.wf_remove
      hm.wf_emp)

lemma asm_count_ops:
  "asm_wf a \<Longrightarrow> asm_count (asm_put i e a) = (if asm_get a i = None then Suc (asm_count a) else asm_count a)"
  "asm_wf a \<Longrightarrow> asm_count (asm_remove i a) \<le> asm_count a"
  by (simp_all add: asm_count_def asm_wf_def asm_put_def asm_remove_def asm_get_def hm.len_insert
      hm.len_remove_le)

definition fresh_entry :: "payload_header \<Rightarrow> in_flight" where
  "fresh_entry h = \<lparr>fl_header = h, fl_received = 0, fl_buffer = []\<rparr>"

text \<open>The entry a data chunk is checked against.\<close>

definition entry_for :: "payload_header \<Rightarrow> assembler \<Rightarrow> in_flight" where
  "entry_for h a = unwrap_or (fresh_entry h) (asm_get a (ph_id h))"

lemma entry_or_insert_eq:
  "entry_or_insert h a =
     (entry_for h a, if asm_get a (ph_id h) = None then asm_put (ph_id h) (fresh_entry h) a else a)"
  by (auto simp: entry_or_insert_def entry_for_def fresh_entry_def asm_get_def Let_def split: option.splits)

section \<open>Specification: one automaton per payload id\<close>

text \<open>
  What the assembler promises of a single payload, without the map: the verdict on a chunk and the
  entry kept afterwards (\<open>None\<close> when the payload is released). The assembler refines the family of
  these automata: a frame moves the automaton of its own id and no other.
\<close>

definition chunk_step ::
    "i64 \<Rightarrow> in_flight \<Rightarrow> payload_chunk \<Rightarrow> (payload_error + payload_event) \<times> in_flight option" where
  "chunk_step i e c =
     (let total = saturating_add_i64 (fl_received e) (word_of_nat (length (pc_body c)));
          declared = ph_total_size (fl_header e);
          is_bytes = (ph_payload_type (fl_header e) = Payload_Bytes) in
      if pc_offset c \<noteq> fl_received e then (Inl (Error_Offset i (fl_received e) (pc_offset c)), None)
      else if 0 < sint declared \<and> sint declared < sint total then (Inl (Error_Overrun i declared), None)
      else if is_bytes \<and> MAX_BYTES_PAYLOAD < unat total then (Inl (Error_TooLarge i MAX_BYTES_PAYLOAD), None)
      else if is_bytes then
        (if is_last c then (Inr (Event_Bytes i (fl_buffer e @ pc_body c)), None)
         else (Inr Event_Pending, Some (e\<lparr>fl_received := total, fl_buffer := fl_buffer e @ pc_body c\<rparr>)))
      else
        (Inr (Event_FileChunk i (pc_offset c) (pc_body c) (is_last c) (fl_header e)),
         if is_last c then None else Some (e\<lparr>fl_received := total\<rparr>)))"

definition payload_step ::
    "payload_transfer \<Rightarrow> bool \<Rightarrow> in_flight option \<Rightarrow> (payload_error + payload_event) \<times> in_flight option" where
  "payload_step pt full eo =
     (let i = ph_id (pt_header pt) in
      case pt_packet_type pt of
        Packet_Control \<Rightarrow>
          (Inr (if unwrap_or 0 (map_option fst (pt_control pt)) = 2 then Event_Cancelled i else Event_Failed i), None)
      | Packet_Data \<Rightarrow>
          (case pt_chunk pt of
             None \<Rightarrow> (Inr Event_Pending, eo)
           | Some c \<Rightarrow>
               if sint (pc_offset c) < 0 \<or> sint (ph_total_size (pt_header pt)) < 0 then (Inl (Error_Negative i), eo)
               else if eo = None \<and> full then (Inl (Error_TooManyInFlight i MAX_IN_FLIGHT), eo)
               else chunk_step i (unwrap_or (fresh_entry (pt_header pt)) eo) c)
      | _ \<Rightarrow> (Inr Event_Pending, eo))"

lemma accept_chunk_refines:
  assumes "asm_wf a" "accept_chunk h c a = (res, a')"
  shows "asm_wf a'" "chunk_step (ph_id h) (entry_for h a) c = (res, asm_get a' (ph_id h))"
    "j \<noteq> ph_id h \<Longrightarrow> asm_get a' j = asm_get a j"
  using assms
  by (auto simp: accept_chunk_def chunk_step_def entry_or_insert_eq Let_def split: if_splits)

lemma accept_refines:
  assumes "asm_wf a" "accept pt a = (res, a')"
  shows "asm_wf a'"
    "payload_step pt (MAX_IN_FLIGHT \<le> asm_count a) (asm_get a (ph_id (pt_header pt))) =
       (res, asm_get a' (ph_id (pt_header pt)))"
    "j \<noteq> ph_id (pt_header pt) \<Longrightarrow> asm_get a' j = asm_get a j"
proof -
  have *: "asm_wf a' \<and>
    payload_step pt (MAX_IN_FLIGHT \<le> asm_count a) (asm_get a (ph_id (pt_header pt))) =
       (res, asm_get a' (ph_id (pt_header pt))) \<and>
    (\<forall>j. j \<noteq> ph_id (pt_header pt) \<longrightarrow> asm_get a' j = asm_get a j)"
    using assms accept_chunk_refines [OF assms(1), of "pt_header pt" _ res a']
    by (auto simp: accept_def payload_step_def Let_def asm_get_def [symmetric] asm_count_def
        entry_for_def split: packet_type.splits option.splits if_splits)
  from * show "asm_wf a'" by blast
  from * show "payload_step pt (MAX_IN_FLIGHT \<le> asm_count a) (asm_get a (ph_id (pt_header pt))) =
       (res, asm_get a' (ph_id (pt_header pt)))" by blast
  from * show "j \<noteq> ph_id (pt_header pt) \<Longrightarrow> asm_get a' j = asm_get a j" by blast
qed

lemma asm_count_card: "asm_wf a \<Longrightarrow> asm_count a = card (dom (asm_get a))"
  by (simp add: asm_count_def asm_wf_def asm_get_def hm.len_card)

lemma asm_finite: "asm_wf a \<Longrightarrow> finite (dom (asm_get a))"
  by (simp add: asm_wf_def asm_get_def hm.finite_dom)

section \<open>The invariant\<close>

text \<open>
  A BYTES entry has buffered exactly what it received, within the cap; a FILE entry buffers nothing;
  no entry has received more than it declared; at most \<open>MAX_IN_FLIGHT\<close> entries exist.
\<close>

definition entry_ok :: "i64 \<Rightarrow> in_flight \<Rightarrow> bool" where
  "entry_ok i e \<longleftrightarrow> ph_id (fl_header e) = i \<and> 0 \<le> sint (fl_received e) \<and>
     (0 < sint (ph_total_size (fl_header e)) \<longrightarrow> sint (fl_received e) \<le> sint (ph_total_size (fl_header e))) \<and>
     (if ph_payload_type (fl_header e) = Payload_Bytes
      then sint (fl_received e) = int (length (fl_buffer e)) \<and> length (fl_buffer e) \<le> MAX_BYTES_PAYLOAD
      else fl_buffer e = [])"

definition asm_inv :: "assembler \<Rightarrow> bool" where
  "asm_inv a \<longleftrightarrow> asm_wf a \<and> asm_count a \<le> MAX_IN_FLIGHT \<and> (\<forall>i e. asm_get a i = Some e \<longrightarrow> entry_ok i e)"

definition transfer_fits :: "payload_transfer \<Rightarrow> bool" where
  "transfer_fits pt \<longleftrightarrow> (case pt_chunk pt of None \<Rightarrow> True | Some c \<Rightarrow> fits (pc_body c))"

lemma sint_of_length: "fits xs \<Longrightarrow> sint (word_of_nat (length xs) :: i64) = int (length xs)"
  by (simp add: fits_def signed_of_nat signed_take_bit_int_eq_self)

lemma unat_sint: "0 \<le> sint (w :: i64) \<Longrightarrow> int (unat w) = sint w"
  using sint_lt [of w] uint_sint [of w] by (simp add: take_bit_int_eq_self)

lemma entry_ok_fresh: "ph_id h = i \<Longrightarrow> entry_ok i (fresh_entry h)"
  by (simp add: entry_ok_def fresh_entry_def)

lemma received_total:
  assumes "entry_ok i e" "fits body"
  shows "sint (saturating_add_i64 (fl_received e) (word_of_nat (length body))) =
      min 9223372036854775807 (sint (fl_received e) + int (length body))"
  using assms by (simp add: sint_saturating_add_i64 sint_of_length entry_ok_def)

lemma chunk_step_entry_ok:
  assumes "entry_ok i e" "fits (pc_body c)" "chunk_step i e c = (res, Some e')"
  shows "entry_ok i e'"
proof -
  let ?total = "saturating_add_i64 (fl_received e) (word_of_nat (length (pc_body c)))"
  note total = received_total [OF assms(1,2)]
  have nonneg: "0 \<le> sint ?total"
    using total assms(1) by (simp add: entry_ok_def)
  show ?thesis
  proof (cases "ph_payload_type (fl_header e) = Payload_Bytes")
    case True
    with assms(3) have cap: "unat ?total \<le> MAX_BYTES_PAYLOAD"
      by (auto simp: chunk_step_def Let_def split: if_splits)
    then have small: "sint ?total \<le> 1048576"
      using unat_sint [OF nonneg] by linarith
    then have sum: "sint ?total = sint (fl_received e) + int (length (pc_body c))"
      using total by linarith
    moreover have "length (fl_buffer e) + length (pc_body c) \<le> MAX_BYTES_PAYLOAD"
      using True small sum assms(1) by (auto simp: entry_ok_def)
    ultimately show ?thesis
      using True assms(1,3) nonneg
      by (auto simp: chunk_step_def entry_ok_def Let_def split: if_splits)
  next
    case False
    with assms(1,3) nonneg show ?thesis
      by (auto simp: chunk_step_def entry_ok_def Let_def split: if_splits)
  qed
qed

lemma payload_step_entry_ok:
  assumes "payload_step pt full eo = (res, Some e')" "transfer_fits pt"
    and "\<And>e. eo = Some e \<Longrightarrow> entry_ok (ph_id (pt_header pt)) e"
  shows "entry_ok (ph_id (pt_header pt)) e'"
proof (cases eo)
  case None
  with assms show ?thesis
    by (auto simp: payload_step_def transfer_fits_def Let_def entry_ok_fresh
        split: packet_type.splits option.splits if_splits
        intro: chunk_step_entry_ok [OF entry_ok_fresh [OF refl]])
next
  case (Some e)
  with assms show ?thesis
    by (auto simp: payload_step_def transfer_fits_def Let_def
        split: packet_type.splits option.splits if_splits intro: chunk_step_entry_ok)
qed

lemma payload_step_opens:
  "payload_step pt full None = (res, Some e') \<Longrightarrow> \<not> full"
  by (auto simp: payload_step_def Let_def split: packet_type.splits option.splits if_splits)

lemma accept_count:
  assumes "asm_wf a" "accept pt a = (res, a')"
  shows "asm_count a' \<le> max (asm_count a) MAX_IN_FLIGHT"
proof -
  let ?i = "ph_id (pt_header pt)"
  note r = accept_refines [OF assms]
  have sub: "dom (asm_get a') \<subseteq> insert ?i (dom (asm_get a))"
    using r(3) by (auto simp: dom_def)
  show ?thesis
  proof (cases "?i \<in> dom (asm_get a) \<or> ?i \<notin> dom (asm_get a')")
    case True
    with sub have "dom (asm_get a') \<subseteq> dom (asm_get a)" by auto
    then have "asm_count a' \<le> asm_count a"
      using assms(1) r(1) by (simp add: asm_count_card asm_finite card_mono)
    then show ?thesis by simp
  next
    case False
    then obtain e' where "asm_get a ?i = None" "asm_get a' ?i = Some e'" by auto
    with r(2) have "asm_count a < MAX_IN_FLIGHT"
      using payload_step_opens [of pt "MAX_IN_FLIGHT \<le> asm_count a"] by auto
    moreover have "asm_count a' \<le> Suc (asm_count a)"
      using card_mono [OF _ sub] assms(1) r(1)
      by (simp add: asm_count_card asm_finite card_insert_if split: if_splits)
    ultimately show ?thesis by simp
  qed
qed

lemma accept_inv:
  assumes "asm_inv a" "transfer_fits pt" "accept pt a = (res, a')"
  shows "asm_inv a'"
proof -
  let ?i = "ph_id (pt_header pt)"
  from assms(1) have wf: "asm_wf a" and ok: "\<And>i e. asm_get a i = Some e \<Longrightarrow> entry_ok i e"
    and n: "asm_count a \<le> MAX_IN_FLIGHT"
    by (auto simp: asm_inv_def)
  note r = accept_refines [OF wf assms(3)]
  have "entry_ok i e" if "asm_get a' i = Some e" for i e
  proof (cases "i = ?i")
    case True
    with that r(2) have "payload_step pt (MAX_IN_FLIGHT \<le> asm_count a) (asm_get a ?i) = (res, Some e)"
      by simp
    from payload_step_entry_ok [OF this assms(2)] ok True show ?thesis by blast
  next
    case False
    with r(3) that ok show ?thesis by simp
  qed
  then show ?thesis
    using r(1) accept_count [OF wf assms(3)] n by (auto simp: asm_inv_def)
qed

lemma asm_inv_new: "asm_inv assembler_new"
  by (simp add: asm_inv_def assembler_new_def asm_count_def asm_get_def asm_wf_def hm_wf_def)

lemma asm_cancel_inv: "asm_inv a \<Longrightarrow> asm_inv (asm_cancel i a)"
  using asm_count_ops(2) [of a i] by (auto simp: asm_inv_def asm_cancel_def split: if_splits)

section \<open>Runs of frames\<close>

text \<open>One frame, with what came out of it tagged by the payload it was about.\<close>

definition asm_step ::
    "assembler \<Rightarrow> payload_transfer \<Rightarrow> assembler \<times> (i64 \<times> (payload_error + payload_event)) list" where
  "asm_step a pt = (let (res, a') = accept pt a in (a', [(ph_id (pt_header pt), res)]))"

interpretation asm: invariant_machine asm_step transfer_fits asm_inv
proof
  fix a pt assume "asm_inv a" "transfer_fits pt"
  then show "asm_inv (fst (asm_step a pt))"
    by (cases "accept pt a") (auto simp: asm_step_def intro: accept_inv)
qed

lemma entry_ok_buffer: "entry_ok i e \<Longrightarrow> length (fl_buffer e) \<le> MAX_BYTES_PAYLOAD"
  by (auto simp: entry_ok_def split: if_splits)

definition asm_buffered :: "assembler \<Rightarrow> nat" where
  "asm_buffered a = (\<Sum>i \<in> dom (asm_get a). length (fl_buffer (the (asm_get a i))))"

lemma asm_buffered_bound:
  assumes "asm_inv a"
  shows "asm_buffered a \<le> MAX_IN_FLIGHT * MAX_BYTES_PAYLOAD"
proof -
  have "length (fl_buffer (the (asm_get a i))) \<le> MAX_BYTES_PAYLOAD" if "i \<in> dom (asm_get a)" for i
    using that assms entry_ok_buffer [of i "the (asm_get a i)"] by (auto simp: asm_inv_def)
  then have "asm_buffered a \<le> card (dom (asm_get a)) * MAX_BYTES_PAYLOAD"
    unfolding asm_buffered_def using sum_bounded_above [of "dom (asm_get a)" _ MAX_BYTES_PAYLOAD] by simp
  also have "\<dots> \<le> MAX_IN_FLIGHT * MAX_BYTES_PAYLOAD"
    using assms asm_count_card [of a] by (auto simp: asm_inv_def)
  finally show ?thesis .
qed

text \<open>
  The automaton of one id run alone, with room in the assembler.
\<close>

definition solo_step ::
    "in_flight option \<Rightarrow> payload_transfer \<Rightarrow> in_flight option \<times> (payload_error + payload_event) list" where
  "solo_step eo pt = (let (res, eo') = payload_step pt False eo in (eo', [res]))"

definition outputs_of :: "i64 \<Rightarrow> (i64 \<times> 'r) list \<Rightarrow> 'r list" where
  "outputs_of i out = map snd (filter (\<lambda>p. fst p = i) out)"

definition frames_of :: "i64 \<Rightarrow> payload_transfer list \<Rightarrow> payload_transfer list" where
  "frames_of i pts = filter (\<lambda>pt. ph_id (pt_header pt) = i) pts"

definition pids :: "payload_transfer list \<Rightarrow> i64 set" where
  "pids pts = (\<lambda>pt. ph_id (pt_header pt)) ` set pts"

lemma payload_step_not_full:
  "eo \<noteq> None \<or> \<not> full \<Longrightarrow> payload_step pt full eo = payload_step pt False eo"
  by (auto simp: payload_step_def Let_def split: packet_type.splits option.splits)

lemma asm_step_solo:
  assumes "asm_wf a" "asm_step a pt = (a', out)"
    and room: "dom (asm_get a) \<subseteq> S" "ph_id (pt_header pt) \<in> S" "finite S" "card S \<le> MAX_IN_FLIGHT"
  shows "asm_wf a'" "dom (asm_get a') \<subseteq> S"
    "solo_step (asm_get a (ph_id (pt_header pt))) pt =
       (asm_get a' (ph_id (pt_header pt)), outputs_of (ph_id (pt_header pt)) out)"
    "j \<noteq> ph_id (pt_header pt) \<Longrightarrow> asm_get a' j = asm_get a j \<and> outputs_of j out = []"
proof -
  let ?i = "ph_id (pt_header pt)"
  obtain res where acc: "accept pt a = (res, a')" and out: "out = [(?i, res)]"
    using assms(2) by (auto simp: asm_step_def Let_def split: prod.splits)
  note r = accept_refines [OF assms(1) acc]
  show "asm_wf a'" by (rule r(1))
  show "dom (asm_get a') \<subseteq> S"
  proof
    fix j assume "j \<in> dom (asm_get a')"
    then show "j \<in> S" using r(3) [of j] room(1,2) domIff [of j "asm_get a"] by (cases "j = ?i") auto
  qed
  have "asm_get a ?i \<noteq> None \<or> \<not> MAX_IN_FLIGHT \<le> asm_count a"
  proof (cases "asm_get a ?i")
    case None
    then have "dom (asm_get a) \<subset> S" using room(1,2) by auto
    then have "card (dom (asm_get a)) < MAX_IN_FLIGHT"
      using psubset_card_mono [OF room(3)] room(4) by (meson less_le_trans)
    then show ?thesis by (simp add: asm_count_card [OF assms(1)])
  qed simp
  from payload_step_not_full [OF this, of pt] r(2)
  have "payload_step pt False (asm_get a ?i) = (res, asm_get a' ?i)" by (rule trans [OF sym])
  then show "solo_step (asm_get a ?i) pt = (asm_get a' ?i, outputs_of ?i out)"
    by (simp add: solo_step_def out outputs_of_def)
  show "j \<noteq> ?i \<Longrightarrow> asm_get a' j = asm_get a j \<and> outputs_of j out = []"
    using r(3) by (simp add: out outputs_of_def)
qed

lemma asm_run_solo:
  assumes "asm_wf a" "dom (asm_get a) \<union> pids pts \<subseteq> S" "finite S" "card S \<le> MAX_IN_FLIGHT"
    and "run asm_step a pts = (a', out)"
  shows "run solo_step (asm_get a i) (frames_of i pts) = (asm_get a' i, outputs_of i out)"
  using assms
proof (induction pts arbitrary: a out)
  case Nil
  then show ?case by (simp add: frames_of_def outputs_of_def)
next
  case (Cons pt pts)
  obtain a1 out1 where st: "asm_step a pt = (a1, out1)" by fastforce
  obtain out2 where rn: "run asm_step a1 pts = (a', out2)" and out: "out = out1 @ out2"
    using Cons.prems(5) st by (auto simp: Let_def split: prod.splits)
  have S: "dom (asm_get a) \<subseteq> S" "ph_id (pt_header pt) \<in> S"
    using Cons.prems(2) by (auto simp: pids_def)
  note s = asm_step_solo [OF Cons.prems(1) st S Cons.prems(3,4)]
  have IH: "run solo_step (asm_get a1 i) (frames_of i pts) = (asm_get a' i, outputs_of i out2)"
    using Cons.prems s(2) by (intro Cons.IH [OF s(1) _ Cons.prems(3,4) rn]) (auto simp: pids_def)
  show ?case
  proof (cases "ph_id (pt_header pt) = i")
    case True
    with s(3) IH show ?thesis by (simp add: frames_of_def out outputs_of_def)
  next
    case False
    with s(4) [of i] IH show ?thesis by (simp add: frames_of_def out outputs_of_def)
  qed
qed

section \<open>What the sender of a payload produces\<close>

text \<open>
  The frames of one payload cut into pieces: consecutive offsets, the last-chunk flag on the final
  piece. This is how \<open>quickshare/outbound.rs\<close> and \<open>connection.rs\<close> use \<open>payload_data\<close>.
\<close>

definition data_frame :: "payload_header \<Rightarrow> nat \<Rightarrow> bool \<Rightarrow> bytes \<Rightarrow> payload_transfer" where
  "data_frame h off lst b =
     \<lparr>pt_packet_type = Packet_Data, pt_header = h,
      pt_chunk = Some \<lparr>pc_flags = (if lst then FLAG_LAST_CHUNK else 0), pc_offset = word_of_nat off, pc_body = b\<rparr>,
      pt_control = None\<rparr>"

fun chunk_frames :: "payload_header \<Rightarrow> nat \<Rightarrow> bytes list \<Rightarrow> payload_transfer list" where
  "chunk_frames h off [] = []"
| "chunk_frames h off [b] = [data_frame h off True b]"
| "chunk_frames h off (b # bs) = data_frame h off False b # chunk_frames h (off + length b) bs"

definition size_ok :: "payload_header \<Rightarrow> nat \<Rightarrow> bool" where
  "size_ok h n \<longleftrightarrow> n < 9223372036854775808 \<and>
     (ph_total_size h = 0 \<or> int n \<le> sint (ph_total_size h))"

lemma size_ok_mono: "size_ok h n \<Longrightarrow> m \<le> n \<Longrightarrow> size_ok h m"
  by (auto simp: size_ok_def)

lemma sint_word_of_nat: "n < 9223372036854775808 \<Longrightarrow> sint (word_of_nat n :: i64) = int n"
  by (simp add: signed_of_nat signed_take_bit_int_eq_self)

lemma saturating_add_offsets:
  assumes "off + n < 9223372036854775808"
  shows "saturating_add_i64 (word_of_nat off) (word_of_nat n) = word_of_nat (off + n)"
proof -
  have "sint (word_of_nat off :: i64) = int off" "sint (word_of_nat n :: i64) = int n"
    using assms by (simp_all add: sint_word_of_nat)
  then show ?thesis using assms by (simp add: saturating_add_i64_def)
qed

lemma size_ok_declared:
  "size_ok h n \<Longrightarrow> 0 \<le> sint (ph_total_size h)"
  "size_ok h n \<Longrightarrow> 0 < sint (ph_total_size h) \<Longrightarrow> int n \<le> sint (ph_total_size h)"
  by (auto simp: size_ok_def)

lemma is_last_data_frame [simp]:
  "is_last \<lparr>pc_flags = FLAG_LAST_CHUNK, pc_offset = off, pc_body = b\<rparr>"
  "\<not> is_last \<lparr>pc_flags = 0, pc_offset = off, pc_body = b\<rparr>"
  by (simp_all add: is_last_def)

lemma solo_bytes_chunk:
  assumes "ph_payload_type h = Payload_Bytes" "size_ok h (off + length b)"
    and "off + length b \<le> MAX_BYTES_PAYLOAD" "eo = None \<and> off = 0 \<and> buf = [] \<or>
      eo = Some \<lparr>fl_header = h, fl_received = word_of_nat off, fl_buffer = buf\<rparr>"
  shows "solo_step eo (data_frame h off lst b) =
    (if lst then (None, [Inr (Event_Bytes (ph_id h) (buf @ b))])
     else (Some \<lparr>fl_header = h, fl_received = word_of_nat (off + length b), fl_buffer = buf @ b\<rparr>,
           [Inr Event_Pending]))"
proof -
  let ?e = "\<lparr>fl_header = h, fl_received = word_of_nat off, fl_buffer = buf\<rparr>"
  have eq: "unwrap_or (fresh_entry h) eo = ?e"
    using assms(4) by (auto simp: fresh_entry_def)
  have lt: "off + length b < 9223372036854775808" using assms(2) by (simp add: size_ok_def)
  then have pos: "\<not> sint (word_of_nat off :: i64) < 0" by (simp add: sint_word_of_nat)
  have un: "unat (word_of_nat (off + length b) :: i64) = off + length b"
    using lt by (simp add: unsigned_of_nat take_bit_nat_eq_self del: of_nat_add)
  have tot: "sint (word_of_nat (off + length b) :: i64) = int (off + length b)"
    using lt by (rule sint_word_of_nat)
  note d = size_ok_declared [OF assms(2)]
  show ?thesis
    using assms(1,3) d eq pos un tot saturating_add_offsets [OF lt]
    by (auto simp: solo_step_def payload_step_def data_frame_def chunk_step_def Let_def)
qed

lemma solo_file_chunk:
  assumes "ph_payload_type h \<noteq> Payload_Bytes" "size_ok h (off + length b)"
    and "eo = None \<and> off = 0 \<or>
      eo = Some \<lparr>fl_header = h, fl_received = word_of_nat off, fl_buffer = []\<rparr>"
  shows "solo_step eo (data_frame h off lst b) =
    (if lst then None else Some \<lparr>fl_header = h, fl_received = word_of_nat (off + length b), fl_buffer = []\<rparr>,
     [Inr (Event_FileChunk (ph_id h) (word_of_nat off) b lst h)])"
proof -
  have eq: "unwrap_or (fresh_entry h) eo = \<lparr>fl_header = h, fl_received = word_of_nat off, fl_buffer = []\<rparr>"
    using assms(3) by (auto simp: fresh_entry_def)
  have lt: "off + length b < 9223372036854775808" using assms(2) by (simp add: size_ok_def)
  then have pos: "\<not> sint (word_of_nat off :: i64) < 0" by (simp add: sint_word_of_nat)
  have tot: "sint (word_of_nat (off + length b) :: i64) = int (off + length b)"
    using lt by (rule sint_word_of_nat)
  note d = size_ok_declared [OF assms(2)]
  show ?thesis
    using assms(1) d eq pos tot saturating_add_offsets [OF lt]
    by (auto simp: solo_step_def payload_step_def data_frame_def chunk_step_def Let_def)
qed

lemma solo_bytes_run:
  assumes "bs \<noteq> []" "ph_payload_type h = Payload_Bytes" "size_ok h (off + length (concat bs))"
    and "off + length (concat bs) \<le> MAX_BYTES_PAYLOAD"
    and "eo = None \<and> off = 0 \<and> buf = [] \<or>
      eo = Some \<lparr>fl_header = h, fl_received = word_of_nat off, fl_buffer = buf\<rparr>"
  shows "run solo_step eo (chunk_frames h off bs) =
    (None, replicate (length bs - 1) (Inr Event_Pending) @ [Inr (Event_Bytes (ph_id h) (buf @ concat bs))])"
  using assms
proof (induction h off bs arbitrary: eo buf rule: chunk_frames.induct)
  case (2 h off b)
  then show ?case by (simp add: solo_bytes_chunk [of h off b eo buf])
next
  case (3 h off b c bs)
  have "solo_step eo (data_frame h off False b) =
      (Some \<lparr>fl_header = h, fl_received = word_of_nat (off + length b), fl_buffer = buf @ b\<rparr>,
       [Inr Event_Pending])"
    using 3(3-) by (subst solo_bytes_chunk [of h off b eo buf]) (auto elim: size_ok_mono)
  moreover have "run solo_step (Some \<lparr>fl_header = h, fl_received = word_of_nat (off + length b), fl_buffer = buf @ b\<rparr>)
      (chunk_frames h (off + length b) (c # bs)) =
      (None, replicate (length (c # bs) - 1) (Inr Event_Pending) @
         [Inr (Event_Bytes (ph_id h) ((buf @ b) @ concat (c # bs)))])"
    using 3(3-) by (intro 3(1)) (simp_all add: add.assoc)
  ultimately show ?case by simp
qed simp

text \<open>What reaches the caller for a FILE payload, in order.\<close>

fun chunk_events :: "payload_header \<Rightarrow> nat \<Rightarrow> bytes list \<Rightarrow> (payload_error + payload_event) list" where
  "chunk_events h off [] = []"
| "chunk_events h off (b # bs) =
     Inr (Event_FileChunk (ph_id h) (word_of_nat off) b (bs = []) h) # chunk_events h (off + length b) bs"

lemma solo_file_run:
  assumes "bs \<noteq> []" "ph_payload_type h \<noteq> Payload_Bytes" "size_ok h (off + length (concat bs))"
    and "eo = None \<and> off = 0 \<or> eo = Some \<lparr>fl_header = h, fl_received = word_of_nat off, fl_buffer = []\<rparr>"
  shows "run solo_step eo (chunk_frames h off bs) = (None, chunk_events h off bs)"
  using assms
proof (induction h off bs arbitrary: eo rule: chunk_frames.induct)
  case (2 h off b)
  then show ?case by (simp add: solo_file_chunk [of h off b eo])
next
  case (3 h off b c bs)
  have "solo_step eo (data_frame h off False b) =
      (Some \<lparr>fl_header = h, fl_received = word_of_nat (off + length b), fl_buffer = []\<rparr>,
       [Inr (Event_FileChunk (ph_id h) (word_of_nat off) b False h)])"
    using 3(3-) by (subst solo_file_chunk [of h off b eo]) (auto elim: size_ok_mono)
  moreover have "run solo_step (Some \<lparr>fl_header = h, fl_received = word_of_nat (off + length b), fl_buffer = []\<rparr>)
      (chunk_frames h (off + length b) (c # bs)) = (None, chunk_events h (off + length b) (c # bs))"
    using 3(3-) by (intro 3(1)) (simp_all add: add.assoc)
  ultimately show ?case by simp
qed simp

lemma asm_run_new_solo:
  assumes "card (pids pts) \<le> MAX_IN_FLIGHT"
  shows "outputs_of i (snd (run asm_step assembler_new pts)) = snd (run solo_step None (frames_of i pts))"
proof -
  have wf: "asm_wf assembler_new" by simp
  have emp: "asm_get assembler_new = Map.empty"
    by (auto simp: asm_get_def assembler_new_def hm.get_emp)
  have "run solo_step (asm_get assembler_new i) (frames_of i pts) =
      (asm_get (fst (run asm_step assembler_new pts)) i, outputs_of i (snd (run asm_step assembler_new pts)))"
    by (rule asm_run_solo [OF wf, of pts "pids pts"]) (use assms emp in \<open>auto simp: pids_def\<close>)
  then show ?thesis by (simp add: emp)
qed

section \<open>Properties\<close>

text \<open>
  C12: whatever frames a peer sends, in whatever order, the assembler never holds more than 32
  payloads part-way through, never buffers more than 32 MiB, never takes more bytes of a payload
  than its header declared, and buffers exactly what it counted of a BYTES payload and nothing of
  any other.
\<close>

theorem assembler_invariant:
  assumes "list_all transfer_fits pts"
  shows "asm_inv (fst (run asm_step assembler_new pts)) \<and>
    asm_count (fst (run asm_step assembler_new pts)) \<le> MAX_IN_FLIGHT \<and>
    asm_buffered (fst (run asm_step assembler_new pts)) \<le> MAX_IN_FLIGHT * MAX_BYTES_PAYLOAD"
proof -
  have "asm_inv (fst (run asm_step assembler_new pts))"
    using asm_inv_new assms by (rule asm.run_inv)
  then show ?thesis using asm_buffered_bound by (simp add: asm_inv_def)
qed

definition sample_header :: "payload_type \<Rightarrow> payload_header" where
  "sample_header ty = payload_header_default\<lparr>ph_id := 7, ph_payload_type := ty, ph_total_size := 5\<rparr>"

definition sample_frames :: "payload_type \<Rightarrow> payload_transfer list" where
  "sample_frames ty =
     [data_frame (sample_header ty) 0 False [1, 2],
      data_frame ((sample_header Payload_File)\<lparr>ph_id := 9\<rparr>) 0 False [8],
      data_frame (sample_header ty) 2 True [3, 4, 5]]"

theorem assembler_invariant_witness:
  "list_all transfer_fits (sample_frames Payload_Bytes) \<and>
   asm_inv (fst (run asm_step assembler_new (sample_frames Payload_Bytes)))"
proof -
  have "list_all transfer_fits (sample_frames Payload_Bytes)"
    by (simp add: sample_frames_def transfer_fits_def data_frame_def fits_def)
  with assembler_invariant [OF this] show ?thesis by blast
qed

text \<open>
  C13: interleaved payloads do not disturb one another. When a connection uses at most 32 payload
  ids, what the assembler says of the frames of one id, in order, is exactly what the automaton of
  that id says when fed those frames alone.
\<close>

theorem assembler_interleaving:
  assumes "card (pids pts) \<le> MAX_IN_FLIGHT"
  shows "outputs_of i (snd (run asm_step assembler_new pts)) = snd (run solo_step None (frames_of i pts))"
  using assms by (rule asm_run_new_solo)

lemma sample_facts:
  "pids (sample_frames ty) = {7, 9}"
  "frames_of 7 (sample_frames ty) = chunk_frames (sample_header ty) 0 [[1, 2], [3, 4, 5]]"
  "ph_id (sample_header ty) = 7" "ph_payload_type (sample_header ty) = ty"
  "size_ok (sample_header ty) (Suc (Suc (Suc (Suc (Suc 0)))))"
  by (auto simp: pids_def sample_frames_def data_frame_def sample_header_def frames_of_def
      payload_header_default_def size_ok_def)

theorem assembler_interleaving_witness:
  "card (pids (sample_frames Payload_Bytes)) \<le> MAX_IN_FLIGHT \<and>
   outputs_of 7 (snd (run asm_step assembler_new (sample_frames Payload_Bytes))) =
     snd (run solo_step None (frames_of 7 (sample_frames Payload_Bytes)))"
  using assembler_interleaving [of "sample_frames Payload_Bytes" 7] by (simp add: sample_facts(1))

text \<open>
  A BYTES payload cut into any pieces and sent in order comes out whole, once, on its last piece,
  whatever other payloads are interleaved with it.
\<close>

theorem bytes_payload_reassembled:
  assumes "card (pids pts) \<le> MAX_IN_FLIGHT" "frames_of (ph_id h) pts = chunk_frames h 0 bs" "bs \<noteq> []"
    and "ph_payload_type h = Payload_Bytes" "size_ok h (length (concat bs))"
    and "length (concat bs) \<le> MAX_BYTES_PAYLOAD"
  shows "outputs_of (ph_id h) (snd (run asm_step assembler_new pts)) =
    replicate (length bs - 1) (Inr Event_Pending) @ [Inr (Event_Bytes (ph_id h) (concat bs))]"
  using solo_bytes_run [OF assms(3,4), of 0 None "[]"] assms
  by (simp add: asm_run_new_solo)

theorem bytes_payload_reassembled_witness:
  "outputs_of 7 (snd (run asm_step assembler_new (sample_frames Payload_Bytes))) =
     [Inr Event_Pending, Inr (Event_Bytes 7 [1, 2, 3, 4, 5])]"
  using bytes_payload_reassembled
    [of "sample_frames Payload_Bytes" "sample_header Payload_Bytes" "[[1, 2], [3, 4, 5]]"]
  by (simp add: sample_facts)

text \<open>
  A FILE payload sent in order reaches the caller as exactly its pieces, each at the offset where
  the one before it ended, the last one marked, whatever other payloads are interleaved with it.
\<close>

theorem file_payload_streamed:
  assumes "card (pids pts) \<le> MAX_IN_FLIGHT" "frames_of (ph_id h) pts = chunk_frames h 0 bs" "bs \<noteq> []"
    and "ph_payload_type h = Payload_File" "size_ok h (length (concat bs))"
  shows "outputs_of (ph_id h) (snd (run asm_step assembler_new pts)) = chunk_events h 0 bs"
  using solo_file_run [OF assms(3), of h 0 None] assms
  by (simp add: asm_run_new_solo)

theorem file_payload_streamed_witness:
  "outputs_of 7 (snd (run asm_step assembler_new (sample_frames Payload_File))) =
     [Inr (Event_FileChunk 7 0 [1, 2] False (sample_header Payload_File)),
      Inr (Event_FileChunk 7 2 [3, 4, 5] True (sample_header Payload_File))]"
  using file_payload_streamed
    [of "sample_frames Payload_File" "sample_header Payload_File" "[[1, 2], [3, 4, 5]]"]
  by (simp add: sample_facts)

text \<open>
  A chunk that does not start exactly where the last one ended, or that runs past the declared
  size, is refused and its payload released, and no other payload notices. (The running total
  saturates at \<open>i64::MAX\<close>, so a payload that declares exactly that size is never over it.)
\<close>

theorem bad_chunk_refused:
  assumes "asm_wf a" "accept pt a = (res, a')" "pt_packet_type pt = Packet_Data" "pt_chunk pt = Some c"
    and "asm_get a (ph_id (pt_header pt)) = Some e" "0 \<le> sint (pc_offset c)" "0 \<le> sint (ph_total_size (pt_header pt))"
    and "pc_offset c \<noteq> fl_received e \<or>
      0 < sint (ph_total_size (fl_header e)) \<and> sint (ph_total_size (fl_header e)) < 9223372036854775807 \<and>
      sint (ph_total_size (fl_header e)) < sint (fl_received e) + int (length (pc_body c)) \<and> fits (pc_body c)"
  shows "(res = Inl (Error_Offset (ph_id (pt_header pt)) (fl_received e) (pc_offset c)) \<or>
      res = Inl (Error_Overrun (ph_id (pt_header pt)) (ph_total_size (fl_header e)))) \<and>
    asm_get a' = (asm_get a)(ph_id (pt_header pt) := None)"
proof -
  let ?i = "ph_id (pt_header pt)"
  note r = accept_refines [OF assms(1,2)]
  have over: "sint (ph_total_size (fl_header e)) < sint (saturating_add_i64 (fl_received e) (word_of_nat (length (pc_body c))))"
    if "sint (ph_total_size (fl_header e)) < sint (fl_received e) + int (length (pc_body c))" "fits (pc_body c)"
      "0 < sint (ph_total_size (fl_header e))" "sint (ph_total_size (fl_header e)) < 9223372036854775807"
      "pc_offset c = fl_received e"
    using that assms(6)
    by (auto simp: sint_saturating_add_i64 sint_of_length)
  have upd: "asm_get a' = (asm_get a)(?i := None)" if "asm_get a' ?i = None"
    using r(3) that by (auto simp: fun_eq_iff)
  have "chunk_step ?i e c = (res, asm_get a' ?i)"
    using r(2) assms(3-7) by (simp add: payload_step_def)
  then show ?thesis
    using assms(8) over upd by (auto simp: chunk_step_def Let_def split: if_splits)
qed

theorem bad_chunk_refused_witness:
  "fst (accept (data_frame (sample_header Payload_File) 3 False [4])
     (snd (accept (data_frame (sample_header Payload_File) 0 False [1, 2]) assembler_new))) =
   Inl (Error_Offset 7 2 3)"
proof -
  let ?h = "sample_header Payload_File"
  let ?pt = "data_frame ?h 3 False [4]"
  let ?a = "snd (accept (data_frame ?h 0 False [1, 2]) assembler_new)"
  have a: "?a = \<lparr>asm_in_flight = [(7, \<lparr>fl_header = ?h, fl_received = 2, fl_buffer = []\<rparr>)]\<rparr>"
    by (simp add: accept_def accept_chunk_def entry_or_insert_def assembler_new_def data_frame_def sample_header_def
        payload_header_default_def asm_put_def saturating_add_i64_def Let_def)
  show ?thesis
    using bad_chunk_refused [of ?a ?pt "fst (accept ?pt ?a)" "snd (accept ?pt ?a)"
        "\<lparr>pc_flags = 0, pc_offset = 3, pc_body = [4]\<rparr>" "\<lparr>fl_header = ?h, fl_received = 2, fl_buffer = []\<rparr>"]
    unfolding a
    by (simp add: asm_wf_def hm_wf_def asm_get_def data_frame_def sample_header_def payload_header_default_def
        accept_def accept_chunk_def entry_or_insert_def Let_def)
qed

end
