(* ===== verification/Sharing.thy ===== *)
theory Sharing
  imports Protobuf Rust_Std Framing
begin

text \<open>
  Nearby Sharing frames, \<^verbatim>\<open>protocol/src/sharing.rs\<close>: the frames that ride inside BYTES payloads and say
  what is offered and whether it is wanted. The random fill of the identity claim comes from
  \<open>openssl::rand\<close>, which is not part of the program: \<open>paired_key_encryption\<close> takes it as an argument,
  \<open>rand k n\<close> being what the \<open>k\<close>-th call for \<open>n\<close> bytes returned.
\<close>

section \<open>Field numbers\<close>

abbreviation SH_VERSION :: u32 where "SH_VERSION \<equiv> 1"
abbreviation SH_V1 :: u32 where "SH_V1 \<equiv> 2"
abbreviation SH_VERSION_V1 :: u64 where "SH_VERSION_V1 \<equiv> 1"

abbreviation SH_V1_TYPE :: u32 where "SH_V1_TYPE \<equiv> 1"
abbreviation SH_V1_INTRODUCTION :: u32 where "SH_V1_INTRODUCTION \<equiv> 2"
abbreviation SH_V1_RESPONSE :: u32 where "SH_V1_RESPONSE \<equiv> 3"
abbreviation SH_V1_PAIRED_KEY_ENCRYPTION :: u32 where "SH_V1_PAIRED_KEY_ENCRYPTION \<equiv> 4"
abbreviation SH_V1_PAIRED_KEY_RESULT :: u32 where "SH_V1_PAIRED_KEY_RESULT \<equiv> 5"

abbreviation SH_T_INTRODUCTION :: u64 where "SH_T_INTRODUCTION \<equiv> 1"
abbreviation SH_T_RESPONSE :: u64 where "SH_T_RESPONSE \<equiv> 2"
abbreviation SH_T_PAIRED_KEY_ENCRYPTION :: u64 where "SH_T_PAIRED_KEY_ENCRYPTION \<equiv> 3"
abbreviation SH_T_PAIRED_KEY_RESULT :: u64 where "SH_T_PAIRED_KEY_RESULT \<equiv> 4"
abbreviation SH_T_CANCEL :: u64 where "SH_T_CANCEL \<equiv> 6"

abbreviation FM_NAME :: u32 where "FM_NAME \<equiv> 1"
abbreviation FM_TYPE :: u32 where "FM_TYPE \<equiv> 2"
abbreviation FM_PAYLOAD_ID :: u32 where "FM_PAYLOAD_ID \<equiv> 3"
abbreviation FM_SIZE :: u32 where "FM_SIZE \<equiv> 4"
abbreviation FM_MIME_TYPE :: u32 where "FM_MIME_TYPE \<equiv> 5"
abbreviation FM_ID :: u32 where "FM_ID \<equiv> 6"
abbreviation FM_PARENT_FOLDER :: u32 where "FM_PARENT_FOLDER \<equiv> 7"
abbreviation FM_ATTACHMENT_HASH :: u32 where "FM_ATTACHMENT_HASH \<equiv> 8"
abbreviation FM_IS_SENSITIVE :: u32 where "FM_IS_SENSITIVE \<equiv> 9"

abbreviation TM_TITLE :: u32 where "TM_TITLE \<equiv> 2"
abbreviation TM_TYPE :: u32 where "TM_TYPE \<equiv> 3"
abbreviation TM_PAYLOAD_ID :: u32 where "TM_PAYLOAD_ID \<equiv> 4"
abbreviation TM_SIZE :: u32 where "TM_SIZE \<equiv> 5"
abbreviation TM_ID :: u32 where "TM_ID \<equiv> 6"

abbreviation IN_FILE_METADATA :: u32 where "IN_FILE_METADATA \<equiv> 1"
abbreviation IN_TEXT_METADATA :: u32 where "IN_TEXT_METADATA \<equiv> 2"
abbreviation IN_START_TRANSFER :: u32 where "IN_START_TRANSFER \<equiv> 6"
abbreviation IN_USE_CASE :: u32 where "IN_USE_CASE \<equiv> 8"
abbreviation USE_CASE_NEARBY_SHARE :: u64 where "USE_CASE_NEARBY_SHARE \<equiv> 1"

abbreviation RS_STATUS :: u32 where "RS_STATUS \<equiv> 1"
abbreviation PKE_SIGNED_DATA :: u32 where "PKE_SIGNED_DATA \<equiv> 1"
abbreviation PKE_SECRET_ID_HASH :: u32 where "PKE_SECRET_ID_HASH \<equiv> 2"
abbreviation PKR_STATUS :: u32 where "PKR_STATUS \<equiv> 1"
abbreviation SECRET_ID_HASH_LEN :: nat where "SECRET_ID_HASH_LEN \<equiv> 6"
abbreviation SIGNED_DATA_LEN :: nat where "SIGNED_DATA_LEN \<equiv> 72"

section \<open>Data\<close>

datatype file_type =
    File_Unknown | File_Image | File_Video | File_AndroidApp | File_Audio | File_Document | File_ContactCard

fun file_type_num :: "file_type \<Rightarrow> u64" where
  "file_type_num File_Unknown = 0"
| "file_type_num File_Image = 1"
| "file_type_num File_Video = 2"
| "file_type_num File_AndroidApp = 3"
| "file_type_num File_Audio = 4"
| "file_type_num File_Document = 5"
| "file_type_num File_ContactCard = 6"

definition file_type_from :: "u64 \<Rightarrow> file_type" where
  "file_type_from v =
     (if v = 1 then File_Image else if v = 2 then File_Video else if v = 3 then File_AndroidApp
      else if v = 4 then File_Audio else if v = 5 then File_Document else if v = 6 then File_ContactCard
      else File_Unknown)"

definition of_mime :: "rstring \<Rightarrow> file_type" where
  "of_mime mime =
     (let major = takeWhile (\<lambda>b. b \<noteq> 0x2f) mime in
      if major = str ''image'' then File_Image
      else if major = str ''video'' then File_Video
      else if major = str ''audio'' then File_Audio
      else if mime = str ''application/vnd.android.package-archive'' then File_AndroidApp
      else if prefix (str ''text/'') mime \<or> mime = str ''application/pdf'' then File_Document
      else File_Unknown)"

datatype status =
    Status_Unknown | Status_Accept | Status_Reject | Status_NotEnoughSpace
  | Status_UnsupportedAttachmentType | Status_TimedOut

fun status_num :: "status \<Rightarrow> u64" where
  "status_num Status_Unknown = 0"
| "status_num Status_Accept = 1"
| "status_num Status_Reject = 2"
| "status_num Status_NotEnoughSpace = 3"
| "status_num Status_UnsupportedAttachmentType = 4"
| "status_num Status_TimedOut = 5"

definition status_from :: "u64 \<Rightarrow> status" where
  "status_from v =
     (if v = 1 then Status_Accept else if v = 2 then Status_Reject else if v = 3 then Status_NotEnoughSpace
      else if v = 4 then Status_UnsupportedAttachmentType else if v = 5 then Status_TimedOut
      else Status_Unknown)"

datatype paired_key_result = Pkr_Unknown | Pkr_Success | Pkr_Fail | Pkr_Unable

fun paired_key_result_num :: "paired_key_result \<Rightarrow> u64" where
  "paired_key_result_num Pkr_Unknown = 0"
| "paired_key_result_num Pkr_Success = 1"
| "paired_key_result_num Pkr_Fail = 2"
| "paired_key_result_num Pkr_Unable = 3"

definition paired_key_result_from :: "u64 \<Rightarrow> paired_key_result" where
  "paired_key_result_from v =
     (if v = 1 then Pkr_Success else if v = 2 then Pkr_Fail else if v = 3 then Pkr_Unable else Pkr_Unknown)"

record file_metadata =
  fm_name :: rstring
  fm_file_type :: file_type
  fm_payload_id :: i64
  fm_size :: i64
  fm_mime_type :: rstring
  fm_id :: i64
  fm_parent_folder :: rstring
  fm_attachment_hash :: i64
  fm_is_sensitive :: bool

definition file_metadata_default :: file_metadata where
  "file_metadata_default =
     \<lparr>fm_name = [], fm_file_type = File_Unknown, fm_payload_id = 0, fm_size = 0,
      fm_mime_type = str ''application/octet-stream'', fm_id = 0, fm_parent_folder = [],
      fm_attachment_hash = 0, fm_is_sensitive = False\<rparr>"

record text_metadata =
  tm_title :: rstring
  tm_text_type :: u64
  tm_payload_id :: i64
  tm_size :: i64
  tm_id :: i64

record introduction =
  intro_files :: "file_metadata list"
  intro_texts :: "text_metadata list"
  intro_start_transfer :: bool

definition introduction_default :: introduction where
  "introduction_default = \<lparr>intro_files = [], intro_texts = [], intro_start_transfer = False\<rparr>"

definition intro_total_size :: "introduction \<Rightarrow> i64" where
  "intro_total_size i =
     foldl saturating_add_i64 0 (map fm_size (intro_files i) @ map tm_size (intro_texts i))"

datatype sharing_frame =
    SF_Introduction introduction
  | SF_Response status
  | SF_PairedKeyEncryption bytes bytes
  | SF_PairedKeyResult paired_key_result
  | SF_Cancel
  | SF_Unknown u64

datatype sharing_error = Sharing_Protobuf pb_error | Sharing_Malformed string | Sharing_Crypto

section \<open>Encoding\<close>

definition sharing_wrap :: "u64 \<Rightarrow> u32 \<Rightarrow> bytes \<Rightarrow> bytes" where
  "sharing_wrap frame_type field body =
     (let v1 = write_msg ([w_varint SH_V1_TYPE frame_type] @
                 (if body \<noteq> [] \<or> field \<noteq> 0 then [w_bytes field body] else []))
      in write_msg [w_varint SH_VERSION SH_VERSION_V1, w_bytes SH_V1 v1])"

definition encode_file :: "file_metadata \<Rightarrow> bytes" where
  "encode_file f =
     write_msg
       ([w_bytes FM_NAME (fm_name f),
         w_varint FM_TYPE (file_type_num (fm_file_type f)),
         w_varint FM_PAYLOAD_ID (fm_payload_id f),
         w_varint FM_SIZE (fm_size f),
         w_bytes FM_MIME_TYPE (fm_mime_type f),
         w_varint FM_ID (fm_id f)] @
        (if fm_parent_folder f \<noteq> [] then [w_bytes FM_PARENT_FOLDER (fm_parent_folder f)] else []) @
        (if fm_attachment_hash f \<noteq> 0 then [w_varint FM_ATTACHMENT_HASH (fm_attachment_hash f)] else []) @
        (if fm_is_sensitive f then [w_varint FM_IS_SENSITIVE 1] else []))"

definition encode_text :: "text_metadata \<Rightarrow> bytes" where
  "encode_text t =
     write_msg
       [w_bytes TM_TITLE (tm_title t), w_varint TM_TYPE (tm_text_type t),
        w_varint TM_PAYLOAD_ID (tm_payload_id t), w_varint TM_SIZE (tm_size t), w_varint TM_ID (tm_id t)]"

definition sharing_introduction :: "introduction \<Rightarrow> bytes" where
  "sharing_introduction intro =
     sharing_wrap SH_T_INTRODUCTION SH_V1_INTRODUCTION
       (write_msg
         (map (\<lambda>f. w_bytes IN_FILE_METADATA (encode_file f)) (intro_files intro) @
          map (\<lambda>t. w_bytes IN_TEXT_METADATA (encode_text t)) (intro_texts intro) @
          (if intro_start_transfer intro then [w_varint IN_START_TRANSFER 1] else []) @
          [w_varint IN_USE_CASE USE_CASE_NEARBY_SHARE]))"

definition sharing_response :: "status \<Rightarrow> bytes" where
  "sharing_response st =
     sharing_wrap SH_T_RESPONSE SH_V1_RESPONSE (write_msg [w_varint RS_STATUS (status_num st)])"

definition paired_key_frame :: "bytes \<Rightarrow> bytes \<Rightarrow> bytes" where
  "paired_key_frame signed_data hash =
     sharing_wrap SH_T_PAIRED_KEY_ENCRYPTION SH_V1_PAIRED_KEY_ENCRYPTION
       (write_msg [w_bytes PKE_SIGNED_DATA signed_data, w_bytes PKE_SECRET_ID_HASH hash])"

definition paired_key_encryption :: "(nat \<Rightarrow> nat \<Rightarrow> bytes option) \<Rightarrow> sharing_error + bytes" where
  "paired_key_encryption rand =
     and_then (ok_or Sharing_Crypto (rand 0 SIGNED_DATA_LEN)) (\<lambda>signed_data.
     and_then (ok_or Sharing_Crypto (rand 1 SECRET_ID_HASH_LEN)) (\<lambda>hash.
     Inr (paired_key_frame signed_data hash)))"

definition sharing_paired_key_result :: "paired_key_result \<Rightarrow> bytes" where
  "sharing_paired_key_result st =
     sharing_wrap SH_T_PAIRED_KEY_RESULT SH_V1_PAIRED_KEY_RESULT
       (write_msg [w_varint PKR_STATUS (paired_key_result_num st)])"

definition sharing_cancel :: bytes where
  "sharing_cancel =
     (let v1 = write_msg [w_varint SH_V1_TYPE SH_T_CANCEL]
      in write_msg [w_varint SH_VERSION SH_VERSION_V1, w_bytes SH_V1 v1])"

section \<open>Decoding\<close>

abbreviation (input) sh_bytes :: "bytes \<Rightarrow> u32 \<Rightarrow> sharing_error + bytes option" where
  "sh_bytes b n \<equiv> map_err Sharing_Protobuf (first_bytes b n)"

abbreviation (input) sh_varint :: "bytes \<Rightarrow> u32 \<Rightarrow> sharing_error + u64 option" where
  "sh_varint b n \<equiv> map_err Sharing_Protobuf (first_varint b n)"

definition sharing_string :: "bytes \<Rightarrow> rstring" where
  "sharing_string b = from_utf8_lossy b"

definition parse_file :: "bytes \<Rightarrow> sharing_error + file_metadata" where
  "parse_file b =
     and_then (sh_bytes b FM_NAME) (\<lambda>name.
     and_then (sh_varint b FM_TYPE) (\<lambda>ty.
     and_then (sh_varint b FM_PAYLOAD_ID) (\<lambda>pid.
     and_then (sh_varint b FM_SIZE) (\<lambda>sz.
     and_then (sh_bytes b FM_MIME_TYPE) (\<lambda>mime.
     and_then (sh_varint b FM_ID) (\<lambda>i.
     and_then (sh_bytes b FM_PARENT_FOLDER) (\<lambda>folder.
     and_then (sh_varint b FM_ATTACHMENT_HASH) (\<lambda>hash.
     and_then (sh_varint b FM_IS_SENSITIVE) (\<lambda>sens.
     Inr \<lparr>fm_name = unwrap_or [] (map_option sharing_string name),
          fm_file_type = file_type_from (unwrap_or 0 ty),
          fm_payload_id = unwrap_or 0 pid, fm_size = unwrap_or 0 sz,
          fm_mime_type = unwrap_or (str ''application/octet-stream'') (map_option sharing_string mime),
          fm_id = unwrap_or 0 i,
          fm_parent_folder = unwrap_or [] (map_option sharing_string folder),
          fm_attachment_hash = unwrap_or 0 hash, fm_is_sensitive = (unwrap_or 0 sens \<noteq> 0)\<rparr>)))))))))"

definition parse_text :: "bytes \<Rightarrow> sharing_error + text_metadata" where
  "parse_text b =
     and_then (sh_bytes b TM_TITLE) (\<lambda>title.
     and_then (sh_varint b TM_TYPE) (\<lambda>ty.
     and_then (sh_varint b TM_PAYLOAD_ID) (\<lambda>pid.
     and_then (sh_varint b TM_SIZE) (\<lambda>sz.
     and_then (sh_varint b TM_ID) (\<lambda>i.
     Inr \<lparr>tm_title = unwrap_or [] (map_option sharing_string title), tm_text_type = unwrap_or 0 ty,
          tm_payload_id = unwrap_or 0 pid, tm_size = unwrap_or 0 sz, tm_id = unwrap_or 0 i\<rparr>)))))"

definition parse_introduction_field :: "introduction \<Rightarrow> pb_field \<Rightarrow> sharing_error + introduction" where
  "parse_introduction_field out f =
     (case f of
        Bytes n v \<Rightarrow>
          (if n = IN_FILE_METADATA then
             and_then (parse_file v) (\<lambda>x. Inr (out\<lparr>intro_files := intro_files out @ [x]\<rparr>))
           else if n = IN_TEXT_METADATA then
             and_then (parse_text v) (\<lambda>x. Inr (out\<lparr>intro_texts := intro_texts out @ [x]\<rparr>))
           else Inr out)
      | Varint n v \<Rightarrow>
          Inr (if n = IN_START_TRANSFER then out\<lparr>intro_start_transfer := (v \<noteq> 0)\<rparr> else out))"

definition parse_introduction :: "bytes \<Rightarrow> sharing_error + introduction" where
  "parse_introduction b = for_fields Sharing_Protobuf parse_introduction_field introduction_default (reader_new b)"

text \<open>The match on the frame type at the end of \<open>parse\<close>.\<close>

definition sharing_dispatch :: "u64 \<Rightarrow> bytes \<Rightarrow> sharing_error + sharing_frame" where
  "sharing_dispatch ty body =
     (if ty = SH_T_INTRODUCTION then and_then (parse_introduction body) (\<lambda>i. Inr (SF_Introduction i))
      else if ty = SH_T_RESPONSE then
        and_then (sh_varint body RS_STATUS) (\<lambda>v. Inr (SF_Response (status_from (unwrap_or 0 v))))
      else if ty = SH_T_PAIRED_KEY_ENCRYPTION then
        and_then (sh_bytes body PKE_SIGNED_DATA) (\<lambda>sd.
        and_then (sh_bytes body PKE_SECRET_ID_HASH) (\<lambda>hs.
        Inr (SF_PairedKeyEncryption (unwrap_or [] sd) (unwrap_or [] hs))))
      else if ty = SH_T_PAIRED_KEY_RESULT then
        and_then (sh_varint body PKR_STATUS) (\<lambda>v.
        Inr (SF_PairedKeyResult (paired_key_result_from (unwrap_or 0 v))))
      else if ty = SH_T_CANCEL then Inr SF_Cancel
      else Inr (SF_Unknown ty))"

definition sharing_v1_field ::
    "u64 option \<times> bytes option \<Rightarrow> pb_field \<Rightarrow> sharing_error + u64 option \<times> bytes option" where
  "sharing_v1_field acc f =
     (case acc of (ty, body) \<Rightarrow> Inr
       (case f of
          Varint n v \<Rightarrow> if n = SH_V1_TYPE then (Some v, body) else (ty, body)
        | Bytes n b \<Rightarrow> (ty, Some b)))"

definition sharing_parse :: "bytes \<Rightarrow> sharing_error + sharing_frame" where
  "sharing_parse bs =
     and_then (sh_bytes bs SH_V1) (\<lambda>o1.
     and_then (ok_or (Sharing_Malformed ''no v1 frame'') o1) (\<lambda>v1.
     and_then (for_fields Sharing_Protobuf sharing_v1_field (None, None) (reader_new v1)) (\<lambda>(ty, body).
     and_then (ok_or (Sharing_Malformed ''no frame type'') ty) (\<lambda>ty.
     sharing_dispatch ty (unwrap_or [] body)))))"

section \<open>Round trips\<close>

lemma sharing_enums [simp]:
  "file_type_from (file_type_num a) = a" "status_from (status_num b) = b"
  "paired_key_result_from (paired_key_result_num c) = c"
  by (cases a, simp_all add: file_type_from_def, cases b, simp_all add: status_from_def,
      cases c, simp_all add: paired_key_result_from_def)

definition file_ok :: "file_metadata \<Rightarrow> bool" where
  "file_ok f \<longleftrightarrow> utf8_valid (fm_name f) \<and> utf8_valid (fm_mime_type f) \<and> utf8_valid (fm_parent_folder f)"

definition text_ok :: "text_metadata \<Rightarrow> bool" where
  "text_ok t \<longleftrightarrow> utf8_valid (tm_title t)"

definition intro_ok :: "introduction \<Rightarrow> bool" where
  "intro_ok i \<longleftrightarrow> list_all file_ok (intro_files i) \<and> list_all text_ok (intro_texts i)"

lemma parse_file_fields:
  assumes "pb_fields b = Inr ([Bytes FM_NAME (fm_name f),
         Varint FM_TYPE (file_type_num (fm_file_type f)),
         Varint FM_PAYLOAD_ID (fm_payload_id f),
         Varint FM_SIZE (fm_size f),
         Bytes FM_MIME_TYPE (fm_mime_type f),
         Varint FM_ID (fm_id f)] @
        (if fm_parent_folder f \<noteq> [] then [Bytes FM_PARENT_FOLDER (fm_parent_folder f)] else []) @
        (if fm_attachment_hash f \<noteq> 0 then [Varint FM_ATTACHMENT_HASH (fm_attachment_hash f)] else []) @
        (if fm_is_sensitive f then [Varint FM_IS_SENSITIVE 1] else []))"
    and "file_ok f"
  shows "parse_file b = Inr f"
  using assms(2)
  by (cases "fm_parent_folder f = []"; cases "fm_attachment_hash f = 0"; cases "fm_is_sensitive f")
    (simp_all add: parse_file_def first_fields [OF assms(1)] sharing_string_def file_ok_def)

lemma file_roundtrip:
  assumes "fits (encode_file f)" "file_ok f"
  shows "parse_file (encode_file f) = Inr f"
proof -
  show ?thesis
    unfolding encode_file_def
    by (rule parse_file_fields [OF read_msg assms(2)])
      ((intro wire_simps)+, rule assms(1) [unfolded encode_file_def])
qed

lemma parse_text_fields:
  assumes "pb_fields b = Inr [Bytes TM_TITLE (tm_title t), Varint TM_TYPE (tm_text_type t),
        Varint TM_PAYLOAD_ID (tm_payload_id t), Varint TM_SIZE (tm_size t), Varint TM_ID (tm_id t)]"
    and "text_ok t"
  shows "parse_text b = Inr t"
  using assms(2)
  by (simp add: parse_text_def first_fields [OF assms(1)] sharing_string_def text_ok_def)

lemma text_roundtrip:
  assumes "fits (encode_text t)" "text_ok t"
  shows "parse_text (encode_text t) = Inr t"
  unfolding encode_text_def
  by (rule parse_text_fields [OF read_msg assms(2)])
    ((intro wire_simps)+, rule assms(1) [unfolded encode_text_def])

lemma parse_files:
  "list_all file_ok fs \<Longrightarrow> list_all (\<lambda>f. fits (encode_file f)) fs \<Longrightarrow>
   fold_res parse_introduction_field out (map (\<lambda>f. Bytes IN_FILE_METADATA (encode_file f)) fs) =
     Inr (out\<lparr>intro_files := intro_files out @ fs\<rparr>)"
  by (induction fs arbitrary: out) (simp_all add: parse_introduction_field_def file_roundtrip)

lemma parse_texts:
  "list_all text_ok ts \<Longrightarrow> list_all (\<lambda>t. fits (encode_text t)) ts \<Longrightarrow>
   fold_res parse_introduction_field out (map (\<lambda>t. Bytes IN_TEXT_METADATA (encode_text t)) ts) =
     Inr (out\<lparr>intro_texts := intro_texts out @ ts\<rparr>)"
  by (induction ts arbitrary: out) (simp_all add: parse_introduction_field_def text_roundtrip)

text \<open>The envelope: what \<open>wrap\<close> wraps is what the dispatch receives.\<close>

lemma writes_sharing_frame:
  "writes [w_varint SH_VERSION SH_VERSION_V1, w_bytes SH_V1 v1] [Varint SH_VERSION SH_VERSION_V1, Bytes SH_V1 v1]"
  by (intro wire_simps)

lemma sharing_parse_v1:
  assumes "writes ops fs" "fits (write_msg [w_varint SH_VERSION SH_VERSION_V1, w_bytes SH_V1 (write_msg ops)])"
  shows "fits (write_msg ops)"
    "sharing_parse (write_msg [w_varint SH_VERSION SH_VERSION_V1, w_bytes SH_V1 (write_msg ops)]) =
     and_then (fold_res sharing_v1_field (None, None) fs) (\<lambda>(ty, body).
     and_then (ok_or (Sharing_Malformed ''no frame type'') ty) (\<lambda>ty. sharing_dispatch ty (unwrap_or [] body)))"
proof -
  note outer = read_msg [OF writes_sharing_frame assms(2)]
  show v1: "fits (write_msg ops)"
    by (rule fits_msg [OF writes_sharing_frame assms(2)]) simp
  show "sharing_parse (write_msg [w_varint SH_VERSION SH_VERSION_V1, w_bytes SH_V1 (write_msg ops)]) =
     and_then (fold_res sharing_v1_field (None, None) fs) (\<lambda>(ty, body).
     and_then (ok_or (Sharing_Malformed ''no frame type'') ty) (\<lambda>ty. sharing_dispatch ty (unwrap_or [] body)))"
    by (simp add: sharing_parse_def first_fields [OF outer] for_fields_pb_fields [OF read_msg [OF assms(1) v1]])
qed

lemma sharing_parse_wrap:
  assumes "fits (sharing_wrap ty n body)" "n \<noteq> 0"
  shows "sharing_parse (sharing_wrap ty n body) = sharing_dispatch ty body" "fits body"
proof -
  have w: "writes [w_varint SH_V1_TYPE ty, w_bytes n body] [Varint SH_V1_TYPE ty, Bytes n body]"
    by (intro wire_simps)
  have eq: "sharing_wrap ty n body =
      write_msg [w_varint SH_VERSION SH_VERSION_V1, w_bytes SH_V1 (write_msg [w_varint SH_V1_TYPE ty, w_bytes n body])]"
    using assms(2) by (simp add: sharing_wrap_def)
  note p = sharing_parse_v1 [OF w assms(1) [unfolded eq]]
  show "sharing_parse (sharing_wrap ty n body) = sharing_dispatch ty body"
    unfolding eq p(2) by (simp add: sharing_v1_field_def)
  show "fits body"
    by (rule fits_msg [OF w p(1)]) simp
qed

lemma introduction_roundtrip:
  assumes "fits (sharing_introduction i)" "intro_ok i"
  shows "sharing_parse (sharing_introduction i) = Inr (SF_Introduction i)"
proof -
  let ?ops = "map (\<lambda>f. w_bytes IN_FILE_METADATA (encode_file f)) (intro_files i) @
          map (\<lambda>t. w_bytes IN_TEXT_METADATA (encode_text t)) (intro_texts i) @
          (if intro_start_transfer i then [w_varint IN_START_TRANSFER 1] else []) @
          [w_varint IN_USE_CASE USE_CASE_NEARBY_SHARE]"
  let ?fs = "map (\<lambda>f. Bytes IN_FILE_METADATA (encode_file f)) (intro_files i) @
          map (\<lambda>t. Bytes IN_TEXT_METADATA (encode_text t)) (intro_texts i) @
          (if intro_start_transfer i then [Varint IN_START_TRANSFER 1] else []) @
          [Varint IN_USE_CASE USE_CASE_NEARBY_SHARE]"
  have w: "writes ?ops ?fs" by (intro wire_simps)
  note p = sharing_parse_wrap [OF assms(1) [unfolded sharing_introduction_def], simplified]
  note body = read_msg [OF w p(2)]
  have "list_all (\<lambda>f. fits (encode_file f)) (intro_files i)" "list_all (\<lambda>t. fits (encode_text t)) (intro_texts i)"
    using fits_msg [OF w p(2)] by (auto simp: list_all_iff)
  then have "fold_res parse_introduction_field introduction_default ?fs = Inr i"
    using assms(2) by (cases "intro_start_transfer i")
      (simp_all add: fold_res_append parse_files parse_texts intro_ok_def,
       simp_all add: parse_introduction_field_def introduction_default_def)
  then show ?thesis
    unfolding sharing_introduction_def p(1)
    by (simp add: sharing_dispatch_def parse_introduction_def for_fields_pb_fields [OF body])
qed

lemma response_roundtrip:
  assumes "fits (sharing_response st)"
  shows "sharing_parse (sharing_response st) = Inr (SF_Response st)"
proof -
  have w: "writes [w_varint RS_STATUS (status_num st)] [Varint RS_STATUS (status_num st)]" by (intro wire_simps)
  note p = sharing_parse_wrap [OF assms [unfolded sharing_response_def], simplified]
  show ?thesis
    unfolding sharing_response_def p(1)
    by (simp add: sharing_dispatch_def first_fields [OF read_msg [OF w p(2)]])
qed

lemma paired_key_result_roundtrip:
  assumes "fits (sharing_paired_key_result st)"
  shows "sharing_parse (sharing_paired_key_result st) = Inr (SF_PairedKeyResult st)"
proof -
  have w: "writes [w_varint PKR_STATUS (paired_key_result_num st)] [Varint PKR_STATUS (paired_key_result_num st)]"
    by (intro wire_simps)
  note p = sharing_parse_wrap [OF assms [unfolded sharing_paired_key_result_def], simplified]
  show ?thesis
    unfolding sharing_paired_key_result_def p(1)
    by (simp add: sharing_dispatch_def first_fields [OF read_msg [OF w p(2)]])
qed

lemma paired_key_frame_roundtrip:
  assumes "fits (paired_key_frame sd hs)"
  shows "sharing_parse (paired_key_frame sd hs) = Inr (SF_PairedKeyEncryption sd hs)"
proof -
  have w: "writes [w_bytes PKE_SIGNED_DATA sd, w_bytes PKE_SECRET_ID_HASH hs]
      [Bytes PKE_SIGNED_DATA sd, Bytes PKE_SECRET_ID_HASH hs]"
    by (intro wire_simps)
  note p = sharing_parse_wrap [OF assms [unfolded paired_key_frame_def], simplified]
  show ?thesis
    unfolding paired_key_frame_def p(1)
    by (simp add: sharing_dispatch_def first_fields [OF read_msg [OF w p(2)]])
qed

lemma cancel_roundtrip: "sharing_parse sharing_cancel = Inr SF_Cancel"
proof -
  have w: "writes [w_varint SH_V1_TYPE SH_T_CANCEL] [Varint SH_V1_TYPE SH_T_CANCEL]" by (intro wire_simps)
  have "fits sharing_cancel"
    by (simp add: sharing_cancel_def write_eval fits_def)
  from sharing_parse_v1(2) [OF w this [unfolded sharing_cancel_def Let_def]] show ?thesis
    unfolding sharing_cancel_def Let_def by (simp add: sharing_v1_field_def sharing_dispatch_def)
qed

section \<open>Every frame this side sends\<close>

fun sharing_bytes :: "sharing_frame \<Rightarrow> bytes" where
  "sharing_bytes (SF_Introduction i) = sharing_introduction i"
| "sharing_bytes (SF_Response st) = sharing_response st"
| "sharing_bytes (SF_PairedKeyEncryption sd hs) = paired_key_frame sd hs"
| "sharing_bytes (SF_PairedKeyResult st) = sharing_paired_key_result st"
| "sharing_bytes SF_Cancel = sharing_cancel"
| "sharing_bytes (SF_Unknown v) = []"

fun sharing_ok :: "sharing_frame \<Rightarrow> bool" where
  "sharing_ok (SF_Introduction i) = intro_ok i"
| "sharing_ok (SF_Unknown v) = False"
| "sharing_ok _ = True"

interpretation sharing_codec: message_codec sharing_bytes sharing_parse "\<lambda>f. f" sharing_ok
proof
  fix m assume "sharing_ok m" "fits (sharing_bytes m)"
  then show "sharing_parse (sharing_bytes m) = Inr m"
    by (cases m) (simp_all add: introduction_roundtrip response_roundtrip paired_key_frame_roundtrip
        paired_key_result_roundtrip cancel_roundtrip)
qed

text \<open>The fixed-size frames are small, whatever the status.\<close>

lemma small_frames [simp]: "fits (sharing_response st)" "fits (sharing_paired_key_result pkr)"
  by (cases st; simp add: sharing_response_def sharing_wrap_def write_eval fits_def)
    (cases pkr; simp add: sharing_paired_key_result_def sharing_wrap_def write_eval fits_def)

section \<open>Properties\<close>

text \<open>
  Every sharing frame this side builds is parsed by the peer to exactly that frame: an
  introduction with all of its files and texts in order and every field of each, a response, an
  identity claim, a verdict, a cancellation. So two different frames never have the same bytes.
\<close>

theorem sharing_roundtrip:
  assumes "sharing_ok f" "fits (sharing_bytes f)"
  shows "sharing_parse (sharing_bytes f) = Inr f \<and>
    (\<forall>g. sharing_ok g \<and> sharing_bytes g = sharing_bytes f \<longrightarrow> g = f)"
  using sharing_codec.dec_enc [OF assms] sharing_codec.enc_same_view [OF assms(1) _ assms(2)] assms(2) by metis

definition sample_intro :: introduction where
  "sample_intro =
     \<lparr>intro_files = [file_metadata_default\<lparr>fm_name := str ''a.txt'', fm_payload_id := 7, fm_size := 5\<rparr>],
      intro_texts = [], intro_start_transfer = True\<rparr>"

lemma ascii_valid_eval:
  "utf8_valid (str ''a.txt'')" "utf8_valid (str ''application/octet-stream'')"
  by (rule ascii_utf8_valid, simp add: str_def)+

lemma sample_intro_ok: "intro_ok sample_intro" "fits (sharing_introduction sample_intro)"
proof -
  show "intro_ok sample_intro"
    by (simp add: sample_intro_def intro_ok_def file_ok_def file_metadata_default_def ascii_valid_eval)
  show "fits (sharing_introduction sample_intro)"
    by (simp add: sample_intro_def sharing_introduction_def sharing_wrap_def encode_file_def write_eval
        file_metadata_default_def str_def fits_def)
qed

theorem sharing_roundtrip_witness:
  "sharing_parse (sharing_bytes (SF_Introduction sample_intro)) = Inr (SF_Introduction sample_intro)"
  using sharing_roundtrip [of "SF_Introduction sample_intro"] sample_intro_ok by simp

end
