(* ===== verification/Fsm.thy ===== *)
theory Fsm
  imports Sharing
begin

text \<open>
  The sharing state machines, \<^verbatim>\<open>protocol/src/fsm.rs\<close>: \<open>Inbound\<close> (the receiving side, with the person's
  decision as an event) and \<open>Outbound\<close> (the sending side). \<open>start\<close> takes what the random source
  returned, as \<open>paired_key_encryption\<close> does.
\<close>

section \<open>Model\<close>

datatype fsm_event =
    Ev_Frame sharing_frame
  | Ev_UserAccepted
  | Ev_UserRejected
  | Ev_UserCancelled
  | Ev_TransferComplete

datatype fsm_effect =
    Send bytes
  | AskUser introduction
  | BeginSending introduction
  | BeginReceiving introduction
  | Done
  | Failed string
  | Cancelled

datatype fsm_state =
    St_PairedKey | St_Introduction | St_AwaitingUser | St_Transferring | St_Done | St_Failed | St_Cancelled

definition is_over :: "fsm_state \<Rightarrow> bool" where
  "is_over s \<longleftrightarrow> s \<in> {St_Done, St_Failed, St_Cancelled}"

subsection \<open>Inbound\<close>

record inbound =
  in_state :: fsm_state
  in_sent_paired_key :: bool
  in_seen_peer_result :: bool
  in_introduction :: "introduction option"

definition inbound_new :: inbound where
  "inbound_new =
     \<lparr>in_state = St_PairedKey, in_sent_paired_key = False, in_seen_peer_result = False, in_introduction = None\<rparr>"

definition in_fail :: "string \<Rightarrow> inbound \<Rightarrow> inbound \<times> fsm_effect list" where
  "in_fail why m = (m\<lparr>in_state := St_Failed\<rparr>, [Failed why])"

definition in_start :: "(nat \<Rightarrow> nat \<Rightarrow> bytes option) \<Rightarrow> inbound \<Rightarrow> inbound \<times> fsm_effect list" where
  "in_start rand m =
     (if in_sent_paired_key m then (m, [])
      else
        let m = m\<lparr>in_sent_paired_key := True\<rparr> in
        case paired_key_encryption rand of
          Inr f \<Rightarrow> (m, [Send f])
        | Inl _ \<Rightarrow> (m\<lparr>in_state := St_Failed\<rparr>, [Failed ''could not build the paired-key frame'']))"

fun in_on_frame :: "inbound \<Rightarrow> sharing_frame \<Rightarrow> inbound \<times> fsm_effect list" where
  "in_on_frame m SF_Cancel = (m\<lparr>in_state := St_Cancelled\<rparr>, [Cancelled])"
| "in_on_frame m (SF_PairedKeyEncryption _ _) =
     (if in_state m = St_PairedKey then (m, [Send (sharing_paired_key_result Pkr_Unable)]) else (m, []))"
| "in_on_frame m (SF_PairedKeyResult _) =
     (if in_state m = St_PairedKey
      then (m\<lparr>in_seen_peer_result := True, in_state := St_Introduction\<rparr>, []) else (m, []))"
| "in_on_frame m (SF_Introduction intro) =
     (case in_state m of
        St_Introduction \<Rightarrow>
          if intro_files intro = [] \<and> intro_texts intro = []
          then in_fail ''introduction announced no attachments'' m
          else (m\<lparr>in_introduction := Some intro, in_state := St_AwaitingUser\<rparr>, [AskUser intro])
      | St_AwaitingUser \<Rightarrow> in_fail ''a second introduction arrived after the first'' m
      | St_Transferring \<Rightarrow> in_fail ''a second introduction arrived after the first'' m
      | _ \<Rightarrow> in_fail ''frame arrived in a state that does not allow it'' m)"
| "in_on_frame m (SF_Unknown _) = (m, [])"
| "in_on_frame m (SF_Response _) = (m, [])"

definition in_on :: "inbound \<Rightarrow> fsm_event \<Rightarrow> inbound \<times> fsm_effect list" where
  "in_on m ev =
     (if is_over (in_state m) then (m, [])
      else case ev of
        Ev_UserCancelled \<Rightarrow> (m\<lparr>in_state := St_Cancelled\<rparr>, [Send sharing_cancel, Cancelled])
      | Ev_UserAccepted \<Rightarrow>
          if in_state m \<noteq> St_AwaitingUser then in_fail ''acceptance arrived before an offer'' m
          else (m\<lparr>in_state := St_Transferring\<rparr>,
                [Send (sharing_response Status_Accept),
                 BeginReceiving (unwrap_or introduction_default (in_introduction m))])
      | Ev_UserRejected \<Rightarrow>
          if in_state m \<noteq> St_AwaitingUser then in_fail ''rejection arrived before an offer'' m
          else (m\<lparr>in_state := St_Done\<rparr>, [Send (sharing_response Status_Reject), Done])
      | Ev_TransferComplete \<Rightarrow>
          if in_state m \<noteq> St_Transferring then in_fail ''transfer completed before it started'' m
          else (m\<lparr>in_state := St_Done\<rparr>, [Done])
      | Ev_Frame f \<Rightarrow> in_on_frame m f)"

subsection \<open>Outbound\<close>

record outbound =
  out_state :: fsm_state
  out_introduction :: introduction
  out_sent_paired_key :: bool

definition outbound_new :: "introduction \<Rightarrow> outbound" where
  "outbound_new i = \<lparr>out_state = St_PairedKey, out_introduction = i, out_sent_paired_key = False\<rparr>"

definition out_fail :: "string \<Rightarrow> outbound \<Rightarrow> outbound \<times> fsm_effect list" where
  "out_fail why m = (m\<lparr>out_state := St_Failed\<rparr>, [Failed why])"

definition out_start :: "(nat \<Rightarrow> nat \<Rightarrow> bytes option) \<Rightarrow> outbound \<Rightarrow> outbound \<times> fsm_effect list" where
  "out_start rand m =
     (if out_sent_paired_key m then (m, [])
      else
        let m = m\<lparr>out_sent_paired_key := True\<rparr> in
        case paired_key_encryption rand of
          Inl _ \<Rightarrow> (m\<lparr>out_state := St_Failed\<rparr>, [Failed ''could not build the paired-key frame''])
        | Inr pke \<Rightarrow>
            (m\<lparr>out_state := St_Introduction\<rparr>,
             [Send pke, Send (sharing_paired_key_result Pkr_Unable),
              Send (sharing_introduction (out_introduction m))]))"

fun out_on_frame :: "outbound \<Rightarrow> sharing_frame \<Rightarrow> outbound \<times> fsm_effect list" where
  "out_on_frame m SF_Cancel = (m\<lparr>out_state := St_Cancelled\<rparr>, [Cancelled])"
| "out_on_frame m (SF_Response st) =
     (if out_state m = St_Introduction then
        (if st = Status_Accept
         then (m\<lparr>out_state := St_Transferring\<rparr>, [BeginSending (out_introduction m)])
         else (m\<lparr>out_state := St_Done\<rparr>, [Done]))
      else out_fail ''frame arrived in a state that does not allow it'' m)"
| "out_on_frame m (SF_PairedKeyEncryption _ _) = (m, [])"
| "out_on_frame m (SF_PairedKeyResult _) = (m, [])"
| "out_on_frame m (SF_Unknown _) = (m, [])"
| "out_on_frame m (SF_Introduction _) =
     out_fail ''the peer tried to introduce files on a connection we opened'' m"

definition out_on :: "outbound \<Rightarrow> fsm_event \<Rightarrow> outbound \<times> fsm_effect list" where
  "out_on m ev =
     (if is_over (out_state m) then (m, [])
      else case ev of
        Ev_UserCancelled \<Rightarrow> (m\<lparr>out_state := St_Cancelled\<rparr>, [Send sharing_cancel, Cancelled])
      | Ev_TransferComplete \<Rightarrow>
          if out_state m \<noteq> St_Transferring then out_fail ''transfer completed before it started'' m
          else (m\<lparr>out_state := St_Done\<rparr>, [Done])
      | Ev_UserAccepted \<Rightarrow> out_fail ''a local decision arrived on the sending side'' m
      | Ev_UserRejected \<Rightarrow> out_fail ''a local decision arrived on the sending side'' m
      | Ev_Frame f \<Rightarrow> out_on_frame m f)"

section \<open>Final states and invariants\<close>

interpretation inbound_end: ending_machine in_on "\<lambda>m. is_over (in_state m)"
  by unfold_locales (simp add: in_on_def)

interpretation outbound_end: ending_machine out_on "\<lambda>m. is_over (out_state m)"
  by unfold_locales (simp add: out_on_def)

text \<open>
  While a person is deciding, and after an acceptance, the machine holds the introduction it showed,
  and that introduction announces something; before that it holds none.
\<close>

definition in_inv :: "inbound \<Rightarrow> bool" where
  "in_inv m \<longleftrightarrow>
     (in_state m \<in> {St_AwaitingUser, St_Transferring} \<longrightarrow>
        (\<exists>i. in_introduction m = Some i \<and> \<not> (intro_files i = [] \<and> intro_texts i = []))) \<and>
     (in_state m \<in> {St_PairedKey, St_Introduction} \<longrightarrow> in_introduction m = None)"

lemma in_on_inv: "in_inv m \<Longrightarrow> in_inv (fst (in_on m ev))"
proof (cases ev)
  case (Ev_Frame f)
  assume "in_inv m"
  with Ev_Frame show ?thesis
    by (cases f; cases "in_state m") (auto simp: in_on_def in_inv_def is_over_def in_fail_def)
qed (cases "in_state m"; auto simp: in_on_def in_inv_def is_over_def in_fail_def)+

interpretation inbound_inv: invariant_machine in_on "\<lambda>_. True" in_inv
  by unfold_locales (rule in_on_inv)

section \<open>What the receiving side shows and accepts\<close>

definition asks :: "fsm_effect list \<Rightarrow> introduction list" where
  "asks out = concat (map (\<lambda>e. case e of AskUser i \<Rightarrow> [i] | _ \<Rightarrow> []) out)"

lemma asks_simps [simp]: "asks [] = []" "asks (xs @ ys) = asks xs @ asks ys"
  "asks (AskUser i # xs) = i # asks xs" "asks (Send b # xs) = asks xs" "asks (BeginSending i # xs) = asks xs"
  "asks (BeginReceiving i # xs) = asks xs" "asks (Done # xs) = asks xs" "asks (Failed w # xs) = asks xs"
  "asks (Cancelled # xs) = asks xs"
  by (simp_all add: asks_def)

text \<open>The introduction the machine remembers is the one prompt it has raised.\<close>

definition in_asked :: "inbound \<Rightarrow> introduction list" where
  "in_asked m = (case in_introduction m of None \<Rightarrow> [] | Some i \<Rightarrow> [i])"

lemma in_on_asks: "in_inv m \<Longrightarrow> in_on m ev = (m', eff) \<Longrightarrow> in_asked m' = in_asked m @ asks eff"
proof (cases ev)
  case (Ev_Frame f)
  assume "in_inv m" "in_on m ev = (m', eff)"
  with Ev_Frame show ?thesis
    by (cases f; cases "in_state m")
      (auto simp: in_on_def in_inv_def is_over_def in_fail_def in_asked_def split: if_splits)
qed (auto simp: in_on_def in_fail_def in_asked_def split: if_splits)

lemma run_in_asks:
  "in_inv m \<Longrightarrow> run in_on m es = (m', out) \<Longrightarrow> in_inv m' \<and> in_asked m' = in_asked m @ asks out"
proof (induction es arbitrary: m out)
  case (Cons e es)
  obtain m1 out1 out2 where st: "in_on m e = (m1, out1)" "run in_on m1 es = (m', out2)" "out = out1 @ out2"
    using Cons.prems(2) by (auto simp: Let_def split: prod.splits)
  have "in_inv m1" using in_on_inv [OF Cons.prems(1), of e] st(1) by simp
  with Cons.IH [OF this st(2)] in_on_asks [OF Cons.prems(1) st(1)] st(3) show ?case by simp
qed simp

lemma in_start_inv: "in_inv (fst (in_start rand inbound_new))" "in_asked (fst (in_start rand inbound_new)) = []"
  by (auto simp: in_start_def inbound_new_def in_inv_def in_asked_def Let_def split: sum.splits)

lemma in_on_accepts:
  assumes "in_inv m" "in_on m ev = (m', eff)" "BeginReceiving i \<in> set eff"
  shows "ev = Ev_UserAccepted \<and> in_asked m = [i]"
proof (cases ev)
  case (Ev_Frame f)
  with assms show ?thesis
    by (cases f; cases "in_state m") (auto simp: in_on_def in_fail_def split: if_splits)
qed (use assms in \<open>auto simp: in_on_def in_fail_def in_inv_def in_asked_def split: if_splits\<close>)

lemma in_on_sends:
  assumes "in_on m ev = (m', eff)" "Send b \<in> set eff"
  shows "sharing_parse b = Inr (SF_Response Status_Accept) \<longleftrightarrow> ev = Ev_UserAccepted"
proof (cases ev)
  case (Ev_Frame f)
  with assms show ?thesis
    by (cases f; cases "in_state m")
      (auto simp: in_on_def in_fail_def paired_key_result_roundtrip split: if_splits)
qed (use assms in \<open>auto simp: in_on_def in_fail_def response_roundtrip cancel_roundtrip split: if_splits\<close>)

section \<open>Properties\<close>

text \<open>
  C3: consent. Whatever frames the peer sends and whatever else happened before, the receiving side
  begins receiving, and sends an acceptance, only in answer to the person's acceptance; and what it
  begins to receive is the introduction of the one prompt it raised.
\<close>

theorem inbound_consent:
  assumes "run in_on (fst (in_start rand inbound_new)) es = (m, out)" "in_on m ev = (m', eff)"
    and "BeginReceiving i \<in> set eff \<or> Send b \<in> set eff \<and> sharing_parse b = Inr (SF_Response Status_Accept)"
  shows "ev = Ev_UserAccepted \<and> length (asks out) = 1 \<and> (\<forall>j. BeginReceiving j \<in> set eff \<longrightarrow> asks out = [j])"
proof -
  have m: "in_inv m" "in_asked m = asks out"
    using run_in_asks [OF in_start_inv(1) assms(1)] in_start_inv(2) by simp_all
  have ev: "ev = Ev_UserAccepted"
    using assms(3) in_on_accepts [OF m(1) assms(2)] in_on_sends [OF assms(2)] by blast
  have "in_state m = St_AwaitingUser \<and> \<not> is_over (in_state m)"
    using assms(2,3) ev by (auto simp: in_on_def in_fail_def split: if_splits)
  then obtain k where "BeginReceiving k \<in> set eff"
    using assms(2) ev by (auto simp: in_on_def)
  with in_on_accepts [OF m(1) assms(2)] m(2) ev show ?thesis by auto
qed

definition sample_rand :: "nat \<Rightarrow> nat \<Rightarrow> bytes option" where
  "sample_rand k n = Some (replicate n (word_of_nat k))"

theorem inbound_consent_witness:
  "length (asks (snd (run in_on (fst (in_start sample_rand inbound_new))
     [Ev_Frame (SF_PairedKeyResult Pkr_Unable), Ev_Frame (SF_Introduction sample_intro)]))) = 1"
proof -
  let ?es = "[Ev_Frame (SF_PairedKeyResult Pkr_Unable), Ev_Frame (SF_Introduction sample_intro)]"
  let ?r = "run in_on (fst (in_start sample_rand inbound_new)) ?es"
  have s: "in_state (fst ?r) = St_AwaitingUser" "in_introduction (fst ?r) = Some sample_intro"
    by (simp_all add: in_start_def inbound_new_def paired_key_encryption_def sample_rand_def in_on_def is_over_def
        sample_intro_def)
  then have "in_on (fst ?r) Ev_UserAccepted = ((fst ?r)\<lparr>in_state := St_Transferring\<rparr>,
      [Send (sharing_response Status_Accept), BeginReceiving sample_intro])"
    by (simp add: in_on_def is_over_def)
  from inbound_consent [OF prod.collapse [symmetric] this, of sample_intro] show ?thesis by simp
qed

text \<open>
  The offer cannot be swapped. Once an introduction has been shown, a second one ends the
  exchange: from then on, whatever follows, including an acceptance by the person, nothing is sent,
  shown or received.
\<close>

theorem second_introduction_fatal:
  assumes "run in_on (fst (in_start rand inbound_new)) es = (m, out)" "asks out \<noteq> []"
    and "run in_on m (Ev_Frame (SF_Introduction j) # es') = (m', out')"
  shows "is_over (in_state m') \<and> (out' = [] \<or> (\<exists>why. out' = [Failed why]))"
proof -
  have m: "in_inv m" "in_asked m = asks out"
    using run_in_asks [OF in_start_inv(1) assms(1)] in_start_inv(2) by simp_all
  then have "in_introduction m \<noteq> None" using assms(2) by (auto simp: in_asked_def split: option.splits)
  with m(1) have st: "in_state m \<notin> {St_PairedKey, St_Introduction}" by (auto simp: in_inv_def)
  obtain m1 eff where step: "in_on m (Ev_Frame (SF_Introduction j)) = (m1, eff)" by fastforce
  with st have over: "is_over (in_state m1)" and eff: "eff = [] \<or> (\<exists>why. eff = [Failed why])"
    by (cases "in_state m"; auto simp: in_on_def is_over_def in_fail_def)+
  with assms(3) step eff inbound_end.run_final [of m1 es'] show ?thesis by auto
qed

theorem second_introduction_fatal_witness:
  "is_over (in_state (fst (run in_on (fst (run in_on (fst (in_start sample_rand inbound_new))
       [Ev_Frame (SF_PairedKeyResult Pkr_Unable), Ev_Frame (SF_Introduction sample_intro)]))
     [Ev_Frame (SF_Introduction introduction_default), Ev_UserAccepted])))"
proof -
  let ?es = "[Ev_Frame (SF_PairedKeyResult Pkr_Unable), Ev_Frame (SF_Introduction sample_intro)]"
  let ?r = "run in_on (fst (in_start sample_rand inbound_new)) ?es"
  have "asks (snd ?r) \<noteq> []"
    by (simp add: in_start_def inbound_new_def paired_key_encryption_def sample_rand_def in_on_def is_over_def
        sample_intro_def)
  from second_introduction_fatal [OF prod.collapse [symmetric] this prod.collapse [symmetric]] show ?thesis
    by blast
qed

text \<open>
  C20: both machines stop for good. Once either is done, failed or cancelled, no event changes it or
  makes it do anything.
\<close>

theorem machines_stop:
  "(is_over (in_state m) \<longrightarrow> run in_on m es = (m, [])) \<and> (is_over (out_state n) \<longrightarrow> run out_on n es = (n, []))"
  using inbound_end.run_final [of m es] outbound_end.run_final [of n es] by blast

theorem machines_stop_witness:
  "run in_on (inbound_new\<lparr>in_state := St_Failed\<rparr>) [Ev_UserAccepted] = (inbound_new\<lparr>in_state := St_Failed\<rparr>, [])"
  using machines_stop [of "inbound_new\<lparr>in_state := St_Failed\<rparr>" "[Ev_UserAccepted]"] by (simp add: is_over_def)

section \<open>The two machines together\<close>

text \<open>What the peer's machine is fed when the effects of this one are carried out.\<close>

definition delivered :: "fsm_effect list \<Rightarrow> fsm_event list" where
  "delivered effs =
     concat (map (\<lambda>e. case e of
         Send b \<Rightarrow> (case sharing_parse b of Inr f \<Rightarrow> [Ev_Frame f] | Inl _ \<Rightarrow> [])
       | _ \<Rightarrow> []) effs)"

lemma delivered_simps [simp]: "delivered [] = []" "delivered (xs @ ys) = delivered xs @ delivered ys"
  "delivered (Send b # xs) = (case sharing_parse b of Inr f \<Rightarrow> [Ev_Frame f] | Inl _ \<Rightarrow> []) @ delivered xs"
  "delivered (AskUser i # xs) = delivered xs" "delivered (BeginSending i # xs) = delivered xs"
  "delivered (BeginReceiving i # xs) = delivered xs" "delivered (Done # xs) = delivered xs"
  by (simp_all add: delivered_def)

text \<open>\<open>rand_bytes\<close> fills the buffer it is given, as its documentation says.\<close>

definition rand_fills :: "(nat \<Rightarrow> nat \<Rightarrow> bytes option) \<Rightarrow> bool" where
  "rand_fills rand \<longleftrightarrow> (\<forall>k n. \<exists>b. rand k n = Some b \<and> length b = n)"

lemma fits_paired_key_frame: "length sd = 72 \<Longrightarrow> length hs = 6 \<Longrightarrow> fits (paired_key_frame sd hs)"
  by (simp add: paired_key_frame_def sharing_wrap_def write_eval fits_def)

lemma paired_key_encryption_ok:
  assumes "rand_fills rand"
  obtains b sd hs where "paired_key_encryption rand = Inr b" "sharing_parse b = Inr (SF_PairedKeyEncryption sd hs)"
proof -
  obtain sd hs where "rand 0 SIGNED_DATA_LEN = Some sd" "length sd = 72" "rand 1 SECRET_ID_HASH_LEN = Some hs" "length hs = 6"
    using assms by (metis rand_fills_def)
  then show ?thesis
    using that [of "paired_key_frame sd hs"]
    by (simp add: paired_key_encryption_def paired_key_frame_roundtrip fits_paired_key_frame)
qed

text \<open>
  The two machines agree. When sender and receiver open the exchange and their frames are
  delivered, the receiver shows exactly the sender's introduction; on the person's acceptance the
  receiver begins receiving it and the sender, on the frames that come back, begins sending it; on a
  refusal both end and nothing is sent.
\<close>

theorem sharing_agreed:
  assumes "rand_fills randS" "rand_fills randR"
    and "intro_ok i" "fits (sharing_introduction i)" "\<not> (intro_files i = [] \<and> intro_texts i = [])"
    and "out_start randS (outbound_new i) = (s1, so)" "in_start randR inbound_new = (r1, ro)"
    and "run in_on r1 (delivered so) = (r2, ro2)"
  shows "asks ro2 = [i] \<and>
    (\<exists>r3 s2. in_on r2 Ev_UserAccepted = (r3, [Send (sharing_response Status_Accept), BeginReceiving i]) \<and>
       run out_on s1 (delivered (ro @ ro2 @ [Send (sharing_response Status_Accept), BeginReceiving i])) =
         (s2, [BeginSending i]) \<and> in_state r3 = St_Transferring \<and> out_state s2 = St_Transferring) \<and>
    (\<exists>r3 s2. in_on r2 Ev_UserRejected = (r3, [Send (sharing_response Status_Reject), Done]) \<and>
       run out_on s1 (delivered (ro @ ro2 @ [Send (sharing_response Status_Reject), Done])) = (s2, [Done]) \<and>
       in_state r3 = St_Done \<and> out_state s2 = St_Done)"
proof -
  obtain bS sdS hsS where S: "paired_key_encryption randS = Inr bS"
      "sharing_parse bS = Inr (SF_PairedKeyEncryption sdS hsS)"
    using paired_key_encryption_ok [OF assms(1)] by blast
  obtain bR sdR hsR where R: "paired_key_encryption randR = Inr bR"
      "sharing_parse bR = Inr (SF_PairedKeyEncryption sdR hsR)"
    using paired_key_encryption_ok [OF assms(2)] by blast
  have so: "s1 = \<lparr>out_state = St_Introduction, out_introduction = i, out_sent_paired_key = True\<rparr>"
      "delivered so = [Ev_Frame (SF_PairedKeyEncryption sdS hsS), Ev_Frame (SF_PairedKeyResult Pkr_Unable),
         Ev_Frame (SF_Introduction i)]"
    using assms(3,4,6) S
    by (auto simp: out_start_def outbound_new_def introduction_roundtrip paired_key_result_roundtrip)
  have ro: "r1 = \<lparr>in_state = St_PairedKey, in_sent_paired_key = True, in_seen_peer_result = False, in_introduction = None\<rparr>"
      "delivered ro = [Ev_Frame (SF_PairedKeyEncryption sdR hsR)]"
    using assms(7) R by (auto simp: in_start_def inbound_new_def)
  have r2: "r2 = \<lparr>in_state = St_AwaitingUser, in_sent_paired_key = True, in_seen_peer_result = True, in_introduction = Some i\<rparr>"
      "ro2 = [Send (sharing_paired_key_result Pkr_Unable), AskUser i]"
    using assms(5,8) by (auto simp: so(2) ro(1) in_on_def is_over_def)
  show ?thesis
    by (simp add: r2 ro so(1) in_on_def out_on_def is_over_def paired_key_result_roundtrip response_roundtrip)
qed

theorem sharing_agreed_witness:
  "asks (snd (run in_on (fst (in_start sample_rand inbound_new))
     (delivered (snd (out_start sample_rand (outbound_new sample_intro)))))) = [sample_intro]"
proof -
  have "rand_fills sample_rand" by (simp add: rand_fills_def sample_rand_def)
  from sharing_agreed [OF this this sample_intro_ok _ prod.collapse [symmetric] prod.collapse [symmetric]
      prod.collapse [symmetric]]
  show ?thesis by (simp add: sample_intro_def)
qed

end
