(* ===== verification/Primitives.thy ===== *)
theory Primitives
  imports Prelude
begin

text \<open>
  The cryptographic library the protocol crate calls. OpenSSL/BoringSSL is not part of the program,
  so its operations are a record of functions that the definitions of the other theories take as an
  argument; \<open>None\<close> is an \<open>ErrorStack\<close>. The predicates below name the documented behaviour the
  theorems rely on. Nothing here is a claim about cryptographic strength.
\<close>

record 'k primitives =
  prim_hmac :: "bytes \<Rightarrow> bytes \<Rightarrow> bytes option"
  prim_aes_encrypt :: "bytes \<Rightarrow> bytes \<Rightarrow> bytes \<Rightarrow> bytes option"
  prim_aes_decrypt :: "bytes \<Rightarrow> bytes \<Rightarrow> bytes \<Rightarrow> bytes option"
  prim_sha256 :: "bytes \<Rightarrow> bytes option"
  prim_sha512 :: "bytes \<Rightarrow> bytes option"
  prim_public :: "'k \<Rightarrow> nat \<times> nat"
  prim_on_curve :: "nat \<times> nat \<Rightarrow> bool"
  prim_ecdh :: "'k \<Rightarrow> nat \<times> nat \<Rightarrow> bytes option"
  prim_bn_to_vec :: "nat \<Rightarrow> bytes"
  prim_bn_from_slice :: "bytes \<Rightarrow> nat option"

text \<open>\<open>hmac(Md::sha256(), ..)\<close> succeeds and writes 32 bytes.\<close>

definition hmac_ok :: "'k primitives \<Rightarrow> bool" where
  "hmac_ok p \<longleftrightarrow> (\<forall>k d. \<exists>m. prim_hmac p k d = Some m \<and> length m = 32)"

text \<open>\<open>encrypt\<close> and \<open>decrypt\<close> of AES-256-CBC succeed with a 32-byte key and a 16-byte IV and are
  inverse, and the padding adds at most one block.\<close>

definition cipher_ok :: "'k primitives \<Rightarrow> bool" where
  "cipher_ok p \<longleftrightarrow> (\<forall>k iv m. length k = 32 \<longrightarrow> length iv = 16 \<longrightarrow>
     (\<exists>c. prim_aes_encrypt p k iv m = Some c \<and> prim_aes_decrypt p k iv c = Some m \<and>
        length c \<le> length m + 16))"

text \<open>The two hash functions succeed; the digests have their documented sizes.\<close>

definition hash_ok :: "'k primitives \<Rightarrow> bool" where
  "hash_ok p \<longleftrightarrow> (\<forall>d. (\<exists>h. prim_sha256 p d = Some h \<and> length h = 32) \<and>
     (\<exists>h. prim_sha512 p d = Some h \<and> length h = 64))"

text \<open>
  Every public key is a point of the curve, ECDH is symmetric, and a \<open>BigNum\<close> comes back from its
  big-endian bytes, which have no leading zero; a coordinate is at most 32 bytes.
\<close>

definition curve_ok :: "'k primitives \<Rightarrow> bool" where
  "curve_ok p \<longleftrightarrow>
     (\<forall>a. prim_on_curve p (prim_public p a)) \<and>
     (\<forall>a b. prim_ecdh p a (prim_public p b) \<noteq> None \<and>
        prim_ecdh p a (prim_public p b) = prim_ecdh p b (prim_public p a)) \<and>
     (\<forall>n. prim_bn_from_slice p (prim_bn_to_vec p n) = Some n \<and>
        (prim_bn_to_vec p n \<noteq> [] \<longrightarrow> hd (prim_bn_to_vec p n) \<noteq> 0)) \<and>
     (\<forall>a. length (prim_bn_to_vec p (fst (prim_public p a))) \<le> 32 \<and>
        length (prim_bn_to_vec p (snd (prim_public p a))) \<le> 32)"

text \<open>
  An instance of the interface, to show that the named hypotheses can hold together and to evaluate
  examples on. It has the shapes of the real functions and none of their secrecy.
\<close>

definition fill :: "nat \<Rightarrow> bytes \<Rightarrow> bytes" where
  "fill n d = take n (d @ replicate n 0)"

lemma length_fill [simp]: "length (fill n d) = n"
  by (simp add: fill_def)

definition sample_prims :: "nat primitives" where
  "sample_prims =
     \<lparr>prim_hmac = \<lambda>k d. Some (fill 32 (rev d @ k)),
      prim_aes_encrypt = \<lambda>k iv m. Some (rev m),
      prim_aes_decrypt = \<lambda>k iv c. Some (rev c),
      prim_sha256 = \<lambda>d. Some (fill 32 (rev d)),
      prim_sha512 = \<lambda>d. Some (fill 64 (rev d)),
      prim_public = \<lambda>a. (a mod 16, a mod 16 + 1),
      prim_on_curve = \<lambda>(x, y). y = x + 1,
      prim_ecdh = \<lambda>a (x, y). Some [word_of_nat (a mod 16 + x)],
      prim_bn_to_vec = \<lambda>n. replicate n 1,
      prim_bn_from_slice = \<lambda>bs. Some (length bs)\<rparr>"

lemma sample_prims_ok: "hmac_ok sample_prims" "cipher_ok sample_prims" "hash_ok sample_prims" "curve_ok sample_prims"
proof -
  have small: "(a :: nat) mod 16 \<le> 31" for a
    using mod_less_divisor [of 16 a] by linarith
  show "hmac_ok sample_prims" "cipher_ok sample_prims" "hash_ok sample_prims" "curve_ok sample_prims"
    using small
    by (auto simp: hmac_ok_def cipher_ok_def hash_ok_def curve_ok_def sample_prims_def add.commute le_SucI)
qed

end
