(* ===== verification/Hkdf.thy ===== *)
theory Hkdf
  imports Primitives Rust_Std
begin

text \<open>
  HKDF-SHA256, \<^verbatim>\<open>protocol/src/hkdf.rs\<close>, and the key schedule of \<^verbatim>\<open>protocol/src/d2d.rs\<close> that is built from it.
  The block counter of \<open>expand\<close> is a \<open>u8\<close> incremented with \<open>+=\<close>; the Android build compiles with
  overflow checks, so running past 255 is a panic, which is the value \<open>Hkdf_Panic\<close> here, like a
  failed \<open>assert!\<close>.
\<close>

section \<open>HKDF\<close>

abbreviation HASH_LEN :: nat where "HASH_LEN \<equiv> 32"
abbreviation MAX_OUTPUT_LEN :: nat where "MAX_OUTPUT_LEN \<equiv> 8160"

datatype hkdf_error = Hkdf_Panic | Hkdf_Crypto

definition hkdf_hmac :: "'k primitives \<Rightarrow> bytes \<Rightarrow> bytes \<Rightarrow> hkdf_error + bytes" where
  "hkdf_hmac p key data = ok_or Hkdf_Crypto (prim_hmac p key data)"

definition hkdf_extract :: "'k primitives \<Rightarrow> bytes \<Rightarrow> bytes \<Rightarrow> hkdf_error + bytes" where
  "hkdf_extract p salt ikm = hkdf_hmac p (if salt = [] then replicate HASH_LEN 0 else salt) ikm"

lemma unat_suc_u8: "c \<noteq> (0xff :: u8) \<Longrightarrow> unat (c + 1) = Suc (unat c)"
proof -
  assume "c \<noteq> 0xff"
  have "c + 1 \<noteq> 0"
  proof
    assume "c + 1 = 0"
    then have "c = - 1" by (simp add: eq_neg_iff_add_eq_0)
    with \<open>c \<noteq> 0xff\<close> show False by simp
  qed
  then show ?thesis by (simp add: unatSuc add.commute)
qed

lemma unat_u8_less: "c \<noteq> (0xff :: u8) \<Longrightarrow> unat c < 255"
proof -
  assume "c \<noteq> 0xff"
  then have "unat c \<noteq> 255" by (simp add: word_unat_eq_iff)
  moreover have "unat c < 256" using unsigned_less [of c, where ?'a = nat] by simp
  ultimately show ?thesis by simp
qed

text \<open>The loop of \<open>expand\<close>, with its locals \<open>out\<close>, \<open>t\<close> and \<open>counter\<close>.\<close>

function expand_loop ::
    "'k primitives \<Rightarrow> bytes \<Rightarrow> bytes \<Rightarrow> nat \<Rightarrow> bytes \<Rightarrow> bytes \<Rightarrow> u8 \<Rightarrow> hkdf_error + bytes" where
  "expand_loop p prk info len out t counter =
     (if length out < len then
        and_then (hkdf_hmac p prk (t @ info @ [counter])) (\<lambda>t'.
          let out' = out @ take (min (len - length out) (length t')) t' in
          if counter = 0xff then Inl Hkdf_Panic
          else expand_loop p prk info len out' t' (counter + 1))
      else Inr out)"
  by pat_completeness auto
termination
  by (relation "measure (\<lambda>(p, prk, info, len, out, t, counter). 255 - unat counter)")
    (auto simp: unat_suc_u8 dest: unat_u8_less)

declare expand_loop.simps [simp del]

definition hkdf_expand :: "'k primitives \<Rightarrow> bytes \<Rightarrow> bytes \<Rightarrow> nat \<Rightarrow> hkdf_error + bytes" where
  "hkdf_expand p prk info len =
     (if \<not> len \<le> MAX_OUTPUT_LEN then Inl Hkdf_Panic else expand_loop p prk info len [] [] 1)"

definition hkdf_derive :: "'k primitives \<Rightarrow> bytes \<Rightarrow> bytes \<Rightarrow> bytes \<Rightarrow> nat \<Rightarrow> hkdf_error + bytes" where
  "hkdf_derive p ikm salt info len =
     and_then (hkdf_extract p salt ikm) (\<lambda>prk. hkdf_expand p prk info len)"

section \<open>The key schedule\<close>

abbreviation KEY_SIZE :: nat where "KEY_SIZE \<equiv> 32"

definition UKEY2_AUTH_SALT :: bytes where "UKEY2_AUTH_SALT = str ''UKEY2 v1 auth''"
definition UKEY2_NEXT_SALT :: bytes where "UKEY2_NEXT_SALT = str ''UKEY2 v1 next''"

definition D2D_SALT :: bytes where
  "D2D_SALT =
     [0x82, 0xAA, 0x55, 0xA0, 0xD3, 0x97, 0xF8, 0x83, 0x46, 0xCA, 0x1C, 0xEE, 0x8D, 0x39, 0x09, 0xB9,
      0x5F, 0x13, 0xFA, 0x7D, 0xEB, 0x1D, 0x4A, 0xB3, 0x83, 0x76, 0xB8, 0x25, 0x6D, 0xA8, 0x55, 0x10]"

definition SM_SALT :: bytes where
  "SM_SALT =
     [0xBF, 0x9D, 0x2A, 0x53, 0xC6, 0x36, 0x16, 0xD7, 0x5D, 0xB0, 0xA7, 0x16, 0x5B, 0x91, 0xC1, 0xEF,
      0x73, 0xE5, 0x37, 0xF2, 0x42, 0x74, 0x05, 0xFA, 0x23, 0x61, 0x0A, 0x4B, 0xE6, 0x57, 0x64, 0x2E]"

definition INFO_CLIENT :: bytes where "INFO_CLIENT = str ''client''"
definition INFO_SERVER :: bytes where "INFO_SERVER = str ''server''"
definition INFO_ENCRYPT :: bytes where "INFO_ENCRYPT = str ''ENC:2''"
definition INFO_HMAC :: bytes where "INFO_HMAC = str ''SIG:1''"

datatype role = Role_Client | Role_Server

record session_keys =
  client_encrypt :: bytes
  client_hmac :: bytes
  server_encrypt :: bytes
  server_hmac :: bytes

fun keys_send :: "session_keys \<Rightarrow> role \<Rightarrow> bytes \<times> bytes" where
  "keys_send k Role_Client = (client_encrypt k, client_hmac k)"
| "keys_send k Role_Server = (server_encrypt k, server_hmac k)"

fun keys_recv :: "session_keys \<Rightarrow> role \<Rightarrow> bytes \<times> bytes" where
  "keys_recv k Role_Client = (server_encrypt k, server_hmac k)"
| "keys_recv k Role_Server = (client_encrypt k, client_hmac k)"

record ukey2_secrets =
  auth_string :: bytes
  next_secret :: bytes

definition d2d_ukey2_secrets :: "'k primitives \<Rightarrow> bytes \<Rightarrow> bytes \<Rightarrow> bytes \<Rightarrow> hkdf_error + ukey2_secrets" where
  "d2d_ukey2_secrets p dhs client_init server_init =
     (let info = client_init @ server_init in
      and_then (hkdf_derive p dhs UKEY2_AUTH_SALT info KEY_SIZE) (\<lambda>auth.
      and_then (hkdf_derive p dhs UKEY2_NEXT_SALT info KEY_SIZE) (\<lambda>nxt.
      Inr \<lparr>auth_string = auth, next_secret = nxt\<rparr>)))"

definition d2d_session_keys :: "'k primitives \<Rightarrow> bytes \<Rightarrow> hkdf_error + session_keys" where
  "d2d_session_keys p nxt =
     and_then (hkdf_derive p nxt D2D_SALT INFO_CLIENT KEY_SIZE) (\<lambda>d2d_client.
     and_then (hkdf_derive p nxt D2D_SALT INFO_SERVER KEY_SIZE) (\<lambda>d2d_server.
     and_then (hkdf_derive p d2d_client SM_SALT INFO_ENCRYPT KEY_SIZE) (\<lambda>ce.
     and_then (hkdf_derive p d2d_client SM_SALT INFO_HMAC KEY_SIZE) (\<lambda>ch.
     and_then (hkdf_derive p d2d_server SM_SALT INFO_ENCRYPT KEY_SIZE) (\<lambda>se.
     and_then (hkdf_derive p d2d_server SM_SALT INFO_HMAC KEY_SIZE) (\<lambda>sh.
     Inr \<lparr>client_encrypt = ce, client_hmac = ch, server_encrypt = se, server_hmac = sh\<rparr>))))))"

definition d2d_derive_all ::
    "'k primitives \<Rightarrow> bytes \<Rightarrow> bytes \<Rightarrow> bytes \<Rightarrow> hkdf_error + ukey2_secrets \<times> session_keys" where
  "d2d_derive_all p dhs client_init server_init =
     and_then (d2d_ukey2_secrets p dhs client_init server_init) (\<lambda>secrets.
     and_then (d2d_session_keys p (next_secret secrets)) (\<lambda>keys. Inr (secrets, keys)))"

section \<open>Specification: RFC 5869\<close>

primrec rfc_T :: "'k primitives \<Rightarrow> bytes \<Rightarrow> bytes \<Rightarrow> nat \<Rightarrow> bytes" where
  "rfc_T p prk info 0 = []"
| "rfc_T p prk info (Suc n) = the (prim_hmac p prk (rfc_T p prk info n @ info @ [word_of_nat (Suc n)]))"

definition rfc_stream :: "'k primitives \<Rightarrow> bytes \<Rightarrow> bytes \<Rightarrow> nat \<Rightarrow> bytes" where
  "rfc_stream p prk info n = concat (map (\<lambda>i. rfc_T p prk info (Suc i)) [0..<n])"

definition rfc_okm :: "'k primitives \<Rightarrow> bytes \<Rightarrow> bytes \<Rightarrow> nat \<Rightarrow> bytes" where
  "rfc_okm p prk info len = take len (rfc_stream p prk info ((len + 31) div 32))"

lemma hmac_okD:
  assumes "hmac_ok p"
  shows "prim_hmac p k d = Some (the (prim_hmac p k d))" "length (the (prim_hmac p k d)) = 32"
  using assms by (metis hmac_ok_def option.sel)+

lemma rfc_T_length: "hmac_ok p \<Longrightarrow> length (rfc_T p prk info (Suc n)) = 32"
  by (simp add: hmac_okD(2))

lemma rfc_stream_Suc: "rfc_stream p prk info (Suc n) = rfc_stream p prk info n @ rfc_T p prk info (Suc n)"
  by (simp add: rfc_stream_def)

lemma rfc_stream_length: "hmac_ok p \<Longrightarrow> length (rfc_stream p prk info n) = 32 * n"
  by (induction n) (simp_all add: rfc_stream_Suc rfc_T_length del: rfc_T.simps, simp add: rfc_stream_def)

lemma rfc_stream_prefix: "m \<le> n \<Longrightarrow> \<exists>rest. rfc_stream p prk info n = rfc_stream p prk info m @ rest"
proof (induction n)
  case (Suc n)
  then show ?case by (cases "m = Suc n") (auto simp: rfc_stream_Suc le_Suc_eq simp del: rfc_T.simps)
qed simp

lemma rfc_okm_take:
  assumes "hmac_ok p" "len \<le> 32 * n"
  shows "take len (rfc_stream p prk info n) = rfc_okm p prk info len"
proof -
  let ?m = "(len + 31) div 32"
  have "?m \<le> n" "len \<le> 32 * ?m" using assms(2) by linarith+
  moreover from this obtain rest where "rfc_stream p prk info n = rfc_stream p prk info ?m @ rest"
    using rfc_stream_prefix by blast
  ultimately show ?thesis using assms(1) by (simp add: rfc_okm_def rfc_stream_length)
qed

lemma rfc_okm_length: "hmac_ok p \<Longrightarrow> length (rfc_okm p prk info len) = len"
  by (simp add: rfc_okm_def rfc_stream_length)

text \<open>One turn of the loop after \<open>n\<close> blocks: the output is the stream so far, cut at the requested length.\<close>

definition expand_at :: "'k primitives \<Rightarrow> bytes \<Rightarrow> bytes \<Rightarrow> nat \<Rightarrow> nat \<Rightarrow> hkdf_error + bytes" where
  "expand_at p prk info len n =
     expand_loop p prk info len (take len (rfc_stream p prk info n)) (rfc_T p prk info n) (word_of_nat (Suc n))"

lemma expand_at_done:
  "hmac_ok p \<Longrightarrow> len \<le> 32 * n \<Longrightarrow> expand_at p prk info len n = Inr (rfc_okm p prk info len)"
  unfolding expand_at_def
  by (subst expand_loop.simps) (simp add: rfc_okm_take rfc_okm_length)

lemma expand_at_step:
  assumes "hmac_ok p" "32 * n < len" "n < 255"
  shows "expand_at p prk info len n = (if n = 254 then Inl Hkdf_Panic else expand_at p prk info len (Suc n))"
proof -
  let ?s = "rfc_stream p prk info n" and ?t = "rfc_T p prk info (Suc n)"
  have t: "hkdf_hmac p prk (rfc_T p prk info n @ info @ [word_of_nat (Suc n)]) = Inr ?t"
    using hmac_okD(1) [OF assms(1), of prk "rfc_T p prk info n @ info @ [word_of_nat (Suc n)]"]
    by (simp add: hkdf_hmac_def del: of_nat_Suc)
  have len: "length ?s = 32 * n" "length ?t = 32"
    using assms(1) by (simp_all add: rfc_stream_length rfc_T_length del: rfc_T.simps)
  have out: "?s @ take (min (len - 32 * n) (length ?t)) ?t = take len (rfc_stream p prk info (Suc n))"
    using assms(2) len by (simp add: rfc_stream_Suc min_def del: rfc_T.simps)
  have c: "(word_of_nat (Suc n) = (0xff :: u8)) \<longleftrightarrow> n = 254"
    using assms(3) by (auto simp: word_unat_eq_iff unsigned_of_nat take_bit_nat_eq_self simp del: of_nat_Suc)
  have "expand_at p prk info len n =
      (if word_of_nat (Suc n) = (0xff :: u8) then Inl Hkdf_Panic
       else expand_loop p prk info len (take len (rfc_stream p prk info (Suc n))) ?t (word_of_nat (Suc n) + 1))"
    unfolding expand_at_def
    by (subst expand_loop.simps) (use assms(2) len(1) in \<open>simp add: t out Let_def del: rfc_T.simps of_nat_Suc\<close>)
  moreover have "word_of_nat (Suc n) + 1 = (word_of_nat (Suc (Suc n)) :: u8)" by simp
  ultimately show ?thesis by (simp only: c expand_at_def)
qed

lemma expand_at_result:
  assumes "hmac_ok p" "n < 255"
  shows "expand_at p prk info len n =
    (if len \<le> 254 * 32 \<or> len \<le> 32 * n then Inr (rfc_okm p prk info len) else Inl Hkdf_Panic)"
  using assms(2)
proof (induction "254 - n" arbitrary: n)
  case 0
  then have "n = 254" by simp
  then show ?case
    using expand_at_done [OF assms(1), of len n] expand_at_step [OF assms(1), of n len] by (cases "len \<le> 32 * n") auto
next
  case (Suc k)
  show ?case
  proof (cases "len \<le> 32 * n")
    case True
    then show ?thesis using expand_at_done [OF assms(1)] by simp
  next
    case False
    have "expand_at p prk info len (Suc n) =
        (if len \<le> 254 * 32 \<or> len \<le> 32 * Suc n then Inr (rfc_okm p prk info len) else Inl Hkdf_Panic)"
      using Suc(2,3) by (intro Suc(1)) simp_all
    moreover have "len \<le> 32 * Suc n \<Longrightarrow> len \<le> 254 * 32"
      using Suc(2) by arith
    ultimately show ?thesis
      using False Suc(2,3) expand_at_step [OF assms(1), of n len] by auto
  qed
qed

lemma hkdf_expand_result:
  assumes "hmac_ok p"
  shows "hkdf_expand p prk info len =
    (if len \<le> 254 * 32 then Inr (rfc_okm p prk info len) else Inl Hkdf_Panic)"
proof -
  have "expand_loop p prk info len [] [] 1 = expand_at p prk info len 0"
    by (simp add: expand_at_def rfc_stream_def)
  then show ?thesis
    using expand_at_result [OF assms, of 0 prk info len] by (simp add: hkdf_expand_def)
qed

lemma hkdf_derive_32:
  assumes "hmac_ok p"
  obtains k where "hkdf_derive p ikm salt info KEY_SIZE = Inr k" "length k = 32"
proof -
  obtain prk where "hkdf_extract p salt ikm = Inr prk"
    using hmac_okD(1) [OF assms] by (metis hkdf_extract_def hkdf_hmac_def ok_or.simps(2))
  then show ?thesis
    using that [of "rfc_okm p prk info 32"] assms by (simp add: hkdf_derive_def hkdf_expand_result rfc_okm_length)
qed

text \<open>Every key of a session is 32 bytes.\<close>

definition keys_ok :: "session_keys \<Rightarrow> bool" where
  "keys_ok k \<longleftrightarrow> length (client_encrypt k) = 32 \<and> length (client_hmac k) = 32 \<and>
     length (server_encrypt k) = 32 \<and> length (server_hmac k) = 32"

lemma d2d_derive_all_ok:
  assumes "hmac_ok p"
  obtains s k where "d2d_derive_all p dhs ci si = Inr (s, k)" "length (auth_string s) = 32" "keys_ok k"
proof -
  note d = hkdf_derive_32 [OF assms]
  obtain a where a: "hkdf_derive p dhs UKEY2_AUTH_SALT (ci @ si) KEY_SIZE = Inr a" "length a = 32" using d by blast
  obtain x where x: "hkdf_derive p dhs UKEY2_NEXT_SALT (ci @ si) KEY_SIZE = Inr x" using d by blast
  obtain dc where dc: "hkdf_derive p x D2D_SALT INFO_CLIENT KEY_SIZE = Inr dc" using d by blast
  obtain ds where ds: "hkdf_derive p x D2D_SALT INFO_SERVER KEY_SIZE = Inr ds" using d by blast
  obtain ce where ce: "hkdf_derive p dc SM_SALT INFO_ENCRYPT KEY_SIZE = Inr ce" "length ce = 32" using d by blast
  obtain ch where ch: "hkdf_derive p dc SM_SALT INFO_HMAC KEY_SIZE = Inr ch" "length ch = 32" using d by blast
  obtain se where se: "hkdf_derive p ds SM_SALT INFO_ENCRYPT KEY_SIZE = Inr se" "length se = 32" using d by blast
  obtain sh where sh: "hkdf_derive p ds SM_SALT INFO_HMAC KEY_SIZE = Inr sh" "length sh = 32" using d by blast
  show ?thesis
    using a x dc ds ce ch se sh
    by (intro that) (auto simp: d2d_derive_all_def d2d_ukey2_secrets_def d2d_session_keys_def keys_ok_def)
qed

lemma keys_role [simp]:
  "keys_recv k Role_Server = keys_send k Role_Client" "keys_recv k Role_Client = keys_send k Role_Server"
  by simp_all

section \<open>Properties\<close>

text \<open>
  C21: \<open>expand\<close> is RFC 5869: for every length up to 8128 bytes it returns exactly that many bytes of
  the stream T(1) || T(2) || .., with one-based single-byte counters and an empty T(0). From 8129 to
  8160 bytes, which the RFC and the guard allow, it panics instead: the counter is incremented past
  255 after the last block.
\<close>

theorem hkdf_is_rfc5869:
  assumes "hmac_ok p"
  shows "hkdf_expand p prk info len = (if len \<le> 8128 then Inr (rfc_okm p prk info len) else Inl Hkdf_Panic) \<and>
    length (rfc_okm p prk info len) = len"
  using assms by (simp add: hkdf_expand_result rfc_okm_length)

theorem hkdf_is_rfc5869_witness:
  "hkdf_expand sample_prims [1] [2] 8160 = Inl Hkdf_Panic \<and>
   hkdf_expand sample_prims [1] [2] 42 = Inr (rfc_okm sample_prims [1] [2] 42)"
  using hkdf_is_rfc5869 [OF sample_prims_ok(1), of "[1]" "[2]" 8160]
    hkdf_is_rfc5869 [OF sample_prims_ok(1), of "[1]" "[2]" 42] by simp

text \<open>
  The key schedule always succeeds with four 32-byte traffic keys and a 32-byte authentication
  string, and what one role sends with is what the other receives with, in both directions.
\<close>

theorem key_schedule_total:
  assumes "hmac_ok p"
  shows "\<exists>s k. d2d_derive_all p dhs ci si = Inr (s, k) \<and> length (auth_string s) = 32 \<and> keys_ok k \<and>
    keys_send k Role_Client = keys_recv k Role_Server \<and> keys_send k Role_Server = keys_recv k Role_Client"
  using d2d_derive_all_ok [OF assms, of dhs ci si] by (metis keys_role)

theorem key_schedule_total_witness:
  "\<exists>s k. d2d_derive_all sample_prims [1] [2] [3] = Inr (s, k) \<and> keys_ok k"
  using key_schedule_total [OF sample_prims_ok(1)] by blast

end
