(* ===== verification/Secure_Message.thy ===== *)
theory Secure_Message
  imports Protobuf Hkdf
begin

text \<open>
  The SecureMessage envelope, \<^verbatim>\<open>protocol/src/securemessage.rs\<close>: a frame is encrypted, wrapped with its
  header and signed; on the way in the signature is checked before anything else is read.
\<close>

abbreviation AES_KEY_SIZE :: nat where "AES_KEY_SIZE \<equiv> 32"
abbreviation IV_SIZE :: nat where "IV_SIZE \<equiv> 16"

abbreviation SM_HEADER_AND_BODY :: u32 where "SM_HEADER_AND_BODY \<equiv> 1"
abbreviation SM_SIGNATURE :: u32 where "SM_SIGNATURE \<equiv> 2"
abbreviation HB_HEADER :: u32 where "HB_HEADER \<equiv> 1"
abbreviation HB_BODY :: u32 where "HB_BODY \<equiv> 2"
abbreviation HDR_SIGNATURE_SCHEME :: u32 where "HDR_SIGNATURE_SCHEME \<equiv> 1"
abbreviation HDR_ENCRYPTION_SCHEME :: u32 where "HDR_ENCRYPTION_SCHEME \<equiv> 2"
abbreviation HDR_IV :: u32 where "HDR_IV \<equiv> 5"
abbreviation HDR_PUBLIC_METADATA :: u32 where "HDR_PUBLIC_METADATA \<equiv> 6"
abbreviation SIG_SCHEME_HMAC_SHA256 :: u64 where "SIG_SCHEME_HMAC_SHA256 \<equiv> 1"
abbreviation ENC_SCHEME_AES_256_CBC :: u64 where "ENC_SCHEME_AES_256_CBC \<equiv> 2"
abbreviation D2D_MESSAGE :: u32 where "D2D_MESSAGE \<equiv> 1"
abbreviation D2D_SEQUENCE_NUMBER :: u32 where "D2D_SEQUENCE_NUMBER \<equiv> 2"
abbreviation GCM_TYPE :: u32 where "GCM_TYPE \<equiv> 1"
abbreviation GCM_VERSION :: u32 where "GCM_VERSION \<equiv> 2"
abbreviation GCM_TYPE_DEVICE_TO_DEVICE_MESSAGE :: u64 where "GCM_TYPE_DEVICE_TO_DEVICE_MESSAGE \<equiv> 13"
abbreviation GCM_VERSION_VALUE :: u64 where "GCM_VERSION_VALUE \<equiv> 1"

datatype sm_error = Sm_BadSignature | Sm_Malformed string | Sm_Protobuf pb_error | Sm_Crypto

record unwrapped =
  uw_sequence_number :: i32
  uw_payload :: bytes

text \<open>\<open>random_iv\<close>, given what \<open>rand_bytes\<close> put into the 16-byte buffer.\<close>

definition random_iv :: "bytes option \<Rightarrow> sm_error + bytes" where
  "random_iv rand = ok_or Sm_Crypto rand"

definition gcm_metadata :: bytes where
  "gcm_metadata =
     write_msg [w_varint GCM_TYPE GCM_TYPE_DEVICE_TO_DEVICE_MESSAGE, w_varint GCM_VERSION GCM_VERSION_VALUE]"

definition sm_hmac :: "'k primitives \<Rightarrow> bytes \<Rightarrow> bytes \<Rightarrow> sm_error + bytes" where
  "sm_hmac p key data = ok_or Sm_Crypto (prim_hmac p key data)"

text \<open>The three nested messages of \<open>encrypt_and_sign\<close>, in the order it builds them.\<close>

definition sm_plain :: "i32 \<Rightarrow> bytes \<Rightarrow> bytes" where
  "sm_plain sequence_number payload =
     write_msg [w_bytes D2D_MESSAGE payload, w_varint D2D_SEQUENCE_NUMBER (scast sequence_number)]"

definition sm_header :: "bytes \<Rightarrow> bytes" where
  "sm_header iv =
     write_msg
       [w_varint HDR_SIGNATURE_SCHEME SIG_SCHEME_HMAC_SHA256,
        w_varint HDR_ENCRYPTION_SCHEME ENC_SCHEME_AES_256_CBC,
        w_bytes HDR_IV iv, w_bytes HDR_PUBLIC_METADATA gcm_metadata]"

definition encrypt_and_sign ::
    "'k primitives \<Rightarrow> bytes \<Rightarrow> bytes \<Rightarrow> i32 \<Rightarrow> bytes \<Rightarrow> bytes \<Rightarrow> sm_error + bytes" where
  "encrypt_and_sign p encrypt_key hmac_key sequence_number payload iv =
     (if length encrypt_key \<noteq> AES_KEY_SIZE then Inl (Sm_Malformed ''encrypt key is not 32 bytes'')
      else if length iv \<noteq> IV_SIZE then Inl (Sm_Malformed ''iv is not 16 bytes'')
      else
        let d2d = sm_plain sequence_number payload in
        and_then (ok_or Sm_Crypto (prim_aes_encrypt p encrypt_key iv d2d)) (\<lambda>body.
        let hb = write_msg [w_bytes HB_HEADER (sm_header iv), w_bytes HB_BODY body] in
        and_then (sm_hmac p hmac_key hb) (\<lambda>signature.
        Inr (write_msg [w_bytes SM_HEADER_AND_BODY hb, w_bytes SM_SIGNATURE signature]))))"

abbreviation (input) sm_bytes :: "bytes \<Rightarrow> u32 \<Rightarrow> sm_error + bytes option" where
  "sm_bytes b n \<equiv> map_err Sm_Protobuf (first_bytes b n)"

abbreviation (input) sm_varint :: "bytes \<Rightarrow> u32 \<Rightarrow> sm_error + u64 option" where
  "sm_varint b n \<equiv> map_err Sm_Protobuf (first_varint b n)"

text \<open>The part of \<open>verify_and_decrypt\<close> after its verification gate.\<close>

definition sm_open :: "'k primitives \<Rightarrow> bytes \<Rightarrow> bytes \<Rightarrow> sm_error + unwrapped" where
  "sm_open p encrypt_key hb =
     and_then (and_then (sm_bytes hb HB_HEADER) (ok_or (Sm_Malformed ''no header''))) (\<lambda>header.
     and_then (and_then (sm_bytes hb HB_BODY) (ok_or (Sm_Malformed ''no body''))) (\<lambda>body.
     and_then (sm_varint header HDR_SIGNATURE_SCHEME) (\<lambda>sig.
     if sig \<noteq> Some SIG_SCHEME_HMAC_SHA256 then Inl (Sm_Malformed ''signature scheme is not HMAC_SHA256'')
     else and_then (sm_varint header HDR_ENCRYPTION_SCHEME) (\<lambda>enc.
     if enc \<noteq> Some ENC_SCHEME_AES_256_CBC then Inl (Sm_Malformed ''encryption scheme is not AES_256_CBC'')
     else and_then (and_then (sm_bytes header HDR_IV) (ok_or (Sm_Malformed ''no iv''))) (\<lambda>iv.
     if length iv \<noteq> IV_SIZE then Inl (Sm_Malformed ''iv is not 16 bytes'')
     else and_then (ok_or Sm_Crypto (prim_aes_decrypt p encrypt_key iv body)) (\<lambda>plain.
     and_then (and_then (sm_bytes plain D2D_MESSAGE) (ok_or (Sm_Malformed ''no d2d message''))) (\<lambda>payload.
     and_then (and_then (sm_varint plain D2D_SEQUENCE_NUMBER) (ok_or (Sm_Malformed ''no sequence number''))) (\<lambda>s.
     Inr \<lparr>uw_sequence_number = ucast s, uw_payload = payload\<rparr>))))))))"

definition verify_and_decrypt :: "'k primitives \<Rightarrow> bytes \<Rightarrow> bytes \<Rightarrow> bytes \<Rightarrow> sm_error + unwrapped" where
  "verify_and_decrypt p encrypt_key hmac_key message =
     (if length encrypt_key \<noteq> AES_KEY_SIZE then Inl (Sm_Malformed ''encrypt key is not 32 bytes'')
      else
        and_then (and_then (sm_bytes message SM_HEADER_AND_BODY) (ok_or (Sm_Malformed ''no header_and_body''))) (\<lambda>hb.
        and_then (and_then (sm_bytes message SM_SIGNATURE) (ok_or (Sm_Malformed ''no signature''))) (\<lambda>signature.
        and_then (sm_hmac p hmac_key hb) (\<lambda>expected.
        if length signature \<noteq> length expected \<or> signature \<noteq> expected then Inl Sm_BadSignature
        else sm_open p encrypt_key hb))))"

section \<open>Round trip\<close>

lemma sm_writes:
  "writes [w_bytes D2D_MESSAGE payload, w_varint D2D_SEQUENCE_NUMBER v] [Bytes D2D_MESSAGE payload, Varint D2D_SEQUENCE_NUMBER v]"
  "writes [w_varint HDR_SIGNATURE_SCHEME SIG_SCHEME_HMAC_SHA256,
        w_varint HDR_ENCRYPTION_SCHEME ENC_SCHEME_AES_256_CBC,
        w_bytes HDR_IV iv, w_bytes HDR_PUBLIC_METADATA gcm_metadata]
     [Varint HDR_SIGNATURE_SCHEME SIG_SCHEME_HMAC_SHA256,
        Varint HDR_ENCRYPTION_SCHEME ENC_SCHEME_AES_256_CBC,
        Bytes HDR_IV iv, Bytes HDR_PUBLIC_METADATA gcm_metadata]"
  "writes [w_bytes HB_HEADER hdr, w_bytes HB_BODY body] [Bytes HB_HEADER hdr, Bytes HB_BODY body]"
  "writes [w_bytes SM_HEADER_AND_BODY hb, w_bytes SM_SIGNATURE sig] [Bytes SM_HEADER_AND_BODY hb, Bytes SM_SIGNATURE sig]"
  by (intro wire_simps)+

lemma length_gcm_metadata: "length gcm_metadata = 4"
  by (simp add: gcm_metadata_def write_eval)

lemma sm_sizes:
  "length (sm_plain s payload) \<le> length payload + 40"
  "length (sm_header iv) \<le> length iv + 84"
  "length (write_msg [w_bytes HB_HEADER hdr, w_bytes HB_BODY body]) \<le> length hdr + length body + 40"
  "length (write_msg [w_bytes SM_HEADER_AND_BODY hb, w_bytes SM_SIGNATURE sig]) \<le> length hb + length sig + 40"
  using length_msg [OF sm_writes(1), of payload "scast s"] length_msg [OF sm_writes(2), of iv]
    length_msg [OF sm_writes(3), of hdr body] length_msg [OF sm_writes(4), of hb sig]
  by (simp_all add: sm_plain_def sm_header_def length_gcm_metadata)

text \<open>What \<open>encrypt_and_sign\<close> adds to a payload.\<close>

abbreviation SM_OVERHEAD :: nat where "SM_OVERHEAD \<equiv> 268"

lemma encrypt_and_sign_ok:
  assumes "cipher_ok p" "hmac_ok p" "length ek = 32" "length iv = 16"
    and "length payload + SM_OVERHEAD < 9223372036854775808"
  obtains wire where "encrypt_and_sign p ek hk s payload iv = Inr wire" "length wire \<le> length payload + SM_OVERHEAD"
    "verify_and_decrypt p ek hk wire = Inr \<lparr>uw_sequence_number = s, uw_payload = payload\<rparr>"
proof -
  obtain body where body: "prim_aes_encrypt p ek iv (sm_plain s payload) = Some body"
      "prim_aes_decrypt p ek iv body = Some (sm_plain s payload)" "length body \<le> length (sm_plain s payload) + 16"
    using assms(1,3,4) by (metis cipher_ok_def)
  let ?hb = "write_msg [w_bytes HB_HEADER (sm_header iv), w_bytes HB_BODY body]"
  obtain sig where sig: "prim_hmac p hk ?hb = Some sig" "length sig = 32"
    using assms(2) by (metis hmac_ok_def)
  let ?wire = "write_msg [w_bytes SM_HEADER_AND_BODY ?hb, w_bytes SM_SIGNATURE sig]"
  have len: "length (sm_plain s payload) \<le> length payload + 40" "length (sm_header iv) \<le> 100"
    "length ?hb \<le> length payload + 196" "length ?wire \<le> length payload + SM_OVERHEAD"
    using sm_sizes(1) [of s payload] sm_sizes(2) [of iv] sm_sizes(3) [of "sm_header iv" body]
      sm_sizes(4) [of ?hb sig] body(3) assms(4) sig(2) by linarith+
  have "fits (sm_plain s payload)" "fits (sm_header iv)" "fits ?hb" "fits ?wire"
    using len assms(5) unfolding fits_def by linarith+
  note wire = read_msg [OF sm_writes(4) this(4)] and hb = read_msg [OF sm_writes(3) this(3)]
    and hdr = read_msg [OF sm_writes(2) this(2) [unfolded sm_header_def], folded sm_header_def]
    and plain = read_msg [OF sm_writes(1) this(1) [unfolded sm_plain_def], folded sm_plain_def]
  have "encrypt_and_sign p ek hk s payload iv = Inr ?wire"
    using assms(3,4) body(1) sig(1) by (simp add: encrypt_and_sign_def sm_hmac_def)
  moreover have "sm_open p ek ?hb = Inr \<lparr>uw_sequence_number = s, uw_payload = payload\<rparr>"
    using assms(4) body(2) by (simp add: sm_open_def first_fields [OF hb] first_fields [OF hdr] first_fields [OF plain])
  then have "verify_and_decrypt p ek hk ?wire = Inr \<lparr>uw_sequence_number = s, uw_payload = payload\<rparr>"
    using assms(3) sig(1) by (simp add: verify_and_decrypt_def first_fields [OF wire] sm_hmac_def)
  ultimately show ?thesis using that len(4) by blast
qed

section \<open>Properties\<close>

text \<open>
  A frame that is signed and encrypted opens to exactly the sequence number and payload that were
  put in, for every sequence number (negative ones travel sign-extended), and the envelope adds at
  most 268 bytes.
\<close>

theorem securemessage_roundtrip:
  assumes "cipher_ok p" "hmac_ok p" "length ek = 32" "length iv = 16"
    and "length payload + SM_OVERHEAD < 9223372036854775808"
  shows "\<exists>wire. encrypt_and_sign p ek hk s payload iv = Inr wire \<and> length wire \<le> length payload + SM_OVERHEAD \<and>
    verify_and_decrypt p ek hk wire = Inr \<lparr>uw_sequence_number = s, uw_payload = payload\<rparr>"
  using encrypt_and_sign_ok [OF assms, of hk s] by blast

theorem securemessage_roundtrip_witness:
  "\<exists>wire. encrypt_and_sign sample_prims (replicate 32 1) [2] (- 1) [3, 4] (replicate 16 5) = Inr wire \<and>
     verify_and_decrypt sample_prims (replicate 32 1) [2] wire = Inr \<lparr>uw_sequence_number = - 1, uw_payload = [3, 4]\<rparr>"
  using securemessage_roundtrip [OF sample_prims_ok(2,1), of "replicate 32 1" "replicate 16 5" "[3, 4]"] by fastforce

text \<open>
  C10: verify, then decrypt. Unless the signature on the received bytes is the MAC of the received
  header and body, the message is refused. The refusal is the same whatever the decryption function would
  have done with the ciphertext; and as soon as there are bytes to verify and a signature, it is that of a
  bad signature whatever the bytes are: neither the header, the body and the initialization vector within
  them nor their lengths are looked at, so nothing can be learnt from how reading, decryption or unpadding fails.
\<close>

theorem mac_before_decrypt:
  assumes "hmac_ok p"
    and "\<forall>hb sig. first_bytes msg SM_HEADER_AND_BODY = Inr (Some hb) \<and> first_bytes msg SM_SIGNATURE = Inr (Some sig) \<longrightarrow>
      prim_hmac p hk hb \<noteq> Some sig"
  shows "(\<exists>e. verify_and_decrypt p ek hk msg = Inl e) \<and>
    verify_and_decrypt (p\<lparr>prim_aes_decrypt := f\<rparr>) ek hk msg = verify_and_decrypt p ek hk msg \<and>
    (\<forall>hb sig. length ek = AES_KEY_SIZE \<and> first_bytes msg SM_HEADER_AND_BODY = Inr (Some hb) \<and>
      first_bytes msg SM_SIGNATURE = Inr (Some sig) \<longrightarrow> verify_and_decrypt p ek hk msg = Inl Sm_BadSignature)"
proof (cases "\<exists>hb sig. first_bytes msg SM_HEADER_AND_BODY = Inr (Some hb) \<and> first_bytes msg SM_SIGNATURE = Inr (Some sig)")
  case True
  then obtain hb sig where f: "first_bytes msg SM_HEADER_AND_BODY = Inr (Some hb)" "first_bytes msg SM_SIGNATURE = Inr (Some sig)"
    by blast
  moreover obtain m where m: "prim_hmac p hk hb = Some m" using assms(1) by (metis hmac_ok_def)
  ultimately have "m \<noteq> sig" using assms(2) by auto
  with f m show ?thesis by (auto simp: verify_and_decrypt_def sm_hmac_def)
next
  case False
  then have "\<exists>e. verify_and_decrypt q ek hk msg = Inl e \<and> (\<forall>g. verify_and_decrypt (q\<lparr>prim_aes_decrypt := g\<rparr>) ek hk msg = Inl e)" for q
    by (cases "first_bytes msg SM_HEADER_AND_BODY"; cases "projr (first_bytes msg SM_HEADER_AND_BODY)";
        cases "first_bytes msg SM_SIGNATURE"; cases "projr (first_bytes msg SM_SIGNATURE)") (auto simp: verify_and_decrypt_def)
  with False show ?thesis by metis
qed

text \<open>A message whose signed bytes are garbage and whose signature is wrong: what is reported is the signature.\<close>

theorem mac_before_decrypt_witness:
  "verify_and_decrypt sample_prims (replicate 32 1) [2] (write_msg [w_bytes SM_HEADER_AND_BODY [0xFF], w_bytes SM_SIGNATURE [3]]) =
     Inl Sm_BadSignature"
proof -
  let ?m = "write_msg [w_bytes SM_HEADER_AND_BODY [0xFF], w_bytes SM_SIGNATURE [3]]"
  have f: "first_bytes ?m SM_HEADER_AND_BODY = Inr (Some [0xFF])" "first_bytes ?m SM_SIGNATURE = Inr (Some [3])"
    using first_fields [OF read_msg [OF sm_writes(4)], of "[0xFF]" "[3]"] sm_sizes(4) [of "[0xFF]" "[3]"]
    by (simp_all add: fits_def)
  have "length (the (prim_hmac sample_prims [2] [0xFF])) = 32" "length [3 :: u8] = 1"
    by (simp_all add: sample_prims_def length_fill)
  then have "prim_hmac sample_prims [2] [0xFF] \<noteq> Some [3]" by (metis option.sel num.distinct(1) numeral_eq_one_iff semiring_norm(85))
  with f mac_before_decrypt [OF sample_prims_ok(1), of ?m "[2]" "replicate 32 1" undefined] show ?thesis by simp
qed

end
