(* ===== verification/Channel.thy ===== *)
theory Channel
  imports Secure_Message Machines
begin

text \<open>
  The secure channel, \<^verbatim>\<open>protocol/src/channel.rs\<close>: the session keys, the role, and one 32-bit counter per
  direction. \<open>encrypt\<close> takes what the random source returned for the IV.
\<close>

datatype channel_error = Ch_NotAuthentic | Ch_Sequence i32 i32 | Ch_Crypto

record secure_channel =
  ch_keys :: session_keys
  ch_role :: role
  ch_send_seq :: i32
  ch_recv_seq :: i32

definition channel_new :: "session_keys \<Rightarrow> role \<Rightarrow> secure_channel" where
  "channel_new keys role = \<lparr>ch_keys = keys, ch_role = role, ch_send_seq = 0, ch_recv_seq = 0\<rparr>"

definition channel_encrypt ::
    "'k primitives \<Rightarrow> bytes option \<Rightarrow> bytes \<Rightarrow> secure_channel \<Rightarrow> (channel_error + bytes) \<times> secure_channel" where
  "channel_encrypt p rand payload c =
     (let c = c\<lparr>ch_send_seq := ch_send_seq c + 1\<rparr>;
          (enc, mac) = keys_send (ch_keys c) (ch_role c) in
      (and_then (map_err (\<lambda>_. Ch_Crypto) (random_iv rand)) (\<lambda>iv.
       map_err (\<lambda>_. Ch_Crypto) (encrypt_and_sign p enc mac (ch_send_seq c) payload iv)), c))"

definition channel_decrypt ::
    "'k primitives \<Rightarrow> bytes \<Rightarrow> secure_channel \<Rightarrow> (channel_error + bytes) \<times> secure_channel" where
  "channel_decrypt p wire c =
     (let (enc, mac) = keys_recv (ch_keys c) (ch_role c) in
      case verify_and_decrypt p enc mac wire of
        Inl _ \<Rightarrow> (Inl Ch_NotAuthentic, c)
      | Inr out \<Rightarrow>
          let expected = ch_recv_seq c + 1 in
          if uw_sequence_number out \<noteq> expected then
            (Inl (Ch_Sequence expected (uw_sequence_number out)), c)
          else (Inr (uw_payload out), c\<lparr>ch_recv_seq := expected\<rparr>))"

definition channel_counters :: "secure_channel \<Rightarrow> i32 \<times> i32" where
  "channel_counters c = (ch_send_seq c, ch_recv_seq c)"

section \<open>Streams of frames\<close>

text \<open>
  Sending a list of frames, each with its own IV, and receiving a list of wire messages: the caller
  stops at the first error, as the daemon's read and write loops do.
\<close>

fun send_all ::
    "'k primitives \<Rightarrow> (bytes option \<times> bytes) list \<Rightarrow> secure_channel \<Rightarrow> (channel_error + bytes list) \<times> secure_channel" where
  "send_all p [] c = (Inr [], c)"
| "send_all p ((rand, m) # ms) c =
     (case channel_encrypt p rand m c of
        (Inl e, c') \<Rightarrow> (Inl e, c')
      | (Inr w, c') \<Rightarrow> (case send_all p ms c' of (r, c'') \<Rightarrow> (and_then r (\<lambda>ws. Inr (w # ws)), c'')))"

fun recv_all ::
    "'k primitives \<Rightarrow> bytes list \<Rightarrow> secure_channel \<Rightarrow> (channel_error + bytes list) \<times> secure_channel" where
  "recv_all p [] c = (Inr [], c)"
| "recv_all p (w # ws) c =
     (case channel_decrypt p w c of
        (Inl e, c') \<Rightarrow> (Inl e, c')
      | (Inr m, c') \<Rightarrow> (case recv_all p ws c' of (r, c'') \<Rightarrow> (and_then r (\<lambda>ms. Inr (m # ms)), c'')))"

text \<open>Receiver \<open>d\<close> is in step with sender \<open>c\<close>: same session, opposite roles, same count.\<close>

definition in_step :: "secure_channel \<Rightarrow> secure_channel \<Rightarrow> bool" where
  "in_step c d \<longleftrightarrow> ch_keys c = ch_keys d \<and> keys_ok (ch_keys c) \<and> ch_role c \<noteq> ch_role d \<and> ch_send_seq c = ch_recv_seq d"

definition frame_fits :: "bytes option \<times> bytes \<Rightarrow> bool" where
  "frame_fits m \<longleftrightarrow> (case fst m of Some iv \<Rightarrow> length iv = IV_SIZE | None \<Rightarrow> False) \<and>
     length (snd m) + SM_OVERHEAD < 9223372036854775808"

lemma in_step_keys:
  assumes "in_step c d"
  shows "keys_recv (ch_keys d) (ch_role d) = keys_send (ch_keys c) (ch_role c)"
    "length (fst (keys_send (ch_keys c) (ch_role c))) = 32"
  using assms by (cases "ch_role c"; cases "ch_role d"; simp add: in_step_def keys_ok_def)+

lemma one_frame:
  assumes "cipher_ok p" "hmac_ok p" "in_step c d" "frame_fits (rand, m)"
  shows "\<exists>w c' d'. channel_encrypt p rand m c = (Inr w, c') \<and> channel_decrypt p w d = (Inr m, d') \<and>
    in_step c' d' \<and> length w \<le> length m + SM_OVERHEAD"
proof -
  obtain iv where iv: "rand = Some iv" "length iv = 16" "length m + SM_OVERHEAD < 9223372036854775808"
    using assms(4) by (auto simp: frame_fits_def split: option.splits)
  obtain enc mac where k: "keys_send (ch_keys c) (ch_role c) = (enc, mac)" by fastforce
  have enc: "length enc = 32" using in_step_keys(2) [OF assms(3)] k by simp
  obtain w where w: "encrypt_and_sign p enc mac (ch_send_seq c + 1) m iv = Inr w" "length w \<le> length m + SM_OVERHEAD"
    "verify_and_decrypt p enc mac w = Inr \<lparr>uw_sequence_number = ch_send_seq c + 1, uw_payload = m\<rparr>"
    using encrypt_and_sign_ok [OF assms(1,2) enc iv(2,3), where hk = mac and s = "ch_send_seq c + 1"] by blast
  have "channel_encrypt p rand m c = (Inr w, c\<lparr>ch_send_seq := ch_send_seq c + 1\<rparr>)"
    using w(1) k iv(1) by (simp add: channel_encrypt_def random_iv_def)
  moreover have "channel_decrypt p w d = (Inr m, d\<lparr>ch_recv_seq := ch_send_seq c + 1\<rparr>)"
    using w(3) k assms(3) in_step_keys(1) [OF assms(3)] by (simp add: channel_decrypt_def in_step_def)
  moreover have "in_step (c\<lparr>ch_send_seq := ch_send_seq c + 1\<rparr>) (d\<lparr>ch_recv_seq := ch_send_seq c + 1\<rparr>)"
    using assms(3) by (auto simp: in_step_def)
  ultimately show ?thesis using w(2) by blast
qed

lemma stream_of_frames:
  assumes "cipher_ok p" "hmac_ok p" "in_step c d" "list_all frame_fits ms"
  shows "\<exists>ws c' d'. send_all p ms c = (Inr ws, c') \<and> recv_all p ws d = (Inr (map snd ms), d') \<and> in_step c' d' \<and>
    list_all2 (\<lambda>w m. length w \<le> length (snd m) + SM_OVERHEAD) ws ms"
  using assms(3,4)
proof (induction ms arbitrary: c d)
  case Nil
  then show ?case by auto
next
  case (Cons x ms)
  obtain rand m where x: "x = (rand, m)" by fastforce
  from one_frame [OF assms(1,2) Cons.prems(1), of rand m] Cons.prems(2) x
  obtain w c1 d1 where w: "channel_encrypt p rand m c = (Inr w, c1)" "channel_decrypt p w d = (Inr m, d1)" "in_step c1 d1"
      "length w \<le> length m + SM_OVERHEAD" by auto
  from Cons.IH [OF w(3)] Cons.prems(2) obtain ws c' d' where
    "send_all p ms c1 = (Inr ws, c')" "recv_all p ws d1 = (Inr (map snd ms), d')" "in_step c' d'"
    "list_all2 (\<lambda>w m. length w \<le> length (snd m) + SM_OVERHEAD) ws ms" by auto
  with w x show ?case by auto
qed

section \<open>Replay\<close>

definition recv_step :: "'k primitives \<Rightarrow> secure_channel \<Rightarrow> bytes \<Rightarrow> secure_channel \<times> (channel_error + bytes) list" where
  "recv_step p c w = (let (r, c') = channel_decrypt p w c in (c', [r]))"

definition accepted :: "(channel_error + bytes) list \<Rightarrow> nat" where
  "accepted rs = length (filter (\<lambda>r. \<not> isl r) rs)"

lemma channel_decrypt_cases:
  assumes "channel_decrypt p w c = (r, c')"
  obtains e where "r = Inl e" "c' = c"
  | out where "r = Inr (uw_payload out)" "c' = c\<lparr>ch_recv_seq := ch_recv_seq c + 1\<rparr>"
      "verify_and_decrypt p (fst (keys_recv (ch_keys c) (ch_role c))) (snd (keys_recv (ch_keys c) (ch_role c))) w = Inr out"
      "uw_sequence_number out = ch_recv_seq c + 1"
  using assms by (auto simp: channel_decrypt_def Let_def split: prod.splits sum.splits if_splits)

lemma recv_run:
  "run (recv_step p) c ws = (c', rs) \<Longrightarrow>
     ch_keys c' = ch_keys c \<and> ch_role c' = ch_role c \<and> ch_send_seq c' = ch_send_seq c \<and>
     ch_recv_seq c' = ch_recv_seq c + word_of_nat (accepted rs)"
proof (induction ws arbitrary: c rs)
  case Nil
  then show ?case by (simp add: accepted_def)
next
  case (Cons w ws)
  obtain r c1 where d: "channel_decrypt p w c = (r, c1)" by fastforce
  then have "recv_step p c w = (c1, [r])" by (simp add: recv_step_def)
  then obtain rs' where rs: "run (recv_step p) c1 ws = (c', rs')" "rs = r # rs'"
    using Cons.prems by (auto split: prod.splits)
  from d show ?case
    by (rule channel_decrypt_cases) (use Cons.IH [OF rs(1)] rs(2) in \<open>auto simp: accepted_def\<close>)
qed

section \<open>Properties\<close>

text \<open>
  A channel delivers. Every sequence of frames one end encrypts, with any IVs, is decrypted by the
  other end to the same frames in the same order, and the two ends stay in step for what follows; the
  counters wrap together, so this holds for streams of any length.
\<close>

theorem channel_delivers:
  assumes "cipher_ok p" "hmac_ok p" "in_step c d" "list_all frame_fits ms"
  shows "\<exists>ws c' d'. send_all p ms c = (Inr ws, c') \<and> recv_all p ws d = (Inr (map snd ms), d') \<and> in_step c' d'"
  using stream_of_frames [OF assms] by blast

definition sample_keys :: session_keys where
  "sample_keys = \<lparr>client_encrypt = replicate 32 1, client_hmac = replicate 32 2, server_encrypt = replicate 32 3,
     server_hmac = replicate 32 4\<rparr>"

lemma sample_in_step: "in_step (channel_new sample_keys Role_Client) (channel_new sample_keys Role_Server)"
  by (simp add: in_step_def channel_new_def sample_keys_def keys_ok_def)

theorem channel_delivers_witness:
  "\<exists>ws c' d'. send_all sample_prims [(Some (replicate 16 0), [7]), (Some (replicate 16 9), [])] (channel_new sample_keys Role_Client) = (Inr ws, c') \<and>
     recv_all sample_prims ws (channel_new sample_keys Role_Server) = (Inr [[7], []], d')"
  using channel_delivers [OF sample_prims_ok(2,1) sample_in_step,
      of "[(Some (replicate 16 0), [7]), (Some (replicate 16 9), [])]"]
  by (auto simp: frame_fits_def)

text \<open>
  C9: no replay. A frame the channel has accepted is not accepted again, wherever it is presented
  among later traffic, valid or not, as long as fewer than 2^32 - 1 frames have been accepted since;
  the refusal names both sequence numbers and leaves the channel exactly as it was.
\<close>

theorem channel_no_replay:
  assumes "channel_decrypt p w c = (Inr m, c1)" "run (recv_step p) c1 ws = (c2, rs)" "accepted rs < 4294967295"
  shows "channel_decrypt p w c2 = (Inl (Ch_Sequence (ch_recv_seq c2 + 1) (ch_recv_seq c + 1)), c2)"
  using assms(1)
proof (rule channel_decrypt_cases)
  fix out
  assume out: "c1 = c\<lparr>ch_recv_seq := ch_recv_seq c + 1\<rparr>"
    "verify_and_decrypt p (fst (keys_recv (ch_keys c) (ch_role c))) (snd (keys_recv (ch_keys c) (ch_role c))) w = Inr out"
    "uw_sequence_number out = ch_recv_seq c + 1"
  have c2: "ch_keys c2 = ch_keys c" "ch_role c2 = ch_role c"
      "ch_recv_seq c2 = ch_recv_seq c + 1 + word_of_nat (accepted rs)"
    using recv_run [OF assms(2)] out(1) by simp_all
  have "(word_of_nat (Suc (accepted rs)) :: i32) \<noteq> 0"
    using assms(3) by (simp add: word_unat_eq_iff unsigned_of_nat take_bit_nat_eq_self del: of_nat_Suc)
  then have "ch_recv_seq c + 1 \<noteq> ch_recv_seq c2 + 1"
    by (simp add: c2(3) algebra_simps)
  moreover obtain enc mac where "keys_recv (ch_keys c) (ch_role c) = (enc, mac)" by fastforce
  ultimately show ?thesis
    using out(2,3) c2(1,2) by (simp add: channel_decrypt_def Let_def)
qed simp

theorem channel_no_replay_witness:
  "\<exists>w c1. channel_decrypt sample_prims w (channel_new sample_keys Role_Server) = (Inr [7], c1) \<and>
     channel_decrypt sample_prims w c1 = (Inl (Ch_Sequence 2 1), c1)"
proof -
  have "frame_fits (Some (replicate 16 0), [7])" by (simp add: frame_fits_def)
  from one_frame [OF sample_prims_ok(2,1) sample_in_step this] obtain w c1 where
    w: "channel_decrypt sample_prims w (channel_new sample_keys Role_Server) = (Inr [7], c1)" by blast
  then have "ch_recv_seq c1 = 1"
    by (rule channel_decrypt_cases) (simp_all add: channel_new_def)
  with channel_no_replay [OF w, of "[]" c1 "[]"] w show ?thesis
    by (auto simp: accepted_def channel_new_def)
qed

text \<open>
  C16: in order or not at all. A message is accepted only when its authenticated sequence number is one
  more than the last accepted one, and then the counter moves by exactly one; anything else, forged,
  repeated or out of order, leaves the channel unchanged.
\<close>

theorem channel_in_order:
  assumes "channel_decrypt p w c = (r, c')"
  shows "(\<exists>e. r = Inl e \<and> c' = c) \<or>
    (\<exists>out. r = Inr (uw_payload out) \<and> c' = c\<lparr>ch_recv_seq := ch_recv_seq c + 1\<rparr> \<and>
       verify_and_decrypt p (fst (keys_recv (ch_keys c) (ch_role c))) (snd (keys_recv (ch_keys c) (ch_role c))) w = Inr out \<and>
       uw_sequence_number out = ch_recv_seq c + 1)"
  using assms by (rule channel_decrypt_cases) blast+

theorem channel_in_order_witness:
  "snd (channel_decrypt sample_prims [] (channel_new sample_keys Role_Server)) = channel_new sample_keys Role_Server"
proof -
  have "fst (channel_decrypt sample_prims [] (channel_new sample_keys Role_Server)) = Inl Ch_NotAuthentic"
    by (simp add: channel_decrypt_def verify_and_decrypt_def first_bytes_def for_fields.simps next_field.simps
        reader_new_def channel_new_def sample_keys_def)
  with channel_in_order [OF prod.collapse [symmetric], of sample_prims "[]" "channel_new sample_keys Role_Server"]
  show ?thesis by simp
qed

end
