(* ===== verification/Pin.thy ===== *)
theory Pin
  imports Rust_Std
begin

text \<open>
  The confirmation PIN, \<^verbatim>\<open>protocol/src/pin.rs\<close>. The arithmetic is on \<open>i32\<close> with truncating remainder:
  the model computes on integers and wraps products to 32 bits where the source says \<open>wrapping_mul\<close>;
  the sum is a checked addition, so leaving the 32-bit range there is the value \<open>None\<close> (a panic).
\<close>

abbreviation PIN_MODULUS :: int where "PIN_MODULUS \<equiv> 9973"
abbreviation MULTIPLIER_STEP :: int where "MULTIPLIER_STEP \<equiv> 31"
abbreviation PIN_DIGITS :: nat where "PIN_DIGITS \<equiv> 4"

text \<open>Rust's \<open>%\<close> takes the sign of the dividend; \<open>wrap_i32\<close> is two's-complement wrap-around.\<close>

definition rust_rem :: "int \<Rightarrow> int \<Rightarrow> int" where
  "rust_rem a b = sgn a * (\<bar>a\<bar> mod \<bar>b\<bar>)"

definition wrap_i32 :: "int \<Rightarrow> int" where
  "wrap_i32 a = sint (word_of_int a :: i32)"

definition checked_add_i32 :: "int \<Rightarrow> int \<Rightarrow> int option" where
  "checked_add_i32 a b = (if - 2147483648 \<le> a + b \<and> a + b < 2147483648 then Some (a + b) else None)"

definition pin_step :: "int \<times> int \<Rightarrow> u8 \<Rightarrow> (int \<times> int) option" where
  "pin_step s b =
     (case s of (hash, multiplier) \<Rightarrow>
       map_option
         (\<lambda>h. (rust_rem h PIN_MODULUS, rust_rem (wrap_i32 (multiplier * MULTIPLIER_STEP)) PIN_MODULUS))
         (checked_add_i32 hash (wrap_i32 (sint b * multiplier))))"

text \<open>\<open>format!("{:04}", n)\<close> for a natural number.\<close>

fun decimal :: "nat \<Rightarrow> rstring" where
  "decimal n = (if n < 10 then [word_of_nat (48 + n)] else decimal (n div 10) @ [word_of_nat (48 + n mod 10)])"

declare decimal.simps [simp del]

definition zero_padded :: "nat \<Rightarrow> nat \<Rightarrow> rstring" where
  "zero_padded width n = replicate (width - length (decimal n)) 48 @ decimal n"

fun pin_loop :: "int \<times> int \<Rightarrow> bytes \<Rightarrow> (int \<times> int) option" where
  "pin_loop s [] = Some s"
| "pin_loop s (b # bs) = Option.bind (pin_step s b) (\<lambda>s'. pin_loop s' bs)"

definition pin_derive :: "bytes \<Rightarrow> rstring option" where
  "pin_derive auth = map_option (\<lambda>(hash, m). zero_padded PIN_DIGITS (nat \<bar>hash\<bar>)) (pin_loop (0, 1) auth)"

section \<open>The loop stays in range\<close>

definition pin_inv :: "int \<times> int \<Rightarrow> bool" where
  "pin_inv s \<longleftrightarrow> \<bar>fst s\<bar> < PIN_MODULUS \<and> 0 \<le> snd s \<and> snd s < PIN_MODULUS"

lemma rust_rem_bound: "0 < b \<Longrightarrow> \<bar>rust_rem a b\<bar> < b"
  by (auto simp: rust_rem_def abs_mult sgn_if)

lemma rust_rem_nonneg: "0 \<le> a \<Longrightarrow> 0 < b \<Longrightarrow> rust_rem a b = a mod b"
  by (auto simp: rust_rem_def sgn_if)

lemma wrap_i32_id: "- 2147483648 \<le> a \<Longrightarrow> a < 2147483648 \<Longrightarrow> wrap_i32 a = a"
  by (simp add: wrap_i32_def signed_of_int signed_take_bit_int_eq_self)

lemma sint_u8_range: "- 128 \<le> sint (b :: u8) \<and> sint b < 128"
  using sint_ge [of b] sint_lt [of b] by simp

text \<open>The reference definition: no wrap-around and no panic anywhere.\<close>

definition pin_pure :: "int \<times> int \<Rightarrow> u8 \<Rightarrow> int \<times> int" where
  "pin_pure s b = (rust_rem (fst s + sint b * snd s) PIN_MODULUS, (snd s * MULTIPLIER_STEP) mod PIN_MODULUS)"

lemma pin_step_pure:
  assumes "pin_inv s"
  shows "pin_step s b = Some (pin_pure s b)" "pin_inv (pin_pure s b)"
proof -
  obtain h m where s: "s = (h, m)" by fastforce
  have r: "\<bar>h\<bar> < 9973" "0 \<le> m" "m < 9973" using assms s by (simp_all add: pin_inv_def)
  have "\<bar>sint b\<bar> * m \<le> 128 * 9973"
    using sint_u8_range [of b] r(2,3) by (intro mult_mono) auto
  then have "\<bar>sint b * m\<bar> \<le> 1276544" using r(2) by (simp add: abs_mult)
  then have p: "- 1276544 \<le> sint b * m" "sint b * m \<le> 1276544" by linarith+
  then have w: "wrap_i32 (sint b * m) = sint b * m" by (intro wrap_i32_id) linarith+
  have w2: "wrap_i32 (m * 31) = m * 31" using r by (intro wrap_i32_id) linarith+
  have "checked_add_i32 h (sint b * m) = Some (h + sint b * m)"
    using p r(1) by (simp add: checked_add_i32_def) linarith
  then show "pin_step s b = Some (pin_pure s b)"
    using r(2) by (simp add: s pin_step_def pin_pure_def w w2 rust_rem_nonneg)
  show "pin_inv (pin_pure s b)"
    by (simp add: pin_inv_def pin_pure_def rust_rem_bound)
qed

lemma pin_loop_pure: "pin_inv s \<Longrightarrow> pin_loop s bs = Some (foldl pin_pure s bs) \<and> pin_inv (foldl pin_pure s bs)"
  by (induction bs arbitrary: s) (simp_all add: pin_step_pure)

definition ascii_digit :: "u8 \<Rightarrow> bool" where
  "ascii_digit b \<longleftrightarrow> 48 \<le> b \<and> b \<le> 57"

lemma ascii_digit_of [simplified, simp]: "n < 10 \<Longrightarrow> ascii_digit (word_of_nat (48 + n))"
  by (simp add: ascii_digit_def word_le_nat_alt unsigned_of_nat take_bit_nat_eq_self del: of_nat_add)

lemma decimal_digits: "list_all ascii_digit (decimal n) \<and> (n < 10 ^ Suc k \<longrightarrow> length (decimal n) \<le> Suc k)"
proof (induction n arbitrary: k rule: decimal.induct)
  case (1 n)
  show ?case
  proof (cases "n < 10")
    case True
    then show ?thesis by (simp add: decimal.simps [of n])
  next
    case False
    note IH = 1 [OF False]
    have "length (decimal (n div 10)) \<le> k" if "n < 10 ^ Suc k"
    proof (cases k)
      case 0
      with that False show ?thesis by simp
    next
      case (Suc j)
      with that have "n div 10 < 10 ^ Suc j" by (simp add: less_mult_imp_div_less)
      with IH [of j] Suc show ?thesis by simp
    qed
    with IH [of 0] False show ?thesis by (simp add: decimal.simps [of n])
  qed
qed

lemma pin_derive_digits:
  "\<exists>s. pin_derive auth = Some s \<and> length s = 4 \<and> list_all ascii_digit s \<and>
     s = zero_padded 4 (nat \<bar>fst (foldl pin_pure (0, 1) auth)\<bar>)"
proof -
  let ?h = "fst (foldl pin_pure (0, 1) auth)"
  have r: "pin_loop (0, 1) auth = Some (foldl pin_pure (0, 1) auth)" "\<bar>?h\<bar> < 9973"
    using pin_loop_pure [of "(0, 1)" auth] by (auto simp: pin_inv_def)
  then have "nat \<bar>?h\<bar> < 10 ^ Suc 3" by simp
  with decimal_digits [of "nat \<bar>?h\<bar>" 3] have d: "length (decimal (nat \<bar>?h\<bar>)) \<le> 4" "list_all ascii_digit (decimal (nat \<bar>?h\<bar>))"
    by auto
  have "length (zero_padded 4 (nat \<bar>?h\<bar>)) = 4" "list_all ascii_digit (zero_padded 4 (nat \<bar>?h\<bar>))"
    using d by (auto simp: zero_padded_def list_all_iff ascii_digit_def)
  moreover have "pin_derive auth = Some (zero_padded 4 (nat \<bar>?h\<bar>))"
    using r(1) by (simp add: pin_derive_def case_prod_beta)
  ultimately show ?thesis by blast
qed

section \<open>Properties\<close>

text \<open>
  The PIN is always four ASCII digits, for every authentication string: no step of the loop
  wraps around or overflows, and the remainder keeps the result below 10000.
\<close>

theorem pin_four_digits:
  "\<exists>s. pin_derive auth = Some s \<and> length s = 4 \<and> list_all ascii_digit s \<and>
     s = zero_padded 4 (nat \<bar>fst (foldl pin_pure (0, 1) auth)\<bar>)"
  by (rule pin_derive_digits)

end
