(* ===== verification/Ukey2.thy ===== *)
theory Ukey2
  imports Secure_Message
begin

text \<open>
  The UKEY2 handshake, \<^verbatim>\<open>protocol/src/ukey2/crypto.rs\<close> and \<^verbatim>\<open>protocol/src/ukey2/handshake.rs\<close>. A private
  key is a value of the primitives' key type; the result of \<open>EcKey::generate\<close> and of \<open>rand_bytes\<close> is an
  argument of the step that draws it. A decoded public key is its pair of affine coordinates; the
  three curve checks of \<open>decode_public_key\<close> are the one test \<open>prim_on_curve\<close>. Reading the coordinates of a
  key of our own does not fail.
\<close>

section \<open>Keys: ukey2/crypto.rs\<close>

abbreviation GPK_TYPE :: u32 where "GPK_TYPE \<equiv> 1"
abbreviation GPK_EC_P256_PUBLIC_KEY :: u32 where "GPK_EC_P256_PUBLIC_KEY \<equiv> 2"
abbreviation EC_X :: u32 where "EC_X \<equiv> 1"
abbreviation EC_Y :: u32 where "EC_Y \<equiv> 2"
abbreviation PUBLIC_KEY_TYPE_EC_P256 :: u64 where "PUBLIC_KEY_TYPE_EC_P256 \<equiv> 1"

datatype ukey2_error = Uk_NotOnCurve | Uk_Malformed string | Uk_Protobuf pb_error | Uk_Crypto

definition generate_keypair :: "'k option \<Rightarrow> ukey2_error + 'k" where
  "generate_keypair key = ok_or Uk_Crypto key"

definition magnitude :: "bytes \<Rightarrow> bytes" where
  "magnitude v = dropWhile (\<lambda>b. b = 0) v"

definition shared_secret :: "'k primitives \<Rightarrow> 'k \<Rightarrow> nat \<times> nat \<Rightarrow> ukey2_error + bytes" where
  "shared_secret p ours peer =
     and_then (ok_or Uk_Crypto (prim_ecdh p ours peer)) (\<lambda>x. ok_or Uk_Crypto (prim_sha256 p x))"

definition ukey2_sha512 :: "'k primitives \<Rightarrow> bytes \<Rightarrow> ukey2_error + bytes" where
  "ukey2_sha512 p data = ok_or Uk_Crypto (prim_sha512 p data)"

definition twos_complement :: "'k primitives \<Rightarrow> nat \<Rightarrow> bytes" where
  "twos_complement p n =
     (let v = prim_bn_to_vec p n in
      case v of [] \<Rightarrow> v | b # _ \<Rightarrow> if b AND 0x80 \<noteq> 0 then 0 # v else v)"

definition encode_public_key :: "'k primitives \<Rightarrow> 'k \<Rightarrow> bytes" where
  "encode_public_key p key =
     (let (x, y) = prim_public p key;
          ec = write_msg [w_bytes EC_X (twos_complement p x), w_bytes EC_Y (twos_complement p y)]
      in write_msg [w_varint GPK_TYPE PUBLIC_KEY_TYPE_EC_P256, w_bytes GPK_EC_P256_PUBLIC_KEY ec])"

abbreviation (input) uk_bytes :: "bytes \<Rightarrow> u32 \<Rightarrow> ukey2_error + bytes option" where
  "uk_bytes b n \<equiv> map_err Uk_Protobuf (first_bytes b n)"

definition decode_public_key :: "'k primitives \<Rightarrow> bytes \<Rightarrow> ukey2_error + nat \<times> nat" where
  "decode_public_key p bs =
     and_then (and_then (uk_bytes bs GPK_EC_P256_PUBLIC_KEY) (ok_or (Uk_Malformed ''no ec_p256_public_key''))) (\<lambda>ec.
     and_then (and_then (uk_bytes ec EC_X) (ok_or (Uk_Malformed ''no x''))) (\<lambda>x.
     and_then (and_then (uk_bytes ec EC_Y) (ok_or (Uk_Malformed ''no y''))) (\<lambda>y.
     and_then (ok_or Uk_Crypto (prim_bn_from_slice p (magnitude x))) (\<lambda>x.
     and_then (ok_or Uk_Crypto (prim_bn_from_slice p (magnitude y))) (\<lambda>y.
     if \<not> prim_on_curve p (x, y) then Inl Uk_NotOnCurve else Inr (x, y))))))"

section \<open>Messages: ukey2/handshake.rs\<close>

abbreviation PROTOCOL_VERSION :: u64 where "PROTOCOL_VERSION \<equiv> 1"
abbreviation RANDOM_SIZE :: nat where "RANDOM_SIZE \<equiv> 32"
definition NEXT_PROTOCOL :: bytes where "NEXT_PROTOCOL = str ''AES_256_CBC-HMAC_SHA256''"
abbreviation CIPHER_P256_SHA512 :: u64 where "CIPHER_P256_SHA512 \<equiv> 100"

abbreviation TYPE_ALERT :: u64 where "TYPE_ALERT \<equiv> 1"
abbreviation TYPE_CLIENT_INIT :: u64 where "TYPE_CLIENT_INIT \<equiv> 2"
abbreviation TYPE_SERVER_INIT :: u64 where "TYPE_SERVER_INIT \<equiv> 3"
abbreviation TYPE_CLIENT_FINISH :: u64 where "TYPE_CLIENT_FINISH \<equiv> 4"
abbreviation MSG_TYPE :: u32 where "MSG_TYPE \<equiv> 1"
abbreviation MSG_DATA :: u32 where "MSG_DATA \<equiv> 2"
abbreviation CI_VERSION :: u32 where "CI_VERSION \<equiv> 1"
abbreviation CI_RANDOM :: u32 where "CI_RANDOM \<equiv> 2"
abbreviation CI_COMMITMENTS :: u32 where "CI_COMMITMENTS \<equiv> 3"
abbreviation CI_NEXT_PROTOCOL :: u32 where "CI_NEXT_PROTOCOL \<equiv> 4"
abbreviation CC_CIPHER :: u32 where "CC_CIPHER \<equiv> 1"
abbreviation CC_COMMITMENT :: u32 where "CC_COMMITMENT \<equiv> 2"
abbreviation SI_VERSION :: u32 where "SI_VERSION \<equiv> 1"
abbreviation SI_RANDOM :: u32 where "SI_RANDOM \<equiv> 2"
abbreviation SI_CIPHER :: u32 where "SI_CIPHER \<equiv> 3"
abbreviation SI_PUBLIC_KEY :: u32 where "SI_PUBLIC_KEY \<equiv> 4"
abbreviation CF_PUBLIC_KEY :: u32 where "CF_PUBLIC_KEY \<equiv> 1"
abbreviation AL_TYPE :: u32 where "AL_TYPE \<equiv> 1"
abbreviation AL_MESSAGE :: u32 where "AL_MESSAGE \<equiv> 2"

datatype alert_kind =
    BadMessage | BadMessageType | IncorrectMessage | BadMessageData | BadVersion | BadRandom
  | BadHandshakeCipher | BadNextProtocol | BadPublicKey | InternalError

fun alert_num :: "alert_kind \<Rightarrow> u64" where
  "alert_num BadMessage = 1"
| "alert_num BadMessageType = 2"
| "alert_num IncorrectMessage = 3"
| "alert_num BadMessageData = 4"
| "alert_num BadVersion = 100"
| "alert_num BadRandom = 101"
| "alert_num BadHandshakeCipher = 102"
| "alert_num BadNextProtocol = 103"
| "alert_num BadPublicKey = 104"
| "alert_num InternalError = 200"

record handshake_result =
  hr_dhs :: bytes
  hr_client_init_msg :: bytes
  hr_server_init_msg :: bytes

definition ukey2_wrap :: "u64 \<Rightarrow> bytes \<Rightarrow> bytes" where
  "ukey2_wrap msg_type data = write_msg [w_varint MSG_TYPE msg_type, w_bytes MSG_DATA data]"

definition unwrap_field :: "u64 option \<times> bytes option \<Rightarrow> pb_field \<Rightarrow> ukey2_error + u64 option \<times> bytes option" where
  "unwrap_field acc f =
     (case acc of (ty, data) \<Rightarrow> Inr
       (case f of
          Varint n v \<Rightarrow> if n = MSG_TYPE then (Some v, data) else acc
        | Bytes n b \<Rightarrow> if n = MSG_DATA then (ty, Some b) else acc))"

definition ukey2_unwrap :: "bytes \<Rightarrow> u64 \<Rightarrow> ukey2_error + bytes" where
  "ukey2_unwrap bs expect =
     and_then (for_fields Uk_Protobuf unwrap_field (None, None) (reader_new bs)) (\<lambda>(ty, data).
     case ty of
       None \<Rightarrow> Inl (Uk_Malformed ''no message_type'')
     | Some t \<Rightarrow>
         if t = expect then ok_or (Uk_Malformed ''no message_data'') data
         else if t = TYPE_ALERT then Inl (Uk_Malformed ''peer sent an alert'')
         else Inl (Uk_Malformed ''unexpected message type''))"

definition ukey2_alert :: "alert_kind \<Rightarrow> rstring \<Rightarrow> bytes" where
  "ukey2_alert kind message =
     ukey2_wrap TYPE_ALERT (write_msg [w_varint AL_TYPE (alert_num kind), w_bytes AL_MESSAGE message])"

definition ukey2_client_init :: "bytes \<Rightarrow> bytes \<Rightarrow> bytes" where
  "ukey2_client_init random commitment =
     (let cc = write_msg [w_varint CC_CIPHER CIPHER_P256_SHA512, w_bytes CC_COMMITMENT commitment]
      in ukey2_wrap TYPE_CLIENT_INIT
           (write_msg
             [w_varint CI_VERSION PROTOCOL_VERSION, w_bytes CI_RANDOM random, w_bytes CI_COMMITMENTS cc,
              w_bytes CI_NEXT_PROTOCOL NEXT_PROTOCOL]))"

definition ukey2_server_init :: "bytes \<Rightarrow> bytes \<Rightarrow> bytes" where
  "ukey2_server_init random public_key =
     ukey2_wrap TYPE_SERVER_INIT
       (write_msg
         [w_varint SI_VERSION PROTOCOL_VERSION, w_bytes SI_RANDOM random,
          w_varint SI_CIPHER CIPHER_P256_SHA512, w_bytes SI_PUBLIC_KEY public_key])"

definition ukey2_client_finished :: "bytes \<Rightarrow> bytes" where
  "ukey2_client_finished public_key = ukey2_wrap TYPE_CLIENT_FINISH (write_msg [w_bytes CF_PUBLIC_KEY public_key])"

definition random_bytes :: "bytes option \<Rightarrow> ukey2_error + bytes" where
  "random_bytes rand = ok_or Uk_Crypto rand"

section \<open>The two sides\<close>

record 'k client_handshake =
  chs_key :: 'k
  chs_client_finished_msg :: bytes
  chs_client_init_msg :: bytes

definition client_start ::
    "'k primitives \<Rightarrow> 'k option \<Rightarrow> bytes option \<Rightarrow> ukey2_error + 'k client_handshake \<times> bytes" where
  "client_start p gen rand =
     and_then (generate_keypair gen) (\<lambda>key.
     let client_finished_msg = ukey2_client_finished (encode_public_key p key) in
     and_then (ukey2_sha512 p client_finished_msg) (\<lambda>commitment.
     and_then (random_bytes rand) (\<lambda>random.
     let client_init_msg = ukey2_client_init random commitment in
     Inr (\<lparr>chs_key = key, chs_client_finished_msg = client_finished_msg, chs_client_init_msg = client_init_msg\<rparr>,
          client_init_msg))))"

definition server_init_field ::
    "u64 option \<times> bytes option \<times> u64 option \<times> bytes option \<Rightarrow> pb_field \<Rightarrow>
     ukey2_error + u64 option \<times> bytes option \<times> u64 option \<times> bytes option" where
  "server_init_field acc f =
     (case acc of (version, random, cipher, public_key) \<Rightarrow> Inr
       (case f of
          Varint n v \<Rightarrow>
            if n = SI_VERSION then (Some v, random, cipher, public_key)
            else if n = SI_CIPHER then (version, random, Some v, public_key) else acc
        | Bytes n b \<Rightarrow>
            if n = SI_RANDOM then (version, Some b, cipher, public_key)
            else if n = SI_PUBLIC_KEY then (version, random, cipher, Some b) else acc))"

definition random_ok :: "bytes option \<Rightarrow> bool" where
  "random_ok random \<longleftrightarrow> (case random of Some r \<Rightarrow> length r = RANDOM_SIZE | None \<Rightarrow> False)"

definition handle_server_init ::
    "'k primitives \<Rightarrow> 'k client_handshake \<Rightarrow> bytes \<Rightarrow> ukey2_error + bytes \<times> handshake_result" where
  "handle_server_init p c server_init_msg =
     and_then (ukey2_unwrap server_init_msg TYPE_SERVER_INIT) (\<lambda>body.
     and_then (for_fields Uk_Protobuf server_init_field (None, None, None, None) (reader_new body))
       (\<lambda>(version, random, cipher, public_key).
     if version \<noteq> Some PROTOCOL_VERSION then Inl (Uk_Malformed ''server version is not 1'')
     else if \<not> random_ok random then Inl (Uk_Malformed ''server random is not 32 bytes'')
     else if cipher \<noteq> Some CIPHER_P256_SHA512 then Inl (Uk_Malformed ''server chose a cipher we did not offer'')
     else and_then (ok_or (Uk_Malformed ''no server public_key'') public_key) (\<lambda>public_key.
     and_then (decode_public_key p public_key) (\<lambda>peer.
     and_then (shared_secret p (chs_key c) peer) (\<lambda>dhs.
     Inr (chs_client_finished_msg c,
          \<lparr>hr_dhs = dhs, hr_client_init_msg = chs_client_init_msg c, hr_server_init_msg = server_init_msg\<rparr>))))))"

record 'k server_handshake =
  shs_key :: 'k
  shs_commitment :: bytes
  shs_client_init_msg :: bytes
  shs_server_init_msg :: bytes

definition commitment_field ::
    "u64 option \<times> bytes option \<Rightarrow> pb_field \<Rightarrow> ukey2_error + u64 option \<times> bytes option" where
  "commitment_field acc f =
     (case acc of (cipher, commitment) \<Rightarrow> Inr
       (case f of
          Varint n v \<Rightarrow> if n = CC_CIPHER then (Some v, commitment) else acc
        | Bytes n b \<Rightarrow> if n = CC_COMMITMENT then (cipher, Some b) else acc))"

definition cipher_commitment :: "bytes \<Rightarrow> ukey2_error + bytes option" where
  "cipher_commitment bs =
     and_then (for_fields Uk_Protobuf commitment_field (None, None) (reader_new bs)) (\<lambda>(cipher, commitment).
     Inr (if cipher = Some CIPHER_P256_SHA512 then commitment else None))"

definition client_init_field ::
    "u64 option \<times> bytes option \<times> bytes option \<times> bytes option \<Rightarrow> pb_field \<Rightarrow>
     ukey2_error + u64 option \<times> bytes option \<times> bytes option \<times> bytes option" where
  "client_init_field acc f =
     (case acc of (version, random, next_protocol, commitment) \<Rightarrow>
       (case f of
          Varint n v \<Rightarrow> Inr (if n = CI_VERSION then (Some v, random, next_protocol, commitment) else acc)
        | Bytes n b \<Rightarrow>
            if n = CI_RANDOM then Inr (version, Some b, next_protocol, commitment)
            else if n = CI_NEXT_PROTOCOL then Inr (version, random, Some b, commitment)
            else if n = CI_COMMITMENTS \<and> commitment = None then
              and_then (cipher_commitment b) (\<lambda>c. Inr (version, random, next_protocol, c))
            else Inr acc))"

definition handle_client_init ::
    "'k primitives \<Rightarrow> 'k option \<Rightarrow> bytes option \<Rightarrow> bytes \<Rightarrow> ukey2_error + 'k server_handshake \<times> bytes" where
  "handle_client_init p gen rand client_init_msg =
     and_then (ukey2_unwrap client_init_msg TYPE_CLIENT_INIT) (\<lambda>body.
     and_then (for_fields Uk_Protobuf client_init_field (None, None, None, None) (reader_new body))
       (\<lambda>(version, random, next_protocol, commitment).
     if version \<noteq> Some PROTOCOL_VERSION then Inl (Uk_Malformed ''client version is not 1'')
     else if \<not> random_ok random then Inl (Uk_Malformed ''client random is not 32 bytes'')
     else if next_protocol \<noteq> Some NEXT_PROTOCOL then Inl (Uk_Malformed ''client asked for another next_protocol'')
     else and_then (ok_or (Uk_Malformed ''no P256_SHA512 commitment'') commitment) (\<lambda>commitment.
     and_then (generate_keypair gen) (\<lambda>key.
     and_then (random_bytes rand) (\<lambda>random.
     let server_init_msg = ukey2_server_init random (encode_public_key p key) in
     Inr (\<lparr>shs_key = key, shs_commitment = commitment, shs_client_init_msg = client_init_msg,
           shs_server_init_msg = server_init_msg\<rparr>, server_init_msg))))))"

definition handle_client_finished ::
    "'k primitives \<Rightarrow> 'k server_handshake \<Rightarrow> bytes \<Rightarrow> ukey2_error + handshake_result" where
  "handle_client_finished p s client_finished_msg =
     and_then (ukey2_sha512 p client_finished_msg) (\<lambda>h.
     if h \<noteq> shs_commitment s then Inl (Uk_Malformed ''client finished does not match its commitment'')
     else and_then (ukey2_unwrap client_finished_msg TYPE_CLIENT_FINISH) (\<lambda>body.
     and_then (and_then (uk_bytes body CF_PUBLIC_KEY) (ok_or (Uk_Malformed ''no client public_key''))) (\<lambda>public_key.
     and_then (decode_public_key p public_key) (\<lambda>peer.
     and_then (shared_secret p (shs_key s) peer) (\<lambda>dhs.
     Inr \<lparr>hr_dhs = dhs, hr_client_init_msg = shs_client_init_msg s, hr_server_init_msg = shs_server_init_msg s\<rparr>)))))"

section \<open>Public keys round trip\<close>

lemma magnitude_twos_complement:
  assumes "curve_ok p"
  shows "prim_bn_from_slice p (magnitude (twos_complement p n)) = Some n"
proof -
  let ?v = "prim_bn_to_vec p n"
  have v: "prim_bn_from_slice p ?v = Some n" "?v \<noteq> [] \<longrightarrow> hd ?v \<noteq> 0"
    using assms by (auto simp: curve_ok_def)
  have "magnitude (twos_complement p n) = ?v"
    using v(2) by (cases ?v) (auto simp: magnitude_def twos_complement_def Let_def)
  with v(1) show ?thesis by simp
qed

lemma length_twos_complement: "length (twos_complement p n) \<le> Suc (length (prim_bn_to_vec p n))"
  by (simp add: twos_complement_def Let_def split: list.splits)

lemma ukey2_writes:
  "writes [w_bytes EC_X x, w_bytes EC_Y y] [Bytes EC_X x, Bytes EC_Y y]"
  "writes [w_varint GPK_TYPE PUBLIC_KEY_TYPE_EC_P256, w_bytes GPK_EC_P256_PUBLIC_KEY ec]
     [Varint GPK_TYPE PUBLIC_KEY_TYPE_EC_P256, Bytes GPK_EC_P256_PUBLIC_KEY ec]"
  "writes [w_varint MSG_TYPE ty, w_bytes MSG_DATA data] [Varint MSG_TYPE ty, Bytes MSG_DATA data]"
  "writes [w_varint CC_CIPHER CIPHER_P256_SHA512, w_bytes CC_COMMITMENT c] [Varint CC_CIPHER CIPHER_P256_SHA512, Bytes CC_COMMITMENT c]"
  "writes [w_varint CI_VERSION PROTOCOL_VERSION, w_bytes CI_RANDOM r, w_bytes CI_COMMITMENTS cc, w_bytes CI_NEXT_PROTOCOL np]
     [Varint CI_VERSION PROTOCOL_VERSION, Bytes CI_RANDOM r, Bytes CI_COMMITMENTS cc, Bytes CI_NEXT_PROTOCOL np]"
  "writes [w_varint SI_VERSION PROTOCOL_VERSION, w_bytes SI_RANDOM r, w_varint SI_CIPHER CIPHER_P256_SHA512, w_bytes SI_PUBLIC_KEY k]
     [Varint SI_VERSION PROTOCOL_VERSION, Bytes SI_RANDOM r, Varint SI_CIPHER CIPHER_P256_SHA512, Bytes SI_PUBLIC_KEY k]"
  "writes [w_bytes CF_PUBLIC_KEY k] [Bytes CF_PUBLIC_KEY k]"
  by (intro wire_simps)+

lemma public_key_roundtrip:
  assumes "curve_ok p"
  shows "decode_public_key p (encode_public_key p k) = Inr (prim_public p k)"
    "length (encode_public_key p k) \<le> 146"
proof -
  obtain x y where xy: "prim_public p k = (x, y)" by fastforce
  let ?x = "twos_complement p x" and ?y = "twos_complement p y"
  let ?ec = "write_msg [w_bytes EC_X ?x, w_bytes EC_Y ?y]"
  have enc: "encode_public_key p k =
      write_msg [w_varint GPK_TYPE PUBLIC_KEY_TYPE_EC_P256, w_bytes GPK_EC_P256_PUBLIC_KEY ?ec]"
    by (simp add: encode_public_key_def xy)
  have "length ?x \<le> 33" "length ?y \<le> 33"
    using assms length_twos_complement [of p x] length_twos_complement [of p y] xy
    by (auto simp: curve_ok_def dest!: spec [of _ k])
  then have l: "length ?ec \<le> 106"
    using length_msg [OF ukey2_writes(1), of ?x ?y] by simp
  then show len: "length (encode_public_key p k) \<le> 146"
    using length_msg [OF ukey2_writes(2), of ?ec] by (simp add: enc)
  have "fits ?ec" "fits (encode_public_key p k)" using l len by (simp_all add: fits_def)
  note ec = read_msg [OF ukey2_writes(1) this(1)] and gpk = read_msg [OF ukey2_writes(2) this(2) [unfolded enc], folded enc]
  have "prim_on_curve p (x, y)" using assms xy by (metis curve_ok_def)
  then show "decode_public_key p (encode_public_key p k) = Inr (prim_public p k)"
    by (simp add: decode_public_key_def first_fields [OF gpk] first_fields [OF ec] magnitude_twos_complement [OF assms] xy)
qed

lemma ukey2_unwrap_wrap:
  assumes "length data < 1000"
  shows "ukey2_unwrap (ukey2_wrap ty data) ty = Inr data" "length (ukey2_wrap ty data) \<le> length data + 40"
proof -
  show len: "length (ukey2_wrap ty data) \<le> length data + 40"
    using length_msg [OF ukey2_writes(3), of ty data] by (simp add: ukey2_wrap_def)
  then have "fits (ukey2_wrap ty data)" using assms by (simp add: fits_def)
  note r = read_msg [OF ukey2_writes(3) this [unfolded ukey2_wrap_def], folded ukey2_wrap_def]
  show "ukey2_unwrap (ukey2_wrap ty data) ty = Inr data"
    by (simp add: ukey2_unwrap_def for_fields_pb_fields [OF r] unwrap_field_def)
qed

lemma read_small: "writes ops fs \<Longrightarrow> sum_list (map field_size fs) < 1000 \<Longrightarrow>
    pb_fields (write_msg ops) = Inr fs \<and> length (write_msg ops) < 1000"
  using length_msg [of ops fs] by (auto intro!: read_msg simp: fits_def)

lemma length_NEXT_PROTOCOL: "length NEXT_PROTOCOL = 23"
  by (simp add: NEXT_PROTOCOL_def str_def)

text \<open>What each side makes of the other's honest message.\<close>

lemma handle_client_init_honest:
  assumes "length random = 32" "length commitment = 64"
  shows "handle_client_init p (Some key) (Some random') (ukey2_client_init random commitment) =
    (let si = ukey2_server_init random' (encode_public_key p key) in
     Inr (\<lparr>shs_key = key, shs_commitment = commitment, shs_client_init_msg = ukey2_client_init random commitment,
           shs_server_init_msg = si\<rparr>, si))"
proof -
  let ?cc = "write_msg [w_varint CC_CIPHER CIPHER_P256_SHA512, w_bytes CC_COMMITMENT commitment]"
  let ?ci = "write_msg [w_varint CI_VERSION PROTOCOL_VERSION, w_bytes CI_RANDOM random, w_bytes CI_COMMITMENTS ?cc,
      w_bytes CI_NEXT_PROTOCOL NEXT_PROTOCOL]"
  have cc: "pb_fields ?cc = Inr [Varint CC_CIPHER CIPHER_P256_SHA512, Bytes CC_COMMITMENT commitment]" "length ?cc \<le> 104"
    using read_small [OF ukey2_writes(4), of commitment] length_msg [OF ukey2_writes(4), of commitment] assms(2) by simp_all
  have ci: "pb_fields ?ci = Inr [Varint CI_VERSION PROTOCOL_VERSION, Bytes CI_RANDOM random, Bytes CI_COMMITMENTS ?cc,
      Bytes CI_NEXT_PROTOCOL NEXT_PROTOCOL]" "length ?ci < 1000"
    using read_small [OF ukey2_writes(5), of random ?cc NEXT_PROTOCOL] assms(1) cc(2) by (simp_all add: length_NEXT_PROTOCOL)
  show ?thesis
    using assms(1)
    by (simp add: handle_client_init_def ukey2_client_init_def Let_def ukey2_unwrap_wrap(1) [OF ci(2)]
        for_fields_pb_fields [OF ci(1)] client_init_field_def cipher_commitment_def for_fields_pb_fields [OF cc(1)]
        commitment_field_def random_ok_def generate_keypair_def random_bytes_def)
qed

lemma handle_server_init_honest:
  assumes "curve_ok p" "length random = 32"
  shows "handle_server_init p c (ukey2_server_init random (encode_public_key p k)) =
    and_then (shared_secret p (chs_key c) (prim_public p k)) (\<lambda>dhs.
      Inr (chs_client_finished_msg c,
        \<lparr>hr_dhs = dhs, hr_client_init_msg = chs_client_init_msg c,
         hr_server_init_msg = ukey2_server_init random (encode_public_key p k)\<rparr>))"
proof -
  let ?si = "write_msg [w_varint SI_VERSION PROTOCOL_VERSION, w_bytes SI_RANDOM random,
      w_varint SI_CIPHER CIPHER_P256_SHA512, w_bytes SI_PUBLIC_KEY (encode_public_key p k)]"
  have si: "pb_fields ?si = Inr [Varint SI_VERSION PROTOCOL_VERSION, Bytes SI_RANDOM random,
      Varint SI_CIPHER CIPHER_P256_SHA512, Bytes SI_PUBLIC_KEY (encode_public_key p k)]" "length ?si < 1000"
    using read_small [OF ukey2_writes(6), of random "encode_public_key p k"] assms(2) public_key_roundtrip(2) [OF assms(1), of k]
    by simp_all
  show ?thesis
    using assms(2)
    by (simp add: handle_server_init_def ukey2_server_init_def ukey2_unwrap_wrap(1) [OF si(2)]
        for_fields_pb_fields [OF si(1)] server_init_field_def random_ok_def public_key_roundtrip(1) [OF assms(1)])
qed

lemma handle_client_finished_honest:
  assumes "curve_ok p" "prim_sha512 p (ukey2_client_finished (encode_public_key p k)) = Some (shs_commitment s)"
  shows "handle_client_finished p s (ukey2_client_finished (encode_public_key p k)) =
    and_then (shared_secret p (shs_key s) (prim_public p k)) (\<lambda>dhs.
      Inr \<lparr>hr_dhs = dhs, hr_client_init_msg = shs_client_init_msg s, hr_server_init_msg = shs_server_init_msg s\<rparr>)"
proof -
  let ?cf = "write_msg [w_bytes CF_PUBLIC_KEY (encode_public_key p k)]"
  have cf: "pb_fields ?cf = Inr [Bytes CF_PUBLIC_KEY (encode_public_key p k)]" "length ?cf < 1000"
    using read_small [OF ukey2_writes(7), of "encode_public_key p k"] public_key_roundtrip(2) [OF assms(1), of k] by simp_all
  show ?thesis
    using assms(2)
    by (simp add: handle_client_finished_def ukey2_client_finished_def ukey2_sha512_def ukey2_unwrap_wrap(1) [OF cf(2)]
        first_fields [OF cf(1)] public_key_roundtrip(1) [OF assms(1)])
qed

text \<open>An undisturbed run of the two sides.\<close>

lemma honest_handshake:
  assumes "hash_ok p" "curve_ok p" "hmac_ok p" "length rc = 32" "length rs = 32"
  shows "\<exists>c ci s si cf r sec keys. client_start p (Some kc) (Some rc) = Inr (c, ci) \<and>
    handle_client_init p (Some ks) (Some rs) ci = Inr (s, si) \<and>
    handle_server_init p c si = Inr (cf, r) \<and> handle_client_finished p s cf = Inr r \<and>
    hr_client_init_msg r = ci \<and> hr_server_init_msg r = si \<and>
    d2d_derive_all p (hr_dhs r) ci si = Inr (sec, keys) \<and> keys_ok keys"
proof -
  let ?cf = "ukey2_client_finished (encode_public_key p kc)"
  obtain com where com: "prim_sha512 p ?cf = Some com" "length com = 64"
    using assms(1) by (metis hash_ok_def)
  let ?ci = "ukey2_client_init rc com" and ?si = "ukey2_server_init rs (encode_public_key p ks)"
  obtain x where x: "prim_ecdh p kc (prim_public p ks) = Some x" "prim_ecdh p ks (prim_public p kc) = Some x"
    using assms(2) by (metis curve_ok_def option.collapse)
  obtain dhs where dhs: "prim_sha256 p x = Some dhs" using assms(1) by (metis hash_ok_def)
  obtain sec keys where k: "d2d_derive_all p dhs ?ci ?si = Inr (sec, keys)" "keys_ok keys"
    using d2d_derive_all_ok [OF assms(3)] by blast
  have "client_start p (Some kc) (Some rc) =
      Inr (\<lparr>chs_key = kc, chs_client_finished_msg = ?cf, chs_client_init_msg = ?ci\<rparr>, ?ci)"
    by (simp add: client_start_def generate_keypair_def ukey2_sha512_def com(1) random_bytes_def Let_def)
  moreover note handle_client_init_honest [OF assms(4) com(2), of p ks rs, unfolded Let_def]
  ultimately show ?thesis
    using k com(1) handle_server_init_honest [OF assms(2,5), of _ ks] handle_client_finished_honest [OF assms(2), of kc]
    by (simp add: shared_secret_def x dhs)
qed

section \<open>Properties\<close>

text \<open>
  The two sides agree. Whatever keys and nonces are drawn, an undisturbed handshake completes on
  both sides with the same shared secret and the same transcript, so the key schedule gives both the
  same authentication string and the same traffic keys.
\<close>

theorem handshake_agrees:
  assumes "hash_ok p" "curve_ok p" "hmac_ok p" "length rc = 32" "length rs = 32"
  shows "\<exists>c ci s si cf r sec keys. client_start p (Some kc) (Some rc) = Inr (c, ci) \<and>
    handle_client_init p (Some ks) (Some rs) ci = Inr (s, si) \<and>
    handle_server_init p c si = Inr (cf, r) \<and> handle_client_finished p s cf = Inr r \<and>
    hr_client_init_msg r = ci \<and> hr_server_init_msg r = si \<and>
    d2d_derive_all p (hr_dhs r) ci si = Inr (sec, keys) \<and> keys_ok keys"
  using assms by (rule honest_handshake)

theorem handshake_agrees_witness:
  "\<exists>c ci s si cf r. client_start sample_prims (Some 5) (Some (replicate 32 1)) = Inr (c, ci) \<and>
    handle_client_init sample_prims (Some 6) (Some (replicate 32 2)) ci = Inr (s, si) \<and>
    handle_server_init sample_prims c si = Inr (cf, r) \<and> handle_client_finished sample_prims s cf = Inr r"
  using handshake_agrees [OF sample_prims_ok(3,4,1), of "replicate 32 1" "replicate 32 2" 5 6] by fastforce

text \<open>
  C18: the commitment binds. A server accepts only a ClientFinished whose SHA-512 is the commitment it
  took from the ClientInit, before it had shown its own key; so two messages accepted in one handshake
  have the same digest, and a client that changes its key afterwards needs a collision.
\<close>

theorem commitment_binds:
  assumes "handle_client_init p gen rand ci = Inr (s, si)"
    and "handle_client_finished p s cf = Inr r" "handle_client_finished p s cf' = Inr r'"
  shows "prim_sha512 p cf = Some (shs_commitment s) \<and> prim_sha512 p cf' = prim_sha512 p cf \<and>
    (\<exists>body acc. ukey2_unwrap ci TYPE_CLIENT_INIT = Inr body \<and>
       for_fields Uk_Protobuf client_init_field (None, None, None, None) (reader_new body) = Inr acc \<and>
       snd (snd (snd acc)) = Some (shs_commitment s))"
proof -
  have "prim_sha512 p m = Some (shs_commitment s)" if "handle_client_finished p s m = Inr q" for m q
    using that by (cases "prim_sha512 p m") (auto simp: handle_client_finished_def ukey2_sha512_def split: if_splits)
  moreover have "\<exists>body acc. ukey2_unwrap ci TYPE_CLIENT_INIT = Inr body \<and>
       for_fields Uk_Protobuf client_init_field (None, None, None, None) (reader_new body) = Inr acc \<and>
       snd (snd (snd acc)) = Some (shs_commitment s)"
    using assms(1)
    by (fastforce simp: handle_client_init_def Let_def split: if_splits)
  ultimately show ?thesis using assms(2,3) by metis
qed

theorem commitment_binds_witness:
  "\<exists>s :: nat server_handshake. prim_sha512 sample_prims (ukey2_client_finished (encode_public_key sample_prims 5)) = Some (shs_commitment s)"
proof -
  obtain com where com: "prim_sha512 sample_prims (ukey2_client_finished (encode_public_key sample_prims 5)) = Some com"
    "length com = 64" using sample_prims_ok(3) by (metis hash_ok_def)
  let ?cf = "ukey2_client_finished (encode_public_key sample_prims 5)"
  let ?ci = "ukey2_client_init (replicate 32 1) com"
  obtain s si where s: "handle_client_init sample_prims (Some 6) (Some (replicate 32 2)) ?ci = Inr (s, si)" "shs_commitment s = com"
    using handle_client_init_honest [of "replicate 32 1" com sample_prims 6 "replicate 32 2"] com(2) by (auto simp: Let_def)
  obtain r where "handle_client_finished sample_prims s ?cf = Inr r"
    using handle_client_finished_honest [OF sample_prims_ok(4), of 5 s] com(1) s(2)
    by (auto simp: shared_secret_def sample_prims_def split: prod.splits)
  from commitment_binds [OF s(1) this this] show ?thesis by blast
qed

lemma decode_public_key_ecdh: "decode_public_key (p\<lparr>prim_ecdh := g\<rparr>) bs = decode_public_key p bs"
  by (simp add: decode_public_key_def)

lemma decode_public_key_on_curve: "decode_public_key p bs = Inr pt \<Longrightarrow> prim_on_curve p pt"
  by (auto simp: decode_public_key_def split: if_splits)

lemma shared_secret_guarded:
  "and_then (decode_public_key p bs) (\<lambda>peer.
     and_then (shared_secret (p\<lparr>prim_ecdh := \<lambda>k pt. if prim_on_curve p pt then prim_ecdh p k pt else f k pt\<rparr>) key peer) g) =
   and_then (decode_public_key p bs) (\<lambda>peer. and_then (shared_secret p key peer) g)"
  by (rule and_then_cong) (auto simp: shared_secret_def dest: decode_public_key_on_curve)

text \<open>
  No invalid-curve point. Neither side's private key is ever combined with a point that is not on
  the curve: whatever the ECDH function would return for such points, no outcome of the handshake
  depends on it, for any bytes the peer sends.
\<close>

theorem ecdh_only_on_curve:
  fixes p :: "'k primitives" and f :: "'k \<Rightarrow> nat \<times> nat \<Rightarrow> bytes option"
  shows "handle_server_init (p\<lparr>prim_ecdh := \<lambda>k pt. if prim_on_curve p pt then prim_ecdh p k pt else f k pt\<rparr>) c m =
      handle_server_init p c m \<and>
    handle_client_finished (p\<lparr>prim_ecdh := \<lambda>k pt. if prim_on_curve p pt then prim_ecdh p k pt else f k pt\<rparr>) s m =
      handle_client_finished p s m"
  by (simp add: handle_server_init_def handle_client_finished_def ukey2_sha512_def decode_public_key_ecdh shared_secret_guarded
      cong: prod.case_cong if_cong)

end
