(* ===== verification/Multiplex.thy ===== *)
theory Multiplex
  imports Protobuf Primitives Framing Rust_Std
begin

text \<open>
  The virtual socket of an L2CAP channel, \<^verbatim>\<open>protocol/src/multiplex.rs\<close>, and the service identity of
  \<^verbatim>\<open>protocol/src/service.rs\<close> it is addressed by. MD5 is used nowhere else, so \<open>bluetooth_service_uuid\<close>
  takes it as an argument of its own.
\<close>

section \<open>Multiplex frames\<close>

abbreviation MF_HEADER :: u32 where "MF_HEADER \<equiv> 1"
abbreviation MF_FRAME_TYPE :: u32 where "MF_FRAME_TYPE \<equiv> 2"
abbreviation MF_CONTROL_FRAME :: u32 where "MF_CONTROL_FRAME \<equiv> 3"
abbreviation MF_DATA_FRAME :: u32 where "MF_DATA_FRAME \<equiv> 4"
abbreviation FRAME_TYPE_CONTROL :: u64 where "FRAME_TYPE_CONTROL \<equiv> 1"
abbreviation FRAME_TYPE_DATA :: u64 where "FRAME_TYPE_DATA \<equiv> 2"
abbreviation HDR_SALTED_HASH :: u32 where "HDR_SALTED_HASH \<equiv> 1"
abbreviation HDR_SALT :: u32 where "HDR_SALT \<equiv> 2"
abbreviation CF_TYPE :: u32 where "CF_TYPE \<equiv> 1"
abbreviation CF_CONNECTION_REQUEST :: u32 where "CF_CONNECTION_REQUEST \<equiv> 2"
abbreviation CF_CONNECTION_RESPONSE :: u32 where "CF_CONNECTION_RESPONSE \<equiv> 3"
abbreviation CF_DISCONNECT :: u32 where "CF_DISCONNECT \<equiv> 4"
abbreviation CONTROL_CONNECTION_REQUEST :: u64 where "CONTROL_CONNECTION_REQUEST \<equiv> 1"
abbreviation CONTROL_CONNECTION_RESPONSE :: u64 where "CONTROL_CONNECTION_RESPONSE \<equiv> 2"
abbreviation CONTROL_DISCONNECTION :: u64 where "CONTROL_DISCONNECTION \<equiv> 3"
abbreviation RSP_CODE :: u32 where "RSP_CODE \<equiv> 1"
abbreviation DF_DATA :: u32 where "DF_DATA \<equiv> 1"
abbreviation SERVICE_ID_HASH_LEN :: nat where "SERVICE_ID_HASH_LEN \<equiv> 3"

datatype response_code = Code_Unknown | Code_Accepted | Code_NotListening

fun response_code_num :: "response_code \<Rightarrow> u64" where
  "response_code_num Code_Unknown = 0"
| "response_code_num Code_Accepted = 1"
| "response_code_num Code_NotListening = 2"

definition response_code_from :: "u64 \<Rightarrow> response_code" where
  "response_code_from v = (if v = 1 then Code_Accepted else if v = 2 then Code_NotListening else Code_Unknown)"

datatype mux_frame =
    Mux_ConnectionRequest
  | Mux_ConnectionResponse response_code
  | Mux_Disconnection
  | Mux_Data bytes
  | Mux_Unknown

definition salted_service_id_hash :: "'k primitives \<Rightarrow> rstring \<Rightarrow> rstring \<Rightarrow> bytes" where
  "salted_service_id_hash p service_id salt =
     (case prim_sha256 p (service_id @ salt) of
        Some d \<Rightarrow> take SERVICE_ID_HASH_LEN d
      | None \<Rightarrow> replicate SERVICE_ID_HASH_LEN 0)"

text \<open>The argument is what the ignored \<open>rand_bytes\<close> left in the eight-byte buffer.\<close>

definition random_salt :: "bytes \<Rightarrow> rstring" where
  "random_salt b = concat (map hex_lower b)"

definition mux_header :: "bytes \<Rightarrow> rstring \<Rightarrow> bytes" where
  "mux_header salted salt = write_msg [w_bytes HDR_SALTED_HASH salted, w_bytes HDR_SALT salt]"

definition mux_connection_request :: "bytes \<Rightarrow> rstring \<Rightarrow> bytes" where
  "mux_connection_request salted salt =
     (let control = write_msg [w_varint CF_TYPE CONTROL_CONNECTION_REQUEST, w_bytes CF_CONNECTION_REQUEST []]
      in write_msg [w_bytes MF_HEADER (mux_header salted salt), w_varint MF_FRAME_TYPE FRAME_TYPE_CONTROL,
           w_bytes MF_CONTROL_FRAME control])"

definition mux_connection_response :: "bytes \<Rightarrow> rstring \<Rightarrow> response_code \<Rightarrow> bytes" where
  "mux_connection_response salted salt code =
     (let rsp = write_msg [w_varint RSP_CODE (response_code_num code)];
          control = write_msg [w_varint CF_TYPE CONTROL_CONNECTION_RESPONSE, w_bytes CF_CONNECTION_RESPONSE rsp]
      in write_msg [w_bytes MF_HEADER (mux_header salted salt), w_varint MF_FRAME_TYPE FRAME_TYPE_CONTROL,
           w_bytes MF_CONTROL_FRAME control])"

definition mux_disconnection :: "bytes \<Rightarrow> rstring \<Rightarrow> bytes" where
  "mux_disconnection salted salt =
     (let control = write_msg [w_varint CF_TYPE CONTROL_DISCONNECTION, w_bytes CF_DISCONNECT []]
      in write_msg [w_bytes MF_HEADER (mux_header salted salt), w_varint MF_FRAME_TYPE FRAME_TYPE_CONTROL,
           w_bytes MF_CONTROL_FRAME control])"

definition mux_data :: "bytes \<Rightarrow> rstring \<Rightarrow> bytes \<Rightarrow> bytes" where
  "mux_data salted salt payload =
     (let df = write_msg [w_bytes DF_DATA payload]
      in write_msg [w_bytes MF_HEADER (mux_header salted salt), w_varint MF_FRAME_TYPE FRAME_TYPE_DATA,
           w_bytes MF_DATA_FRAME df])"

definition mux_parse :: "bytes \<Rightarrow> mux_frame" where
  "mux_parse bs =
     (let frame_type = unwrap_or 0 (ok_flatten (first_varint bs MF_FRAME_TYPE)) in
      if frame_type = FRAME_TYPE_DATA then
        (case first_bytes bs MF_DATA_FRAME of
           Inr (Some df) \<Rightarrow>
             (case first_bytes df DF_DATA of Inr (Some payload) \<Rightarrow> Mux_Data payload | _ \<Rightarrow> Mux_Unknown)
         | _ \<Rightarrow> Mux_Unknown)
      else
        (case first_bytes bs MF_CONTROL_FRAME of
           Inr (Some control) \<Rightarrow>
             (case ok_flatten (first_varint control CF_TYPE) of
                Some ty \<Rightarrow>
                  if ty = CONTROL_CONNECTION_REQUEST then Mux_ConnectionRequest
                  else if ty = CONTROL_CONNECTION_RESPONSE then
                    Mux_ConnectionResponse (response_code_from (unwrap_or 0
                      (Option.bind (ok_flatten (first_bytes control CF_CONNECTION_RESPONSE))
                        (\<lambda>r. ok_flatten (first_varint r RSP_CODE)))))
                  else if ty = CONTROL_DISCONNECTION then Mux_Disconnection
                  else Mux_Unknown
              | None \<Rightarrow> Mux_Unknown)
         | _ \<Rightarrow> Mux_Unknown))"

section \<open>The service identity\<close>

definition SERVICE_ID :: rstring where
  "SERVICE_ID = str ''NearbySharing''"

definition service_id_hash :: "'k primitives \<Rightarrow> bytes" where
  "service_id_hash p = (case prim_sha256 p SERVICE_ID of Some d \<Rightarrow> take 3 d | None \<Rightarrow> replicate 3 0)"

definition bluetooth_service_uuid :: "(bytes \<Rightarrow> bytes option) \<Rightarrow> rstring" where
  "bluetooth_service_uuid md5 =
     (case md5 SERVICE_ID of
        None \<Rightarrow> []
      | Some d \<Rightarrow>
          let b = take 16 d;
              b = b[6 := (b ! 6 AND 0x0F) OR 0x30];
              b = b[8 := (b ! 8 AND 0x3F) OR 0x80];
              h = concat (map hex_lower b)
          in take 8 h @ [0x2D] @ take 4 (drop 8 h) @ [0x2D] @ take 4 (drop 12 h) @ [0x2D] @
             take 4 (drop 16 h) @ [0x2D] @ take 12 (drop 20 h))"

section \<open>Round trips\<close>

lemma mux_writes:
  "writes [w_bytes MF_HEADER h, w_varint MF_FRAME_TYPE ty, w_bytes n b] [Bytes MF_HEADER h, Varint MF_FRAME_TYPE ty, Bytes n b]"
  "writes [w_varint CF_TYPE ty, w_bytes n b] [Varint CF_TYPE ty, Bytes n b]"
  "writes [w_bytes DF_DATA payload] [Bytes DF_DATA payload]"
  "writes [w_varint RSP_CODE c] [Varint RSP_CODE c]"
  by (intro wire_simps)+

lemma response_code_inverse [simp]: "response_code_from (response_code_num c) = c"
  by (cases c) (simp_all add: response_code_from_def)

text \<open>The outer message, read.\<close>

lemma mux_outer:
  assumes "fits (write_msg [w_bytes MF_HEADER h, w_varint MF_FRAME_TYPE ty, w_bytes n b])"
  shows "pb_fields (write_msg [w_bytes MF_HEADER h, w_varint MF_FRAME_TYPE ty, w_bytes n b]) =
      Inr [Bytes MF_HEADER h, Varint MF_FRAME_TYPE ty, Bytes n b]" "fits b"
proof -
  show "pb_fields (write_msg [w_bytes MF_HEADER h, w_varint MF_FRAME_TYPE ty, w_bytes n b]) =
      Inr [Bytes MF_HEADER h, Varint MF_FRAME_TYPE ty, Bytes n b]"
    by (rule read_msg [OF mux_writes(1) assms])
  show "fits b"
    by (rule fits_msg [OF mux_writes(1) assms, of n]) simp
qed

fun mux_bytes :: "bytes \<Rightarrow> rstring \<Rightarrow> mux_frame \<Rightarrow> bytes" where
  "mux_bytes salted salt Mux_ConnectionRequest = mux_connection_request salted salt"
| "mux_bytes salted salt (Mux_ConnectionResponse c) = mux_connection_response salted salt c"
| "mux_bytes salted salt Mux_Disconnection = mux_disconnection salted salt"
| "mux_bytes salted salt (Mux_Data b) = mux_data salted salt b"
| "mux_bytes salted salt Mux_Unknown = []"

lemma mux_data_roundtrip: "fits (mux_data salted salt b) \<Longrightarrow> mux_parse (mux_data salted salt b) = Mux_Data b"
proof -
  assume "fits (mux_data salted salt b)"
  note o = mux_outer [OF this [unfolded mux_data_def Let_def]]
  show ?thesis
    unfolding mux_data_def Let_def
    by (simp add: mux_parse_def first_fields [OF o(1)] first_fields [OF read_msg [OF mux_writes(3) o(2)]])
qed

lemma mux_request_roundtrip:
  "fits (mux_connection_request salted salt) \<Longrightarrow> mux_parse (mux_connection_request salted salt) = Mux_ConnectionRequest"
proof -
  assume "fits (mux_connection_request salted salt)"
  note o = mux_outer [OF this [unfolded mux_connection_request_def Let_def]]
  show ?thesis
    unfolding mux_connection_request_def Let_def
    by (simp add: mux_parse_def first_fields [OF o(1)] first_fields [OF read_msg [OF mux_writes(2) o(2)]])
qed

lemma mux_disconnection_roundtrip:
  "fits (mux_disconnection salted salt) \<Longrightarrow> mux_parse (mux_disconnection salted salt) = Mux_Disconnection"
proof -
  assume "fits (mux_disconnection salted salt)"
  note o = mux_outer [OF this [unfolded mux_disconnection_def Let_def]]
  show ?thesis
    unfolding mux_disconnection_def Let_def
    by (simp add: mux_parse_def first_fields [OF o(1)] first_fields [OF read_msg [OF mux_writes(2) o(2)]])
qed

lemma mux_response_roundtrip:
  "fits (mux_connection_response salted salt c) \<Longrightarrow>
   mux_parse (mux_connection_response salted salt c) = Mux_ConnectionResponse c"
proof -
  assume "fits (mux_connection_response salted salt c)"
  note o = mux_outer [OF this [unfolded mux_connection_response_def Let_def]]
  note i = read_msg [OF mux_writes(2) o(2)]
  have "fits (write_msg [w_varint RSP_CODE (response_code_num c)])"
    by (rule fits_msg [OF mux_writes(2) o(2)]) simp
  note r = read_msg [OF mux_writes(4) this]
  show ?thesis
    unfolding mux_connection_response_def Let_def
    by (simp add: mux_parse_def first_fields [OF o(1)] first_fields [OF i] first_fields [OF r])
qed

interpretation mux_codec: message_codec "mux_bytes salted salt" "\<lambda>b. Inr (mux_parse b)" "\<lambda>f. f" "\<lambda>f. f \<noteq> Mux_Unknown"
  for salted salt
proof
  fix m assume "m \<noteq> Mux_Unknown" "fits (mux_bytes salted salt m)"
  then show "Inr (mux_parse (mux_bytes salted salt m)) = Inr m"
    by (cases m) (simp_all add: mux_data_roundtrip mux_request_roundtrip mux_disconnection_roundtrip mux_response_roundtrip)
qed

section \<open>Properties\<close>

text \<open>
  A virtual socket carries frames. Every sequence of multiplex frames (requests, answers, data,
  disconnection) written to the channel with their length prefixes comes back as that sequence, for
  any service hash and salt in the header and however the bytes are split into reads.
\<close>

theorem multiplex_over_stream:
  assumes "concat cs = concat (map (\<lambda>f. framing_encode (mux_bytes salted salt f)) fs)"
    and "\<forall>f \<in> set fs. f \<noteq> Mux_Unknown \<and> length (mux_bytes salted salt f) < MAX_FRAME"
  shows "map mux_parse (fst (feed decoder_new cs)) = fs"
proof -
  have "map (\<lambda>b. Inr (mux_parse b)) (fst (feed decoder_new cs)) = map (\<lambda>f. Inr f) fs"
    using assms by (rule mux_codec.stream_dec)
  then have "map Inr (map mux_parse (fst (feed decoder_new cs))) = map Inr fs" by (simp add: comp_def)
  then show ?thesis by (simp only: inj_map_eq_map inj_Inr)
qed

theorem multiplex_over_stream_witness:
  "map mux_parse (fst (feed decoder_new [concat (map (\<lambda>f. framing_encode (mux_bytes [1, 2, 3] [48] f))
     [Mux_ConnectionRequest, Mux_Data [9], Mux_Disconnection])])) = [Mux_ConnectionRequest, Mux_Data [9], Mux_Disconnection]"
proof (rule multiplex_over_stream)
  show "\<forall>f \<in> set [Mux_ConnectionRequest, Mux_Data [9], Mux_Disconnection]. f \<noteq> Mux_Unknown \<and> length (mux_bytes [1, 2, 3] [48] f) < MAX_FRAME"
    by (simp add: mux_connection_request_def mux_data_def mux_disconnection_def mux_header_def write_eval)
qed simp

section \<open>The service address\<close>

text \<open>
  The canonical text form of a UUID, read strictly: lower-case digits in groups of 8, 4, 4, 4 and 12 with a
  dash between two groups, and nothing else.
\<close>

definition lower_value :: "u8 \<Rightarrow> u8 option" where
  "lower_value c =
     (if 0x30 \<le> c \<and> c \<le> 0x39 then Some (c - 0x30) else if 0x61 \<le> c \<and> c \<le> 0x66 then Some (c - 0x61 + 10) else None)"

fun lower_pairs :: "rstring \<Rightarrow> bytes option" where
  "lower_pairs [] = Some []"
| "lower_pairs [x] = None"
| "lower_pairs (x # y # s) =
     (case (lower_value x, lower_value y, lower_pairs s) of
        (Some h, Some l, Some bs) \<Rightarrow> Some ((16 * h + l) # bs)
      | _ \<Rightarrow> None)"

definition uuid_read :: "rstring \<Rightarrow> bytes option" where
  "uuid_read s =
     (if length s = 36 \<and> s ! 8 = 0x2D \<and> s ! 13 = 0x2D \<and> s ! 18 = 0x2D \<and> s ! 23 = 0x2D
      then lower_pairs (take 8 s @ take 4 (drop 9 s) @ take 4 (drop 14 s) @ take 4 (drop 19 s) @ drop 24 s)
      else None)"

lemma lower_digits:
  "lower_value (hex_digit 0x61 (drop_bit 4 x)) = Some (drop_bit 4 x)" "lower_value (hex_digit 0x61 (x AND 0x0F)) = Some (x AND 0x0F)"
  "16 * drop_bit 4 x + (x AND 0x0F) = (x :: u8)"
proof -
  have "list_all (\<lambda>k. let x = word_of_nat k :: u8 in lower_value (hex_digit 0x61 (drop_bit 4 x)) = Some (drop_bit 4 x) \<and>
      lower_value (hex_digit 0x61 (x AND 0x0F)) = Some (x AND 0x0F) \<and> 16 * drop_bit 4 x + (x AND 0x0F) = x) [0..<256]"
    by code_simp
  moreover have "unat x \<in> set [0..<256]" using unsigned_less [of x, where ?'a = nat] by simp
  moreover have "x = word_of_nat (unat x)" by simp
  ultimately show "lower_value (hex_digit 0x61 (drop_bit 4 x)) = Some (drop_bit 4 x)"
    "lower_value (hex_digit 0x61 (x AND 0x0F)) = Some (x AND 0x0F)" "16 * drop_bit 4 x + (x AND 0x0F) = x"
    unfolding list_all_iff Let_def by metis+
qed

lemma lower_pairs_hex: "lower_pairs (concat (map hex_lower bs)) = Some bs"
  by (induction bs) (simp_all add: hex_lower_def lower_digits)

lemma regroup:
  assumes "length h = 32"
  shows "uuid_read (take 8 h @ [0x2D] @ take 4 (drop 8 h) @ [0x2D] @ take 4 (drop 12 h) @ [0x2D] @
    take 4 (drop 16 h) @ [0x2D] @ drop 20 h) = lower_pairs h"
proof -
  have "take 8 h @ take 4 (drop 8 h) @ take 4 (drop 12 h) @ take 4 (drop 16 h) @ drop 20 h = h"
    using take_add [of 8 4 h] take_add [of 12 4 h] take_add [of 16 4 h] append_take_drop_id [of 20 h] by simp
  then show ?thesis using assms by (simp add: uuid_read_def nth_append)
qed

lemma uuid_bits:
  "drop_bit 4 ((x AND 0x0F) OR 0x30 :: u8) = 3" "((x AND 0x0F) OR 0x30) AND 0x0F = (x AND 0x0F :: u8)"
  "drop_bit 6 ((x AND 0x3F) OR 0x80 :: u8) = 2" "((x AND 0x3F) OR 0x80) AND 0x3F = (x AND 0x3F :: u8)"
  by (simp_all add: drop_bit_or drop_bit_and bit.conj_disj_distrib2 and.assoc)

text \<open>
  C22: the RFCOMM service address is the name-based UUID of the service name, in the one canonical form. Read
  strictly, as lower-case hexadecimal digits with the dashes in their four places and nothing else, it gives the sixteen bytes
  of the MD5 digest of the name with the version 3 in the high half of byte 6 and the variant 10 in the two top bits of
  byte 8, and every other bit that of the digest.
\<close>

theorem service_uuid_well_formed:
  assumes "md5 SERVICE_ID = Some d" "length d = 16"
  shows "\<exists>u. uuid_read (bluetooth_service_uuid md5) = Some u \<and> length u = 16 \<and>
    drop_bit 4 (u ! 6) = 3 \<and> u ! 6 AND 0x0F = d ! 6 AND 0x0F \<and>
    drop_bit 6 (u ! 8) = 2 \<and> u ! 8 AND 0x3F = d ! 8 AND 0x3F \<and>
    (\<forall>i < 16. i \<noteq> 6 \<and> i \<noteq> 8 \<longrightarrow> u ! i = d ! i)"
proof -
  let ?u = "d[6 := (d ! 6 AND 0x0F) OR 0x30, 8 := (d ! 8 AND 0x3F) OR 0x80]"
  let ?h = "concat (map hex_lower ?u)"
  have "length (concat (map hex_lower bs)) = 2 * length bs" for bs by (induction bs) simp_all
  then have l: "length ?h = 32" using assms(2) by simp
  have "bluetooth_service_uuid md5 = take 8 ?h @ [0x2D] @ take 4 (drop 8 ?h) @ [0x2D] @ take 4 (drop 12 ?h) @ [0x2D] @
      take 4 (drop 16 ?h) @ [0x2D] @ drop 20 ?h"
    using assms l by (simp add: bluetooth_service_uuid_def Let_def)
  then have "uuid_read (bluetooth_service_uuid md5) = Some ?u" by (simp only: regroup [OF l] lower_pairs_hex)
  then show ?thesis using assms(2) uuid_bits by (intro exI [of _ ?u]) simp
qed

theorem service_uuid_well_formed_witness:
  "\<exists>u. uuid_read (bluetooth_service_uuid (\<lambda>d. Some (replicate 16 0xFF))) = Some u \<and> drop_bit 4 (u ! 6) = 3 \<and> u ! 5 = 0xFF"
proof -
  obtain u where u: "uuid_read (bluetooth_service_uuid (\<lambda>d. Some (replicate 16 0xFF))) = Some u" "drop_bit 4 (u ! 6) = 3"
    "\<forall>i < 16. i \<noteq> 6 \<and> i \<noteq> 8 \<longrightarrow> u ! i = replicate 16 0xFF ! i"
    using service_uuid_well_formed [of "\<lambda>d. Some (replicate 16 0xFF)" "replicate 16 0xFF"] by (simp only: length_replicate) blast
  have "u ! 5 = replicate 16 0xFF ! 5" by (rule u(3) [rule_format]) simp_all
  then have "u ! 5 = 0xFF" by simp
  with u(1,2) show ?thesis by blast
qed

end
