(* ===== verification/Ble.thy ===== *)
theory Ble
  imports Multiplex
begin

text \<open>
  The BLE formats: the FastInitiation pulse and the endpoint advertisement of \<^verbatim>\<open>protocol/src/ble.rs\<close>, and
  Apple's Continuity messages of \<^verbatim>\<open>protocol/src/apple.rs\<close>. Everything here is read from a stranger's
  radio, so an index past the end is a \<open>None\<close> of \<open>get_at\<close>/\<open>get_range\<close>, never a panic.
\<close>

section \<open>The FastInitiation pulse\<close>

definition MODEL_ID :: bytes where "MODEL_ID = [0xFC, 0x12, 0x8E]"
abbreviation METADATA :: u8 where "METADATA \<equiv> 0"
abbreviation TX_POWER :: u8 where "TX_POWER \<equiv> 0x42"
abbreviation PREFIX_LEN :: nat where "PREFIX_LEN \<equiv> 14"
abbreviation SALT_LEN :: nat where "SALT_LEN \<equiv> 1"
abbreviation BLE_SECRET_ID_HASH_LEN :: nat where "BLE_SECRET_ID_HASH_LEN \<equiv> 8"
abbreviation PAYLOAD_LEN :: nat where "PAYLOAD_LEN \<equiv> 23"

record fast_init =
  fi_salt :: u8
  fi_secret_id_hash :: bytes

definition secret_id_hash :: "'k primitives \<Rightarrow> rstring \<Rightarrow> bytes" where
  "secret_id_hash p endpoint_id =
     (case prim_sha256 p endpoint_id of
        Some d \<Rightarrow> take BLE_SECRET_ID_HASH_LEN d
      | None \<Rightarrow> replicate BLE_SECRET_ID_HASH_LEN 0)"

definition ble_build :: "'k primitives \<Rightarrow> rstring \<Rightarrow> u8 \<Rightarrow> bytes option" where
  "ble_build p endpoint_id salt =
     (if endpoint_id = [] then None
      else Some (MODEL_ID @ [METADATA] @ [TX_POWER] @ replicate 9 0 @ [salt] @ secret_id_hash p endpoint_id))"

definition ble_build_random :: "'k primitives \<Rightarrow> u8 option \<Rightarrow> rstring \<Rightarrow> bytes option" where
  "ble_build_random p rand endpoint_id = Option.bind rand (ble_build p endpoint_id)"

definition is_fast_init :: "bytes \<Rightarrow> bool" where
  "is_fast_init data \<longleftrightarrow> PAYLOAD_LEN \<le> length data \<and> take 3 data = MODEL_ID"

definition ble_parse :: "bytes \<Rightarrow> fast_init option" where
  "ble_parse data =
     (if \<not> is_fast_init data then None
      else Some \<lparr>fi_salt = data ! PREFIX_LEN,
             fi_secret_id_hash = take BLE_SECRET_ID_HASH_LEN (drop (PREFIX_LEN + SALT_LEN) data)\<rparr>)"

section \<open>The endpoint advertisement\<close>

definition SERVICE_ID_HASH :: bytes where "SERVICE_ID_HASH = [0xFC, 0x9F, 0x5E]"
abbreviation ENDPOINT_ID_LEN :: nat where "ENDPOINT_ID_LEN \<equiv> 4"
abbreviation MAC_LEN :: nat where "MAC_LEN \<equiv> 6"
abbreviation DEVICE_TOKEN_LEN :: nat where "DEVICE_TOKEN_LEN \<equiv> 2"
abbreviation EXTRA_FIELD_PSM :: u8 where "EXTRA_FIELD_PSM \<equiv> 1"
abbreviation NAME_LEN_AT :: nat where "NAME_LEN_AT \<equiv> 17"

record advertisement =
  ad_endpoint_id :: rstring
  ad_endpoint_info :: bytes
  ad_device_name :: "rstring option"
  ad_verified :: bool
  ad_bluetooth_mac :: "rstring option"
  ad_psm :: "u16 option"

definition name_from_info :: "bytes \<Rightarrow> rstring option" where
  "name_from_info info =
     Option.bind (get_at info NAME_LEN_AT) (\<lambda>l.
       let len = unat l; start = NAME_LEN_AT + 1 in
       Option.bind (checked_add start len) (\<lambda>end'.
         if len = 0 \<or> length info < end' then None
         else
           let name = from_utf8_lossy (take len (drop start info)) in
           if has_control name then None else Some name))"

fun join :: "u8 \<Rightarrow> rstring list \<Rightarrow> rstring" where
  "join sep [] = []"
| "join sep [x] = x"
| "join sep (x # y # xs) = x @ [sep] @ join sep (y # xs)"

definition format_mac :: "bytes \<Rightarrow> rstring option" where
  "format_mac b =
     (if length b \<noteq> MAC_LEN \<or> list_all (\<lambda>x. x = 0) b then None else Some (join 0x3A (map hex_upper b)))"

definition build_advertisement ::
    "rstring \<Rightarrow> bytes \<Rightarrow> bytes option \<Rightarrow> bytes \<Rightarrow> u16 option \<Rightarrow> bytes option" where
  "build_advertisement endpoint_id endpoint_info bluetooth_mac device_token psm =
     (if length endpoint_id \<noteq> ENDPOINT_ID_LEN \<or> \<not> list_all is_ascii_graphic endpoint_id \<or>
         endpoint_info = [] \<or> 255 < length endpoint_info then None
      else
        let body = [0x23] @ SERVICE_ID_HASH @ endpoint_id @ [word_of_nat (length endpoint_info)] @ endpoint_info @
              (case bluetooth_mac of Some mac \<Rightarrow> mac @ [0, 0] | None \<Rightarrow> [])
        in Some ([0x48] @ SERVICE_ID_HASH @ u32_to_be_bytes (word_of_nat (length body)) @ body @ device_token @
              (case psm of Some p \<Rightarrow> if p \<noteq> 0 then [EXTRA_FIELD_PSM] @ u16_to_be_bytes p else [] | None \<Rightarrow> [])))"

definition body_at :: "bytes \<Rightarrow> nat \<Rightarrow> bool \<Rightarrow> advertisement option" where
  "body_at data at regular =
     Option.bind (checked_add at 1) (\<lambda>o1.
     Option.bind (if regular then checked_add o1 (length SERVICE_ID_HASH) else Some o1) (\<lambda>o2.
     Option.bind (checked_add o2 ENDPOINT_ID_LEN) (\<lambda>id_end.
     Option.bind (get_range data o2 id_end) (\<lambda>i.
       if \<not> list_all is_ascii_graphic i then None
       else Option.bind (get_at data id_end) (\<lambda>l.
         let info_len = unat l; info_start = id_end + 1 in
         Option.bind (checked_add info_start info_len) (\<lambda>info_end.
           if info_len = 0 \<or> length data < info_end then None
           else
             let info = take info_len (drop info_start data) in
             Some \<lparr>ad_endpoint_id = from_utf8_lossy i, ad_endpoint_info = info,
                   ad_device_name = name_from_info info, ad_verified = regular,
                   ad_bluetooth_mac =
                     (if regular then Option.bind (get_range data info_end (info_end + MAC_LEN)) format_mac else None),
                   ad_psm = None\<rparr>))))))"

text \<open>The length and start of the body in \<open>framed\<close>, after the header byte.\<close>

definition framed_body :: "bytes \<Rightarrow> bool \<Rightarrow> (nat \<times> nat) option" where
  "framed_body data fast =
     (if fast then Option.bind (get_at data 1) (\<lambda>n. Some (2, unat n))
      else
        Option.bind (get_range data 1 4) (\<lambda>h.
          if h \<noteq> SERVICE_ID_HASH then None
          else Option.bind (get_range data 4 8) (\<lambda>l.
            Some (8, unat (u32_from_be_bytes (l ! 0) (l ! 1) (l ! 2) (l ! 3))))))"

definition framed :: "bytes \<Rightarrow> advertisement option" where
  "framed data =
     Option.bind (get_at data 0) (\<lambda>header.
     let version = drop_bit 5 (header AND 0xE0);
         socket_version = drop_bit 2 (header AND 0x1C);
         fast = (header AND 0x02 \<noteq> 0) in
     if \<not> (1 \<le> version \<and> version \<le> 2) \<or> \<not> (1 \<le> socket_version \<and> socket_version \<le> 2) then None
     else Option.bind (framed_body data fast) (\<lambda>(body_start, body_len).
     Option.bind (checked_add body_start body_len) (\<lambda>body_end.
     if length data < body_end then None
     else Option.bind (body_at data body_start (\<not> fast)) (\<lambda>advert.
     Option.bind (checked_add body_end DEVICE_TOKEN_LEN) (\<lambda>p.
     case get_at data p of
       None \<Rightarrow> Some advert
     | Some extra \<Rightarrow>
         if extra AND EXTRA_FIELD_PSM \<noteq> 0 then
           Option.bind (get_range data (p + 1) (p + 3)) (\<lambda>raw.
             let psm = u16_from_be_bytes (raw ! 0) (raw ! 1)
             in Some (if psm \<noteq> 0 then advert\<lparr>ad_psm := Some psm\<rparr> else advert))
         else Some advert)))))"

text \<open>The fallback loop of \<open>parse_advertisement\<close>: the positions still to try.\<close>

fun scan_bodies :: "bytes \<Rightarrow> nat list \<Rightarrow> advertisement option" where
  "scan_bodies data [] = None"
| "scan_bodies data (i # is) =
     (if take 3 (drop i data) \<noteq> SERVICE_ID_HASH then scan_bodies data is
      else case body_at data (i - 1) True of Some a \<Rightarrow> Some a | None \<Rightarrow> scan_bodies data is)"

definition parse_advertisement :: "bytes \<Rightarrow> advertisement option" where
  "parse_advertisement data =
     (case framed data of
        Some a \<Rightarrow> Some a
      | None \<Rightarrow>
          (case scan_bodies data [1..<length data - length SERVICE_ID_HASH] of
             Some a \<Rightarrow> Some a
           | None \<Rightarrow> body_at data 2 False))"

section \<open>Apple Continuity\<close>

abbreviation TYPE_AIRDROP :: u8 where "TYPE_AIRDROP \<equiv> 0x05"
abbreviation TYPE_NEARBY_INFO :: u8 where "TYPE_NEARBY_INFO \<equiv> 0x10"
abbreviation FLAG_RECEPTIVE :: u8 where "FLAG_RECEPTIVE \<equiv> 0x40"

record nearby_info_msg =
  ni_flags :: u8
  ni_action :: u8

definition receptive :: "nearby_info_msg \<Rightarrow> bool" where
  "receptive n \<longleftrightarrow> ni_flags n AND FLAG_RECEPTIVE \<noteq> 0"

record airdrop_beacon =
  ab_version :: u8
  ab_hashes :: "(u8 \<times> u8) list"

datatype apple_message = Msg_NearbyInfo nearby_info_msg | Msg_AirDrop airdrop_beacon | Msg_Other u8

definition apple_item :: "u8 \<Rightarrow> bytes \<Rightarrow> apple_message" where
  "apple_item t body =
     (if t = TYPE_NEARBY_INFO \<and> 2 \<le> length body then Msg_NearbyInfo \<lparr>ni_flags = body ! 0, ni_action = body ! 1\<rparr>
      else if t = TYPE_AIRDROP \<and> 17 \<le> length body then
        Msg_AirDrop \<lparr>ab_version = body ! 8,
          ab_hashes = map (\<lambda>n. (body ! (9 + 2 * n), body ! (10 + 2 * n))) [0..<4]\<rparr>
      else Msg_Other t)"

function apple_loop :: "bytes \<Rightarrow> nat \<Rightarrow> apple_message list" where
  "apple_loop data i =
     (if i + 2 \<le> length data then
        let len = unat (data ! (i + 1)) in
        case get_range data (i + 2) (i + 2 + len) of
          None \<Rightarrow> []
        | Some body \<Rightarrow> apple_item (data ! i) body # apple_loop data (i + 2 + len)
      else [])"
  by pat_completeness auto
termination
  by (relation "measure (\<lambda>(data, i). length data - i)") auto

declare apple_loop.simps [simp del]

definition apple_parse :: "bytes \<Rightarrow> apple_message list" where
  "apple_parse data = apple_loop data 0"

fun find_nearby :: "apple_message list \<Rightarrow> nearby_info_msg option" where
  "find_nearby [] = None"
| "find_nearby (Msg_NearbyInfo n # ms) = Some n"
| "find_nearby (m # ms) = find_nearby ms"

definition apple_nearby_info :: "bytes \<Rightarrow> nearby_info_msg option" where
  "apple_nearby_info data = find_nearby (apple_parse data)"

section \<open>Reading what was built\<close>

lemma range_middle: "data = pre @ mid @ post \<Longrightarrow> get_range data (length pre) (length pre + length mid) = Some mid"
  by (simp add: get_range_def)

lemma range_after:
  "data = front @ post \<Longrightarrow> n = length front \<Longrightarrow>
     get_range data n (n + k) = (if k \<le> length post then Some (take k post) else None)"
  by (simp add: get_range_def)

lemma get_middle: "data = pre @ x # post \<Longrightarrow> get_at data (length pre) = Some x"
  by (simp add: get_at_def)

lemma body_at_parts:
  assumes "get_range data (n + 4) (n + 8) = Some eid" "list_all is_ascii_graphic eid" "get_at data (n + 8) = Some l"
    and "unat l \<noteq> 0" "n + 9 + unat l \<le> length data" "n < 1000"
    and "take (unat l) (drop (n + 9) data) = info"
  shows "body_at data n True = Some \<lparr>ad_endpoint_id = eid, ad_endpoint_info = info, ad_device_name = name_from_info info,
      ad_verified = True, ad_bluetooth_mac = Option.bind (get_range data (n + 9 + unat l) (n + 9 + unat l + 6)) format_mac,
      ad_psm = None\<rparr>"
proof -
  have hash: "length SERVICE_ID_HASH = 3" by (simp add: SERVICE_ID_HASH_def)
  have l: "unat l < 256" using unsigned_less [of l, where ?'a = nat] by simp
  have add: "checked_add n 1 = Some (n + 1)" "checked_add (n + 1) 3 = Some (n + 4)" "checked_add (n + 4) 4 = Some (n + 8)"
      "n + 8 + 1 = n + 9" "checked_add (n + 9) (unat l) = Some (n + 9 + unat l)"
    using assms(6) l by (simp_all add: checked_add_def)
  have ok: "\<not> (unat l = 0 \<or> length data < n + 9 + unat l)" using assms(4,5) by simp
  show ?thesis
    by (simp only: body_at_def hash add assms(1-3,7) ok graphic_valid [OF assms(2), THEN from_utf8_lossy_valid]
        Option.bind.simps Let_def if_True if_False not_True_eq_False not_False_eq_True)
qed

lemma body_at_built:
  assumes data: "data = pre @ [0x23] @ SERVICE_ID_HASH @ eid @ [word_of_nat (length info)] @ info @ post"
    and "length eid = 4" "list_all is_ascii_graphic eid" "info \<noteq> []" "length info \<le> 255" "length pre < 1000"
  shows "body_at data (length pre) True =
    Some \<lparr>ad_endpoint_id = eid, ad_endpoint_info = info, ad_device_name = name_from_info info, ad_verified = True,
      ad_bluetooth_mac = (if 6 \<le> length post then format_mac (take 6 post) else None), ad_psm = None\<rparr>"
proof -
  have hash: "length SERVICE_ID_HASH = 3" by (simp add: SERVICE_ID_HASH_def)
  have len: "length data = length pre + 9 + length info + length post" using data assms(2) hash by simp
  have eid: "get_range data (length pre + 4) (length pre + 8) = Some eid"
    using range_middle [of data "pre @ [0x23] @ SERVICE_ID_HASH" eid] data assms(2) hash by (simp add: add.commute)
  have il: "get_at data (length pre + 8) = Some (word_of_nat (length info))"
    using get_middle [of data "pre @ [0x23] @ SERVICE_ID_HASH @ eid"] data assms(2) hash by (simp add: add.commute)
  have info: "take (length info) (drop (length pre + 9) data) = info"
    using data assms(2) hash by simp
  have mac: "get_range data (length pre + 9 + length info) (length pre + 9 + length info + 6) =
      (if 6 \<le> length post then Some (take 6 post) else None)"
    by (rule range_after [of data "pre @ [0x23] @ SERVICE_ID_HASH @ eid @ [word_of_nat (length info)] @ info"])
      (use data assms(2) hash in simp_all)
  have un: "unat (word_of_nat (length info) :: u8) = length info"
    using assms(5) by (simp add: unsigned_of_nat take_bit_nat_eq_self)
  show ?thesis
    using body_at_parts [of data "length pre" eid "word_of_nat (length info)" info] eid assms(3-6) il un info len mac by simp
qed

lemma advertisement_header: "framed_body (0x48 # SERVICE_ID_HASH @ u32_to_be_bytes w @ rest) False = Some (8, unat w)"
  by (simp add: framed_body_def get_range_def SERVICE_ID_HASH_def u32_to_be_bytes_def u32_be_roundtrip)

lemma framed_parts:
  assumes "get_at bs 0 = Some 0x48" "framed_body bs False = Some (8, n)" "n \<le> 272" "8 + n \<le> length bs"
    and "body_at bs 8 True = Some a" "ad_psm a = None"
    and "get_at bs (n + 10) = (if psm = None \<or> psm = Some 0 then None else Some EXTRA_FIELD_PSM)"
    and "\<And>q. psm = Some q \<Longrightarrow> q \<noteq> 0 \<Longrightarrow> get_range bs (n + 11) (n + 13) = Some (u16_to_be_bytes q)"
  shows "framed bs = Some (a\<lparr>ad_psm := if psm = Some 0 then None else psm\<rparr>)"
proof -
  have bits: "drop_bit 5 (0x48 AND 0xE0) = (2 :: u8)" "drop_bit 2 (0x48 AND 0x1C) = (2 :: u8)" "0x48 AND 2 = (0 :: u8)"
      "(1 :: u8) \<le> 2" by simp_all
  have add: "checked_add 8 n = Some (8 + n)" "checked_add (8 + n) 2 = Some (n + 10)"
    using assms(3) by (simp_all add: checked_add_def)
  have "framed bs = (case get_at bs (n + 10) of
       None \<Rightarrow> Some a
     | Some extra \<Rightarrow>
         if extra AND EXTRA_FIELD_PSM \<noteq> 0 then
           Option.bind (get_range bs (n + 10 + 1) (n + 10 + 3)) (\<lambda>raw.
             let psm = u16_from_be_bytes (raw ! 0) (raw ! 1)
             in Some (if psm \<noteq> 0 then a\<lparr>ad_psm := Some psm\<rparr> else a))
         else Some a)"
    using assms(1-5) by (simp only: framed_def bits add Option.bind.simps Let_def) (simp add: bits add)
  also have "\<dots> = Some (a\<lparr>ad_psm := if psm = Some 0 then None else psm\<rparr>)"
    using assms(6-8) by (cases psm) (auto simp: u16_to_be_bytes_def u16_be_roundtrip add.commute)
  finally show ?thesis .
qed

lemma framed_built:
  assumes "length eid = 4" "list_all is_ascii_graphic eid" "info \<noteq> []" "length info \<le> 255"
    and "case mac of Some m \<Rightarrow> length m = 6 | None \<Rightarrow> True" "length token = 2"
    and "build_advertisement eid info mac token psm = Some bs"
  shows "framed bs = Some \<lparr>ad_endpoint_id = eid, ad_endpoint_info = info, ad_device_name = name_from_info info,
      ad_verified = True, ad_bluetooth_mac = Option.bind mac format_mac,
      ad_psm = (if psm = Some 0 then None else psm)\<rparr>"
proof -
  let ?tail = "case mac of Some m \<Rightarrow> m @ [0, 0] | None \<Rightarrow> []"
  let ?body = "[0x23] @ SERVICE_ID_HASH @ eid @ [word_of_nat (length info)] @ info @ ?tail"
  let ?extra = "case psm of Some p \<Rightarrow> if p \<noteq> 0 then [EXTRA_FIELD_PSM] @ u16_to_be_bytes p else [] | None \<Rightarrow> []"
  let ?pre = "[0x48] @ SERVICE_ID_HASH @ u32_to_be_bytes (word_of_nat (length ?body))"
  have bs: "bs = ?pre @ ?body @ token @ ?extra"
    using assms(1-4,7) by (simp add: build_advertisement_def Let_def)
  have hash: "length SERVICE_ID_HASH = 3" by (simp add: SERVICE_ID_HASH_def)
  have lb: "length ?body \<le> 272" "length ?body = 9 + length info + length ?tail"
    using assms(1,4,5) hash by (auto split: option.splits)
  have un: "unat (word_of_nat (length ?body) :: u32) = length ?body"
    using lb(1) by (simp only: unsigned_of_nat) (simp add: take_bit_nat_eq_self)
  have fb: "framed_body bs False = Some (8, length ?body)"
    using advertisement_header [of "word_of_nat (length ?body)" "?body @ token @ ?extra"] un bs by simp
  have ba: "body_at bs 8 True = Some \<lparr>ad_endpoint_id = eid, ad_endpoint_info = info, ad_device_name = name_from_info info,
      ad_verified = True, ad_bluetooth_mac = Option.bind mac format_mac, ad_psm = None\<rparr>"
    using body_at_built [of bs ?pre eid info "?tail @ token @ ?extra"] bs assms(1-6) hash
    by (cases mac; cases psm) auto
  have p: "get_at bs (length ?body + 10) = (if psm = None \<or> psm = Some 0 then None else Some EXTRA_FIELD_PSM)"
    using get_middle [of bs "?pre @ ?body @ token" EXTRA_FIELD_PSM] bs hash assms(6)
    by (auto simp: get_at_def split: option.splits)
  have s: "get_range bs (length ?body + 11) (length ?body + 13) = Some (u16_to_be_bytes q)" if "psm = Some q" "q \<noteq> 0" for q
    using range_middle [of bs "?pre @ ?body @ token @ [EXTRA_FIELD_PSM]" "u16_to_be_bytes q" "[]"] bs that hash assms(6)
    by simp
  have hd: "get_at bs 0 = Some 0x48" using bs by (simp add: get_at_def)
  have len: "length bs = length ?pre + length ?body + 2 + length ?extra" using bs assms(6) by simp
  have "framed bs = Some (\<lparr>ad_endpoint_id = eid, ad_endpoint_info = info, ad_device_name = name_from_info info,
      ad_verified = True, ad_bluetooth_mac = Option.bind mac format_mac, ad_psm = None\<rparr>
      \<lparr>ad_psm := if psm = Some 0 then None else psm\<rparr>)"
    by (rule framed_parts [OF hd fb lb(1) _ ba _ p s]) (use len hash in simp_all)
  then show ?thesis by simp
qed

lemma build_advertisement_guard:
  "build_advertisement eid info mac token psm = Some bs \<Longrightarrow>
     length eid = 4 \<and> list_all is_ascii_graphic eid \<and> info \<noteq> [] \<and> length info \<le> 255"
  by (auto simp: build_advertisement_def split: if_splits)

section \<open>Type, length, value\<close>

definition apple_tlv :: "u8 \<times> bytes \<Rightarrow> bytes" where
  "apple_tlv m = [fst m, word_of_nat (length (snd m))] @ snd m"

lemma apple_tlv_pair: "apple_tlv (t, b) = [t, word_of_nat (length b)] @ b"
  by (simp add: apple_tlv_def)

text \<open>What is left after the whole messages: too short for a header, or for the body it announces.\<close>

definition apple_cut :: "bytes \<Rightarrow> bool" where
  "apple_cut rest \<longleftrightarrow> length rest < 2 \<or> length rest < 2 + unat (rest ! 1)"

lemma apple_loop_step:
  assumes "data ! i = t" "data ! (i + 1) = l" "get_range data (i + 2) (i + 2 + unat l) = Some b"
  shows "apple_loop data i = apple_item t b # apple_loop data (i + 2 + unat l)"
proof -
  have "i + 2 \<le> length data" using assms(3) by (auto simp: get_range_def split: if_splits)
  with assms show ?thesis by (subst apple_loop.simps) simp
qed

lemma apple_loop_tlvs:
  assumes "\<forall>m \<in> set ms. length (snd m) \<le> 255" "apple_cut rest"
  shows "apple_loop (pre @ concat (map apple_tlv ms) @ rest) (length pre) = map (\<lambda>(t, b). apple_item t b) ms"
  using assms(1)
proof (induction ms arbitrary: pre)
  case Nil
  show ?case
    using assms(2) by (subst apple_loop.simps) (auto simp: apple_cut_def get_range_def nth_append)
next
  case (Cons m ms)
  obtain t b where m: "m = (t, b)" by fastforce
  let ?data = "pre @ concat (map apple_tlv (m # ms)) @ rest"
  have un: "unat (word_of_nat (length b) :: u8) = length b"
    using Cons.prems m by (simp add: unsigned_of_nat take_bit_nat_eq_self)
  have nth: "?data ! length pre = t" "?data ! (length pre + 1) = word_of_nat (length b)"
    by (simp_all add: m apple_tlv_pair nth_append)
  have body: "get_range ?data (length pre + 2) (length pre + 2 + length b) = Some b"
    using range_middle [of ?data "pre @ [t, word_of_nat (length b)]" b] by (simp add: m apple_tlv_pair)
  have rest: "apple_loop ?data (length pre + 2 + length b) = map (\<lambda>(t, b). apple_item t b) ms"
    using Cons.IH [of "pre @ apple_tlv m"] Cons.prems by (simp add: m apple_tlv_pair)
  show ?case
    using apple_loop_step [OF nth] body rest un m by simp
qed

section \<open>Properties\<close>

text \<open>
  An endpoint advertisement reads back. Whatever endpoint id, info, Bluetooth address, token and
  PSM are published, if an advertisement is built at all then parsing it gives exactly those, marked
  as verified Quick Share; an all-zero address and a zero PSM read as absent.
\<close>

theorem advertisement_roundtrip:
  assumes "build_advertisement eid info mac token psm = Some bs"
    and "case mac of Some m \<Rightarrow> length m = 6 | None \<Rightarrow> True" "length token = 2"
  shows "parse_advertisement bs = Some \<lparr>ad_endpoint_id = eid, ad_endpoint_info = info,
      ad_device_name = name_from_info info, ad_verified = True, ad_bluetooth_mac = Option.bind mac format_mac,
      ad_psm = (if psm = Some 0 then None else psm)\<rparr>"
  using build_advertisement_guard [OF assms(1)] framed_built [OF _ _ _ _ assms(2,3,1)]
  by (simp add: parse_advertisement_def)

theorem advertisement_roundtrip_witness:
  "\<exists>bs. build_advertisement [0x41, 0x42, 0x43, 0x44] [9] (Some [1, 2, 3, 4, 5, 6]) [7, 7] (Some 177) = Some bs \<and>
     map_option ad_bluetooth_mac (parse_advertisement bs) = Some (Some (str ''01:02:03:04:05:06'')) \<and>
     map_option ad_psm (parse_advertisement bs) = Some (Some 177)"
proof -
  obtain bs where b: "build_advertisement [0x41, 0x42, 0x43, 0x44] [9] (Some [1, 2, 3, 4, 5, 6]) [7, 7] (Some 177) = Some bs"
    by (simp add: build_advertisement_def is_ascii_graphic_def)
  have "format_mac [1, 2, 3, 4, 5, 6] = Some (str ''01:02:03:04:05:06'')"
    by (simp add: format_mac_def hex_upper_def hex_digit_def str_def)
  with advertisement_roundtrip [OF b] b show ?thesis by simp
qed

text \<open>
  A pulse is 23 bytes, reads back to its salt and hash, and no shorter prefix of it is taken for
  one.
\<close>

theorem pulse_roundtrip:
  assumes "hash_ok p" "ble_build p eid salt = Some bs"
  shows "length bs = PAYLOAD_LEN \<and> ble_parse bs = Some \<lparr>fi_salt = salt, fi_secret_id_hash = secret_id_hash p eid\<rparr> \<and>
    (\<forall>n < PAYLOAD_LEN. ble_parse (take n bs) = None)"
proof -
  obtain d where "prim_sha256 p eid = Some d" "length d = 32" using assms(1) by (metis hash_ok_def)
  then have h: "length (secret_id_hash p eid) = 8" by (simp add: secret_id_hash_def)
  have bs: "bs = [0xFC, 0x12, 0x8E, METADATA, TX_POWER, 0, 0, 0, 0, 0, 0, 0, 0, 0, salt] @ secret_id_hash p eid"
    using assms(2) by (simp add: ble_build_def MODEL_ID_def numeral_eq_Suc split: if_splits)
  have len: "length bs = PAYLOAD_LEN" using bs h by simp
  moreover have "ble_parse bs = Some \<lparr>fi_salt = salt, fi_secret_id_hash = secret_id_hash p eid\<rparr>"
    using len h by (simp add: ble_parse_def is_fast_init_def MODEL_ID_def bs)
  moreover have "ble_parse (take n bs) = None" if "n < PAYLOAD_LEN" for n
    using that len by (simp add: ble_parse_def is_fast_init_def)
  ultimately show ?thesis by blast
qed

theorem pulse_roundtrip_witness:
  "\<exists>bs. ble_build sample_prims [0x41] 0x7E = Some bs \<and> map_option fi_salt (ble_parse bs) = Some 0x7E"
  using pulse_roundtrip [OF sample_prims_ok(3), of "[0x41]" "0x7E"] by (simp add: ble_build_def)

text \<open>
  A Continuity payload is read message by message: a sequence of messages followed by anything
  that is not a whole message yields exactly that sequence, so a truncated advertisement yields what
  was whole.
\<close>

theorem apple_messages_whole:
  assumes "\<forall>m \<in> set ms. length (snd m) \<le> 255" "apple_cut rest"
  shows "apple_parse (concat (map apple_tlv ms) @ rest) = map (\<lambda>(t, b). apple_item t b) ms"
  using apple_loop_tlvs [OF assms, of "[]"] by (simp add: apple_parse_def)

theorem apple_messages_whole_witness:
  "apple_parse [0x10, 5, 0x61, 0x1e, 1, 2, 3, 5, 18, 0] = [Msg_NearbyInfo \<lparr>ni_flags = 0x61, ni_action = 0x1e\<rparr>] \<and>
   receptive \<lparr>ni_flags = 0x61, ni_action = 0x1e\<rparr>"
  using apple_messages_whole [of "[(0x10, [0x61, 0x1e, 1, 2, 3])]" "[5, 18, 0]"]
  by (simp add: apple_tlv_def apple_cut_def apple_item_def receptive_def)

text \<open>
  \<open>framed\<close> bounds the body by its length field but \<open>body_at\<close> does not: in a regular advertisement
  whose body ends after the endpoint info, the six bytes after the body (device token and trailing
  fields) are reported as the peer's Bluetooth address.
\<close>

theorem mac_read_past_body:
  assumes "length eid = 4" "list_all is_ascii_graphic eid" "info \<noteq> []" "length info \<le> 255" "length after = 6"
  shows "map_option ad_bluetooth_mac (body_at
    ([0x48] @ SERVICE_ID_HASH @ u32_to_be_bytes (word_of_nat (9 + length info)) @
     ([0x23] @ SERVICE_ID_HASH @ eid @ [word_of_nat (length info)] @ info) @ after) 8 True) = Some (format_mac after)"
  using body_at_built [of _ "[0x48] @ SERVICE_ID_HASH @ u32_to_be_bytes (word_of_nat (9 + length info))" eid info after] assms
  by (simp add: SERVICE_ID_HASH_def)

end
