(* ===== verification/Upgrade.thy ===== *)
theory Upgrade
  imports Frames
begin

text \<open>
  Bandwidth upgrade, \<^verbatim>\<open>protocol/src/upgrade.rs\<close>: the negotiation frames, and the two machines \<open>Host\<close> and
  \<open>Joiner\<close> that move a live connection to a new socket. Every effect names the channel it belongs on;
  the two channels are separate sockets, so frames on them overtake each other.
\<close>

section \<open>Field numbers\<close>

abbreviation BW_EVENT_TYPE :: u32 where "BW_EVENT_TYPE \<equiv> 1"
abbreviation BW_UPGRADE_PATH_INFO :: u32 where "BW_UPGRADE_PATH_INFO \<equiv> 2"
abbreviation BW_CLIENT_INTRODUCTION :: u32 where "BW_CLIENT_INTRODUCTION \<equiv> 3"
abbreviation BW_CLIENT_INTRODUCTION_ACK :: u32 where "BW_CLIENT_INTRODUCTION_ACK \<equiv> 4"
abbreviation BW_SAFE_TO_CLOSE :: u32 where "BW_SAFE_TO_CLOSE \<equiv> 5"
abbreviation E_UPGRADE_PATH_AVAILABLE :: u64 where "E_UPGRADE_PATH_AVAILABLE \<equiv> 1"
abbreviation E_LAST_WRITE_TO_PRIOR :: u64 where "E_LAST_WRITE_TO_PRIOR \<equiv> 2"
abbreviation E_SAFE_TO_CLOSE_PRIOR :: u64 where "E_SAFE_TO_CLOSE_PRIOR \<equiv> 3"
abbreviation E_CLIENT_INTRODUCTION :: u64 where "E_CLIENT_INTRODUCTION \<equiv> 4"
abbreviation E_UPGRADE_FAILURE :: u64 where "E_UPGRADE_FAILURE \<equiv> 5"
abbreviation E_CLIENT_INTRODUCTION_ACK :: u64 where "E_CLIENT_INTRODUCTION_ACK \<equiv> 6"
abbreviation E_UPGRADE_PATH_REQUEST :: u64 where "E_UPGRADE_PATH_REQUEST \<equiv> 7"
abbreviation UP_MEDIUM :: u32 where "UP_MEDIUM \<equiv> 1"
abbreviation UP_WIFI_HOTSPOT :: u32 where "UP_WIFI_HOTSPOT \<equiv> 2"
abbreviation UP_WIFI_LAN :: u32 where "UP_WIFI_LAN \<equiv> 3"
abbreviation UP_WIFI_DIRECT :: u32 where "UP_WIFI_DIRECT \<equiv> 6"
abbreviation UP_SUPPORTS_DISABLING_ENCRYPTION :: u32 where "UP_SUPPORTS_DISABLING_ENCRYPTION \<equiv> 7"
abbreviation UP_SUPPORTS_INTRODUCTION_ACK :: u32 where "UP_SUPPORTS_INTRODUCTION_ACK \<equiv> 9"
abbreviation UP_UPGRADE_PATH_REQUEST :: u32 where "UP_UPGRADE_PATH_REQUEST \<equiv> 10"
abbreviation UPR_MEDIUMS :: u32 where "UPR_MEDIUMS \<equiv> 1"
abbreviation UPR_MEDIUM_METADATA :: u32 where "UPR_MEDIUM_METADATA \<equiv> 2"
abbreviation MM_MEDIUM_ROLE :: u32 where "MM_MEDIUM_ROLE \<equiv> 12"
abbreviation MM_SUPPORTED_WIFI_DIRECT_AUTH :: u32 where "MM_SUPPORTED_WIFI_DIRECT_AUTH \<equiv> 13"
abbreviation MR_WIFI_DIRECT_GROUP_OWNER :: u32 where "MR_WIFI_DIRECT_GROUP_OWNER \<equiv> 1"
abbreviation MR_WIFI_DIRECT_GROUP_CLIENT :: u32 where "MR_WIFI_DIRECT_GROUP_CLIENT \<equiv> 2"
abbreviation WIFI_DIRECT_WITH_PASSWORD :: u64 where "WIFI_DIRECT_WITH_PASSWORD \<equiv> 1"
definition STA_FREQUENCY_NOT_SET :: i32 where "STA_FREQUENCY_NOT_SET = - 1"
abbreviation HS_SSID :: u32 where "HS_SSID \<equiv> 1"
abbreviation HS_PASSWORD :: u32 where "HS_PASSWORD \<equiv> 2"
abbreviation HS_PORT :: u32 where "HS_PORT \<equiv> 3"
abbreviation HS_GATEWAY :: u32 where "HS_GATEWAY \<equiv> 4"
abbreviation HS_FREQUENCY :: u32 where "HS_FREQUENCY \<equiv> 5"
abbreviation WD_SSID :: u32 where "WD_SSID \<equiv> 1"
abbreviation WD_PASSWORD :: u32 where "WD_PASSWORD \<equiv> 2"
abbreviation WD_PORT :: u32 where "WD_PORT \<equiv> 3"
abbreviation WD_FREQUENCY :: u32 where "WD_FREQUENCY \<equiv> 4"
abbreviation WD_GATEWAY :: u32 where "WD_GATEWAY \<equiv> 5"
abbreviation LAN_IP :: u32 where "LAN_IP \<equiv> 1"
abbreviation LAN_PORT :: u32 where "LAN_PORT \<equiv> 2"
abbreviation UCI_ENDPOINT_ID :: u32 where "UCI_ENDPOINT_ID \<equiv> 1"
abbreviation UCI_SUPPORTS_DISABLING_ENCRYPTION :: u32 where "UCI_SUPPORTS_DISABLING_ENCRYPTION \<equiv> 2"
abbreviation SC_STA_FREQUENCY :: u32 where "SC_STA_FREQUENCY \<equiv> 1"

section \<open>Data\<close>

datatype medium =
    Medium_Unknown | Medium_Bluetooth | Medium_WifiHotspot | Medium_Ble | Medium_WifiLan | Medium_WifiAware
  | Medium_WifiDirect | Medium_Awdl

fun medium_num :: "medium \<Rightarrow> u64" where
  "medium_num Medium_Unknown = 0"
| "medium_num Medium_Bluetooth = 2"
| "medium_num Medium_WifiHotspot = 3"
| "medium_num Medium_Ble = 4"
| "medium_num Medium_WifiLan = 5"
| "medium_num Medium_WifiAware = 6"
| "medium_num Medium_WifiDirect = 8"
| "medium_num Medium_Awdl = 13"

definition medium_from :: "u64 \<Rightarrow> medium" where
  "medium_from v =
     (if v = 2 then Medium_Bluetooth else if v = 3 then Medium_WifiHotspot else if v = 4 then Medium_Ble
      else if v = 5 then Medium_WifiLan else if v = 6 then Medium_WifiAware else if v = 8 then Medium_WifiDirect
      else if v = 13 then Medium_Awdl else Medium_Unknown)"

record wifi_credentials =
  wc_ssid :: rstring
  wc_password :: rstring
  wc_port :: i32
  wc_gateway :: rstring
  wc_frequency :: i32

record lan_socket =
  ls_ip :: bytes
  ls_port :: i32

record upgrade_path =
  up_medium :: medium
  up_wifi :: "wifi_credentials option"
  up_lan :: "lan_socket option"
  up_supports_introduction_ack :: bool
  up_supports_disabling_encryption :: bool

definition upgrade_path_default :: upgrade_path where
  "upgrade_path_default =
     \<lparr>up_medium = Medium_Unknown, up_wifi = None, up_lan = None, up_supports_introduction_ack = False,
      up_supports_disabling_encryption = False\<rparr>"

datatype upgrade_frame =
    UF_PathRequest "medium list"
  | UF_PathAvailable upgrade_path
  | UF_ClientIntroduction rstring
  | UF_ClientIntroductionAck
  | UF_LastWriteToPrior
  | UF_SafeToClosePrior i32
  | UF_Failure
  | UF_Unknown u64

datatype upgrade_error = Upgrade_Protobuf pb_error | Upgrade_Malformed string

section \<open>Encoding\<close>

definition upgrade_wrap :: "bytes \<Rightarrow> bytes" where
  "upgrade_wrap body = bandwidth_upgrade body"

definition encode_wifi :: "wifi_credentials \<Rightarrow> bool \<Rightarrow> bytes" where
  "encode_wifi c direct =
     write_msg
       (if direct then
          [w_bytes WD_SSID (wc_ssid c), w_bytes WD_PASSWORD (wc_password c), w_varint WD_PORT (scast (wc_port c)),
           w_varint WD_FREQUENCY (scast (wc_frequency c)), w_bytes WD_GATEWAY (wc_gateway c)]
        else
          [w_bytes HS_SSID (wc_ssid c), w_bytes HS_PASSWORD (wc_password c), w_varint HS_PORT (scast (wc_port c)),
           w_bytes HS_GATEWAY (wc_gateway c), w_varint HS_FREQUENCY (scast (wc_frequency c))])"

lemma packed_progress: "drop_bit 7 (v :: u64) \<noteq> 0 \<Longrightarrow> unat (drop_bit 7 v) < unat v"
proof -
  assume "drop_bit 7 v \<noteq> 0"
  then have "0 < unat v div 128" by (simp add: word_unat_eq_iff drop_bit_eq_div unat_div)
  then show ?thesis by (simp add: drop_bit_eq_div unat_div)
qed

text \<open>The inner loop of \<open>path_request\<close>: one varint of the packed list.\<close>

function packed_varint :: "u64 \<Rightarrow> bytes" where
  "packed_varint v =
     (let b = ucast (v AND 0x7f); v' = drop_bit 7 v
      in if v' = 0 then [b] else (b OR 0x80) # packed_varint v')"
  by pat_completeness auto
termination
  by (relation "measure unat") (auto dest: packed_progress)

declare packed_varint.simps [simp del]

definition path_request :: "medium list \<Rightarrow> bytes" where
  "path_request mediums0 =
     (let mediums = sort_key (\<lambda>m. unat (medium_num m)) mediums0;
          packed = concat (map (\<lambda>m. packed_varint (medium_num m)) mediums);
          meta = write_msg
            (if Medium_WifiDirect \<in> set mediums then
               [w_bytes MM_MEDIUM_ROLE
                  (write_msg [w_varint MR_WIFI_DIRECT_GROUP_OWNER 1, w_varint MR_WIFI_DIRECT_GROUP_CLIENT 1]),
                w_bytes MM_SUPPORTED_WIFI_DIRECT_AUTH [ucast WIFI_DIRECT_WITH_PASSWORD]]
             else []);
          req = write_msg [w_bytes UPR_MEDIUMS packed, w_bytes UPR_MEDIUM_METADATA meta];
          info = write_msg [w_bytes UP_UPGRADE_PATH_REQUEST req]
      in upgrade_wrap (write_msg [w_varint BW_EVENT_TYPE E_UPGRADE_PATH_REQUEST, w_bytes BW_UPGRADE_PATH_INFO info]))"

definition path_info :: "upgrade_path \<Rightarrow> bytes" where
  "path_info path =
     write_msg
       ([w_varint UP_MEDIUM (medium_num (up_medium path))] @
        (case up_wifi path of
           Some c \<Rightarrow>
             let direct = (up_medium path = Medium_WifiDirect);
                 field = (if direct then UP_WIFI_DIRECT else UP_WIFI_HOTSPOT)
             in [w_bytes field (encode_wifi c direct)]
         | None \<Rightarrow> []) @
        (case up_lan path of
           Some l \<Rightarrow> [w_bytes UP_WIFI_LAN (write_msg [w_bytes LAN_IP (ls_ip l), w_varint LAN_PORT (scast (ls_port l))])]
         | None \<Rightarrow> []) @
        [w_varint UP_SUPPORTS_DISABLING_ENCRYPTION (bool_u64 (up_supports_disabling_encryption path)),
         w_varint UP_SUPPORTS_INTRODUCTION_ACK (bool_u64 (up_supports_introduction_ack path))])"

definition path_available :: "upgrade_path \<Rightarrow> bytes" where
  "path_available path =
     upgrade_wrap (write_msg [w_varint BW_EVENT_TYPE E_UPGRADE_PATH_AVAILABLE, w_bytes BW_UPGRADE_PATH_INFO (path_info path)])"

definition client_introduction :: "rstring \<Rightarrow> bytes" where
  "client_introduction endpoint_id =
     (let ci = write_msg [w_bytes UCI_ENDPOINT_ID endpoint_id, w_varint UCI_SUPPORTS_DISABLING_ENCRYPTION 0]
      in upgrade_wrap (write_msg [w_varint BW_EVENT_TYPE E_CLIENT_INTRODUCTION, w_bytes BW_CLIENT_INTRODUCTION ci]))"

definition client_introduction_ack :: bytes where
  "client_introduction_ack =
     upgrade_wrap (write_msg [w_varint BW_EVENT_TYPE E_CLIENT_INTRODUCTION_ACK, w_bytes BW_CLIENT_INTRODUCTION_ACK []])"

definition last_write_to_prior :: bytes where
  "last_write_to_prior = upgrade_wrap (write_msg [w_varint BW_EVENT_TYPE E_LAST_WRITE_TO_PRIOR])"

definition safe_to_close_prior :: "i32 \<Rightarrow> bytes" where
  "safe_to_close_prior sta_frequency =
     (let sc = write_msg [w_varint SC_STA_FREQUENCY (scast sta_frequency)]
      in upgrade_wrap (write_msg [w_varint BW_EVENT_TYPE E_SAFE_TO_CLOSE_PRIOR, w_bytes BW_SAFE_TO_CLOSE sc]))"

definition upgrade_failure :: bytes where
  "upgrade_failure = upgrade_wrap (write_msg [w_varint BW_EVENT_TYPE E_UPGRADE_FAILURE])"

section \<open>Decoding\<close>

text \<open>The inner loop of \<open>parse_packed_mediums\<close>; \<open>None\<close> is its early return.\<close>

function packed_value :: "bytes \<Rightarrow> nat \<Rightarrow> u64 \<Rightarrow> nat \<Rightarrow> (u64 \<times> nat) option" where
  "packed_value packed i v shift =
     (if length packed \<le> i then None
      else
        let b = packed ! i; v' = v OR push_bit shift (ucast (b AND 0x7f)) in
        if b AND 0x80 = 0 then Some (v', i + 1)
        else if 63 < shift + 7 then None
        else packed_value packed (i + 1) v' (shift + 7))"
  by pat_completeness auto
termination
  by (relation "measure (\<lambda>(packed, i, v, shift). length packed - i)") auto

declare packed_value.simps [simp del]

lemma packed_value_advances: "packed_value packed i v shift = Some (w, j) \<Longrightarrow> i < j \<and> j \<le> length packed"
proof (induction packed i v shift rule: packed_value.induct)
  case (1 packed i v shift)
  show ?case
  proof (cases "i < length packed \<and> packed ! i AND 0x80 \<noteq> 0 \<and> shift + 7 \<le> 63")
    case True
    then have "packed_value packed (i + 1) (v OR push_bit shift (ucast (packed ! i AND 0x7f))) (shift + 7) = Some (w, j)"
      using "1.prems" by (simp add: packed_value.simps [of packed i] Let_def)
    with "1.IH" [OF _ refl refl] True show ?thesis by fastforce
  next
    case False
    with "1.prems" show ?thesis by (auto simp: packed_value.simps [of packed i] Let_def split: if_splits)
  qed
qed

function parse_packed :: "bytes \<Rightarrow> nat \<Rightarrow> medium list" where
  "parse_packed packed i =
     (if length packed \<le> i then []
      else case packed_value packed i 0 0 of
        None \<Rightarrow> []
      | Some (v, j) \<Rightarrow>
          (if medium_from v = Medium_Unknown then [] else [medium_from v]) @ parse_packed packed j)"
  by pat_completeness auto
termination
  by (relation "measure (\<lambda>(packed, i). length packed - i)") (auto dest!: packed_value_advances)

declare parse_packed.simps [simp del]

definition parse_packed_mediums :: "bytes \<Rightarrow> medium list" where
  "parse_packed_mediums packed = parse_packed packed 0"

abbreviation (input) up_bytes :: "bytes \<Rightarrow> u32 \<Rightarrow> upgrade_error + bytes option" where
  "up_bytes b n \<equiv> map_err Upgrade_Protobuf (first_bytes b n)"

abbreviation (input) up_varint :: "bytes \<Rightarrow> u32 \<Rightarrow> upgrade_error + u64 option" where
  "up_varint b n \<equiv> map_err Upgrade_Protobuf (first_varint b n)"

definition parse_wifi :: "bytes \<Rightarrow> bool \<Rightarrow> upgrade_error + wifi_credentials" where
  "parse_wifi b direct =
     (let (ssid, pw, port, gw, freq) =
        (if direct then (WD_SSID, WD_PASSWORD, WD_PORT, WD_GATEWAY, WD_FREQUENCY)
         else (HS_SSID, HS_PASSWORD, HS_PORT, HS_GATEWAY, HS_FREQUENCY)) in
      and_then (up_bytes b ssid) (\<lambda>s.
      and_then (up_bytes b pw) (\<lambda>w.
      and_then (up_varint b port) (\<lambda>p.
      and_then (up_bytes b gw) (\<lambda>g.
      Inr \<lparr>wc_ssid = unwrap_or [] (map_option from_utf8_lossy s),
           wc_password = unwrap_or [] (map_option from_utf8_lossy w),
           wc_port = ucast (unwrap_or 0 p),
           wc_gateway = unwrap_or (str ''0.0.0.0'') (map_option from_utf8_lossy g),
           wc_frequency = unwrap_or (- 1) (map_option ucast (ok_flatten (first_varint b freq)))\<rparr>)))))"

definition parse_path :: "bytes \<Rightarrow> upgrade_error + upgrade_path" where
  "parse_path info =
     and_then (up_varint info UP_MEDIUM) (\<lambda>m.
     and_then (up_bytes info UP_WIFI_DIRECT) (\<lambda>wd.
     and_then (case wd of
         Some c \<Rightarrow> and_then (parse_wifi c True) (\<lambda>x. Inr (Some x))
       | None \<Rightarrow> and_then (up_bytes info UP_WIFI_HOTSPOT) (\<lambda>hs.
           case hs of Some c \<Rightarrow> and_then (parse_wifi c False) (\<lambda>x. Inr (Some x)) | None \<Rightarrow> Inr None)) (\<lambda>wifi.
     and_then (up_bytes info UP_WIFI_LAN) (\<lambda>ls.
     and_then (case ls of
         Some s \<Rightarrow> and_then (up_bytes s LAN_IP) (\<lambda>ip. and_then (up_varint s LAN_PORT) (\<lambda>port.
           Inr (Some \<lparr>ls_ip = unwrap_or [] ip, ls_port = ucast (unwrap_or 0 port)\<rparr>)))
       | None \<Rightarrow> Inr None) (\<lambda>lan.
     and_then (up_varint info UP_SUPPORTS_INTRODUCTION_ACK) (\<lambda>ack.
     and_then (up_varint info UP_SUPPORTS_DISABLING_ENCRYPTION) (\<lambda>dis.
     Inr \<lparr>up_medium = medium_from (unwrap_or 0 m), up_wifi = wifi, up_lan = lan,
          up_supports_introduction_ack = (unwrap_or 0 ack \<noteq> 0),
          up_supports_disabling_encryption = (unwrap_or 0 dis \<noteq> 0)\<rparr>)))))))"

definition upgrade_parse :: "bytes \<Rightarrow> upgrade_error + upgrade_frame" where
  "upgrade_parse body =
     and_then (and_then (up_varint body BW_EVENT_TYPE) (ok_or (Upgrade_Malformed ''no event type''))) (\<lambda>event.
     if event = E_UPGRADE_PATH_AVAILABLE then
       and_then (and_then (up_bytes body BW_UPGRADE_PATH_INFO) (ok_or (Upgrade_Malformed ''no upgrade path info''))) (\<lambda>info.
       and_then (parse_path info) (\<lambda>p. Inr (UF_PathAvailable p)))
     else if event = E_CLIENT_INTRODUCTION then
       and_then (up_bytes body BW_CLIENT_INTRODUCTION) (\<lambda>ci.
       and_then (up_bytes (unwrap_or [] ci) UCI_ENDPOINT_ID) (\<lambda>e.
       Inr (UF_ClientIntroduction (unwrap_or [] (map_option from_utf8_lossy e)))))
     else if event = E_CLIENT_INTRODUCTION_ACK then Inr UF_ClientIntroductionAck
     else if event = E_LAST_WRITE_TO_PRIOR then Inr UF_LastWriteToPrior
     else if event = E_SAFE_TO_CLOSE_PRIOR then
       and_then (up_bytes body BW_SAFE_TO_CLOSE) (\<lambda>sc.
       and_then (up_varint (unwrap_or [] sc) SC_STA_FREQUENCY) (\<lambda>f.
       Inr (UF_SafeToClosePrior (ucast (unwrap_or 0 f)))))
     else if event = E_UPGRADE_PATH_REQUEST then
       and_then (up_bytes body BW_UPGRADE_PATH_INFO) (\<lambda>info.
       and_then (up_bytes (unwrap_or [] info) UP_UPGRADE_PATH_REQUEST) (\<lambda>req.
       and_then (up_bytes (unwrap_or [] req) UPR_MEDIUMS) (\<lambda>ms.
       Inr (UF_PathRequest (parse_packed_mediums (unwrap_or [] ms))))))
     else if event = E_UPGRADE_FAILURE then Inr UF_Failure
     else Inr (UF_Unknown event))"

section \<open>The machines\<close>

datatype channel = Old | New

datatype upgrade_effect =
    USend channel bytes
  | UJoin upgrade_path
  | UCloseOld
  | UUpgraded
  | UAbandoned string

datatype upgrade_state = U_Idle | U_Offered | U_Joining | U_Introduced | U_Draining | U_Upgraded | U_Abandoned

datatype upgrade_event = UEv_Frame channel upgrade_frame | UEv_Connected | UEv_JoinFailed

definition upgrade_over :: "upgrade_state \<Rightarrow> bool" where
  "upgrade_over s \<longleftrightarrow> s \<in> {U_Upgraded, U_Abandoned}"

record host =
  h_state :: upgrade_state
  h_path :: upgrade_path
  h_sta_frequency :: i32

definition host_new :: "upgrade_path \<Rightarrow> i32 \<Rightarrow> host" where
  "host_new path freq = \<lparr>h_state = U_Idle, h_path = path, h_sta_frequency = freq\<rparr>"

definition host_start :: "host \<Rightarrow> host \<times> upgrade_effect list" where
  "host_start h = (h\<lparr>h_state := U_Offered\<rparr>, [USend Old (path_available (h_path h))])"

definition host_abandon :: "string \<Rightarrow> host \<Rightarrow> host \<times> upgrade_effect list" where
  "host_abandon why h = (h\<lparr>h_state := U_Abandoned\<rparr>, [UAbandoned why])"

definition host_on :: "host \<Rightarrow> upgrade_event \<Rightarrow> host \<times> upgrade_effect list" where
  "host_on h ev =
     (if upgrade_over (h_state h) then (h, [])
      else case ev of
        UEv_Frame ch f \<Rightarrow>
          (case f of
             UF_ClientIntroduction _ \<Rightarrow>
               if ch = New then
                 (h\<lparr>h_state := U_Draining\<rparr>,
                  (if up_supports_introduction_ack (h_path h) then [USend New client_introduction_ack] else []) @
                  [USend Old last_write_to_prior])
               else (h, [])
           | UF_SafeToClosePrior _ \<Rightarrow>
               if ch = Old then
                 (h\<lparr>h_state := U_Upgraded\<rparr>,
                  [USend Old (safe_to_close_prior (h_sta_frequency h)), UCloseOld, UUpgraded])
               else (h, [])
           | UF_Failure \<Rightarrow> host_abandon ''the peer reported an upgrade failure'' h
           | _ \<Rightarrow> (h, []))
      | UEv_JoinFailed \<Rightarrow> host_abandon ''could not join'' h
      | UEv_Connected \<Rightarrow> (h, []))"

record joiner =
  j_state :: upgrade_state
  j_endpoint_id :: rstring
  j_path :: "upgrade_path option"

definition joiner_new :: "rstring \<Rightarrow> joiner" where
  "joiner_new eid = \<lparr>j_state = U_Idle, j_endpoint_id = eid, j_path = None\<rparr>"

definition joiner_abandon :: "string \<Rightarrow> joiner \<Rightarrow> joiner \<times> upgrade_effect list" where
  "joiner_abandon why j = (j\<lparr>j_state := U_Abandoned\<rparr>, [UAbandoned why])"

definition joiner_on :: "joiner \<Rightarrow> upgrade_event \<Rightarrow> joiner \<times> upgrade_effect list" where
  "joiner_on j ev =
     (if upgrade_over (j_state j) then (j, [])
      else case ev of
        UEv_Frame ch f \<Rightarrow>
          (case f of
             UF_PathAvailable path \<Rightarrow>
               if ch = Old then
                 if up_wifi path = None \<and> up_lan path = None
                 then joiner_abandon ''the offer carried no way to reach the host'' j
                 else (j\<lparr>j_state := U_Joining, j_path := Some path\<rparr>, [UJoin path])
               else (j, [])
           | UF_ClientIntroductionAck \<Rightarrow>
               if ch = New \<and> j_state j = U_Introduced
               then (j\<lparr>j_state := U_Draining\<rparr>, [USend Old last_write_to_prior]) else (j, [])
           | UF_LastWriteToPrior \<Rightarrow>
               if ch = Old then (j, [USend Old (safe_to_close_prior STA_FREQUENCY_NOT_SET)]) else (j, [])
           | UF_SafeToClosePrior _ \<Rightarrow>
               if ch = Old then (j\<lparr>j_state := U_Upgraded\<rparr>, [UCloseOld, UUpgraded]) else (j, [])
           | UF_Failure \<Rightarrow> joiner_abandon ''the peer reported an upgrade failure'' j
           | _ \<Rightarrow> (j, []))
      | UEv_Connected \<Rightarrow>
          if j_state j \<noteq> U_Joining then joiner_abandon ''connected without an offer'' j
          else
            let ack = unwrap_or False (map_option up_supports_introduction_ack (j_path j)) in
            if ack then (j\<lparr>j_state := U_Introduced\<rparr>, [USend New (client_introduction (j_endpoint_id j))])
            else (j\<lparr>j_state := U_Draining\<rparr>,
                  [USend New (client_introduction (j_endpoint_id j)), USend Old last_write_to_prior])
      | UEv_JoinFailed \<Rightarrow>
          (j\<lparr>j_state := U_Abandoned\<rparr>,
           [USend Old upgrade_failure, UAbandoned ''could not join the offered network'']))"

interpretation host_end: ending_machine host_on "\<lambda>h. upgrade_over (h_state h)"
  by unfold_locales (simp add: host_on_def)

interpretation joiner_end: ending_machine joiner_on "\<lambda>j. upgrade_over (j_state j)"
  by unfold_locales (simp add: joiner_on_def)

section \<open>Round trips\<close>

lemma medium_inverse [simp]: "medium_from (medium_num m) = m"
  by (cases m) (simp_all add: medium_from_def)

definition wifi_ok :: "wifi_credentials \<Rightarrow> bool" where
  "wifi_ok c \<longleftrightarrow> utf8_valid (wc_ssid c) \<and> utf8_valid (wc_password c) \<and> utf8_valid (wc_gateway c)"

lemma wifi_roundtrip:
  assumes "fits (encode_wifi c direct)" "wifi_ok c"
  shows "parse_wifi (encode_wifi c direct) direct = Inr c"
proof (cases direct)
  case True
  let ?fs = "[Bytes WD_SSID (wc_ssid c), Bytes WD_PASSWORD (wc_password c), Varint WD_PORT (scast (wc_port c)),
           Varint WD_FREQUENCY (scast (wc_frequency c)), Bytes WD_GATEWAY (wc_gateway c)]"
  have "pb_fields (encode_wifi c True) = Inr ?fs"
    unfolding encode_wifi_def if_True
    by (rule read_msg) ((intro wire_simps)+, use assms(1) True in \<open>simp add: encode_wifi_def\<close>)
  with assms(2) True show ?thesis by (simp add: parse_wifi_def read_simps wifi_ok_def)
next
  case False
  let ?fs = "[Bytes HS_SSID (wc_ssid c), Bytes HS_PASSWORD (wc_password c), Varint HS_PORT (scast (wc_port c)),
           Bytes HS_GATEWAY (wc_gateway c), Varint HS_FREQUENCY (scast (wc_frequency c))]"
  have "pb_fields (encode_wifi c False) = Inr ?fs"
    unfolding encode_wifi_def if_False
    by (rule read_msg) ((intro wire_simps)+, use assms(1) False in \<open>simp add: encode_wifi_def\<close>)
  with assms(2) False show ?thesis by (simp add: parse_wifi_def read_simps wifi_ok_def)
qed

definition path_ok :: "upgrade_path \<Rightarrow> bool" where
  "path_ok p \<longleftrightarrow> (case up_wifi p of Some c \<Rightarrow> wifi_ok c | None \<Rightarrow> True)"

lemma parse_path_fields:
  assumes "pb_fields b = Inr ([Varint UP_MEDIUM (medium_num (up_medium p))] @
      (case up_wifi p of Some c \<Rightarrow> [Bytes (if up_medium p = Medium_WifiDirect then UP_WIFI_DIRECT else UP_WIFI_HOTSPOT) wb] | None \<Rightarrow> []) @
      (case up_lan p of Some l \<Rightarrow> [Bytes UP_WIFI_LAN lb] | None \<Rightarrow> []) @
      [Varint UP_SUPPORTS_DISABLING_ENCRYPTION (bool_u64 (up_supports_disabling_encryption p)),
       Varint UP_SUPPORTS_INTRODUCTION_ACK (bool_u64 (up_supports_introduction_ack p))])"
    and "\<And>c. up_wifi p = Some c \<Longrightarrow> parse_wifi wb (up_medium p = Medium_WifiDirect) = Inr c"
    and "\<And>l. up_lan p = Some l \<Longrightarrow> pb_fields lb = Inr [Bytes LAN_IP (ls_ip l), Varint LAN_PORT (scast (ls_port l))]"
  shows "parse_path b = Inr p"
proof -
  have m: "medium_from 8 = Medium_WifiDirect" by (simp add: medium_from_def)
  show ?thesis
    using assms(2,3)
    by (cases "up_wifi p"; cases "up_lan p"; cases "up_medium p = Medium_WifiDirect")
      (simp_all add: parse_path_def first_fields [OF assms(1)] read_simps m upgrade_path.equality)
qed

lemma path_roundtrip:
  assumes "fits (path_info p)" "path_ok p"
  shows "parse_path (path_info p) = Inr p"
proof -
  let ?d = "up_medium p = Medium_WifiDirect"
  let ?wb = "encode_wifi (the (up_wifi p)) ?d"
  let ?lops = "[w_bytes LAN_IP (ls_ip (the (up_lan p))), w_varint LAN_PORT (scast (ls_port (the (up_lan p))))]"
  let ?lb = "write_msg ?lops"
  let ?ops = "[w_varint UP_MEDIUM (medium_num (up_medium p))] @
      (case up_wifi p of Some c \<Rightarrow> [w_bytes (if ?d then UP_WIFI_DIRECT else UP_WIFI_HOTSPOT) ?wb] | None \<Rightarrow> []) @
      (case up_lan p of Some l \<Rightarrow> [w_bytes UP_WIFI_LAN ?lb] | None \<Rightarrow> []) @
      [w_varint UP_SUPPORTS_DISABLING_ENCRYPTION (bool_u64 (up_supports_disabling_encryption p)),
       w_varint UP_SUPPORTS_INTRODUCTION_ACK (bool_u64 (up_supports_introduction_ack p))]"
  let ?fs = "[Varint UP_MEDIUM (medium_num (up_medium p))] @
      (case up_wifi p of Some c \<Rightarrow> [Bytes (if ?d then UP_WIFI_DIRECT else UP_WIFI_HOTSPOT) ?wb] | None \<Rightarrow> []) @
      (case up_lan p of Some l \<Rightarrow> [Bytes UP_WIFI_LAN ?lb] | None \<Rightarrow> []) @
      [Varint UP_SUPPORTS_DISABLING_ENCRYPTION (bool_u64 (up_supports_disabling_encryption p)),
       Varint UP_SUPPORTS_INTRODUCTION_ACK (bool_u64 (up_supports_introduction_ack p))]"
  have eq: "path_info p = write_msg ?ops"
    by (simp add: path_info_def split: option.splits)
  have w: "writes ?ops ?fs" by (intro wire_simps)
  have wl: "writes ?lops [Bytes LAN_IP (ls_ip (the (up_lan p))), Varint LAN_PORT (scast (ls_port (the (up_lan p))))]"
    by (intro wire_simps)
  have f: "fits (write_msg ?ops)" using assms(1) eq by simp
  show ?thesis
    unfolding eq
  proof (rule parse_path_fields [OF read_msg [OF w f]])
    fix c assume c: "up_wifi p = Some c"
    then have "fits ?wb" by (intro fits_msg [OF w f, of "if ?d then UP_WIFI_DIRECT else UP_WIFI_HOTSPOT"]) simp
    with c assms(2) show "parse_wifi ?wb ?d = Inr c" using wifi_roundtrip by (simp add: path_ok_def)
  next
    fix l assume l: "up_lan p = Some l"
    then have "fits ?lb" by (intro fits_msg [OF w f, of UP_WIFI_LAN]) simp
    from read_msg [OF wl this] l show "pb_fields ?lb = Inr [Bytes LAN_IP (ls_ip l), Varint LAN_PORT (scast (ls_port l))]"
      by simp
  qed
qed

subsection \<open>Packed mediums\<close>

lemma packed_medium: "packed_varint (medium_num m) = [ucast (medium_num m)]"
  by (cases m) (simp_all add: packed_varint.simps)

lemma parse_packed_at:
  "Medium_Unknown \<notin> set ms \<Longrightarrow>
   parse_packed (pre @ map (\<lambda>m. ucast (medium_num m)) ms) (length pre) = ms"
proof (induction ms arbitrary: pre)
  case Nil
  then show ?case by (simp add: parse_packed.simps)
next
  case (Cons m ms)
  let ?p = "pre @ map (\<lambda>m. ucast (medium_num m)) (m # ms)"
  have "packed_value ?p (length pre) 0 0 = Some (medium_num m, length pre + 1)"
    by (cases m) (simp_all add: packed_value.simps)
  moreover have "parse_packed ?p (length pre + 1) = ms"
    using Cons.IH [of "pre @ [ucast (medium_num m)]"] Cons.prems by simp
  ultimately show ?case using Cons.prems by (subst parse_packed.simps) auto
qed

lemma packed_roundtrip:
  "Medium_Unknown \<notin> set ms \<Longrightarrow> parse_packed_mediums (concat (map (\<lambda>m. packed_varint (medium_num m)) ms)) = ms"
proof -
  assume "Medium_Unknown \<notin> set ms"
  moreover have "concat (map (\<lambda>m. packed_varint (medium_num m)) ms) = map (\<lambda>m. ucast (medium_num m)) ms"
    by (induction ms) (simp_all add: packed_medium)
  ultimately show ?thesis using parse_packed_at [of ms "[]"] by (simp add: parse_packed_mediums_def)
qed

subsection \<open>Whole frames\<close>

text \<open>A negotiation frame as it arrives: an offline frame whose body is then parsed here.\<close>

definition upgrade_receive :: "bytes \<Rightarrow> upgrade_error option + upgrade_frame" where
  "upgrade_receive bs =
     (case frames_parse bs of
        Inr (Frame_BandwidthUpgrade body) \<Rightarrow> map_err Some (upgrade_parse body)
      | _ \<Rightarrow> Inl None)"

lemma upgrade_receive_wrap:
  assumes "fits (upgrade_wrap body)"
  shows "upgrade_receive (upgrade_wrap body) = map_err Some (upgrade_parse body)" "fits body"
proof -
  show "upgrade_receive (upgrade_wrap body) = map_err Some (upgrade_parse body)"
    using bandwidth_upgrade_roundtrip assms by (simp add: upgrade_receive_def upgrade_wrap_def)
  show "fits body"
    using assms fits_offline(2) by (simp add: upgrade_wrap_def bandwidth_upgrade_def)
qed

lemma writes_event:
  "writes [w_varint BW_EVENT_TYPE e, w_bytes n b] [Varint BW_EVENT_TYPE e, Bytes n b]"
  "writes [w_varint BW_EVENT_TYPE e] [Varint BW_EVENT_TYPE e]"
  by (intro wire_simps)+

text \<open>The body of a negotiation frame with an event type and one field.\<close>

lemma upgrade_event_body:
  assumes "fits (upgrade_wrap (write_msg [w_varint BW_EVENT_TYPE e, w_bytes n b]))"
  shows "upgrade_receive (upgrade_wrap (write_msg [w_varint BW_EVENT_TYPE e, w_bytes n b])) =
      map_err Some (upgrade_parse (write_msg [w_varint BW_EVENT_TYPE e, w_bytes n b]))"
    "pb_fields (write_msg [w_varint BW_EVENT_TYPE e, w_bytes n b]) = Inr [Varint BW_EVENT_TYPE e, Bytes n b]" "fits b"
proof -
  note r = upgrade_receive_wrap [OF assms]
  show "upgrade_receive (upgrade_wrap (write_msg [w_varint BW_EVENT_TYPE e, w_bytes n b])) =
      map_err Some (upgrade_parse (write_msg [w_varint BW_EVENT_TYPE e, w_bytes n b]))" by (rule r(1))
  show "pb_fields (write_msg [w_varint BW_EVENT_TYPE e, w_bytes n b]) = Inr [Varint BW_EVENT_TYPE e, Bytes n b]"
    by (rule read_msg [OF writes_event(1) r(2)])
  show "fits b" by (rule fits_msg [OF writes_event(1) r(2), of n]) simp
qed

fun upgrade_bytes :: "upgrade_frame \<Rightarrow> bytes" where
  "upgrade_bytes (UF_PathRequest ms) = path_request ms"
| "upgrade_bytes (UF_PathAvailable p) = path_available p"
| "upgrade_bytes (UF_ClientIntroduction e) = client_introduction e"
| "upgrade_bytes UF_ClientIntroductionAck = client_introduction_ack"
| "upgrade_bytes UF_LastWriteToPrior = last_write_to_prior"
| "upgrade_bytes (UF_SafeToClosePrior f) = safe_to_close_prior f"
| "upgrade_bytes UF_Failure = upgrade_failure"
| "upgrade_bytes (UF_Unknown v) = []"

text \<open>The mediums of a request arrive sorted, as they are sent.\<close>

fun upgrade_view :: "upgrade_frame \<Rightarrow> upgrade_frame" where
  "upgrade_view (UF_PathRequest ms) = UF_PathRequest (sort_key (\<lambda>m. unat (medium_num m)) ms)"
| "upgrade_view f = f"

fun upgrade_ok :: "upgrade_frame \<Rightarrow> bool" where
  "upgrade_ok (UF_PathRequest ms) = (Medium_Unknown \<notin> set ms)"
| "upgrade_ok (UF_PathAvailable p) = path_ok p"
| "upgrade_ok (UF_ClientIntroduction e) = utf8_valid e"
| "upgrade_ok (UF_Unknown v) = False"
| "upgrade_ok _ = True"

lemma path_available_roundtrip:
  assumes "fits (path_available p)" "path_ok p"
  shows "upgrade_receive (path_available p) = Inr (UF_PathAvailable p)"
proof -
  note e = upgrade_event_body [OF assms(1) [unfolded path_available_def]]
  show ?thesis
    unfolding path_available_def e(1)
    using path_roundtrip [OF e(3) assms(2)] by (simp add: upgrade_parse_def first_fields [OF e(2)])
qed

lemma client_introduction_roundtrip:
  assumes "fits (client_introduction eid)" "utf8_valid eid"
  shows "upgrade_receive (client_introduction eid) = Inr (UF_ClientIntroduction eid)"
proof -
  have w: "writes [w_bytes UCI_ENDPOINT_ID eid, w_varint UCI_SUPPORTS_DISABLING_ENCRYPTION 0]
      [Bytes UCI_ENDPOINT_ID eid, Varint UCI_SUPPORTS_DISABLING_ENCRYPTION 0]" by (intro wire_simps)
  note e = upgrade_event_body [OF assms(1) [unfolded client_introduction_def Let_def]]
  show ?thesis
    unfolding client_introduction_def Let_def e(1)
    using assms(2) by (simp add: upgrade_parse_def first_fields [OF e(2)] first_fields [OF read_msg [OF w e(3)]])
qed

lemma safe_to_close_roundtrip:
  assumes "fits (safe_to_close_prior f)"
  shows "upgrade_receive (safe_to_close_prior f) = Inr (UF_SafeToClosePrior f)"
proof -
  have w: "writes [w_varint SC_STA_FREQUENCY (scast f)] [Varint SC_STA_FREQUENCY (scast f)]" by (intro wire_simps)
  note e = upgrade_event_body [OF assms(1) [unfolded safe_to_close_prior_def Let_def]]
  show ?thesis
    unfolding safe_to_close_prior_def Let_def e(1)
    by (simp add: upgrade_parse_def first_fields [OF e(2)] first_fields [OF read_msg [OF w e(3)]])
qed

lemma ack_roundtrip: "upgrade_receive client_introduction_ack = Inr UF_ClientIntroductionAck"
proof -
  have "fits client_introduction_ack"
    by (simp add: client_introduction_ack_def upgrade_wrap_def bandwidth_upgrade_def offline_def write_eval fits_def)
  note e = upgrade_event_body [OF this [unfolded client_introduction_ack_def]]
  show ?thesis
    unfolding client_introduction_ack_def e(1) by (simp add: upgrade_parse_def first_fields [OF e(2)])
qed

lemma upgrade_event_only:
  assumes "fits (upgrade_wrap (write_msg [w_varint BW_EVENT_TYPE e]))"
  shows "upgrade_receive (upgrade_wrap (write_msg [w_varint BW_EVENT_TYPE e])) =
      map_err Some (upgrade_parse (write_msg [w_varint BW_EVENT_TYPE e]))"
    "pb_fields (write_msg [w_varint BW_EVENT_TYPE e]) = Inr [Varint BW_EVENT_TYPE e]"
  using upgrade_receive_wrap [OF assms] read_msg [OF writes_event(2)] by simp_all

lemma event_only_roundtrip:
  "upgrade_receive last_write_to_prior = Inr UF_LastWriteToPrior" "upgrade_receive upgrade_failure = Inr UF_Failure"
proof -
  have "fits last_write_to_prior" "fits upgrade_failure"
    by (simp_all add: last_write_to_prior_def upgrade_failure_def upgrade_wrap_def bandwidth_upgrade_def offline_def
        write_eval fits_def)
  note l = upgrade_event_only [OF this(1) [unfolded last_write_to_prior_def]]
    and f = upgrade_event_only [OF this(2) [unfolded upgrade_failure_def]]
  show "upgrade_receive last_write_to_prior = Inr UF_LastWriteToPrior"
    unfolding last_write_to_prior_def l(1) by (simp add: upgrade_parse_def first_fields [OF l(2)])
  show "upgrade_receive upgrade_failure = Inr UF_Failure"
    unfolding upgrade_failure_def f(1) by (simp add: upgrade_parse_def first_fields [OF f(2)])
qed

lemma path_request_roundtrip:
  assumes "fits (path_request ms)" "Medium_Unknown \<notin> set ms"
  shows "upgrade_receive (path_request ms) = Inr (UF_PathRequest (sort_key (\<lambda>m. unat (medium_num m)) ms))"
proof -
  let ?ms = "sort_key (\<lambda>m. unat (medium_num m)) ms"
  let ?packed = "concat (map (\<lambda>m. packed_varint (medium_num m)) ?ms)"
  obtain meta where eq: "path_request ms = upgrade_wrap (write_msg [w_varint BW_EVENT_TYPE E_UPGRADE_PATH_REQUEST,
      w_bytes BW_UPGRADE_PATH_INFO (write_msg [w_bytes UP_UPGRADE_PATH_REQUEST
        (write_msg [w_bytes UPR_MEDIUMS ?packed, w_bytes UPR_MEDIUM_METADATA meta])])])"
    by (simp add: path_request_def Let_def)
  let ?req = "write_msg [w_bytes UPR_MEDIUMS ?packed, w_bytes UPR_MEDIUM_METADATA meta]"
  have wi: "writes [w_bytes UP_UPGRADE_PATH_REQUEST ?req] [Bytes UP_UPGRADE_PATH_REQUEST ?req]"
    and wr: "writes [w_bytes UPR_MEDIUMS ?packed, w_bytes UPR_MEDIUM_METADATA meta]
      [Bytes UPR_MEDIUMS ?packed, Bytes UPR_MEDIUM_METADATA meta]" by (intro wire_simps)+
  note e = upgrade_event_body [OF assms(1) [unfolded eq]]
  note i = read_msg [OF wi e(3)]
  have "fits ?req" by (rule fits_msg [OF wi e(3)]) simp
  note r = read_msg [OF wr this]
  have "parse_packed_mediums ?packed = ?ms" using assms(2) by (intro packed_roundtrip) simp
  then show ?thesis
    unfolding eq e(1)
    by (simp add: upgrade_parse_def first_fields [OF e(2)] first_fields [OF i] first_fields [OF r])
qed

interpretation upgrade_codec: message_codec upgrade_bytes upgrade_receive upgrade_view upgrade_ok
proof
  fix m assume "upgrade_ok m" "fits (upgrade_bytes m)"
  then show "upgrade_receive (upgrade_bytes m) = Inr (upgrade_view m)"
    by (cases m) (simp_all add: path_request_roundtrip path_available_roundtrip client_introduction_roundtrip
        ack_roundtrip event_only_roundtrip safe_to_close_roundtrip)
qed

lemma fits_safe_to_close [simp]: "fits (safe_to_close_prior f)"
proof -
  let ?sc = "write_msg [w_varint SC_STA_FREQUENCY (scast f)]"
  let ?b = "write_msg [w_varint BW_EVENT_TYPE E_SAFE_TO_CLOSE_PRIOR, w_bytes BW_SAFE_TO_CLOSE ?sc]"
  let ?v1 = "write_msg [w_varint V1_TYPE T_BANDWIDTH_UPGRADE, w_bytes V1_BANDWIDTH_UPGRADE ?b]"
  have "writes [w_varint SC_STA_FREQUENCY (scast f)] [Varint SC_STA_FREQUENCY (scast f)]" by (intro wire_simps)
  from length_msg [OF this] have "length ?sc \<le> 20" by simp
  then have "length ?b \<le> 60" using length_msg [OF writes_event(1), of E_SAFE_TO_CLOSE_PRIOR BW_SAFE_TO_CLOSE ?sc] by simp
  then have "length ?v1 \<le> 100" using length_msg [OF writes_v1, of T_BANDWIDTH_UPGRADE V1_BANDWIDTH_UPGRADE ?b] by simp
  then show ?thesis
    using length_msg [OF writes_offline, of ?v1]
    by (simp add: safe_to_close_prior_def upgrade_wrap_def bandwidth_upgrade_def offline_def fits_def)
qed

section \<open>The two machines over two sockets\<close>

text \<open>
  The handover as a system: the two machines, one queue per socket and direction, and whether the
  joiner's caller is busy joining the network. Any queue may move at any time, so frames on the old
  and the new socket arrive in every possible interleaving; the caller's attempt to join may succeed
  or fail.
\<close>

record handover =
  ho_host :: host
  ho_joiner :: joiner
  ho_down_old :: "upgrade_frame list"
  ho_down_new :: "upgrade_frame list"
  ho_up_old :: "upgrade_frame list"
  ho_up_new :: "upgrade_frame list"
  ho_joining :: bool

definition sent_on :: "channel \<Rightarrow> upgrade_effect list \<Rightarrow> upgrade_frame list" where
  "sent_on ch effs =
     concat (map (\<lambda>e. case e of
         USend ch' b \<Rightarrow> (if ch' = ch then (case upgrade_receive b of Inr f \<Rightarrow> [f] | Inl _ \<Rightarrow> []) else [])
       | _ \<Rightarrow> []) effs)"

definition asked_to_join :: "upgrade_effect list \<Rightarrow> bool" where
  "asked_to_join effs \<longleftrightarrow> (\<exists>p. UJoin p \<in> set effs)"

definition after_host :: "handover \<Rightarrow> host \<times> upgrade_effect list \<Rightarrow> handover" where
  "after_host c r = c\<lparr>ho_host := fst r,
     ho_down_old := ho_down_old c @ sent_on Old (snd r), ho_down_new := ho_down_new c @ sent_on New (snd r)\<rparr>"

definition after_joiner :: "handover \<Rightarrow> joiner \<times> upgrade_effect list \<Rightarrow> handover" where
  "after_joiner c r = c\<lparr>ho_joiner := fst r,
     ho_up_old := ho_up_old c @ sent_on Old (snd r), ho_up_new := ho_up_new c @ sent_on New (snd r),
     ho_joining := ho_joining c \<or> asked_to_join (snd r)\<rparr>"

inductive handover_step :: "handover \<Rightarrow> handover \<Rightarrow> bool" where
  up_old: "ho_up_old c = f # fs \<Longrightarrow>
    handover_step c (after_host (c\<lparr>ho_up_old := fs\<rparr>) (host_on (ho_host c) (UEv_Frame Old f)))"
| up_new: "ho_up_new c = f # fs \<Longrightarrow>
    handover_step c (after_host (c\<lparr>ho_up_new := fs\<rparr>) (host_on (ho_host c) (UEv_Frame New f)))"
| down_old: "ho_down_old c = f # fs \<Longrightarrow>
    handover_step c (after_joiner (c\<lparr>ho_down_old := fs\<rparr>) (joiner_on (ho_joiner c) (UEv_Frame Old f)))"
| down_new: "ho_down_new c = f # fs \<Longrightarrow>
    handover_step c (after_joiner (c\<lparr>ho_down_new := fs\<rparr>) (joiner_on (ho_joiner c) (UEv_Frame New f)))"
| joined: "ho_joining c \<Longrightarrow>
    handover_step c (after_joiner (c\<lparr>ho_joining := False\<rparr>) (joiner_on (ho_joiner c) UEv_Connected))"
| not_joined: "ho_joining c \<Longrightarrow>
    handover_step c (after_joiner (c\<lparr>ho_joining := False\<rparr>) (joiner_on (ho_joiner c) UEv_JoinFailed))"

inductive_cases handover_stepE: "handover_step c c'"

definition handover_init :: "upgrade_path \<Rightarrow> i32 \<Rightarrow> rstring \<Rightarrow> handover" where
  "handover_init p freq eid =
     after_host \<lparr>ho_host = host_new p freq, ho_joiner = joiner_new eid, ho_down_old = [], ho_down_new = [],
       ho_up_old = [], ho_up_new = [], ho_joining = False\<rparr> (host_start (host_new p freq))"

inductive handover_reach :: "upgrade_path \<Rightarrow> i32 \<Rightarrow> rstring \<Rightarrow> handover \<Rightarrow> bool" for p freq eid where
  start: "handover_reach p freq eid (handover_init p freq eid)"
| step: "handover_reach p freq eid c \<Longrightarrow> handover_step c c' \<Longrightarrow> handover_reach p freq eid c'"

definition offer_ok :: "upgrade_path \<Rightarrow> rstring \<Rightarrow> bool" where
  "offer_ok p eid \<longleftrightarrow> path_ok p \<and> fits (path_available p) \<and> utf8_valid eid \<and> fits (client_introduction eid) \<and>
     \<not> (up_wifi p = None \<and> up_lan p = None)"

lemma sent_on_simps [simp]:
  "sent_on ch [] = []"
  "sent_on ch (USend ch' b # es) = (if ch' = ch then (case upgrade_receive b of Inr f \<Rightarrow> [f] | Inl _ \<Rightarrow> []) else []) @ sent_on ch es"
  "sent_on ch (UJoin p # es) = sent_on ch es" "sent_on ch (UCloseOld # es) = sent_on ch es"
  "sent_on ch (UUpgraded # es) = sent_on ch es" "sent_on ch (UAbandoned w # es) = sent_on ch es"
  "sent_on ch (xs @ ys) = sent_on ch xs @ sent_on ch ys"
  by (simp_all add: sent_on_def)

lemma asked_to_join_simps [simp]:
  "\<not> asked_to_join []" "asked_to_join (USend ch b # es) = asked_to_join es" "asked_to_join (UJoin p # es)"
  "asked_to_join (UCloseOld # es) = asked_to_join es" "asked_to_join (UUpgraded # es) = asked_to_join es"
  "asked_to_join (UAbandoned w # es) = asked_to_join es"
  by (auto simp: asked_to_join_def)

lemmas handover_frames = safe_to_close_roundtrip [OF fits_safe_to_close] event_only_roundtrip ack_roundtrip
lemmas handover_defs = after_host_def after_joiner_def host_on_def joiner_on_def upgrade_over_def host_abandon_def
  joiner_abandon_def

text \<open>Every step uses up a frame or an attempt to join, and what it produces weighs less.\<close>

fun down_weight :: "upgrade_frame \<Rightarrow> nat" where
  "down_weight (UF_PathAvailable _) = 11"
| "down_weight UF_LastWriteToPrior = 4"
| "down_weight UF_ClientIntroductionAck = 2"
| "down_weight _ = 1"

fun up_weight :: "upgrade_frame \<Rightarrow> nat" where
  "up_weight (UF_ClientIntroduction _) = 7"
| "up_weight (UF_SafeToClosePrior _) = 2"
| "up_weight _ = 1"

definition handover_weight :: "handover \<Rightarrow> nat" where
  "handover_weight c =
     sum_list (map down_weight (ho_down_old c)) + sum_list (map down_weight (ho_down_new c)) +
     sum_list (map up_weight (ho_up_old c)) + sum_list (map up_weight (ho_up_new c)) + (if ho_joining c then 9 else 0)"

text \<open>
  The configurations the handover goes through, by the states of the two machines and the four queues
  (down is host to joiner). Once the joiner has introduced itself, what it still expects on the new
  socket and what the old socket still carries move independently.
\<close>

inductive phase ::
    "upgrade_path \<Rightarrow> rstring \<Rightarrow> upgrade_state \<Rightarrow> upgrade_state \<Rightarrow> upgrade_frame list \<Rightarrow> upgrade_frame list \<Rightarrow>
     upgrade_frame list \<Rightarrow> upgrade_frame list \<Rightarrow> bool \<Rightarrow> bool" for p eid where
  offered: "phase p eid U_Offered U_Idle [UF_PathAvailable p] [] [] [] False"
| joining: "phase p eid U_Offered U_Joining [] [] [] [] True"
| introduced_ack: "up_supports_introduction_ack p \<Longrightarrow>
    phase p eid U_Offered U_Introduced [] [] [] [UF_ClientIntroduction eid] False"
| introduced: "\<not> up_supports_introduction_ack p \<Longrightarrow> up \<in> {[], [UF_LastWriteToPrior]} \<Longrightarrow>
    phase p eid U_Offered U_Draining [] [] up [UF_ClientIntroduction eid] False"
| acking: "phase p eid U_Draining U_Introduced [UF_LastWriteToPrior] [UF_ClientIntroductionAck] [] [] False"
| acking_released: "phase p eid U_Draining U_Introduced [] [UF_ClientIntroductionAck] [UF_SafeToClosePrior f] [] False"
| draining: "up \<in> {[], [UF_LastWriteToPrior]} \<Longrightarrow>
    phase p eid U_Draining U_Draining [UF_LastWriteToPrior] [] up [] False"
| draining_released:
    "up \<in> {[UF_SafeToClosePrior f], [UF_LastWriteToPrior, UF_SafeToClosePrior f], [UF_SafeToClosePrior f, UF_LastWriteToPrior]} \<Longrightarrow>
    phase p eid U_Draining U_Draining [] [] up [] False"
| closing_ack: "phase p eid U_Upgraded U_Introduced [UF_SafeToClosePrior f] [UF_ClientIntroductionAck] [] [] False"
| closing: "up \<in> {[], [UF_LastWriteToPrior]} \<Longrightarrow>
    phase p eid U_Upgraded U_Draining [UF_SafeToClosePrior f] [] up [] False"
| over: "down \<in> {[], [UF_ClientIntroductionAck]} \<Longrightarrow> up \<in> {[], [UF_LastWriteToPrior]} \<Longrightarrow>
    phase p eid U_Upgraded U_Upgraded [] down up [] False"
| failing: "phase p eid U_Offered U_Abandoned [] [] [UF_Failure] [] False"
| failed: "phase p eid U_Abandoned U_Abandoned [] [] [] [] False"

definition handover_inv :: "upgrade_path \<Rightarrow> rstring \<Rightarrow> handover \<Rightarrow> bool" where
  "handover_inv p eid c \<longleftrightarrow>
     h_path (ho_host c) = p \<and> j_endpoint_id (ho_joiner c) = eid \<and>
     (j_state (ho_joiner c) = U_Joining \<longrightarrow> j_path (ho_joiner c) = Some p) \<and>
     phase p eid (h_state (ho_host c)) (j_state (ho_joiner c)) (ho_down_old c) (ho_down_new c) (ho_up_old c) (ho_up_new c)
       (ho_joining c)"

lemma handover_init_inv:
  assumes "offer_ok p eid"
  shows "handover_inv p eid (handover_init p freq eid)"
  using assms path_available_roundtrip
  by (simp add: handover_inv_def handover_init_def after_host_def host_start_def host_new_def joiner_new_def offer_ok_def
      phase.offered)

lemma handover_step_inv:
  assumes "handover_step c c'" "handover_inv p eid c" "offer_ok p eid"
  shows "handover_inv p eid c'"
proof -
  have ci: "upgrade_receive (client_introduction eid) = Inr (UF_ClientIntroduction eid)"
    using assms(3) client_introduction_roundtrip by (simp add: offer_ok_def)
  have reach: "\<not> (up_wifi p = None \<and> up_lan p = None)" using assms(3) by (simp add: offer_ok_def)
  have ph: "phase p eid (h_state (ho_host c)) (j_state (ho_joiner c)) (ho_down_old c) (ho_down_new c) (ho_up_old c)
      (ho_up_new c) (ho_joining c)" and
    st: "h_path (ho_host c) = p" "j_endpoint_id (ho_joiner c) = eid"
      "j_state (ho_joiner c) = U_Joining \<longrightarrow> j_path (ho_joiner c) = Some p"
    using assms(2) by (simp_all add: handover_inv_def)
  show ?thesis
    using assms(1)
  proof cases
    case (up_old f fs)
    from ph show ?thesis
      by cases (use up_old st in \<open>auto simp: handover_inv_def handover_defs handover_frames intro: phase.intros\<close>)
  next
    case (up_new f fs)
    from ph show ?thesis
      by cases (use up_new st in \<open>auto simp: handover_inv_def handover_defs handover_frames intro: phase.intros\<close>)
  next
    case (down_old f fs)
    from ph show ?thesis
      by cases (use down_old st reach in \<open>auto simp: handover_inv_def handover_defs handover_frames intro: phase.intros\<close>)
  next
    case (down_new f fs)
    from ph show ?thesis
      by cases (use down_new st in \<open>auto simp: handover_inv_def handover_defs handover_frames intro: phase.intros\<close>)
  next
    case joined
    from ph show ?thesis
      by cases (use joined st in \<open>auto simp: handover_inv_def handover_defs handover_frames ci intro: phase.intros\<close>)
  next
    case not_joined
    from ph show ?thesis
      by cases (use not_joined st in \<open>auto simp: handover_inv_def handover_defs handover_frames intro: phase.intros\<close>)
  qed
qed

lemma handover_reach_inv: "handover_reach p freq eid c \<Longrightarrow> offer_ok p eid \<Longrightarrow> handover_inv p eid c"
  by (induction rule: handover_reach.induct) (auto intro: handover_init_inv handover_step_inv)

lemma handover_step_weight:
  assumes "handover_step c c'" "handover_inv p eid c" "offer_ok p eid"
  shows "handover_weight c' < handover_weight c"
proof -
  have ci: "upgrade_receive (client_introduction eid) = Inr (UF_ClientIntroduction eid)"
    using assms(3) client_introduction_roundtrip by (simp add: offer_ok_def)
  have ph: "phase p eid (h_state (ho_host c)) (j_state (ho_joiner c)) (ho_down_old c) (ho_down_new c) (ho_up_old c)
      (ho_up_new c) (ho_joining c)" and
    st: "h_path (ho_host c) = p" "j_endpoint_id (ho_joiner c) = eid"
      "j_state (ho_joiner c) = U_Joining \<longrightarrow> j_path (ho_joiner c) = Some p"
    using assms(2) by (simp_all add: handover_inv_def)
  show ?thesis
    using assms(1)
  proof cases
    case (up_old f fs)
    from ph show ?thesis
      by cases (use up_old st in \<open>auto simp: handover_weight_def handover_defs handover_frames Let_def\<close>)
  next
    case (up_new f fs)
    from ph show ?thesis
      by cases (use up_new st in \<open>auto simp: handover_weight_def handover_defs handover_frames Let_def\<close>)
  next
    case (down_old f fs)
    from ph show ?thesis
      by cases (use down_old st in \<open>auto simp: handover_weight_def handover_defs handover_frames Let_def\<close>)
  next
    case (down_new f fs)
    from ph show ?thesis
      by cases (use down_new st in \<open>auto simp: handover_weight_def handover_defs handover_frames Let_def\<close>)
  next
    case joined
    from ph show ?thesis
      by cases (use joined st in \<open>auto simp: handover_weight_def handover_defs handover_frames ci Let_def\<close>)
  next
    case not_joined
    from ph show ?thesis
      by cases (use not_joined st in \<open>auto simp: handover_weight_def handover_defs handover_frames Let_def\<close>)
  qed
qed

lemma phase_stuck:
  assumes "phase p eid h j [] [] [] [] False"
  shows "h = U_Upgraded \<and> j = U_Upgraded \<or> h = U_Abandoned \<and> j = U_Abandoned"
  using assms by cases auto

lemma handover_stuck:
  assumes "handover_inv p eid c" "\<nexists>c'. handover_step c c'"
  shows "h_state (ho_host c) = U_Upgraded \<and> j_state (ho_joiner c) = U_Upgraded \<or>
    h_state (ho_host c) = U_Abandoned \<and> j_state (ho_joiner c) = U_Abandoned"
proof -
  have "ho_up_old c = []" "ho_up_new c = []" "ho_down_old c = []" "ho_down_new c = []" "\<not> ho_joining c"
    using assms(2) handover_step.intros by (metis neq_Nil_conv)+
  with assms(1) phase_stuck show ?thesis by (fastforce simp: handover_inv_def)
qed

lemma phase_order:
  assumes "phase p eid h j a b c d e"
  shows "(j = U_Upgraded \<longrightarrow> h = U_Upgraded) \<and> (h = U_Upgraded \<longrightarrow> j \<in> {U_Introduced, U_Draining, U_Upgraded}) \<and>
    (j = U_Abandoned \<longrightarrow> h \<in> {U_Offered, U_Abandoned}) \<and> (h = U_Abandoned \<longrightarrow> j = U_Abandoned)"
  using assms by cases auto

section \<open>Properties\<close>

text \<open>
  Every negotiation frame this side builds is one offline frame that the peer parses to what was
  meant: offers with hotspot, Wi-Fi Direct or LAN details and both flags, requests with their mediums
  in ascending order, introductions, acknowledgements, the teardown frames with their frequency.
\<close>

theorem upgrade_roundtrip:
  assumes "upgrade_ok f" "fits (upgrade_bytes f)"
  shows "upgrade_receive (upgrade_bytes f) = Inr (upgrade_view f)"
  using assms by (rule upgrade_codec.dec_enc)

theorem upgrade_roundtrip_witness:
  "upgrade_receive (upgrade_bytes (UF_PathRequest [Medium_WifiDirect, Medium_WifiHotspot])) =
     Inr (UF_PathRequest [Medium_WifiHotspot, Medium_WifiDirect])"
proof -
  have "fits (path_request [Medium_WifiDirect, Medium_WifiHotspot])"
    by (simp add: path_request_def packed_medium upgrade_wrap_def bandwidth_upgrade_def offline_def write_eval fits_def)
  with upgrade_roundtrip [of "UF_PathRequest [Medium_WifiDirect, Medium_WifiHotspot]"] show ?thesis by simp
qed

text \<open>
  C14: the handover completes. With the frames of the two sockets delivered in any interleaving and
  the attempt to join succeeding or failing, every run of the two machines comes to an end (each step
  lowers a weight), and it ends with both sides upgraded or both sides back on the old channel. On the
  way the joiner closes the old channel only after the host has released it, and the host only after
  the joiner has a new socket.
\<close>

theorem handover_completes:
  assumes "offer_ok p eid" "handover_reach p freq eid c"
  shows "(\<forall>c'. handover_step c c' \<longrightarrow> handover_weight c' < handover_weight c) \<and>
    ((\<nexists>c'. handover_step c c') \<longrightarrow>
       h_state (ho_host c) = U_Upgraded \<and> j_state (ho_joiner c) = U_Upgraded \<or>
       h_state (ho_host c) = U_Abandoned \<and> j_state (ho_joiner c) = U_Abandoned) \<and>
    (j_state (ho_joiner c) = U_Upgraded \<longrightarrow> h_state (ho_host c) = U_Upgraded) \<and>
    (h_state (ho_host c) = U_Upgraded \<longrightarrow> j_state (ho_joiner c) \<in> {U_Introduced, U_Draining, U_Upgraded})"
proof -
  have inv: "handover_inv p eid c" using assms by (auto intro: handover_reach_inv)
  then have "phase p eid (h_state (ho_host c)) (j_state (ho_joiner c)) (ho_down_old c) (ho_down_new c) (ho_up_old c)
      (ho_up_new c) (ho_joining c)" by (simp add: handover_inv_def)
  from phase_order [OF this] handover_step_weight [OF _ inv assms(1)] handover_stuck [OF inv] show ?thesis by blast
qed

definition sample_offer :: upgrade_path where
  "sample_offer = upgrade_path_default\<lparr>up_medium := Medium_WifiLan, up_lan := Some \<lparr>ls_ip = [10, 0, 0, 1], ls_port = 4711\<rparr>\<rparr>"

theorem handover_completes_witness:
  "offer_ok sample_offer [0x41] \<and> handover_weight (handover_init sample_offer 0 [0x41]) = 11 \<and>
   \<not> (\<nexists>c'. handover_step (handover_init sample_offer 0 [0x41]) c')"
proof -
  have ok: "offer_ok sample_offer [0x41]"
    by (simp add: offer_ok_def path_ok_def sample_offer_def upgrade_path_default_def path_available_def path_info_def
        client_introduction_def upgrade_wrap_def bandwidth_upgrade_def offline_def write_eval fits_def bool_u64_def
        ascii_utf8_valid)
  have init: "ho_down_old (handover_init sample_offer 0 [0x41]) = [UF_PathAvailable sample_offer]"
      "h_state (ho_host (handover_init sample_offer 0 [0x41])) = U_Offered"
      "handover_weight (handover_init sample_offer 0 [0x41]) = 11"
    using ok path_available_roundtrip
    by (simp_all add: handover_init_def after_host_def host_start_def host_new_def offer_ok_def handover_weight_def)
  from handover_completes [OF ok handover_reach.start, of 0] ok init show ?thesis by auto
qed

text \<open>
  Both machines act on \<open>SAFE_TO_CLOSE_PRIOR_CHANNEL\<close> in any state that is not final. A peer that sends it
  before any upgrade was offered makes the joiner drop the only channel it has and report itself
  upgraded.
\<close>

lemma safe_to_close_unprompted:
  "joiner_on (joiner_new eid) (UEv_Frame Old (UF_SafeToClosePrior f)) =
     ((joiner_new eid)\<lparr>j_state := U_Upgraded\<rparr>, [UCloseOld, UUpgraded])"
  by (simp add: joiner_on_def joiner_new_def upgrade_over_def)

end
