(* ===== verification/Unicode.thy ===== *)
theory Unicode
  imports Rust_Std
begin

text \<open>
  Code points behind the UTF-8 of \<open>Rust_Std\<close>: \<open>str::chars\<close>, \<open>str::encode_utf16\<close> and
  \<open>String::from_utf16_lossy\<close>, with the fact that the last undoes the second on every string.
\<close>

section \<open>Code points\<close>

text \<open>The scalar value of the well-formed character of \<open>n\<close> bytes at the head of \<open>bs\<close>.\<close>

definition utf8_scalar :: "bytes \<Rightarrow> nat \<Rightarrow> nat" where
  "utf8_scalar bs n =
     (let b = (\<lambda>i. unat (byte_at bs i)) in
      if n = 1 then b 0
      else if n = 2 then (b 0 - 0xC0) * 64 + (b 1 - 0x80)
      else if n = 3 then (b 0 - 0xE0) * 4096 + (b 1 - 0x80) * 64 + (b 2 - 0x80)
      else (b 0 - 0xF0) * 262144 + (b 1 - 0x80) * 4096 + (b 2 - 0x80) * 64 + (b 3 - 0x80))"

function chars :: "rstring \<Rightarrow> nat list" where
  "chars bs =
     (if bs = [] then [] else case utf8_char bs of (ok, n) \<Rightarrow> utf8_scalar bs n # chars (drop n bs))"
  by pat_completeness auto
termination
  by (relation "measure length") (auto dest: utf8_char_pos [OF sym])

declare chars.simps [simp del]

definition utf8_encode :: "nat \<Rightarrow> bytes" where
  "utf8_encode c =
     (if c < 0x80 then [word_of_nat c]
      else if c < 0x800 then [word_of_nat (0xC0 + c div 64), word_of_nat (0x80 + c mod 64)]
      else if c < 0x10000 then
        [word_of_nat (0xE0 + c div 4096), word_of_nat (0x80 + c div 64 mod 64), word_of_nat (0x80 + c mod 64)]
      else
        [word_of_nat (0xF0 + c div 262144), word_of_nat (0x80 + c div 4096 mod 64),
         word_of_nat (0x80 + c div 64 mod 64), word_of_nat (0x80 + c mod 64)])"

definition is_scalar :: "nat \<Rightarrow> bool" where
  "is_scalar c \<longleftrightarrow> c < 0xD800 \<or> 0xE000 \<le> c \<and> c < 0x110000"

section \<open>UTF-16\<close>

definition utf16_encode :: "nat \<Rightarrow> u16 list" where
  "utf16_encode c =
     (if c < 0x10000 then [word_of_nat c]
      else [word_of_nat (0xD800 + (c - 0x10000) div 1024), word_of_nat (0xDC00 + (c - 0x10000) mod 1024)])"

definition encode_utf16 :: "rstring \<Rightarrow> u16 list" where
  "encode_utf16 s = concat (map utf16_encode (chars s))"

definition is_high :: "u16 \<Rightarrow> bool" where
  "is_high u \<longleftrightarrow> 0xD800 \<le> u \<and> u \<le> 0xDBFF"

definition is_low :: "u16 \<Rightarrow> bool" where
  "is_low u \<longleftrightarrow> 0xDC00 \<le> u \<and> u \<le> 0xDFFF"

text \<open>An unpaired surrogate becomes U+FFFD, and what follows a lone high surrogate is read again.\<close>

fun utf16_scalars :: "u16 list \<Rightarrow> nat list" where
  "utf16_scalars [] = []"
| "utf16_scalars [u] = [if is_high u \<or> is_low u then 0xFFFD else unat u]"
| "utf16_scalars (u # v # us) =
     (if is_high u then
        (if is_low v then (0x10000 + (unat u - 0xD800) * 1024 + (unat v - 0xDC00)) # utf16_scalars us
         else 0xFFFD # utf16_scalars (v # us))
      else if is_low u then 0xFFFD # utf16_scalars (v # us)
      else unat u # utf16_scalars (v # us))"

definition from_utf16_lossy :: "u16 list \<Rightarrow> rstring" where
  "from_utf16_lossy us = concat (map utf8_encode (utf16_scalars us))"

section \<open>Round trips\<close>

lemma take_byte_at: "n \<le> length bs \<Longrightarrow> take n bs = map (byte_at bs) [0..<n]"
  by (rule nth_equalityI) (simp_all add: byte_at_def)

lemma cont_unat:
  "is_cont b \<longleftrightarrow> 128 \<le> unat b \<and> unat b \<le> 191"
  "second_of_3 a b \<longleftrightarrow> (if unat a = 224 then 160 \<le> unat b \<and> unat b \<le> 191
     else if unat a = 237 then 128 \<le> unat b \<and> unat b \<le> 159 else 128 \<le> unat b \<and> unat b \<le> 191)"
  "second_of_4 a b \<longleftrightarrow> (if unat a = 240 then 144 \<le> unat b \<and> unat b \<le> 191
     else if unat a = 244 then 128 \<le> unat b \<and> unat b \<le> 143 else 128 \<le> unat b \<and> unat b \<le> 191)"
  by (simp_all add: is_cont_def second_of_3_def second_of_4_def word_le_nat_alt word_unat_eq_iff)

lemma digits64:
  assumes "y < 64"
  shows "(x * 64 + y) div 64 = x" "(x * 64 + y) mod 64 = (y :: nat)"
  using assms by simp_all

lemma digits64_2:
  assumes "y < 64" "z < 64"
  shows "(x * 4096 + y * 64 + z) div 4096 = x" "(x * 4096 + y * 64 + z) div 64 mod 64 = y"
    "(x * 4096 + y * 64 + z) mod 64 = (z :: nat)"
proof -
  have e: "x * 4096 + y * 64 + z = (x * 64 + y) * 64 + z" by simp
  have d: "(x * 4096 + y * 64 + z) div 64 = x * 64 + y" unfolding e using assms by simp
  then show "(x * 4096 + y * 64 + z) div 64 mod 64 = y" using assms by simp
  show "(x * 4096 + y * 64 + z) mod 64 = z" unfolding e by (rule digits64(2) [OF assms(2)])
  have "(x * 4096 + y * 64 + z) div 4096 = (x * 4096 + y * 64 + z) div 64 div 64" by (simp add: div_mult2_eq [symmetric])
  then show "(x * 4096 + y * 64 + z) div 4096 = x" unfolding d using assms by simp
qed

lemma utf8_scalar_2:
  assumes "192 + 2 \<le> a" "a \<le> 223" "128 \<le> b" "b \<le> (191 :: nat)"
  defines "s \<equiv> (a - 192) * 64 + (b - 128)"
  shows "\<not> s < 128" "s < 2048" "192 + s div 64 = a" "128 + s mod 64 = b"
proof -
  have "s div 64 = a - 192" "s mod 64 = b - 128" unfolding s_def using assms(3,4) by (intro digits64; linarith)+
  then show "192 + s div 64 = a" "128 + s mod 64 = b" using assms by linarith+
  show "\<not> s < 128" "s < 2048" unfolding s_def using assms by linarith+
qed

lemma utf8_scalar_3:
  assumes "224 \<le> a" "a \<le> 239" "128 \<le> b" "b \<le> 191" "128 \<le> c" "c \<le> (191 :: nat)" "a = 224 \<longrightarrow> 160 \<le> b" "a = 237 \<longrightarrow> b \<le> 159"
  defines "s \<equiv> (a - 224) * 4096 + (b - 128) * 64 + (c - 128)"
  shows "\<not> s < 2048" "s < 65536" "224 + s div 4096 = a" "128 + s div 64 mod 64 = b" "128 + s mod 64 = c" "is_scalar s"
proof -
  have "s div 4096 = a - 224" "s div 64 mod 64 = b - 128" "s mod 64 = c - 128"
    unfolding s_def using assms(3-6) by (intro digits64_2; linarith)+
  then show "224 + s div 4096 = a" "128 + s div 64 mod 64 = b" "128 + s mod 64 = c" using assms by linarith+
  show "\<not> s < 2048" "s < 65536" unfolding s_def using assms(1-7) by (cases "a = 224"; simp; linarith)+
  show "is_scalar s"
  proof (cases "a \<le> 237")
    case True
    then have "a \<le> 236 \<or> a = 237 \<and> b \<le> 159" using assms(8) by linarith
    then have "s < 0xD800" unfolding s_def using assms(1-6) by linarith
    then show ?thesis by (simp add: is_scalar_def)
  next
    case False
    then have "0xE000 \<le> s" "s < 65536" unfolding s_def using assms(1-6) by linarith+
    then show ?thesis by (simp add: is_scalar_def)
  qed
qed

lemma utf8_scalar_4:
  assumes "240 \<le> a" "a \<le> 244" "128 \<le> b" "b \<le> 191" "128 \<le> c" "c \<le> 191" "128 \<le> d" "d \<le> (191 :: nat)"
    "a = 240 \<longrightarrow> 144 \<le> b" "a = 244 \<longrightarrow> b \<le> 143"
  defines "s \<equiv> (a - 240) * 262144 + (b - 128) * 4096 + (c - 128) * 64 + (d - 128)"
  shows "\<not> s < 65536" "240 + s div 262144 = a" "128 + s div 4096 mod 64 = b" "128 + s div 64 mod 64 = c" "128 + s mod 64 = d" "is_scalar s"
proof -
  have e: "s = ((a - 240) * 64 + (b - 128)) * 4096 + (c - 128) * 64 + (d - 128)" unfolding s_def by simp
  have q: "s div 4096 = (a - 240) * 64 + (b - 128)" "s div 64 mod 64 = c - 128" "s mod 64 = d - 128"
    unfolding e using assms(5-8) by (intro digits64_2; linarith)+
  have "s div 262144 = s div 4096 div 64" by (simp add: div_mult2_eq [symmetric])
  moreover have y: "b - 128 < 64" using assms(3,4) by linarith
  ultimately have "s div 262144 = a - 240" "s div 4096 mod 64 = b - 128"
    unfolding q by (simp_all only: digits64 [OF y])
  with q(2,3) assms(1,3,5,7) show "240 + s div 262144 = a" "128 + s div 4096 mod 64 = b" "128 + s div 64 mod 64 = c"
    "128 + s mod 64 = d" by simp_all
  have "241 \<le> a \<or> 144 \<le> b" "a \<le> 243 \<or> b \<le> 143" using assms(1-10) by linarith+
  moreover obtain w x y z where "a = 240 + w" "b = 128 + x" "c = 128 + y" "d = 128 + z"
    using assms(1,3,5,7) by (metis le_Suc_ex)
  ultimately have "65536 \<le> s" "s < 0x110000" unfolding s_def using assms(2,4,6,8) by simp_all linarith+
  then show ge: "\<not> s < 65536" and "is_scalar s" by (simp_all add: is_scalar_def)
qed

lemma utf8_encode_scalar:
  assumes "utf8_char bs = (True, n)" "bs \<noteq> []"
  shows "utf8_encode (utf8_scalar bs n) = take n bs \<and> is_scalar (utf8_scalar bs n)"
proof -
  let ?a = "unat (byte_at bs 0)" and ?b = "unat (byte_at bs 1)" and ?c = "unat (byte_at bs 2)" and ?d = "unat (byte_at bs 3)"
  note tk = take_byte_at [OF utf8_char_prefix(1) [OF assms]]
  from assms(1) consider "n = 1" "?a < 128" | "n = 2" "194 \<le> ?a" "?a \<le> 223" "is_cont (byte_at bs 1)"
    | "n = 3" "224 \<le> ?a" "?a \<le> 239" "second_of_3 (byte_at bs 0) (byte_at bs 1)" "is_cont (byte_at bs 2)"
    | "n = 4" "240 \<le> ?a" "?a \<le> 244" "second_of_4 (byte_at bs 0) (byte_at bs 1)" "is_cont (byte_at bs 2)" "is_cont (byte_at bs 3)"
    unfolding utf8_char_True Let_def by (auto simp: word_le_nat_alt word_less_nat_alt)
  then show ?thesis
  proof cases
    case 1
    then show ?thesis using tk by (simp add: utf8_encode_def utf8_scalar_def Let_def is_scalar_def)
  next
    case 2
    note s = utf8_scalar_2 [of ?a ?b]
    from 2 s tk show ?thesis by (simp add: utf8_encode_def utf8_scalar_def Let_def is_scalar_def cont_unat numeral_2_eq_2)
  next
    case 3
    have "utf8_scalar bs n = (?a - 224) * 4096 + (?b - 128) * 64 + (?c - 128)" using 3(1) by (simp add: utf8_scalar_def Let_def)
    moreover have "if ?a = 224 then 160 \<le> ?b \<and> ?b \<le> 191 else if ?a = 237 then 128 \<le> ?b \<and> ?b \<le> 159 else 128 \<le> ?b \<and> ?b \<le> 191"
      using 3(4) by (simp only: cont_unat)
    then have b: "128 \<le> ?b" "?b \<le> 191" "?a = 224 \<longrightarrow> 160 \<le> ?b" "?a = 237 \<longrightarrow> ?b \<le> 159"
      by (simp_all split: if_splits)
    moreover have c: "128 \<le> ?c" "?c \<le> 191" using 3(5) by (simp_all only: cont_unat)
    ultimately obtain s where s: "utf8_scalar bs n = s" "\<not> s < 2048" "s < 65536" "224 + s div 4096 = ?a"
      "128 + s div 64 mod 64 = ?b" "128 + s mod 64 = ?c" "is_scalar s"
      using utf8_scalar_3 [OF 3(2,3) b(1,2) c b(3,4)] by metis
    have "[0..<3] = [0, 1, 2]" by (simp add: upt_rec)
    with tk 3(1) have "take n bs = map word_of_nat [?a, ?b, ?c]" by simp
    moreover have "utf8_encode s = map word_of_nat [224 + s div 4096, 128 + s div 64 mod 64, 128 + s mod 64]"
      using s(2,3) by (simp add: utf8_encode_def)
    ultimately show ?thesis using s by (simp only: s(4-6) simp_thms)
  next
    case 4
    have "utf8_scalar bs n = (?a - 240) * 262144 + (?b - 128) * 4096 + (?c - 128) * 64 + (?d - 128)"
      using 4(1) by (simp add: utf8_scalar_def Let_def)
    moreover have "if ?a = 240 then 144 \<le> ?b \<and> ?b \<le> 191 else if ?a = 244 then 128 \<le> ?b \<and> ?b \<le> 143 else 128 \<le> ?b \<and> ?b \<le> 191"
      using 4(4) by (simp only: cont_unat)
    then have b: "128 \<le> ?b" "?b \<le> 191" "?a = 240 \<longrightarrow> 144 \<le> ?b" "?a = 244 \<longrightarrow> ?b \<le> 143"
      by (simp_all split: if_splits)
    moreover have c: "128 \<le> ?c" "?c \<le> 191" "128 \<le> ?d" "?d \<le> 191" using 4(5,6) by (simp_all only: cont_unat)
    ultimately obtain s where s: "utf8_scalar bs n = s" "\<not> s < 65536" "240 + s div 262144 = ?a"
      "128 + s div 4096 mod 64 = ?b" "128 + s div 64 mod 64 = ?c" "128 + s mod 64 = ?d" "is_scalar s"
      using utf8_scalar_4 [OF 4(2,3) b(1,2) c b(3,4)] by metis
    have "[0..<4] = [0, 1, 2, 3]" by (simp add: upt_rec)
    with tk 4(1) have "take n bs = map word_of_nat [?a, ?b, ?c, ?d]" by simp
    moreover have "utf8_encode s = map word_of_nat [240 + s div 262144, 128 + s div 4096 mod 64, 128 + s div 64 mod 64, 128 + s mod 64]"
      using s(2) by (simp add: utf8_encode_def)
    ultimately show ?thesis using s by (simp only: s(3-6) simp_thms)
  qed
qed

lemma chars_valid:
  "utf8_valid s \<Longrightarrow> concat (map utf8_encode (chars s)) = s \<and> list_all is_scalar (chars s)"
proof (induction s rule: chars.induct)
  case (1 s)
  show ?case
  proof (cases "s = []")
    case False
    obtain ok n where u: "utf8_char s = (ok, n)" by force
    from "1.prems" False u have "ok" and v: "utf8_valid (drop n s)" by (auto simp: utf8_valid.simps [of s])
    with u have u: "utf8_char s = (True, n)" by simp
    from utf8_encode_scalar [OF u False] "1.IH" [OF False u [symmetric] v] False u show ?thesis
      by (simp add: chars.simps [of s])
  qed (simp add: chars.simps)
qed

lemma utf16_scalars_encode:
  assumes "is_scalar c"
  shows "utf16_scalars (utf16_encode c @ us) = c # utf16_scalars us"
proof (cases "c < 0x10000")
  case True
  with assms have "unat (word_of_nat c :: u16) = c" "\<not> is_high (word_of_nat c)" "\<not> is_low (word_of_nat c)"
    by (auto simp: is_high_def is_low_def is_scalar_def word_le_nat_alt unat_of_nat)
  with True show ?thesis by (cases us) (simp_all add: utf16_encode_def)
next
  case False
  define x where "x = c - 0x10000"
  from False assms have x: "c = x + 0x10000" "x < 0x100000" by (simp_all add: x_def is_scalar_def)
  then have d: "x div 1024 < 1024" by (simp add: div_less_iff_less_mult)
  have "unat (word_of_nat (0xD800 + x div 1024) :: u16) = 0xD800 + x div 1024"
    "unat (word_of_nat (0xDC00 + x mod 1024) :: u16) = 0xDC00 + x mod 1024"
    using d mod_less_divisor [of 1024 x] by (simp_all add: unat_of_nat del: of_nat_add of_nat_numeral)
  moreover from this d have "is_high (word_of_nat (0xD800 + x div 1024))" "is_low (word_of_nat (0xDC00 + x mod 1024))"
    using mod_less_divisor [of 1024 x] by (simp_all add: is_high_def is_low_def word_le_nat_alt)
  moreover have "65536 + x div 1024 * 1024 + x mod 1024 = x + 65536" by simp
  ultimately show ?thesis using x(1) by (simp add: utf16_encode_def)
qed

lemma utf16_scalars_concat: "list_all is_scalar cs \<Longrightarrow> utf16_scalars (concat (map utf16_encode cs)) = cs"
  by (induction cs) (simp_all add: utf16_scalars_encode)

theorem from_utf16_encode: "utf8_valid s \<Longrightarrow> from_utf16_lossy (encode_utf16 s) = s"
  using chars_valid [of s] by (simp add: from_utf16_lossy_def encode_utf16_def utf16_scalars_concat)

end
