(* ===== verification/Rust_Text.thy ===== *)
theory Rust_Text
  imports Unicode
begin

text \<open>
  What the sources do with text besides decoding it: splitting at a character, trimming white space and
  reading decimal numbers, as Rust's \<open>str\<close> does.
\<close>

text \<open>\<open>str::split\<close> on one character.\<close>

fun split_on :: "u8 \<Rightarrow> rstring \<Rightarrow> rstring list" where
  "split_on d [] = [[]]"
| "split_on d (b # bs) =
     (if b = d then [] # split_on d bs
      else case split_on d bs of [] \<Rightarrow> [[b]] | x # xs \<Rightarrow> (b # x) # xs)"

text \<open>The characters with the property \<open>White_Space\<close>.\<close>

definition is_whitespace :: "nat \<Rightarrow> bool" where
  "is_whitespace c \<longleftrightarrow> 9 \<le> c \<and> c \<le> 13 \<or> c \<in> {0x20, 0x85, 0xA0, 0x1680, 0x2028, 0x2029, 0x202F, 0x205F, 0x3000} \<or>
     0x2000 \<le> c \<and> c \<le> 0x200A"

definition str_trim :: "rstring \<Rightarrow> rstring" where
  "str_trim s =
     concat (map utf8_encode (rev (dropWhile is_whitespace (rev (dropWhile is_whitespace (chars s))))))"

definition is_digit :: "u8 \<Rightarrow> bool" where
  "is_digit b \<longleftrightarrow> 0x30 \<le> b \<and> b \<le> 0x39"

definition decimal :: "rstring \<Rightarrow> nat option" where
  "decimal s = (if s = [] \<or> \<not> list_all is_digit s then None else Some (foldl (\<lambda>n b. 10 * n + unat (b - 0x30)) 0 s))"

text \<open>\<open>parse\<close> for an unsigned type with the given largest value, and for a signed one.\<close>

definition parse_unsigned :: "nat \<Rightarrow> rstring \<Rightarrow> nat option" where
  "parse_unsigned m s =
     (case decimal (case s of b # bs \<Rightarrow> if b = 0x2B then bs else s | [] \<Rightarrow> []) of
        Some n \<Rightarrow> if n \<le> m then Some n else None
      | None \<Rightarrow> None)"

definition parse_signed :: "nat \<Rightarrow> rstring \<Rightarrow> int option" where
  "parse_signed m s =
     (case s of
        [] \<Rightarrow> None
      | b # bs \<Rightarrow>
        if b = 0x2D then
          (case decimal bs of Some n \<Rightarrow> if n \<le> m + 1 then Some (- int n) else None | None \<Rightarrow> None)
        else map_option int (parse_unsigned m s))"

lemma parse_unsigned_max: "parse_unsigned m s = Some n \<Longrightarrow> n \<le> m"
  by (auto simp: parse_unsigned_def split: option.splits if_splits)

lemma graphic_not_space: "c < 0x80 \<Longrightarrow> 0x20 < c \<Longrightarrow> \<not> is_whitespace c"
  by (auto simp: is_whitespace_def)

lemma chars_ascii: "list_all (\<lambda>b. b < 0x80) s \<Longrightarrow> chars s = map unat s"
proof (induction s)
  case (Cons b s)
  then have "utf8_char (b # s) = (True, 1)" by (simp add: utf8_char_def byte_at_def)
  with Cons show ?case by (subst chars.simps) (simp add: utf8_scalar_def byte_at_def)
qed (simp add: chars.simps)

text \<open>Text without white space is its own trimming.\<close>

lemma str_trim_graphic:
  assumes "list_all is_ascii_graphic s"
  shows "str_trim s = s"
proof -
  have r: "unat b < 128 \<and> 32 < unat b \<and> b < 128" if "b \<in> set s" for b
    using assms that by (auto simp: list_all_iff is_ascii_graphic_def word_le_nat_alt word_less_nat_alt)
  then have c: "chars s = map unat s" by (intro chars_ascii) (simp add: list_all_iff)
  have n: "\<not> is_whitespace x" if "x \<in> set (chars s)" for x using that r graphic_not_space unfolding c by auto
  have "dropWhile is_whitespace xs = xs" if "set xs \<subseteq> set (chars s)" for xs using that n by (cases xs) auto
  then have "str_trim s = concat (map utf8_encode (chars s))" by (simp add: str_trim_def)
  moreover have "concat (map utf8_encode (map unat t)) = t" if "set t \<subseteq> set s" for t
    using that r by (induction t) (auto simp: utf8_encode_def)
  ultimately show ?thesis by (simp add: c)
qed

end
