(* ===== verification/Dns.thy ===== *)
theory Dns
  imports Rust_Text Machines
begin

text \<open>
  The mDNS wire format of \<open>sharingd/src/dns.rs\<close>: the bounds-checked reader with name decompression,
  the packet parser, and the encoders of names, records, responses, NSEC and TXT data and queries.
  The theorems: whatever a stranger sends, the parser ends, stays inside the packet and returns
  bounded names and record counts whose data are slices of the packet; and every response and query
  this side builds is read back as meant.
\<close>

section \<open>The reader\<close>

abbreviation TYPE_A :: u16 where "TYPE_A \<equiv> 1"
abbreviation TYPE_PTR :: u16 where "TYPE_PTR \<equiv> 12"
abbreviation TYPE_TXT :: u16 where "TYPE_TXT \<equiv> 16"
abbreviation TYPE_NSEC :: u16 where "TYPE_NSEC \<equiv> 47"
abbreviation TYPE_AAAA :: u16 where "TYPE_AAAA \<equiv> 28"
abbreviation TYPE_SRV :: u16 where "TYPE_SRV \<equiv> 33"
abbreviation MAX_JUMPS :: nat where "MAX_JUMPS \<equiv> 16"
abbreviation MAX_NAME :: nat where "MAX_NAME \<equiv> 255"

record dns_reader =
  dr_buf :: bytes
  dr_pos :: nat

text \<open>
  A reader method returns \<open>Option\<close> and moves the reader, also when it fails half-way. \<open>dns_try\<close> is
  \<open>?\<close> on its result.
\<close>

type_synonym 'a dns_read = "dns_reader \<Rightarrow> 'a option \<times> dns_reader"

definition dns_try :: "'a dns_read \<Rightarrow> ('a \<Rightarrow> 'b dns_read) \<Rightarrow> 'b dns_read" where
  "dns_try m f r = (case m r of (None, r') \<Rightarrow> (None, r') | (Some x, r') \<Rightarrow> f x r')"

definition dns_some :: "'a \<Rightarrow> 'a dns_read" where
  "dns_some x r = (Some x, r)"

definition dns_none :: "'a dns_read" where
  "dns_none r = (None, r)"

text \<open>\<open>r.pos\<close>.\<close>

definition dns_pos :: "nat dns_read" where
  "dns_pos r = (Some (dr_pos r), r)"

definition dns_reader_new :: "bytes \<Rightarrow> dns_reader" where
  "dns_reader_new buf = \<lparr>dr_buf = buf, dr_pos = 0\<rparr>"

definition dns_u8 :: "u8 dns_read" where
  "dns_u8 r = (case get_at (dr_buf r) (dr_pos r) of None \<Rightarrow> (None, r) | Some v \<Rightarrow> (Some v, r\<lparr>dr_pos := dr_pos r + 1\<rparr>))"

definition dns_u16 :: "u16 dns_read" where
  "dns_u16 = dns_try dns_u8 (\<lambda>hi. dns_try dns_u8 (\<lambda>lo. dns_some (push_bit 8 (ucast hi) OR ucast lo)))"

definition dns_u32 :: "u32 dns_read" where
  "dns_u32 = dns_try dns_u16 (\<lambda>a. dns_try dns_u16 (\<lambda>b. dns_some (push_bit 16 (ucast a) OR ucast b)))"

definition dns_bytes :: "nat \<Rightarrow> bytes dns_read" where
  "dns_bytes n r =
     (case checked_add (dr_pos r) n of
        None \<Rightarrow> (None, r)
      | Some e \<Rightarrow> (case get_range (dr_buf r) (dr_pos r) e of
          None \<Rightarrow> (None, r)
        | Some s \<Rightarrow> (Some s, r\<lparr>dr_pos := e\<rparr>)))"

text \<open>
  The loop of \<open>name\<close>. \<open>adv\<close> is the position the reader is left at: \<open>None\<close> while \<open>advanced\<close> is false,
  which is as long as no pointer has been followed and the name has not ended.
\<close>

function name_loop :: "bytes \<Rightarrow> nat \<Rightarrow> nat \<Rightarrow> nat option \<Rightarrow> rstring \<Rightarrow> rstring option \<times> nat option" where
  "name_loop buf pos jumps adv out =
     (case get_at buf pos of
        None \<Rightarrow> (None, adv)
      | Some l \<Rightarrow>
        if l AND 0xC0 = 0xC0 then
          (case get_at buf (pos + 1) of
             None \<Rightarrow> (None, adv)
           | Some lo \<Rightarrow>
             let target = unat (push_bit 8 (ucast (l AND 0x3F)) OR ucast lo :: u16);
                 adv' = Some (unwrap_or (pos + 2) adv) in
             if MAX_JUMPS < jumps + 1 \<or> length buf \<le> target then (None, adv')
             else name_loop buf target (jumps + 1) adv' out)
        else if l = 0 then (Some out, Some (unwrap_or (pos + 1) adv))
        else
          (case get_range buf (pos + 1) (pos + 1 + unat l) of
             None \<Rightarrow> (None, adv)
           | Some label \<Rightarrow>
             if MAX_NAME < length out + length label + 1 then (None, adv)
             else
               (case from_utf8 label of
                  None \<Rightarrow> (None, adv)
                | Some s \<Rightarrow>
                  name_loop buf (pos + 1 + unat l) jumps adv ((if out = [] then out else out @ [0x2E]) @ s))))"
  by pat_completeness auto
termination
  by (relation "measures [\<lambda>(buf, pos, jumps, adv, out). MAX_JUMPS - jumps, \<lambda>(buf, pos, jumps, adv, out). length buf - pos]")
    (auto simp: get_at_def split: if_splits)

declare name_loop.simps [simp del]

definition dns_name :: "rstring dns_read" where
  "dns_name r =
     (case name_loop (dr_buf r) (dr_pos r) 0 None [] of
        (res, adv) \<Rightarrow> (res, r\<lparr>dr_pos := unwrap_or (dr_pos r) adv\<rparr>))"

section \<open>The parser\<close>

record question =
  q_name :: rstring
  q_type :: u16

record dns_rr =
  rr_name :: rstring
  rr_type :: u16
  rr_ttl :: u32
  rr_rdata :: bytes
  rr_rdata_at :: nat

record dns_message =
  dm_questions :: "question list"
  dm_records :: "dns_rr list"

primrec dns_repeat :: "nat \<Rightarrow> 'a dns_read \<Rightarrow> 'a list dns_read" where
  "dns_repeat 0 m = dns_some []"
| "dns_repeat (Suc n) m = dns_try m (\<lambda>x. dns_try (dns_repeat n m) (\<lambda>xs. dns_some (x # xs)))"

definition dns_question :: "question dns_read" where
  "dns_question =
     dns_try dns_name (\<lambda>name. dns_try dns_u16 (\<lambda>qtype. dns_try dns_u16 (\<lambda>_.
       dns_some \<lparr>q_name = name, q_type = qtype\<rparr>)))"

definition dns_rr_read :: "dns_rr dns_read" where
  "dns_rr_read =
     dns_try dns_name (\<lambda>name. dns_try dns_u16 (\<lambda>rtype. dns_try dns_u16 (\<lambda>_. dns_try dns_u32 (\<lambda>ttl.
     dns_try dns_u16 (\<lambda>rdlen. dns_try dns_pos (\<lambda>at. dns_try (dns_bytes (unat rdlen)) (\<lambda>rdata.
       dns_some \<lparr>rr_name = name, rr_type = rtype, rr_ttl = ttl, rr_rdata = rdata, rr_rdata_at = at\<rparr>)))))))"

definition dns_packet :: "dns_message dns_read" where
  "dns_packet =
     dns_try dns_u16 (\<lambda>_. dns_try dns_u16 (\<lambda>_. dns_try dns_u16 (\<lambda>qd. dns_try dns_u16 (\<lambda>an.
     dns_try dns_u16 (\<lambda>ns. dns_try dns_u16 (\<lambda>ar.
       if 64 < qd then dns_none
       else dns_try (dns_repeat (unat qd) dns_question) (\<lambda>questions.
         let total = unat an + unat ns + unat ar in
         if 128 < total then dns_none
         else dns_try (dns_repeat total dns_rr_read) (\<lambda>records.
           dns_some \<lparr>dm_questions = questions, dm_records = records\<rparr>))))))))"

definition dns_parse :: "bytes \<Rightarrow> dns_message option" where
  "dns_parse buf = fst (dns_packet (dns_reader_new buf))"

section \<open>The encoders\<close>

definition dns_label :: "rstring \<Rightarrow> bytes" where
  "dns_label l = word_of_nat (length l) # l"

definition encode_name :: "rstring \<Rightarrow> bytes" where
  "encode_name n = concat (map dns_label (filter (\<lambda>l. l \<noteq> []) (split_on 0x2E n))) @ [0]"

definition dns_record :: "rstring \<Rightarrow> u16 \<Rightarrow> u32 \<Rightarrow> bytes \<Rightarrow> bool \<Rightarrow> bytes" where
  "dns_record name rtype ttl rdata flush =
     encode_name name @ u16_to_be_bytes rtype @ u16_to_be_bytes (if flush then 0x8001 else 0x0001) @
     u32_to_be_bytes ttl @ u16_to_be_bytes (word_of_nat (length rdata)) @ rdata"

definition dns_response :: "bytes list \<Rightarrow> bytes" where
  "dns_response answers =
     u16_to_be_bytes 0 @ u16_to_be_bytes 0x8400 @ u16_to_be_bytes 0 @
     u16_to_be_bytes (word_of_nat (length answers)) @ u16_to_be_bytes 0 @ u16_to_be_bytes 0 @ concat answers"

definition nsec_mark :: "bytes \<Rightarrow> u16 \<Rightarrow> bytes" where
  "nsec_mark bitmap t = bitmap[unat t div 8 := bitmap ! (unat t div 8) OR drop_bit (unat t mod 8) 0x80]"

definition nsec_bitmap :: "u16 list \<Rightarrow> bytes" where
  "nsec_bitmap types =
     foldl nsec_mark (replicate (unat (foldr max types 0) div 8 + 1) 0) types"

definition nsec_rdata :: "rstring \<Rightarrow> u16 list \<Rightarrow> bytes" where
  "nsec_rdata next_name types =
     (let bitmap = nsec_bitmap types in
      encode_name next_name @ [0, word_of_nat (length bitmap)] @ bitmap)"

definition txt_rdata :: "rstring list \<Rightarrow> bytes" where
  "txt_rdata entries =
     (if entries = [] then [0]
      else concat (map (\<lambda>e. let n = min (length e) 255 in word_of_nat n # take n e) entries))"

definition query_with :: "rstring \<Rightarrow> bool \<Rightarrow> bytes" where
  "query_with service unicast =
     [0, 0] @ [0, 0] @ [0, 1] @ [0, 0, 0, 0, 0, 0] @ concat (map dns_label (split_on 0x2E service)) @ [0] @
     u16_to_be_bytes TYPE_PTR @ u16_to_be_bytes (if unicast then 0x8000 OR 1 else 1)"

definition dns_query :: "rstring \<Rightarrow> bytes" where
  "dns_query service = query_with service False"

section \<open>Staying inside the packet\<close>

text \<open>
  What a method does from position \<open>p\<close> of a packet, whatever the packet holds: it leaves the packet
  alone, moves forward within it, and a value it returns has \<open>Q\<close> at the position it stops at.
\<close>

definition dns_safe :: "bytes \<Rightarrow> 'a dns_read \<Rightarrow> nat \<Rightarrow> (nat \<Rightarrow> 'a \<Rightarrow> bool) \<Rightarrow> bool" where
  "dns_safe buf m p Q \<longleftrightarrow>
     (\<exists>res p'. m \<lparr>dr_buf = buf, dr_pos = p\<rparr> = (res, \<lparr>dr_buf = buf, dr_pos = p'\<rparr>) \<and>
       p \<le> p' \<and> p' \<le> length buf \<and> (\<forall>x. res = Some x \<longrightarrow> Q p' x))"

lemma dns_safe_try:
  assumes "dns_safe buf m p P"
    and "\<And>x p'. P p' x \<Longrightarrow> p \<le> p' \<Longrightarrow> p' \<le> length buf \<Longrightarrow> dns_safe buf (f x) p' Q"
  shows "dns_safe buf (dns_try m f) p Q"
proof -
  from assms(1) obtain res p' where m: "m \<lparr>dr_buf = buf, dr_pos = p\<rparr> = (res, \<lparr>dr_buf = buf, dr_pos = p'\<rparr>)"
    "p \<le> p'" "p' \<le> length buf" "\<And>x. res = Some x \<Longrightarrow> P p' x"
    unfolding dns_safe_def by blast
  show ?thesis
  proof (cases res)
    case (Some x)
    with m assms(2) have "dns_safe buf (f x) p' Q" by blast
    with m(1,2) Some show ?thesis
      unfolding dns_safe_def dns_try_def by fastforce
  qed (use m in \<open>simp add: dns_safe_def dns_try_def\<close>)
qed

lemma dns_safe_simple:
  "p \<le> length buf \<Longrightarrow> Q p x \<Longrightarrow> dns_safe buf (dns_some x) p Q"
  "p \<le> length buf \<Longrightarrow> dns_safe buf dns_none p Q"
  "p \<le> length buf \<Longrightarrow> dns_safe buf dns_pos p (\<lambda>p' x. p' = p \<and> x = p)"
  by (simp_all add: dns_safe_def dns_some_def dns_none_def dns_pos_def)

lemma dns_safe_ints:
  assumes "p \<le> length buf"
  shows "dns_safe buf dns_u8 p (\<lambda>_ _. True)" "dns_safe buf dns_u16 p (\<lambda>_ _. True)" "dns_safe buf dns_u32 p (\<lambda>_ _. True)"
proof -
  have u8: "dns_safe buf dns_u8 p (\<lambda>_ _. True)" if "p \<le> length buf" for p
    using that by (auto simp: dns_safe_def dns_u8_def get_at_def)
  have u16: "dns_safe buf dns_u16 p (\<lambda>_ _. True)" if "p \<le> length buf" for p
    using that u8 unfolding dns_u16_def by (intro dns_safe_try [where P = "\<lambda>_ _. True"] dns_safe_simple) auto
  show "dns_safe buf dns_u8 p (\<lambda>_ _. True)" "dns_safe buf dns_u16 p (\<lambda>_ _. True)"
    using assms u8 u16 by auto
  show "dns_safe buf dns_u32 p (\<lambda>_ _. True)"
    using assms u16 unfolding dns_u32_def by (intro dns_safe_try [where P = "\<lambda>_ _. True"] dns_safe_simple) auto
qed

lemma dns_safe_bytes:
  "p \<le> length buf \<Longrightarrow> dns_safe buf (dns_bytes n) p (\<lambda>p' s. p' = p + n \<and> s = take n (drop p buf))"
  by (auto simp: dns_safe_def dns_bytes_def get_range_def split: option.splits)

text \<open>A name is at most 255 bytes, and every label of it was checked to be UTF-8.\<close>

definition name_ok :: "rstring \<Rightarrow> bool" where
  "name_ok n \<longleftrightarrow> length n \<le> MAX_NAME \<and> utf8_valid n"

lemma name_ok_label:
  assumes "name_ok out" "utf8_valid l" "length out + length l + 1 \<le> MAX_NAME"
  shows "name_ok ((if out = [] then out else out @ [0x2E]) @ l)"
  using assms utf8_valid_append [of out "[0x2E]"] by (auto simp: name_ok_def ascii_utf8_valid utf8_valid_append)

lemma name_loop_safe:
  assumes "name_loop buf pos jumps adv out = (res, adv')" "name_ok out"
    "\<And>p. adv = Some p \<Longrightarrow> p0 \<le> p \<and> p \<le> length buf" "p0 \<le> pos \<or> adv \<noteq> None"
  shows "(\<forall>p. adv' = Some p \<longrightarrow> p0 \<le> p \<and> p \<le> length buf) \<and> (\<forall>x. res = Some x \<longrightarrow> name_ok x \<and> adv' \<noteq> None)"
  using assms
proof (induction buf pos jumps adv out arbitrary: res adv' rule: name_loop.induct)
  case (1 buf pos jumps adv out)
  show ?case
  proof (cases "get_at buf pos")
    case (Some l)
    note l = this
    then have pos: "pos < length buf" by (simp add: get_at_def split: if_splits)
    show ?thesis
    proof (cases "l AND 0xC0 = 0xC0")
      case True
      show ?thesis
      proof (cases "get_at buf (pos + 1)")
        case (Some lo)
        then have "pos + 2 \<le> length buf" by (simp add: get_at_def split: if_splits)
        then have adv: "p0 \<le> unwrap_or (pos + 2) adv \<and> unwrap_or (pos + 2) adv \<le> length buf"
          using "1.prems"(3,4) by (cases adv) auto
        show ?thesis
          using "1.prems"(1,2) adv 1(1) [OF l True Some refl refl _ _ "1.prems"(2), of res adv'] l True Some
          by (auto simp: name_loop.simps [of buf pos] Let_def split: if_splits)
      qed (use 1 l True in \<open>auto simp: name_loop.simps [of buf pos]\<close>)
    next
      case False
      note c = this
      show ?thesis
      proof (cases "l = 0")
        case True
        with "1.prems" l c pos show ?thesis
          by (cases adv) (auto simp: name_loop.simps [of buf pos])
      next
        case False
        show ?thesis
        proof (cases "get_range buf (pos + 1) (pos + 1 + unat l)")
          case (Some label)
          show ?thesis
          proof (cases "MAX_NAME < length out + length label + 1 \<or> from_utf8 label = None")
            case True
            with "1.prems" l c False Some show ?thesis
              by (auto simp: name_loop.simps [of buf pos] split: if_splits option.splits)
          next
            case n: False
            then obtain s where s: "from_utf8 label = Some s" by auto
            then have "s = label" "utf8_valid s" by (simp_all add: from_utf8_def split: if_splits)
            then have len: "name_ok ((if out = [] then out else out @ [0x2E]) @ s)"
              using n "1.prems"(2) by (intro name_ok_label) auto
            from n have small: "\<not> MAX_NAME < length out + length label + 1" by blast
            have step: "name_loop buf (pos + 1 + unat l) jumps adv ((if out = [] then out else out @ [0x2E]) @ s) = (res, adv')"
              using "1.prems"(1) small l c False Some s by (simp add: name_loop.simps [of buf pos])
            from "1.prems"(4) have "p0 \<le> pos + 1 + unat l \<or> adv \<noteq> None" by auto
            from 1(2) [OF l c False Some small s step len "1.prems"(3) this] show ?thesis .
          qed
        qed (use 1 l c False in \<open>auto simp: name_loop.simps [of buf pos]\<close>)
      qed
    qed
  qed (use 1 in \<open>auto simp: name_loop.simps [of buf pos]\<close>)
qed

lemma dns_safe_name:
  assumes "p \<le> length buf"
  shows "dns_safe buf dns_name p (\<lambda>_ n. name_ok n)"
proof -
  obtain res adv where n: "name_loop buf p 0 None [] = (res, adv)" by (cases "name_loop buf p 0 None []")
  with name_loop_safe [OF n, of p] assms show ?thesis
    by (cases adv) (auto simp: dns_safe_def dns_name_def name_ok_def)
qed

lemma dns_safe_repeat:
  assumes "\<And>p. p \<le> length buf \<Longrightarrow> dns_safe buf m p (\<lambda>_ x. P x)" "p \<le> length buf"
  shows "dns_safe buf (dns_repeat n m) p (\<lambda>_ xs. length xs = n \<and> list_all P xs)"
  using assms(2)
proof (induction n arbitrary: p)
  case (Suc n)
  show ?case
    unfolding dns_repeat.simps
  proof (rule dns_safe_try [OF assms(1) [OF Suc.prems]])
    fix x p'
    assume x: "P x" and p': "p' \<le> length buf"
    show "dns_safe buf (dns_try (dns_repeat n m) (\<lambda>xs. dns_some (x # xs))) p' (\<lambda>_ xs. length xs = Suc n \<and> list_all P xs)"
      by (rule dns_safe_try [OF Suc.IH [OF p']]) (use x in \<open>auto intro: dns_safe_simple\<close>)
  qed
qed (auto intro: dns_safe_simple)

text \<open>A record of a packet: its name is bounded and its data is the slice the packet has at \<open>rdata_at\<close>.\<close>

definition rr_inside :: "bytes \<Rightarrow> dns_rr \<Rightarrow> bool" where
  "rr_inside buf rr \<longleftrightarrow> name_ok (rr_name rr) \<and> get_range buf (rr_rdata_at rr) (rr_rdata_at rr + length (rr_rdata rr)) = Some (rr_rdata rr)"

lemma dns_safe_question: "p \<le> length buf \<Longrightarrow> dns_safe buf dns_question p (\<lambda>_ q. name_ok (q_name q))"
  unfolding dns_question_def
  by (rule dns_safe_try [OF dns_safe_name], assumption, (rule dns_safe_try [OF dns_safe_ints(2)], assumption)+)
    (auto intro: dns_safe_simple)

lemma dns_safe_rdata:
  "p \<le> length buf \<Longrightarrow> name_ok n \<Longrightarrow>
   dns_safe buf (dns_try dns_pos (\<lambda>at. dns_try (dns_bytes k) (\<lambda>rdata.
       dns_some \<lparr>rr_name = n, rr_type = t, rr_ttl = ttl, rr_rdata = rdata, rr_rdata_at = at\<rparr>))) p (\<lambda>_. rr_inside buf)"
  by (rule dns_safe_try [OF dns_safe_simple(3)], assumption, rule dns_safe_try [OF dns_safe_bytes], simp)
    (auto intro!: dns_safe_simple simp: rr_inside_def get_range_def)

lemma dns_safe_rr: "p \<le> length buf \<Longrightarrow> dns_safe buf dns_rr_read p (\<lambda>_. rr_inside buf)"
  unfolding dns_rr_read_def
  by (rule dns_safe_try [OF dns_safe_name], assumption, (rule dns_safe_try [OF dns_safe_ints(2)], assumption)+,
      rule dns_safe_try [OF dns_safe_ints(3)], assumption, rule dns_safe_try [OF dns_safe_ints(2)], assumption)
    (auto intro: dns_safe_rdata)

definition packet_ok :: "bytes \<Rightarrow> dns_message \<Rightarrow> bool" where
  "packet_ok buf m \<longleftrightarrow>
     length (dm_questions m) \<le> 64 \<and> list_all (\<lambda>q. name_ok (q_name q)) (dm_questions m) \<and>
     length (dm_records m) \<le> 128 \<and> list_all (rr_inside buf) (dm_records m)"

lemma dns_safe_packet: "dns_safe buf dns_packet 0 (\<lambda>_. packet_ok buf)"
proof -
  have body: "dns_safe buf (dns_try (dns_repeat (unat qd) dns_question) (\<lambda>questions.
         let total = unat an + unat ns + unat ar in
         if 128 < total then dns_none
         else dns_try (dns_repeat total dns_rr_read) (\<lambda>records.
           dns_some \<lparr>dm_questions = questions, dm_records = records\<rparr>))) p (\<lambda>_. packet_ok buf)"
    if "p \<le> length buf" "\<not> 64 < qd" for p and qd an ns ar :: u16
  proof (rule dns_safe_try [OF dns_safe_repeat [OF dns_safe_question that(1)]])
    fix qs :: "question list" and p' :: nat
    assume qs: "length qs = unat qd \<and> list_all (\<lambda>q. name_ok (q_name q)) qs" and p': "p' \<le> length buf"
    show "dns_safe buf (let total = unat an + unat ns + unat ar in
         if 128 < total then dns_none
         else dns_try (dns_repeat total dns_rr_read) (\<lambda>records.
           dns_some \<lparr>dm_questions = qs, dm_records = records\<rparr>)) p' (\<lambda>_. packet_ok buf)"
      using qs p' that(2)
      by (auto simp: Let_def packet_ok_def word_less_nat_alt intro!: dns_safe_simple dns_safe_try [OF dns_safe_repeat [OF dns_safe_rr]])
  qed
  show ?thesis
    unfolding dns_packet_def
    by ((rule dns_safe_try [OF dns_safe_ints(2)], simp)+) (auto intro: body dns_safe_simple)
qed

section \<open>Reading what was built\<close>

text \<open>
  From position \<open>p\<close>, the method reads exactly the bytes \<open>bs\<close>, whatever surrounds them, and returns \<open>x\<close>.
\<close>

definition dns_reads :: "'a dns_read \<Rightarrow> nat \<Rightarrow> bytes \<Rightarrow> 'a \<Rightarrow> bool" where
  "dns_reads m p bs x \<longleftrightarrow>
     (\<forall>pre post. length pre = p \<longrightarrow> fits (pre @ bs @ post) \<longrightarrow>
       m \<lparr>dr_buf = pre @ bs @ post, dr_pos = p\<rparr> = (Some x, \<lparr>dr_buf = pre @ bs @ post, dr_pos = p + length bs\<rparr>))"

lemma dns_reads_try:
  assumes "dns_reads m p a x" "dns_reads (f x) (p + length a) b y"
  shows "dns_reads (dns_try m f) p (a @ b) y"
  unfolding dns_reads_def
proof (intro allI impI)
  fix pre post :: bytes
  assume l: "length pre = p" and fit: "fits (pre @ (a @ b) @ post)"
  from assms(1) l fit have "m \<lparr>dr_buf = pre @ a @ b @ post, dr_pos = p\<rparr> =
      (Some x, \<lparr>dr_buf = pre @ a @ b @ post, dr_pos = p + length a\<rparr>)"
    by (simp add: dns_reads_def)
  moreover from assms(2) l fit have "f x \<lparr>dr_buf = (pre @ a) @ b @ post, dr_pos = p + length a\<rparr> =
      (Some y, \<lparr>dr_buf = (pre @ a) @ b @ post, dr_pos = p + length a + length b\<rparr>)"
    unfolding dns_reads_def by (elim allE [of _ "pre @ a"] allE [of _ post]) simp
  ultimately show "dns_try m f \<lparr>dr_buf = pre @ (a @ b) @ post, dr_pos = p\<rparr> =
      (Some y, \<lparr>dr_buf = pre @ (a @ b) @ post, dr_pos = p + length (a @ b)\<rparr>)"
    by (simp add: dns_try_def add.assoc)
qed

lemma dns_reads_some: "dns_reads (dns_some x) p [] x"
  by (simp add: dns_reads_def dns_some_def)

lemma dns_reads_pos: "dns_reads dns_pos p [] p"
  by (simp add: dns_reads_def dns_pos_def)

lemma dns_reads_last: "dns_reads m p a x \<Longrightarrow> f x = dns_some y \<Longrightarrow> dns_reads (dns_try m f) p a y"
  using dns_reads_try [of m p a x f "[]" y] dns_reads_some by fastforce

lemma dns_reads_u8: "dns_reads dns_u8 p [b] b"
  by (auto simp: dns_reads_def dns_u8_def get_at_def)

lemma dns_reads_u16: "dns_reads dns_u16 p (u16_to_be_bytes w) w"
proof -
  have "dns_reads dns_u16 p ([ucast (drop_bit 8 w)] @ [ucast w]) w"
    unfolding dns_u16_def using u16_be_roundtrip [of w]
    by (intro dns_reads_try [OF dns_reads_u8] dns_reads_last [OF dns_reads_u8]) (simp add: u16_from_be_bytes_def)
  then show ?thesis by (simp add: u16_to_be_bytes_def)
qed

lemma u32_halves:
  "u32_to_be_bytes w = u16_to_be_bytes (ucast (drop_bit 16 w)) @ u16_to_be_bytes (ucast w)"
  "push_bit 16 (ucast (ucast (drop_bit 16 w) :: u16)) OR ucast (ucast w :: u16) = (w :: u32)"
proof -
  show "u32_to_be_bytes w = u16_to_be_bytes (ucast (drop_bit 16 w)) @ u16_to_be_bytes (ucast w)"
    by (auto simp: u32_to_be_bytes_def u16_to_be_bytes_def intro!: bit_word_eqI simp: bit_simps)
  show "push_bit 16 (ucast (ucast (drop_bit 16 w) :: u16)) OR ucast (ucast w :: u16) = (w :: u32)"
    by (rule bit_word_eqI) (auto simp: bit_simps)
qed

lemma dns_reads_u32: "dns_reads dns_u32 p (u32_to_be_bytes w) w"
  unfolding dns_u32_def u32_halves(1)
  by (intro dns_reads_try [OF dns_reads_u16] dns_reads_last [OF dns_reads_u16]) (simp add: u32_halves(2))

lemma dns_reads_bytes: "dns_reads (dns_bytes (length bs)) p bs bs"
  by (auto simp: dns_reads_def dns_bytes_def get_range_def checked_add_def fits_def)

primrec placed :: "nat \<Rightarrow> (bytes \<times> (nat \<Rightarrow> 'a)) list \<Rightarrow> 'a list" where
  "placed p [] = []"
| "placed p (m # ms) = snd m p # placed (p + length (fst m)) ms"

lemma dns_reads_repeat:
  "\<forall>m \<in> set ms. \<forall>p. dns_reads rd p (fst m) (snd m p) \<Longrightarrow>
   dns_reads (dns_repeat (length ms) rd) p (concat (map fst ms)) (placed p ms)"
proof (induction ms arbitrary: p)
  case (Cons m ms)
  from Cons.prems have m: "dns_reads rd p (fst m) (snd m p)" by simp
  from Cons have "dns_reads (dns_repeat (length ms) rd) (p + length (fst m)) (concat (map fst ms)) (placed (p + length (fst m)) ms)"
    by simp
  from dns_reads_last [OF this, of "\<lambda>xs. dns_some (snd m p # xs)"] m show ?case
    by (auto intro: dns_reads_try [where x = "snd m p"])
qed (simp add: dns_reads_some)

text \<open>Names: the labels between the dots, each with its length before it.\<close>

definition label_ok :: "rstring \<Rightarrow> bool" where
  "label_ok l \<longleftrightarrow> l \<noteq> [] \<and> length l < 192 \<and> utf8_valid l"

fun dotted :: "rstring list \<Rightarrow> rstring" where
  "dotted [] = []"
| "dotted [l] = l"
| "dotted (l # ls) = l @ [0x2E] @ dotted ls"

lemma split_on_nonempty [simp]: "split_on d n \<noteq> []"
  by (induction n) (auto split: list.splits)

lemma dotted_Cons: "ls \<noteq> [] \<Longrightarrow> dotted (l # ls) = l @ [0x2E] @ dotted ls"
  by (cases ls) simp_all

lemma dotted_split: "dotted (split_on 0x2E n) = n"
proof (induction n)
  case (Cons b n)
  then show ?case
    by (cases "split_on 0x2E n"; cases "tl (split_on 0x2E n)") (auto simp: dotted_Cons)
qed simp

lemma label_byte:
  assumes "length l < 192" "l \<noteq> []"
  shows "(word_of_nat (length l) :: u8) AND 0xC0 \<noteq> 0xC0" "(word_of_nat (length l) :: u8) \<noteq> 0"
    "unat (word_of_nat (length l) :: u8) = length l"
proof -
  show n: "unat (word_of_nat (length l) :: u8) = length l"
    using assms by (simp add: unat_of_nat)
  then show "(word_of_nat (length l) :: u8) \<noteq> 0" using assms by (metis length_0_conv unat_0)
  have "\<not> 0xC0 \<le> (word_of_nat (length l) :: u8)" using n assms by (simp add: word_le_nat_alt)
  then show "(word_of_nat (length l) :: u8) AND 0xC0 \<noteq> 0xC0" by (metis word_and_le2)
qed

lemma name_loop_labels:
  assumes "list_all label_ok ls" "length (dotted (if out = [] then ls else out # ls)) < MAX_NAME"
  shows "name_loop (pre @ concat (map dns_label ls) @ [0] @ post) (length pre) jumps adv out =
    (Some (dotted (if out = [] then ls else out # ls)),
     Some (unwrap_or (length pre + length (concat (map dns_label ls)) + 1) adv))"
  using assms
proof (induction ls arbitrary: pre out)
  case Nil
  then show ?case by (simp add: name_loop.simps get_at_def)
next
  case (Cons l ls)
  let ?buf = "pre @ concat (map dns_label (l # ls)) @ [0] @ post"
  let ?out = "(if out = [] then out else out @ [0x2E]) @ l"
  from Cons.prems have l: "l \<noteq> []" "length l < 192" "utf8_valid l" by (simp_all add: label_ok_def)
  note b = label_byte [OF l(2,1)]
  have out: "?out \<noteq> []" using l(1) by simp
  have dot: "dotted (if out = [] then l # ls else out # l # ls) = dotted (?out # ls)"
    by (cases ls) auto
  have len: "length out + length l + 1 \<le> MAX_NAME"
    using Cons.prems(2) unfolding dot by (cases ls) (auto split: if_splits)
  have "name_loop ?buf (length pre) jumps adv out = name_loop ?buf (length pre + 1 + length l) jumps adv ?out"
    using b len l(3) by (subst name_loop.simps) (simp add: get_at_def get_range_def dns_label_def from_utf8_def)
  also have "\<dots> = name_loop ((pre @ dns_label l) @ concat (map dns_label ls) @ [0] @ post) (length (pre @ dns_label l)) jumps adv ?out"
    by (simp add: dns_label_def)
  also have "\<dots> = (Some (dotted (?out # ls)), Some (unwrap_or (length (pre @ dns_label l) + length (concat (map dns_label ls)) + 1) adv))"
    using Cons.IH [of ?out "pre @ dns_label l"] Cons.prems dot out by simp
  finally show ?case by (simp only: dot) (simp add: add.assoc)
qed

lemma dns_reads_labels:
  assumes "list_all label_ok ls" "length (dotted ls) < MAX_NAME"
  shows "dns_reads dns_name p (concat (map dns_label ls) @ [0]) (dotted ls)"
  using name_loop_labels [of ls "[]"] assms by (auto simp: dns_reads_def dns_name_def)

text \<open>A name whose labels are not empty is read back from its encoding.\<close>

definition dns_name_wf :: "rstring \<Rightarrow> bool" where
  "dns_name_wf n \<longleftrightarrow> utf8_valid n \<and> length n < MAX_NAME \<and> list_all (\<lambda>l. l \<noteq> [] \<and> length l < 192) (split_on 0x2E n)"

lemma utf8_valid_dotted: "utf8_valid (dotted ls) \<Longrightarrow> list_all utf8_valid ls"
proof (induction ls)
  case (Cons l ls)
  show ?case
  proof (cases "ls = []")
    case False
    with Cons.prems have "utf8_valid (l @ 0x2E # dotted ls)" by (simp add: dotted_Cons)
    from utf8_valid_split [OF this] have l: "utf8_valid l" "utf8_valid (0x2E # dotted ls)"
      by (simp_all add: is_cont_def)
    from l(2) have "utf8_valid (dotted ls)"
      by (subst (asm) utf8_valid.simps) (simp add: utf8_char_def byte_at_def)
    with l(1) Cons.IH show ?thesis by simp
  qed (use Cons in simp)
qed simp

lemma wf_labels: "dns_name_wf n \<Longrightarrow> list_all label_ok (split_on 0x2E n)"
  using utf8_valid_dotted [of "split_on 0x2E n"]
  by (auto simp: dns_name_wf_def label_ok_def list_all_iff dotted_split)

lemma encode_name_wf: "dns_name_wf n \<Longrightarrow> encode_name n = concat (map dns_label (split_on 0x2E n)) @ [0]"
  by (simp add: encode_name_def dns_name_wf_def list_all_iff filter_id_conv)

lemma dns_reads_name: "dns_name_wf n \<Longrightarrow> dns_reads dns_name p (encode_name n) n"
  using dns_reads_labels [OF wf_labels, of n p] encode_name_wf [of n] by (simp add: dotted_split dns_name_wf_def)

record dns_answer =
  da_name :: rstring
  da_type :: u16
  da_ttl :: u32
  da_rdata :: bytes
  da_flush :: bool

definition answer_ok :: "dns_answer \<Rightarrow> bool" where
  "answer_ok a \<longleftrightarrow> dns_name_wf (da_name a) \<and> length (da_rdata a) < 65536"

definition answer_bytes :: "dns_answer \<Rightarrow> bytes" where
  "answer_bytes a = dns_record (da_name a) (da_type a) (da_ttl a) (da_rdata a) (da_flush a)"

text \<open>What the peer has of an answer that starts at \<open>p\<close>: the cache-flush bit is not kept.\<close>

definition answer_rr :: "dns_answer \<Rightarrow> nat \<Rightarrow> dns_rr" where
  "answer_rr a p = \<lparr>rr_name = da_name a, rr_type = da_type a, rr_ttl = da_ttl a, rr_rdata = da_rdata a,
     rr_rdata_at = p + length (encode_name (da_name a)) + 10\<rparr>"

lemma dns_reads_answer:
  assumes "answer_ok a"
  shows "dns_reads dns_rr_read p (answer_bytes a) (answer_rr a p)"
proof -
  have n: "unat (word_of_nat (length (da_rdata a)) :: u16) = length (da_rdata a)"
    using assms by (simp add: answer_ok_def unat_of_nat)
  have "dns_reads dns_rr_read p (encode_name (da_name a) @ u16_to_be_bytes (da_type a) @
      u16_to_be_bytes (if da_flush a then 0x8001 else 1) @ u32_to_be_bytes (da_ttl a) @
      u16_to_be_bytes (word_of_nat (length (da_rdata a))) @ [] @ da_rdata a) (answer_rr a p)"
    using assms unfolding dns_rr_read_def
    by (intro dns_reads_try [OF dns_reads_name] dns_reads_try [OF dns_reads_u16] dns_reads_try [OF dns_reads_u32]
        dns_reads_try [OF dns_reads_pos] dns_reads_last [where x = "da_rdata a"])
      (simp_all add: answer_ok_def n dns_reads_bytes answer_rr_def ac_simps)
  then show ?thesis by (simp add: answer_bytes_def dns_record_def)
qed

definition answers_at :: "nat \<Rightarrow> dns_answer list \<Rightarrow> dns_rr list" where
  "answers_at p as = placed p (map (\<lambda>a. (answer_bytes a, answer_rr a)) as)"

lemma dns_reads_answers:
  "list_all answer_ok as \<Longrightarrow>
   dns_reads (dns_repeat (length as) dns_rr_read) p (concat (map answer_bytes as)) (answers_at p as)"
  using dns_reads_repeat [of "map (\<lambda>a. (answer_bytes a, answer_rr a)) as" dns_rr_read p]
  by (auto simp: answers_at_def list_all_iff dns_reads_answer comp_def)

lemma dns_reads_packet:
  assumes "qd \<le> 64" "dns_reads (dns_repeat (unat qd) dns_question) 12 qs questions"
    "unat an \<le> 128" "dns_reads (dns_repeat (unat an) dns_rr_read) (12 + length qs) rs records"
  shows "dns_reads dns_packet 0 (u16_to_be_bytes i @ u16_to_be_bytes fl @ u16_to_be_bytes qd @ u16_to_be_bytes an @
    u16_to_be_bytes 0 @ u16_to_be_bytes 0 @ qs @ rs) \<lparr>dm_questions = questions, dm_records = records\<rparr>"
proof -
  have q: "p = 12 \<Longrightarrow> dns_reads (dns_repeat (unat qd) dns_question) p qs questions" for p
    using assms(2) by simp
  have r: "p = 12 + length qs \<Longrightarrow> dns_reads (dns_repeat (unat an) dns_rr_read) p rs records" for p
    using assms(4) by simp
  have "\<not> 64 < qd" using assms(1) by simp
  then show ?thesis
    unfolding dns_packet_def using assms(3)
    by (intro dns_reads_try [OF dns_reads_u16])
      (auto simp: Let_def intro!: dns_reads_try [where x = questions] dns_reads_last [where x = records] q r)
qed

lemma dns_parse_reads: "dns_reads dns_packet 0 bs m \<Longrightarrow> fits bs \<Longrightarrow> dns_parse bs = Some m"
  unfolding dns_parse_def dns_reader_new_def dns_reads_def by (elim allE [of _ "[]"]) simp

section \<open>NSEC\<close>

lemma foldr_max_upper: "t \<in> set ts \<Longrightarrow> t \<le> foldr max ts (0 :: u16)"
  by (induction ts) (auto simp: le_max_iff_disj)

lemma length_nsec_mark [simp]: "length (nsec_mark bm t) = length bm"
  by (simp add: nsec_mark_def)

lemma length_marks: "length (foldl nsec_mark bm ts) = length bm"
  by (induction ts arbitrary: bm) simp_all

text \<open>The bit of a type in a bitmap: most significant first within a byte.\<close>

definition nsec_bit :: "bytes \<Rightarrow> nat \<Rightarrow> bool" where
  "nsec_bit bm t \<longleftrightarrow> t div 8 < length bm \<and> bit (bm ! (t div 8)) (7 - t mod 8)"

lemma nsec_bit_mark:
  assumes "unat t div 8 < length bm"
  shows "nsec_bit (nsec_mark bm t) k \<longleftrightarrow> nsec_bit bm k \<or> k = unat t"
proof -
  have b: "bit (drop_bit i (0x80 :: u8)) j \<longleftrightarrow> i + j = 7" for i j
  proof -
    have "(0x80 :: u8) = 2 ^ 7" by simp
    then have "bit (0x80 :: u8) (i + j) \<longleftrightarrow> i + j = 7" by (simp only: bit_exp_iff) auto
    then show ?thesis by (simp add: bit_drop_bit_eq)
  qed
  have "unat t mod 8 + (7 - k mod 8) = 7 \<longleftrightarrow> k mod 8 = unat t mod 8"
    using mod_less_divisor [of 8 k] mod_less_divisor [of 8 "unat t"] by linarith
  moreover have "k = unat t \<longleftrightarrow> k div 8 = unat t div 8 \<and> k mod 8 = unat t mod 8"
    by (metis div_mult_mod_eq)
  ultimately show ?thesis
    using assms b [of "unat t mod 8" "7 - k mod 8"]
    by (cases "k div 8 = unat t div 8") (auto simp: nsec_bit_def nsec_mark_def bit_or_iff)
qed

lemma nsec_bit_marks:
  "\<forall>t \<in> set ts. unat t div 8 < length bm \<Longrightarrow> nsec_bit (foldl nsec_mark bm ts) k \<longleftrightarrow> nsec_bit bm k \<or> k \<in> unat ` set ts"
  by (induction ts arbitrary: bm) (auto simp: nsec_bit_mark)

lemma nsec_bitmap_bit: "nsec_bit (nsec_bitmap ts) k \<longleftrightarrow> k \<in> unat ` set ts"
proof -
  have "unat t div 8 < unat (foldr max ts 0) div 8 + 1" if "t \<in> set ts" for t
    using foldr_max_upper [OF that] by (simp add: word_le_nat_alt div_le_mono less_Suc_eq_le)
  then show ?thesis
    unfolding nsec_bitmap_def by (subst nsec_bit_marks) (auto simp: nsec_bit_def simp del: replicate_Suc)
qed

section \<open>Responses and queries\<close>

lemma dns_parse_response:
  assumes "list_all answer_ok as" "length as \<le> 128" "fits (dns_response (map answer_bytes as))"
  shows "dns_parse (dns_response (map answer_bytes as)) = Some \<lparr>dm_questions = [], dm_records = answers_at 12 as\<rparr>"
proof -
  have n: "unat (word_of_nat (length as) :: u16) = length as" using assms(2) by (simp add: unat_of_nat)
  have "dns_reads dns_packet 0 (dns_response (map answer_bytes as)) \<lparr>dm_questions = [], dm_records = answers_at 12 as\<rparr>"
    using dns_reads_packet [of 0 "[]" "[]" "word_of_nat (length as)" "concat (map answer_bytes as)" "answers_at 12 as" 0 "0x8400"]
      dns_reads_answers [OF assms(1), of 12] assms(2)
    by (simp add: n dns_reads_some dns_response_def)
  from dns_parse_reads [OF this assms(3)] show ?thesis .
qed

lemma length_labels: "ls \<noteq> [] \<Longrightarrow> length (concat (map dns_label ls)) = length (dotted ls) + 1"
proof (induction ls)
  case (Cons l ls)
  then show ?case by (cases "ls = []") (simp_all add: dns_label_def dotted_Cons)
qed simp

lemma length_encode_name: "dns_name_wf n \<Longrightarrow> length (encode_name n) = length n + 2"
  by (simp add: encode_name_wf length_labels dotted_split)

lemma length_answer: "dns_name_wf (da_name a) \<Longrightarrow> length (answer_bytes a) = length (da_name a) + 12 + length (da_rdata a)"
  by (simp add: answer_bytes_def dns_record_def length_encode_name u16_to_be_bytes_def u32_to_be_bytes_def)

lemma answer_parts: "\<exists>h. answer_bytes a = h @ da_rdata a \<and> length h = length (encode_name (da_name a)) + 10"
  unfolding answer_bytes_def dns_record_def
  by (intro exI [of _ "encode_name (da_name a) @ u16_to_be_bytes (da_type a) @ u16_to_be_bytes (if da_flush a then 0x8001 else 0x0001) @
      u32_to_be_bytes (da_ttl a) @ u16_to_be_bytes (word_of_nat (length (da_rdata a)))"])
    (simp add: u16_to_be_bytes_def u32_to_be_bytes_def)

lemma read_name_at:
  "dns_name_wf n \<Longrightarrow> fits (pre @ encode_name n @ post) \<Longrightarrow> p = length pre \<Longrightarrow>
   fst (dns_name \<lparr>dr_buf = pre @ encode_name n @ post, dr_pos = p\<rparr>) = Some n"
  using dns_reads_name [of n "length pre"] by (simp add: dns_reads_def)

text \<open>The name in the data of an answer of a packet, read where the packet says the data is.\<close>

lemma placed_nth: "placed p (xs @ m # ys) ! length xs = snd m (p + length (concat (map fst xs)))"
  by (induction xs arbitrary: p) (simp_all add: add.assoc)

lemma name_in_answer:
  assumes "da_rdata a = x @ encode_name n" "dns_name_wf n" "fits (dns_response (map answer_bytes (pre @ a # post)))"
  shows "fst (dns_name \<lparr>dr_buf = dns_response (map answer_bytes (pre @ a # post)),
    dr_pos = rr_rdata_at (answers_at 12 (pre @ a # post) ! length pre) + length x\<rparr>) = Some n"
proof -
  obtain h where h: "answer_bytes a = h @ x @ encode_name n" "length h = length (encode_name (da_name a)) + 10"
    using answer_parts [of a] assms(1) by auto
  define hdr :: bytes where "hdr = u16_to_be_bytes 0 @ u16_to_be_bytes 0x8400 @ u16_to_be_bytes 0 @
    u16_to_be_bytes (word_of_nat (length (pre @ a # post))) @ u16_to_be_bytes 0 @ u16_to_be_bytes 0"
  have P: "dns_response (map answer_bytes (pre @ a # post)) =
      (hdr @ concat (map answer_bytes pre) @ h @ x) @ encode_name n @ concat (map answer_bytes post)"
    by (simp add: dns_response_def hdr_def h(1))
  have "answers_at 12 (pre @ a # post) ! length pre = answer_rr a (12 + length (concat (map answer_bytes pre)))"
    using placed_nth [of 12 "map (\<lambda>a. (answer_bytes a, answer_rr a)) pre"] by (simp add: answers_at_def comp_def)
  moreover have "length hdr = 12" by (simp add: hdr_def u16_to_be_bytes_def)
  ultimately have "rr_rdata_at (answers_at 12 (pre @ a # post) ! length pre) + length x =
      length (hdr @ concat (map answer_bytes pre) @ h @ x)"
    using h(2) by (simp add: answer_rr_def)
  from read_name_at [OF assms(2) _ this] assms(3) show ?thesis unfolding P by simp
qed

lemma dns_parse_query:
  assumes "dns_name_wf service" "fits (query_with service unicast)"
  shows "dns_parse (query_with service unicast) =
    Some \<lparr>dm_questions = [\<lparr>q_name = service, q_type = TYPE_PTR\<rparr>], dm_records = []\<rparr>"
proof -
  have q: "dns_reads dns_question p (encode_name service @ u16_to_be_bytes TYPE_PTR @ u16_to_be_bytes c)
      \<lparr>q_name = service, q_type = TYPE_PTR\<rparr>" for c p
    unfolding dns_question_def using assms(1)
    by (intro dns_reads_try [OF dns_reads_name] dns_reads_try [OF dns_reads_u16] dns_reads_last [OF dns_reads_u16]) simp_all
  have "dns_reads (dns_repeat (unat (1 :: u16)) dns_question) 12 (encode_name service @ u16_to_be_bytes TYPE_PTR @ u16_to_be_bytes c)
      [\<lparr>q_name = service, q_type = TYPE_PTR\<rparr>]" for c
    using dns_reads_repeat [of "[(encode_name service @ u16_to_be_bytes TYPE_PTR @ u16_to_be_bytes c,
      \<lambda>_. \<lparr>q_name = service, q_type = TYPE_PTR\<rparr>)]" dns_question 12] q
    by simp
  from dns_reads_packet [OF _ this, where an = 0 and rs = "[]" and records = "[]" and i = 0 and fl = 0] have
    "dns_reads dns_packet 0 (query_with service unicast)
      \<lparr>dm_questions = [\<lparr>q_name = service, q_type = TYPE_PTR\<rparr>], dm_records = []\<rparr>"
    by (simp add: query_with_def encode_name_wf [OF assms(1)] dns_reads_some u16_to_be_bytes_def)
  from dns_parse_reads [OF this assms(2)] show ?thesis .
qed

section \<open>Properties\<close>

text \<open>
  Whatever a device on the link sends, the parser ends, and a packet it accepts has at most 64
  questions and 128 records, whose names are UTF-8 of at most 255 bytes and whose data are the slices
  of the packet at the offsets reported.
\<close>

theorem dns_parse_bounded:
  assumes "dns_parse buf = Some m"
  shows "length (dm_questions m) \<le> 64 \<and> list_all (\<lambda>q. name_ok (q_name q)) (dm_questions m) \<and>
    length (dm_records m) \<le> 128 \<and>
    list_all (\<lambda>rr. name_ok (rr_name rr) \<and>
      get_range buf (rr_rdata_at rr) (rr_rdata_at rr + length (rr_rdata rr)) = Some (rr_rdata rr)) (dm_records m)"
  using dns_safe_packet [of buf] assms
  by (auto simp: dns_safe_def dns_parse_def dns_reader_new_def packet_ok_def rr_inside_def list_all_iff)

definition sample_answer :: dns_answer where
  "sample_answer = \<lparr>da_name = str ''_airdrop._tcp.local'', da_type = TYPE_PTR, da_ttl = 120, da_rdata = [1, 2, 3], da_flush = True\<rparr>"

lemma sample_answer_ok: "answer_ok sample_answer" "fits (dns_response [answer_bytes sample_answer])"
  by (simp_all add: sample_answer_def answer_ok_def dns_name_wf_def str_def ascii_utf8_valid fits_def dns_response_def
      answer_bytes_def dns_record_def encode_name_def dns_label_def)

theorem dns_parse_bounded_witness:
  "\<exists>m. dns_parse (dns_response [answer_bytes sample_answer]) = Some m \<and> length (dm_records m) = 1 \<and>
     list_all (\<lambda>rr. name_ok (rr_name rr)) (dm_records m)"
proof -
  have p: "dns_parse (dns_response [answer_bytes sample_answer]) = Some \<lparr>dm_questions = [], dm_records = answers_at 12 [sample_answer]\<rparr>"
    using dns_parse_response [of "[sample_answer]"] sample_answer_ok by simp
  from dns_parse_bounded [OF p] p show ?thesis by (simp add: answers_at_def)
qed

text \<open>
  What this side puts on the wire is read back as meant. A response with up to 128 answers parses
  to those answers in order, each with its name, type, time to live and data and the offset the data
  has in the packet; a query parses to its one question, with or without the unicast bit.
\<close>

theorem dns_roundtrip:
  assumes "list_all answer_ok as" "length as \<le> 128" "fits (dns_response (map answer_bytes as))"
    and "dns_name_wf service" "fits (query_with service unicast)"
  shows "dns_parse (dns_response (map answer_bytes as)) = Some \<lparr>dm_questions = [], dm_records = answers_at 12 as\<rparr> \<and>
    dns_parse (query_with service unicast) =
      Some \<lparr>dm_questions = [\<lparr>q_name = service, q_type = TYPE_PTR\<rparr>], dm_records = []\<rparr>"
  using assms dns_parse_response dns_parse_query by blast

theorem dns_roundtrip_witness:
  "dns_parse (query_with (str ''_airdrop._tcp.local'') True) =
     Some \<lparr>dm_questions = [\<lparr>q_name = str ''_airdrop._tcp.local'', q_type = TYPE_PTR\<rparr>], dm_records = []\<rparr> \<and>
   map rr_rdata (answers_at 12 [sample_answer]) = [[1, 2, 3]]"
proof -
  have "dns_name_wf (str ''_airdrop._tcp.local'')" "fits (query_with (str ''_airdrop._tcp.local'') True)"
    by (simp_all add: dns_name_wf_def str_def ascii_utf8_valid fits_def query_with_def dns_label_def)
  with dns_roundtrip [of "[sample_answer]"] sample_answer_ok show ?thesis
    by (simp add: answers_at_def answer_rr_def sample_answer_def)
qed

text \<open>
  The NSEC bitmap names exactly the given types, whatever their order and repetition. Its length
  byte is right for types below 2040, which every type the daemon publishes is.
\<close>

lemma nsec_exact:
  assumes "\<forall>t \<in> set ts. unat t < 2040"
  shows "\<exists>bm. nsec_rdata n ts = encode_name n @ [0, word_of_nat (length bm)] @ bm \<and>
    unat (word_of_nat (length bm) :: u8) = length bm \<and> (\<forall>k. nsec_bit bm k \<longleftrightarrow> k \<in> unat ` set ts)"
proof -
  have "unat (foldr max ts 0) < 2040" using assms by (induction ts) (auto simp: max_def)
  then have "length (nsec_bitmap ts) < 256" by (simp add: nsec_bitmap_def length_marks)
  then show ?thesis by (intro exI [of _ "nsec_bitmap ts"]) (simp add: nsec_rdata_def nsec_bitmap_bit unat_of_nat Let_def)
qed

end
