(* ===== verification/Endpoint.thy ===== *)
theory Endpoint
  imports Rust_Std Machines Ble
begin

text \<open>
  The endpoint structure of \<open>sharingd/src/quickshare/endpoint.rs\<close>: what a device says it is, in the mDNS
  record, the connection request and the Bluetooth advertisement. The theorems: a structure this side
  builds is read back, a name too long for its length byte is cut between characters, and the two
  readers of the structure (this one and \<open>name_from_endpoint_info\<close> of \<open>protocol/src/ble.rs\<close>) agree.
\<close>

section \<open>Model\<close>

abbreviation HEADER_LEN :: nat where "HEADER_LEN \<equiv> 1"
abbreviation METADATA_LEN :: nat where "METADATA_LEN \<equiv> 16"
abbreviation VERSION_SHIFT :: nat where "VERSION_SHIFT \<equiv> 5"
abbreviation VISIBILITY_SHIFT :: nat where "VISIBILITY_SHIFT \<equiv> 4"
abbreviation DEVICE_TYPE_SHIFT :: nat where "DEVICE_TYPE_SHIFT \<equiv> 1"
abbreviation THREE_BIT :: u8 where "THREE_BIT \<equiv> 7"

datatype device_type = Dev_Unknown | Dev_Phone | Dev_Tablet | Dev_Laptop | Dev_Car | Dev_Foldable | Dev_Xr

definition device_type_from_raw :: "u8 \<Rightarrow> device_type" where
  "device_type_from_raw raw =
     (if raw = 1 then Dev_Phone else if raw = 2 then Dev_Tablet else if raw = 3 then Dev_Laptop
      else if raw = 4 then Dev_Car else if raw = 5 then Dev_Foldable else if raw = 6 then Dev_Xr
      else Dev_Unknown)"

fun device_type_raw :: "device_type \<Rightarrow> u8" where
  "device_type_raw Dev_Unknown = 0"
| "device_type_raw Dev_Phone = 1"
| "device_type_raw Dev_Tablet = 2"
| "device_type_raw Dev_Laptop = 3"
| "device_type_raw Dev_Car = 4"
| "device_type_raw Dev_Foldable = 5"
| "device_type_raw Dev_Xr = 6"

record endpoint_info =
  ei_version :: u8
  ei_hidden :: bool
  ei_device_type :: device_type
  ei_metadata :: bytes
  ei_device_name :: "rstring option"

text \<open>The loop that moves the cut back to the start of a character.\<close>

fun char_cut :: "bytes \<Rightarrow> nat \<Rightarrow> nat" where
  "char_cut n 0 = 0"
| "char_cut n (Suc c) = (if n ! Suc c AND 0xC0 = 0x80 then char_cut n c else Suc c)"

definition cut_name :: "rstring \<Rightarrow> rstring" where
  "cut_name n = (if 0xFF < length n then take (char_cut n 0xFF) n else n)"

definition endpoint_header :: "endpoint_info \<Rightarrow> u8" where
  "endpoint_header e =
     push_bit VERSION_SHIFT (ei_version e AND THREE_BIT) OR
     push_bit VISIBILITY_SHIFT (if ei_hidden e then 1 else 0) OR
     push_bit DEVICE_TYPE_SHIFT (device_type_raw (ei_device_type e) AND THREE_BIT)"

definition endpoint_encode :: "endpoint_info \<Rightarrow> bytes" where
  "endpoint_encode e =
     (let name = if ei_hidden e then [] else unwrap_or [] (ei_device_name e) in
      [endpoint_header e] @ ei_metadata e @
      (if ei_hidden e then [] else let n = cut_name name in word_of_nat (length n) # n))"

definition endpoint_parse :: "bytes \<Rightarrow> endpoint_info option" where
  "endpoint_parse bs =
     (if length bs < HEADER_LEN + METADATA_LEN then None
      else
        let header = bs ! 0;
            hidden = drop_bit VISIBILITY_SHIFT header AND 1 = 1;
            metadata = take METADATA_LEN (drop HEADER_LEN bs);
            off = HEADER_LEN + METADATA_LEN;
            device_name =
              (if \<not> hidden then
                 case get_at bs off of
                   None \<Rightarrow> None
                 | Some len \<Rightarrow>
                   let start = off + 1; end' = start + unat len in
                   if end' \<le> length bs then Some (from_utf8_lossy (take (end' - start) (drop start bs))) else None
               else None) in
        Some \<lparr>ei_version = drop_bit VERSION_SHIFT header AND THREE_BIT, ei_hidden = hidden,
          ei_device_type = device_type_from_raw (drop_bit DEVICE_TYPE_SHIFT header AND THREE_BIT),
          ei_metadata = metadata, ei_device_name = device_name\<rparr>)"

section \<open>Cutting a name\<close>

lemma cont_mask: "b AND 0xC0 = 0x80 \<longleftrightarrow> is_cont b" for b :: u8
proof -
  have "b AND 0xC0 = push_bit 6 (drop_bit 6 b)"
  proof (rule bit_word_eqI)
    fix n
    assume n: "n < LENGTH(8)"
    have "bit (0xC0 :: u8) n \<longleftrightarrow> 6 \<le> n"
    proof -
      have "n \<in> {0..<8}" using n by simp
      then show ?thesis by (auto simp: atLeast0LessThan lessThan_Suc numeral_eq_Suc)
    qed
    then show "bit (b AND 0xC0) n \<longleftrightarrow> bit (push_bit 6 (drop_bit 6 b)) n" using n by (auto simp: bit_simps)
  qed
  moreover have "push_bit 6 (drop_bit 6 b) = 0x80 \<longleftrightarrow> drop_bit 6 b = 2"
  proof
    assume "push_bit 6 (drop_bit 6 b) = 0x80"
    then have "drop_bit 6 (push_bit 6 (drop_bit 6 b)) = drop_bit 6 (0x80 :: u8)" by simp
    moreover have "drop_bit 6 (push_bit 6 (drop_bit 6 b)) = drop_bit 6 b"
      by (rule bit_word_eqI) (auto simp: bit_simps dest: bit_imp_le_length)
    ultimately show "drop_bit 6 b = 2" by simp
  qed simp
  moreover have "drop_bit 6 b = 2 \<longleftrightarrow> unat b div 64 = 2"
    by (simp only: word_unat_eq_iff unat_drop_bit_eq) (simp add: drop_bit_eq_div)
  moreover have "unat b div 64 = 2 \<longleftrightarrow> 128 \<le> unat b \<and> unat b \<le> 191" by linarith
  ultimately show ?thesis by (simp add: is_cont_def word_le_nat_alt)
qed

lemma char_cut_le: "char_cut n c \<le> c"
  by (induction c) simp_all

lemma char_cut_not_cont: "0 < char_cut n c \<Longrightarrow> \<not> is_cont (n ! char_cut n c)"
  by (induction c) (auto simp: cont_mask split: if_splits)

lemma cut_name:
  assumes "utf8_valid n"
  shows "length (cut_name n) \<le> 255" "utf8_valid (cut_name n)" "\<exists>rest. n = cut_name n @ rest"
    "length n \<le> 255 \<Longrightarrow> cut_name n = n"
proof -
  show "length (cut_name n) \<le> 255" using char_cut_le [of n 255] by (simp add: cut_name_def)
  show "\<exists>rest. n = cut_name n @ rest" unfolding cut_name_def
    by (rule exI [of _ "if 0xFF < length n then drop (char_cut n 0xFF) n else []"]) simp
  show "length n \<le> 255 \<Longrightarrow> cut_name n = n" by (simp add: cut_name_def)
  show "utf8_valid (cut_name n)"
  proof (cases "255 < length n")
    case True
    let ?c = "char_cut n 255"
    have "?c < length n" using True char_cut_le [of n 255] by linarith
    moreover have "?c = 0 \<or> \<not> is_cont (n ! ?c)" using char_cut_not_cont by blast
    ultimately have "take ?c n = [] \<or> \<not> is_cont (hd (drop ?c n))" by (auto simp: hd_drop_conv_nth)
    with utf8_valid_split [of "take ?c n" "drop ?c n"] assms True show ?thesis
      by (auto simp: cut_name_def)
  qed (use assms in \<open>simp add: cut_name_def\<close>)
qed

text \<open>No character is longer than four bytes, so the cut gives up at most three bytes that would fit.\<close>

lemma utf8_first: "utf8_char bs = (True, n) \<Longrightarrow> bs \<noteq> [] \<Longrightarrow> \<not> is_cont (bs ! 0) \<and> n \<le> 4"
  unfolding utf8_char_True Let_def by (auto simp: byte_at_def is_cont_def word_le_nat_alt word_less_nat_alt)

lemma utf8_run:
  "utf8_valid bs \<Longrightarrow> i < length bs \<Longrightarrow> \<exists>j \<le> i. i \<le> j + 3 \<and> \<not> is_cont (bs ! j)"
proof (induction bs arbitrary: i rule: utf8_valid.induct)
  case (1 bs)
  then have ne: "bs \<noteq> []" by auto
  obtain n where c: "utf8_char bs = (True, n)" and v: "utf8_valid (drop n bs)"
    using "1.prems"(1) ne by (subst (asm) utf8_valid.simps) (auto split: prod.splits)
  note f = utf8_first [OF c ne]
  show ?case
  proof (cases "i < n")
    case False
    then have "i - n < length (drop n bs)" using "1.prems"(2) by simp
    with "1.IH" [OF ne c [symmetric] v] obtain j where "j \<le> i - n" "i - n \<le> j + 3" "\<not> is_cont (drop n bs ! j)"
      by blast
    with False "1.prems"(2) show ?thesis by (intro exI [of _ "n + j"]) auto
  qed (use f in \<open>auto intro: exI [of _ 0]\<close>)
qed

lemma char_cut_ge: "j \<le> c \<Longrightarrow> \<not> is_cont (n ! j) \<Longrightarrow> j \<le> char_cut n c"
  by (induction c) (auto simp: cont_mask le_Suc_eq)

lemma cut_name_keeps: "utf8_valid n \<Longrightarrow> 255 < length n \<Longrightarrow> 252 \<le> length (cut_name n)"
  using utf8_run [of n 255] char_cut_ge [of _ 255 n] char_cut_le [of n 255] by (fastforce simp: cut_name_def)

section \<open>Reading what was built\<close>

text \<open>What a reader has of a structure: the version's three bits, and the name if it is in the clear.\<close>

definition endpoint_view :: "endpoint_info \<Rightarrow> endpoint_info" where
  "endpoint_view e = e\<lparr>ei_version := ei_version e AND 7,
     ei_device_name := (if ei_hidden e then None else Some (cut_name (unwrap_or [] (ei_device_name e))))\<rparr>"

definition endpoint_ok :: "endpoint_info \<Rightarrow> bool" where
  "endpoint_ok e \<longleftrightarrow> length (ei_metadata e) = METADATA_LEN \<and> utf8_valid (unwrap_or [] (ei_device_name e))"

lemma endpoint_header_bits:
  "drop_bit 5 (endpoint_header e) AND 7 = ei_version e AND 7"
  "drop_bit 4 (endpoint_header e) AND 1 = 1 \<longleftrightarrow> ei_hidden e"
  "device_type_from_raw (drop_bit 1 (endpoint_header e) AND 7) = ei_device_type e"
proof -
  have m: "(7 :: u8) = mask 3" by (simp add: mask_eq_exp_minus_1)
  have m7: "bit (x AND 7) n \<longleftrightarrow> n < 3 \<and> bit x n" for x :: u8 and n
    unfolding m bit_and_iff bit_mask_iff by auto
  have h: "bit (if ei_hidden e then 1 else 0 :: u8) n \<longleftrightarrow> n = 0 \<and> ei_hidden e" for n
    by (simp add: bit_1_iff)
  have b: "bit (endpoint_header e) n \<longleftrightarrow> n < 8 \<and> (5 \<le> n \<and> bit (ei_version e) (n - 5) \<or> n = 4 \<and> ei_hidden e \<or>
      1 \<le> n \<and> n < 4 \<and> bit (device_type_raw (ei_device_type e)) (n - 1))" for n
    unfolding endpoint_header_def bit_or_iff bit_push_bit_iff m7 h by auto
  show "drop_bit 5 (endpoint_header e) AND 7 = ei_version e AND 7"
    by (rule bit_word_eqI) (auto simp: b m7 bit_drop_bit_eq)
  show "drop_bit 4 (endpoint_header e) AND 1 = 1 \<longleftrightarrow> ei_hidden e"
    unfolding bit_iff_and_drop_bit_eq_1 [symmetric] by (simp add: b)
  have "drop_bit 1 (endpoint_header e) AND 7 = device_type_raw (ei_device_type e) AND 7"
    by (rule bit_word_eqI) (auto simp: b m7 bit_drop_bit_eq)
  then show "device_type_from_raw (drop_bit 1 (endpoint_header e) AND 7) = ei_device_type e"
    by (cases "ei_device_type e") (simp_all add: device_type_from_raw_def)
qed

lemma endpoint_parse_encode:
  assumes "endpoint_ok e"
  shows "endpoint_parse (endpoint_encode e) = Some (endpoint_view e)"
proof -
  let ?n = "cut_name (unwrap_or [] (ei_device_name e))"
  note c = cut_name [of "unwrap_or [] (ei_device_name e)"]
  have m: "length (ei_metadata e) = 16" and u: "utf8_valid (unwrap_or [] (ei_device_name e))"
    using assms by (simp_all add: endpoint_ok_def)
  have n: "unat (word_of_nat (length ?n) :: u8) = length ?n" using c(1) [OF u] by (simp add: unat_of_nat)
  show ?thesis
  proof (cases "ei_hidden e")
    case True
    with m endpoint_header_bits [of e] show ?thesis
      by (simp add: endpoint_parse_def endpoint_encode_def endpoint_view_def)
  next
    case False
    with m n c(2) [OF u] endpoint_header_bits [of e] show ?thesis
      by (simp add: endpoint_parse_def endpoint_encode_def endpoint_view_def Let_def get_at_def nth_append)
  qed
qed

text \<open>The Bluetooth side reads the same name, unless it is empty or has control characters.\<close>

lemma endpoint_name_ble:
  assumes "endpoint_ok e" "\<not> ei_hidden e"
  shows "name_from_info (endpoint_encode e) =
    (let n = cut_name (unwrap_or [] (ei_device_name e)) in if n = [] \<or> has_control n then None else Some n)"
proof -
  let ?n = "cut_name (unwrap_or [] (ei_device_name e))"
  note c = cut_name [of "unwrap_or [] (ei_device_name e)"]
  have m: "length (ei_metadata e) = 16" and u: "utf8_valid (unwrap_or [] (ei_device_name e))"
    using assms by (simp_all add: endpoint_ok_def)
  have n: "unat (word_of_nat (length ?n) :: u8) = length ?n" using c(1) [OF u] by (simp add: unat_of_nat)
  show ?thesis
    using m n c(1,2) [OF u] assms(2)
    by (simp add: name_from_info_def endpoint_encode_def Let_def get_at_def nth_append checked_add_def)
qed

section \<open>Properties\<close>

text \<open>
  An endpoint structure is read back as it was built: version, visibility, device type and
  metadata, and for a visible device its name, cut between characters to what the length byte can
  say and shorter than 252 bytes only if the name is; a hidden device's name is not on the wire. The
  reader used for Bluetooth advertisements and connection requests finds the same name.
\<close>

theorem endpoint_roundtrip:
  assumes "endpoint_ok e"
  shows "endpoint_parse (endpoint_encode e) = Some (endpoint_view e) \<and>
    (\<not> ei_hidden e \<longrightarrow>
      (\<exists>n rest. ei_device_name (endpoint_view e) = Some n \<and> unwrap_or [] (ei_device_name e) = n @ rest \<and>
        utf8_valid n \<and> length n \<le> 255 \<and> (rest \<noteq> [] \<longrightarrow> 252 \<le> length n) \<and>
        name_from_info (endpoint_encode e) = (if n = [] \<or> has_control n then None else Some n)))"
proof (intro conjI impI)
  show "endpoint_parse (endpoint_encode e) = Some (endpoint_view e)" using assms by (rule endpoint_parse_encode)
  assume vis: "\<not> ei_hidden e"
  let ?name = "unwrap_or [] (ei_device_name e)"
  have u: "utf8_valid ?name" using assms by (simp add: endpoint_ok_def)
  from cut_name(3) [OF u] obtain rest where rest: "?name = cut_name ?name @ rest" by blast
  then have "rest \<noteq> [] \<longrightarrow> 252 \<le> length (cut_name ?name)"
    using cut_name(4) [OF u] cut_name_keeps [OF u] by (cases "length ?name \<le> 255") auto
  with rest cut_name(1,2) [OF u] endpoint_name_ble [OF assms vis] vis
  show "\<exists>n rest. ei_device_name (endpoint_view e) = Some n \<and> unwrap_or [] (ei_device_name e) = n @ rest \<and>
      utf8_valid n \<and> length n \<le> 255 \<and> (rest \<noteq> [] \<longrightarrow> 252 \<le> length n) \<and>
      name_from_info (endpoint_encode e) = (if n = [] \<or> has_control n then None else Some n)"
    by (intro exI [of _ "cut_name ?name"] exI [of _ rest]) (simp add: endpoint_view_def Let_def)
qed

theorem endpoint_roundtrip_witness:
  "let e = \<lparr>ei_version = 1, ei_hidden = False, ei_device_type = Dev_Phone, ei_metadata = replicate 16 0,
      ei_device_name = Some (replicate 254 0x41 @ [0xC3, 0xA9])\<rparr> in
   endpoint_ok e \<and> endpoint_parse (endpoint_encode e) = Some (endpoint_view e) \<and>
   ei_device_name (endpoint_view e) = Some (replicate 254 0x41)"
proof -
  have v: "utf8_valid (replicate 254 0x41 @ [0xC3, 0xA9])"
    by (rule utf8_valid_append [OF ascii_utf8_valid])
      (simp_all add: utf8_valid.simps [of "[0xC3, 0xA9]"] utf8_char_def byte_at_def is_cont_def)
  have "char_cut n (Suc (Suc k)) = Suc k" if "n ! Suc (Suc k) = 0xA9" "n ! Suc k = 0xC3" for n k
    using that by simp
  from this [of "replicate 254 0x41 @ [0xC3, 0xA9]" 253]
  have "char_cut (replicate 254 0x41 @ [0xC3, 0xA9]) 255 = 254" by (simp add: nth_append)
  then have "cut_name (replicate 254 0x41 @ [0xC3, 0xA9]) = replicate 254 0x41" by (simp add: cut_name_def)
  with endpoint_roundtrip v show ?thesis by (simp add: Let_def endpoint_ok_def endpoint_view_def)
qed

end
