(* ===== verification/Rust_Io.thy ===== *)
theory Rust_Io
  imports Rust_Std
begin

text \<open>
  \<open>std::io::Read\<close> and \<open>Write\<close> as the sources use them. A source is the list of what its next reads
  meet: bytes that have arrived (a read takes at most what fits its buffer and leaves the rest),
  an interrupted call, a failure; at the end of the list a read returns 0. \<open>Io_Panic\<close> stands for a panic,
  which no caller handles.
\<close>

datatype io_error = Io_Interrupted | Io_Other nat | Io_InvalidData nat | Io_UnexpectedEof | Io_Panic
  | Io_ConnectionAborted | Io_AlreadyExists | Io_InvalidInput | Io_TimedOut | Io_PermissionDenied

datatype read_item = Rd_Bytes bytes | Rd_Interrupted | Rd_Fail nat

type_synonym source = "read_item list"

text \<open>\<open>r.read(buf)\<close> with a buffer of \<open>n\<close> bytes.\<close>

fun src_read :: "nat \<Rightarrow> source \<Rightarrow> (io_error + bytes) \<times> source" where
  "src_read n [] = (Inr [], [])"
| "src_read n (Rd_Bytes bs # s) = (Inr (take n bs), if length bs \<le> n then s else Rd_Bytes (drop n bs) # s)"
| "src_read n (Rd_Interrupted # s) = (Inl Io_Interrupted, s)"
| "src_read n (Rd_Fail e # s) = (Inl (Io_Other e), s)"

fun item_size :: "read_item \<Rightarrow> nat" where
  "item_size (Rd_Bytes bs) = Suc (length bs)"
| "item_size _ = 1"

definition src_size :: "source \<Rightarrow> nat" where
  "src_size s = sum_list (map item_size s)"

lemma src_size_simps [simp]: "src_size [] = 0" "src_size (x # s) = item_size x + src_size s"
  by (simp_all add: src_size_def)

lemma src_read_size: "src_read n s = (res, s') \<Longrightarrow> 0 < n \<Longrightarrow> s \<noteq> [] \<Longrightarrow> src_size s' < src_size s"
  by (cases "(n, s)" rule: src_read.cases) (auto split: if_splits)

lemma src_read_size_le: "src_read n s = (res, s') \<Longrightarrow> src_size s' \<le> src_size s"
  by (cases "(n, s)" rule: src_read.cases) (auto split: if_splits)

lemma src_read_Nil: "src_read n s = (Inr (b # bs), s') \<Longrightarrow> s \<noteq> []" "src_read n s = (Inl e, s') \<Longrightarrow> s \<noteq> []"
  by auto

text \<open>What has arrived on a source that neither fails nor reports an end before its end.\<close>

fun item_data :: "read_item \<Rightarrow> bytes" where
  "item_data (Rd_Bytes bs) = bs"
| "item_data _ = []"

definition src_data :: "source \<Rightarrow> bytes" where
  "src_data s = concat (map item_data s)"

fun clean_item :: "read_item \<Rightarrow> bool" where
  "clean_item (Rd_Bytes bs) = (bs \<noteq> [])"
| "clean_item Rd_Interrupted = True"
| "clean_item (Rd_Fail e) = False"

abbreviation clean :: "source \<Rightarrow> bool" where "clean s \<equiv> list_all clean_item s"

lemma src_data_simps [simp]: "src_data [] = []" "src_data (x # s) = item_data x @ src_data s"
  by (simp_all add: src_data_def)

lemma src_data_size: "length (src_data s) \<le> src_size s"
proof (induction s)
  case (Cons x s)
  then show ?case by (cases x) auto
qed simp

lemma src_read_clean:
  assumes "clean s" "0 < n" "src_read n s = (res, s')"
  shows "clean s' \<and> (res = Inl Io_Interrupted \<and> src_data s' = src_data s \<or>
    (\<exists>bs. res = Inr bs \<and> length bs \<le> n \<and> src_data s = bs @ src_data s' \<and> (bs = [] \<longrightarrow> s = [])))"
proof (cases s)
  case (Cons x r)
  with assms show ?thesis by (cases x) (auto split: if_splits)
qed (use assms in auto)

text \<open>A source that delivers until its end, without an interruption.\<close>

fun steady_item :: "read_item \<Rightarrow> bool" where
  "steady_item (Rd_Bytes bs) = (bs \<noteq> [])"
| "steady_item _ = False"

abbreviation steady :: "source \<Rightarrow> bool" where "steady s \<equiv> list_all steady_item s"

lemma steady_read:
  assumes "steady s" "src_read n s = (res, s')" "0 < n"
  shows "\<exists>bs. res = Inr bs \<and> steady s' \<and> src_data s = bs @ src_data s' \<and> (bs = [] \<longrightarrow> s = [])"
proof (cases s)
  case (Cons x r)
  with assms show ?thesis by (cases x) (auto split: if_splits)
qed (use assms in auto)

section \<open>Writers\<close>

text \<open>
  The sink: what was written, and for each coming call whether it fails and after how many bytes
  (no entry: it succeeds).
\<close>

record sink =
  sk_data :: bytes
  sk_faults :: "nat option list"

definition sink_write_all :: "bytes \<Rightarrow> sink \<Rightarrow> (io_error + unit) \<times> sink" where
  "sink_write_all bs k =
     (case sk_faults k of
        Some n # fs \<Rightarrow> (Inl (Io_Other n), k\<lparr>sk_data := sk_data k @ take n bs, sk_faults := fs\<rparr>)
      | None # fs \<Rightarrow> (Inr (), k\<lparr>sk_data := sk_data k @ bs, sk_faults := fs\<rparr>)
      | [] \<Rightarrow> (Inr (), k\<lparr>sk_data := sk_data k @ bs\<rparr>))"

definition sink_flush :: "sink \<Rightarrow> (io_error + unit) \<times> sink" where
  "sink_flush k =
     (case sk_faults k of
        Some n # fs \<Rightarrow> (Inl (Io_Other n), k\<lparr>sk_faults := fs\<rparr>)
      | None # fs \<Rightarrow> (Inr (), k\<lparr>sk_faults := fs\<rparr>)
      | [] \<Rightarrow> (Inr (), k))"

section \<open>Filling a buffer\<close>

text \<open>
  A loop that reads until \<open>want\<close> bytes are there or the source ends, retrying interrupted reads
  (\<open>read_full\<close> of \<open>sharingd/src/framed.rs\<close>).
\<close>

function read_full :: "nat \<Rightarrow> bytes \<Rightarrow> source \<Rightarrow> (io_error + bytes) \<times> source" where
  "read_full want got s =
     (if length got < want then
        case src_read (want - length got) s of
          (Inr [], s') \<Rightarrow> (Inr got, s')
        | (Inr (b # bs), s') \<Rightarrow> read_full want (got @ b # bs) s'
        | (Inl Io_Interrupted, s') \<Rightarrow> read_full want got s'
        | (Inl e, s') \<Rightarrow> (Inl e, s')
      else (Inr got, s))"
  by pat_completeness auto
termination
proof (relation "measure (\<lambda>(want, got, s). src_size s)")
  have smaller: "src_size s' < src_size s" if "(Inl e, s') = src_read (want - length got) s" "length got < want" for want e s' s and got :: bytes
    using src_read_size [OF that(1) [symmetric]] src_read_Nil(2) [OF that(1) [symmetric]] that(2) by simp
  have smaller': "src_size s' < src_size s" if "(Inr (b # bs), s') = src_read (want - length got) s" "length got < want" for want b bs s' s and got :: bytes
    using src_read_size [OF that(1) [symmetric]] src_read_Nil(1) [OF that(1) [symmetric]] that(2) by simp
  fix want s x s' and got :: bytes
  assume "length got < want" and eq: "(x, s') = src_read (want - length got) s"
  then show "((want, got, s'), want, got, s) \<in> measure (\<lambda>(want, got, s). src_size s)"
    if "x = Inl e" "e = Io_Interrupted" for e using smaller that by simp
  show "((want, got @ b # bs, s'), want, got, s) \<in> measure (\<lambda>(want, got, s). src_size s)"
    if "x = Inr y" "y = b # bs" for y b bs using smaller' that eq \<open>length got < want\<close> by simp
qed simp

declare read_full.simps [simp del]

lemma read_full_size: "read_full want got s = (res, s') \<Longrightarrow> src_size s' \<le> src_size s"
proof (induction want got s arbitrary: res s' rule: read_full.induct)
  case (1 want got s)
  show ?case
  proof (cases "length got < want")
    case True
    obtain rr s1 where r: "src_read (want - length got) s = (rr, s1)" by fastforce
    note le = src_read_size_le [OF r]
    show ?thesis
    proof (cases rr)
      case (Inl e)
      with 1(1) [OF True r [symmetric]] "1.prems" True r le show ?thesis
        by (cases e) (fastforce simp: read_full.simps [of want got s])+
    next
      case (Inr bs)
      with 1(2) [OF True r [symmetric]] "1.prems" True r le show ?thesis
        by (cases bs) (fastforce simp: read_full.simps [of want got s])+
    qed
  qed (use "1.prems" in \<open>simp add: read_full.simps [of want got s]\<close>)
qed

lemma read_full_clean:
  assumes "clean s" "length got \<le> want"
  shows "\<exists>s'. read_full want got s = (Inr (got @ take (want - length got) (src_data s)), s') \<and> clean s' \<and>
    src_data s' = drop (want - length got) (src_data s)"
  using assms
proof (induction want got s rule: read_full.induct)
  case (1 want got s)
  show ?case
  proof (cases "length got < want")
    case True
    obtain rr s1 where r: "src_read (want - length got) s = (rr, s1)" by fastforce
    from src_read_clean [OF "1.prems"(1) _ r] True have c: "clean s1" and
      d: "rr = Inl Io_Interrupted \<and> src_data s1 = src_data s \<or>
        (\<exists>bs. rr = Inr bs \<and> length bs \<le> want - length got \<and> src_data s = bs @ src_data s1 \<and> (bs = [] \<longrightarrow> s = []))" by simp_all
    from d show ?thesis
    proof (elim disjE exE conjE)
      assume "rr = Inl Io_Interrupted" "src_data s1 = src_data s"
      with 1(1) [OF True r [symmetric]] c "1.prems"(2) True r show ?thesis
        by (simp add: read_full.simps [of want got s])
    next
      fix bs
      assume bs: "rr = Inr bs" "length bs \<le> want - length got" "src_data s = bs @ src_data s1" "bs = [] \<longrightarrow> s = []"
      show ?thesis
      proof (cases bs)
        case Nil
        with bs r c show ?thesis by (simp add: read_full.simps [of want got "[]"])
      next
        case (Cons b bs')
        from 1(2) [OF True r [symmetric]] bs Cons c True have
          "\<exists>s'. read_full want (got @ bs) s1 = (Inr ((got @ bs) @ take (want - length (got @ bs)) (src_data s1)), s') \<and> clean s' \<and>
            src_data s' = drop (want - length (got @ bs)) (src_data s1)" by auto
        moreover have "read_full want got s = read_full want (got @ bs) s1"
          using True r bs(1) Cons by (simp add: read_full.simps [of want got s])
        ultimately show ?thesis using bs(2,3) by simp
      qed
    qed
  qed (use "1.prems" in \<open>simp add: read_full.simps [of want got s]\<close>)
qed

end
