(* ===== verification/Block_Container.thy ===== *)
theory Block_Container
  imports Rust_Io
begin

text \<open>
  The block-framed container around AirDrop's cpio stream, \<open>sharingd/src/framed.rs\<close>: the streaming
  reader, and the writer. Compression is a parameter. The theorems: the reader returns exactly the
  decoded content of the stream, however the stream arrives and whatever buffers the caller passes;
  and what the writer produces decodes to what was written.
\<close>

section \<open>The reader\<close>

abbreviation MAX_BLOCK :: nat where "MAX_BLOCK \<equiv> 8388608"
abbreviation STORED :: u32 where "STORED \<equiv> 0x80000000"
abbreviation LEN_MASK :: u32 where "LEN_MASK \<equiv> 0x7FFFFFFF"

record framed_reader =
  fr_inner :: source
  fr_buf :: bytes
  fr_pos :: nat
  fr_ended :: bool

definition framed_new :: "source \<Rightarrow> framed_reader" where
  "framed_new inner = \<lparr>fr_inner = inner, fr_buf = [], fr_pos = 0, fr_ended = False\<rparr>"

text \<open>\<open>inflate\<close> is \<open>ZlibDecoder::new(block).read_to_end\<close>; \<open>None\<close> is an error.\<close>

definition next_block :: "(bytes \<Rightarrow> bytes option) \<Rightarrow> framed_reader \<Rightarrow> (io_error + bool) \<times> framed_reader" where
  "next_block inflate r =
     (case read_full 4 [] (fr_inner r) of
        (Inl e, s) \<Rightarrow> (Inl e, r\<lparr>fr_inner := s\<rparr>)
      | (Inr h, s) \<Rightarrow>
        if length h \<noteq> 4 then (Inr False, r\<lparr>fr_inner := s\<rparr>)
        else
          let hdr = u32_from_be_bytes (h ! 0) (h ! 1) (h ! 2) (h ! 3);
              stored = (hdr AND STORED \<noteq> 0);
              len = unat (hdr AND LEN_MASK) in
          if len = 0 then (Inr False, r\<lparr>fr_inner := s\<rparr>)
          else if MAX_BLOCK < len then (Inl (Io_InvalidData len), r\<lparr>fr_inner := s\<rparr>)
          else
            (case read_full len [] s of
               (Inl e, s') \<Rightarrow> (Inl e, r\<lparr>fr_inner := s'\<rparr>)
             | (Inr block, s') \<Rightarrow>
               if length block \<noteq> len then (Inr False, r\<lparr>fr_inner := s'\<rparr>)
               else if stored then (Inr True, r\<lparr>fr_inner := s', fr_buf := block, fr_pos := 0\<rparr>)
               else
                 (case inflate block of
                    None \<Rightarrow> (Inl (Io_InvalidData 0), r\<lparr>fr_inner := s'\<rparr>)
                  | Some out \<Rightarrow> (Inr True, r\<lparr>fr_inner := s', fr_buf := out, fr_pos := 0\<rparr>))))"

lemma read_full_got: "read_full want got s = (Inr bs, s') \<Longrightarrow> length got < want \<Longrightarrow> want \<le> length bs \<Longrightarrow> src_size s' < src_size s"
proof (induction want got s arbitrary: bs s' rule: read_full.induct)
  case (1 want got s)
  obtain rr s1 where r: "src_read (want - length got) s = (rr, s1)" by fastforce
  note n = "1.prems"(2)
  show ?case
  proof (cases rr)
    case (Inl e)
    then have e: "e = Io_Interrupted" and next': "read_full want got s1 = (Inr bs, s')"
      using "1.prems" r by (cases e; simp add: read_full.simps [of want got s])+
    have "src_size s1 < src_size s" using src_read_size [OF r] src_read_Nil(2) [of "want - length got" s] r Inl n by auto
    with read_full_size [OF next'] show ?thesis by simp
  next
    case (Inr x)
    show ?thesis
    proof (cases x)
      case Nil
      with Inr "1.prems" r show ?thesis by (simp add: read_full.simps [of want got s])
    next
      case (Cons b y)
      then have next': "read_full want (got @ x) s1 = (Inr bs, s')"
        using "1.prems" r Inr by (simp add: read_full.simps [of want got s])
      have "src_size s1 < src_size s" using src_read_size [OF r] src_read_Nil(1) [of "want - length got" s] r Inr Cons n by auto
      with read_full_size [OF next'] show ?thesis by simp
    qed
  qed
qed

lemma next_block_size:
  "next_block inflate r = (Inr True, r') \<Longrightarrow> src_size (fr_inner r') < src_size (fr_inner r) \<and> fr_ended r' = fr_ended r"
  using read_full_got [of 4 "[]"] read_full_size
  by (fastforce simp: next_block_def Let_def split: prod.splits sum.splits if_splits option.splits)

text \<open>The loop of \<open>read\<close>: blocks are fetched until there is something to return.\<close>

function framed_fill :: "(bytes \<Rightarrow> bytes option) \<Rightarrow> framed_reader \<Rightarrow> (io_error + bool) \<times> framed_reader" where
  "framed_fill inflate r =
     (if length (fr_buf r) \<le> fr_pos r then
        if fr_ended r then (Inr False, r)
        else
          case next_block inflate r of
            (Inl e, r') \<Rightarrow> (Inl e, r')
          | (Inr False, r') \<Rightarrow> (Inr False, r'\<lparr>fr_ended := True\<rparr>)
          | (Inr True, r') \<Rightarrow> framed_fill inflate r'
      else (Inr True, r))"
  by pat_completeness auto
termination
  by (relation "measure (\<lambda>(inflate, r). src_size (fr_inner r))") (auto dest!: next_block_size [OF sym])

declare framed_fill.simps [simp del]

definition framed_read :: "(bytes \<Rightarrow> bytes option) \<Rightarrow> nat \<Rightarrow> framed_reader \<Rightarrow> (io_error + bytes) \<times> framed_reader" where
  "framed_read inflate out_len r =
     (case framed_fill inflate r of
        (Inl e, r') \<Rightarrow> (Inl e, r')
      | (Inr False, r') \<Rightarrow> (Inr [], r')
      | (Inr True, r') \<Rightarrow>
        let n = min (length (fr_buf r') - fr_pos r') out_len in
        (Inr (take n (drop (fr_pos r') (fr_buf r'))), r'\<lparr>fr_pos := fr_pos r' + n\<rparr>))"

section \<open>The writer\<close>

abbreviation BLOCK :: nat where "BLOCK \<equiv> 131072"

record framed_writer =
  fw_inner :: sink
  fw_buf :: bytes

definition framed_writer_new :: "sink \<Rightarrow> framed_writer" where
  "framed_writer_new inner = \<lparr>fw_inner = inner, fw_buf = []\<rparr>"

text \<open>\<open>deflate\<close> is \<open>ZlibEncoder\<close> into memory, which does not fail.\<close>

definition framed_emit :: "(bytes \<Rightarrow> bytes) \<Rightarrow> framed_writer \<Rightarrow> (io_error + unit) \<times> framed_writer" where
  "framed_emit deflate w =
     (if fw_buf w = [] then (Inr (), w)
      else
        let block = deflate (fw_buf w) in
        if 0x7FFFFFFF < length block then (Inl (Io_InvalidData (length block)), w)
        else
          case sink_write_all (u32_to_be_bytes (word_of_nat (length block))) (fw_inner w) of
            (Inl e, k) \<Rightarrow> (Inl e, w\<lparr>fw_inner := k\<rparr>)
          | (Inr _, k) \<Rightarrow>
            (case sink_write_all block k of
               (Inl e, k') \<Rightarrow> (Inl e, w\<lparr>fw_inner := k'\<rparr>)
             | (Inr _, k') \<Rightarrow> (Inr (), w\<lparr>fw_inner := k', fw_buf := []\<rparr>)))"

lemma framed_emit_buf: "framed_emit deflate w = (Inr u, w') \<Longrightarrow> fw_buf w' = []"
  by (auto simp: framed_emit_def Let_def split: if_splits prod.splits sum.splits)

text \<open>
  The loop of \<open>write\<close>. A buffer left full by an earlier failure takes nothing and is emitted first; a
  buffer over the block size, which never arises, would make the subtraction panic.
\<close>

function framed_write_loop :: "(bytes \<Rightarrow> bytes) \<Rightarrow> bytes \<Rightarrow> framed_writer \<Rightarrow> (io_error + unit) \<times> framed_writer" where
  "framed_write_loop deflate rest w =
     (if rest = [] then (Inr (), w)
      else if BLOCK < length (fw_buf w) then (Inl Io_Panic, w)
      else
        let space = BLOCK - length (fw_buf w);
            tk = min space (length rest);
            w' = w\<lparr>fw_buf := fw_buf w @ take tk rest\<rparr> in
        if length (fw_buf w') = BLOCK then
          (case framed_emit deflate w' of
             (Inl e, w'') \<Rightarrow> (Inl e, w'')
           | (Inr _, w'') \<Rightarrow> framed_write_loop deflate (drop tk rest) w'')
        else framed_write_loop deflate (drop tk rest) w')"
  by pat_completeness auto
termination
  by (relation "measures [\<lambda>(deflate, rest, w). length rest, \<lambda>(deflate, rest, w). length (fw_buf w)]")
    (auto dest!: framed_emit_buf [OF sym] simp: min_def split: if_splits)

declare framed_write_loop.simps [simp del]

definition framed_write :: "(bytes \<Rightarrow> bytes) \<Rightarrow> bytes \<Rightarrow> framed_writer \<Rightarrow> (io_error + nat) \<times> framed_writer" where
  "framed_write deflate data w =
     (case framed_write_loop deflate data w of
        (Inl e, w') \<Rightarrow> (Inl e, w') | (Inr _, w') \<Rightarrow> (Inr (length data), w'))"

definition framed_flush :: "framed_writer \<Rightarrow> (io_error + unit) \<times> framed_writer" where
  "framed_flush w = (case sink_flush (fw_inner w) of (r, k) \<Rightarrow> (r, w\<lparr>fw_inner := k\<rparr>))"

definition framed_finish :: "(bytes \<Rightarrow> bytes) \<Rightarrow> framed_writer \<Rightarrow> io_error + sink" where
  "framed_finish deflate w =
     (case framed_emit deflate w of
        (Inl e, w') \<Rightarrow> Inl e
      | (Inr _, w') \<Rightarrow> (case sink_flush (fw_inner w') of (Inl e, k) \<Rightarrow> Inl e | (Inr _, k) \<Rightarrow> Inr k))"

section \<open>What a stream holds\<close>

text \<open>
  The content of a container and how it ends: cleanly (also when it is cut off), or with an error.
\<close>

function container :: "(bytes \<Rightarrow> bytes option) \<Rightarrow> bytes \<Rightarrow> bytes \<times> io_error option" where
  "container inflate d =
     (if length d < 4 then ([], None)
      else
        let hdr = u32_from_be_bytes (d ! 0) (d ! 1) (d ! 2) (d ! 3); len = unat (hdr AND LEN_MASK) in
        if len = 0 then ([], None)
        else if MAX_BLOCK < len then ([], Some (Io_InvalidData len))
        else if length d < 4 + len then ([], None)
        else
          let block = take len (drop 4 d) in
          case (if hdr AND STORED \<noteq> 0 then Some block else inflate block) of
            None \<Rightarrow> ([], Some (Io_InvalidData 0))
          | Some out \<Rightarrow> (case container inflate (drop (4 + len) d) of (rest, e) \<Rightarrow> (out @ rest, e)))"
  by pat_completeness auto
termination
  by (relation "measure (\<lambda>(inflate, d). length d)") auto

declare container.simps [simp del]

definition framed_content :: "(bytes \<Rightarrow> bytes option) \<Rightarrow> framed_reader \<Rightarrow> bytes \<times> io_error option" where
  "framed_content inflate r =
     (case container inflate (src_data (fr_inner r)) of (out, e) \<Rightarrow> (drop (fr_pos r) (fr_buf r) @ out, e))"

lemma next_block_clean:
  assumes "clean (fr_inner r)" "next_block inflate r = (res, r')"
  shows "fr_ended r' = fr_ended r \<and>
    (case res of
       Inl e \<Rightarrow> container inflate (src_data (fr_inner r)) = ([], Some e)
     | Inr False \<Rightarrow> container inflate (src_data (fr_inner r)) = ([], None)
     | Inr True \<Rightarrow> clean (fr_inner r') \<and> container inflate (src_data (fr_inner r)) = framed_content inflate r')"
proof -
  let ?d = "src_data (fr_inner r)"
  from read_full_clean [OF assms(1), of "[]" 4] obtain s where
    h: "read_full 4 [] (fr_inner r) = (Inr (take 4 ?d), s)" "clean s" "src_data s = drop 4 ?d" by auto
  show ?thesis
  proof (cases "length ?d < 4")
    case True
    with assms(2) h show ?thesis by (auto simp: next_block_def container.simps [of inflate ?d])
  next
    case False
    define len where "len = unat (u32_from_be_bytes (?d ! 0) (?d ! Suc 0) (?d ! 2) (?d ! 3) AND LEN_MASK)"
    from read_full_clean [OF h(2), of "[]" len] h(3) obtain s' where
      b: "read_full len [] s = (Inr (take len (drop 4 ?d)), s')" "clean s'" "src_data s' = drop (4 + len) ?d"
      by (auto simp: add.commute)
    have hd: "length (take 4 ?d) = 4" "take 4 ?d ! 0 = ?d ! 0" "take 4 ?d ! 1 = ?d ! 1" "take 4 ?d ! 2 = ?d ! 2" "take 4 ?d ! 3 = ?d ! 3"
      using False by simp_all
    show ?thesis
      using assms(2) h(1) hd b False
      by (auto simp: next_block_def container.simps [of inflate ?d] Let_def len_def [symmetric] framed_content_def
          split: if_splits option.splits prod.splits)
  qed
qed

lemma framed_fill_clean:
  assumes "clean (fr_inner r)" "\<not> fr_ended r" "framed_fill inflate r = (res, r')"
  shows "case res of
       Inl e \<Rightarrow> framed_content inflate r = ([], Some e)
     | Inr False \<Rightarrow> framed_content inflate r = ([], None)
     | Inr True \<Rightarrow> clean (fr_inner r') \<and> \<not> fr_ended r' \<and> fr_pos r' < length (fr_buf r') \<and>
         framed_content inflate r = framed_content inflate r'"
  using assms
proof (induction inflate r rule: framed_fill.induct)
  case (1 inflate r)
  show ?case
  proof (cases "length (fr_buf r) \<le> fr_pos r")
    case True
    obtain nb r1 where nb: "next_block inflate r = (nb, r1)" by fastforce
    note c = next_block_clean [OF "1.prems"(1) nb]
    show ?thesis
    proof (cases "nb = Inr True")
      case t: True
      with c "1.prems"(2) have c1: "clean (fr_inner r1)" "\<not> fr_ended r1" "framed_content inflate r = framed_content inflate r1"
        using True by (auto simp: framed_content_def split: prod.splits)
      have "framed_fill inflate r1 = (res, r')"
        using "1.prems"(2,3) True nb t by (simp add: framed_fill.simps [of inflate r])
      from "1.IH" [OF True "1.prems"(2) nb [symmetric] t refl c1(1,2) this] show ?thesis unfolding c1(3) .
    next
      case False
      with "1.prems"(2,3) True nb c show ?thesis
        by (auto simp: framed_fill.simps [of inflate r] framed_content_def split: sum.splits bool.splits)
    qed
  qed (use "1.prems" in \<open>auto simp: framed_fill.simps [of inflate r]\<close>)
qed

lemma framed_fill_size:
  "framed_fill inflate r = (Inr True, r') \<Longrightarrow>
   fr_pos r' < length (fr_buf r') \<and> (r' = r \<or> src_size (fr_inner r') < src_size (fr_inner r))"
proof (induction inflate r rule: framed_fill.induct)
  case (1 inflate r)
  show ?case
  proof (cases "length (fr_buf r) \<le> fr_pos r \<and> \<not> fr_ended r")
    case True
    obtain nb r1 where nb: "next_block inflate r = (nb, r1)" by fastforce
    with "1.prems" True have t: "nb = Inr True" and f: "framed_fill inflate r1 = (Inr True, r')"
      by (auto simp: framed_fill.simps [of inflate r] split: sum.splits bool.splits)
    from "1.IH" [OF _ _ nb [symmetric] t refl f] True next_block_size [of inflate r r1] nb t show ?thesis by auto
  qed (use "1.prems" in \<open>auto simp: framed_fill.simps [of inflate r] split: if_splits\<close>)
qed

lemma framed_read_progress:
  assumes "framed_read inflate n r = (Inr (b # bs), r')"
  shows "src_size (fr_inner r') < src_size (fr_inner r) \<or>
    src_size (fr_inner r') = src_size (fr_inner r) \<and> length (fr_buf r') - fr_pos r' < length (fr_buf r) - fr_pos r"
proof -
  obtain res r1 where f: "framed_fill inflate r = (res, r1)" by fastforce
  with assms have t: "res = Inr True" and r': "r' = r1\<lparr>fr_pos := fr_pos r1 + min (length (fr_buf r1) - fr_pos r1) n\<rparr>"
    and "0 < n"
    by (auto simp: framed_read_def Let_def split: sum.splits bool.splits intro: gr0I)
  with framed_fill_size [of inflate r r1] f show ?thesis by auto
qed

text \<open>Reading to the end with buffers of \<open>n\<close> bytes, as \<open>read_to_end\<close> and \<open>io::copy\<close> do.\<close>

function framed_drain :: "(bytes \<Rightarrow> bytes option) \<Rightarrow> nat \<Rightarrow> framed_reader \<Rightarrow> bytes \<times> io_error option" where
  "framed_drain inflate n r =
     (case framed_read inflate n r of
        (Inl e, r') \<Rightarrow> ([], Some e)
      | (Inr [], r') \<Rightarrow> ([], None)
      | (Inr (b # bs), r') \<Rightarrow> (case framed_drain inflate n r' of (out, e) \<Rightarrow> (b # bs @ out, e)))"
  by pat_completeness auto
termination
  by (relation "measures [\<lambda>(inflate, n, r). src_size (fr_inner r), \<lambda>(inflate, n, r). length (fr_buf r) - fr_pos r]")
    (auto dest!: framed_read_progress [OF sym])

declare framed_drain.simps [simp del]

lemma framed_drain_content:
  assumes "0 < n" "clean (fr_inner r)" "\<not> fr_ended r"
  shows "framed_drain inflate n r = framed_content inflate r"
  using assms
proof (induction inflate n r rule: framed_drain.induct)
  case (1 inflate n r)
  obtain res r1 where f: "framed_fill inflate r = (res, r1)" by fastforce
  note c = framed_fill_clean [OF "1.prems"(2,3) f]
  show ?case
  proof (cases "res = Inr True")
    case True
    let ?k = "min (length (fr_buf r1) - fr_pos r1) n" and ?rest = "drop (fr_pos r1) (fr_buf r1)"
    from c True have c1: "clean (fr_inner r1)" "\<not> fr_ended r1" "fr_pos r1 < length (fr_buf r1)"
      "framed_content inflate r = framed_content inflate r1" by simp_all
    have rd: "framed_read inflate n r = (Inr (take ?k ?rest), r1\<lparr>fr_pos := fr_pos r1 + ?k\<rparr>)"
      using f True by (simp add: framed_read_def Let_def)
    have "0 < ?k" using c1(3) "1.prems"(1) by simp
    then obtain b bs where bs: "take ?k ?rest = b # bs" using c1(3) by (cases "take ?k ?rest") auto
    have "framed_drain inflate n (r1\<lparr>fr_pos := fr_pos r1 + ?k\<rparr>) = framed_content inflate (r1\<lparr>fr_pos := fr_pos r1 + ?k\<rparr>)"
      using "1.IH" [OF rd [unfolded bs, symmetric] refl refl] "1.prems"(1) c1 by simp
    moreover have "drop (fr_pos r1) (fr_buf r1) = b # bs @ drop (fr_pos r1 + ?k) (fr_buf r1)"
      using append_take_drop_id [of ?k ?rest] bs by (simp add: add.commute)
    ultimately show ?thesis
      unfolding c1(4) using rd bs by (simp add: framed_drain.simps [of inflate n r] framed_content_def split: prod.splits)
  qed (use c f in \<open>auto simp: framed_drain.simps [of inflate n r] framed_read_def split: sum.splits bool.splits\<close>)
qed

section \<open>What the writer produces\<close>

definition codec_ok :: "(bytes \<Rightarrow> bytes option) \<Rightarrow> (bytes \<Rightarrow> bytes) \<Rightarrow> bool" where
  "codec_ok inflate deflate \<longleftrightarrow>
     (\<forall>b. b \<noteq> [] \<and> length b \<le> BLOCK \<longrightarrow>
       inflate (deflate b) = Some b \<and> deflate b \<noteq> [] \<and> length (deflate b) \<le> MAX_BLOCK)"

definition block_bytes :: "(bytes \<Rightarrow> bytes) \<Rightarrow> bytes \<Rightarrow> bytes" where
  "block_bytes deflate b = u32_to_be_bytes (word_of_nat (length (deflate b))) @ deflate b"

lemma block_header:
  assumes "n \<le> MAX_BLOCK"
  shows "(word_of_nat n :: u32) AND STORED = 0" "unat ((word_of_nat n :: u32) AND LEN_MASK) = n"
proof -
  have n: "unat (word_of_nat n :: u32) = n" using assms by (simp add: unat_of_nat)
  have "\<not> bit (word_of_nat n :: u32) 31" using bit_bound [of "word_of_nat n :: u32" 31 31] n assms by auto
  moreover have "(STORED :: u32) = 2 ^ 31" by simp
  ultimately show "(word_of_nat n :: u32) AND STORED = 0" by (simp only: and_exp_eq_0_iff_not_bit) simp
  have m: "(LEN_MASK :: u32) = mask 31" by (simp add: mask_eq_exp_minus_1)
  have "(word_of_nat n :: u32) AND mask 31 = word_of_nat n"
    by (rule bit_word_eqI) (use bit_bound [of "word_of_nat n :: u32" 31] n assms in \<open>auto simp: bit_and_iff bit_mask_iff\<close>)
  then show "unat ((word_of_nat n :: u32) AND LEN_MASK) = n" unfolding m by (simp add: n)
qed

lemma be_head:
  "u32_from_be_bytes ((u32_to_be_bytes w @ xs) ! 0) ((u32_to_be_bytes w @ xs) ! Suc 0) ((u32_to_be_bytes w @ xs) ! 2)
    ((u32_to_be_bytes w @ xs) ! 3) = w"
  by (simp add: u32_to_be_bytes_def u32_be_roundtrip)

lemma container_block:
  assumes "codec_ok inflate deflate" "b \<noteq> []" "length b \<le> BLOCK"
  shows "container inflate (block_bytes deflate b @ d) = (case container inflate d of (out, e) \<Rightarrow> (b @ out, e))"
proof -
  have c: "inflate (deflate b) = Some b" "deflate b \<noteq> []" "length (deflate b) \<le> MAX_BLOCK"
    using assms by (auto simp: codec_ok_def)
  note h = block_header [OF c(3)]
  show ?thesis
    using c h by (subst container.simps) (simp add: block_bytes_def Let_def be_head)
qed

lemma container_blocks:
  assumes "codec_ok inflate deflate" "\<forall>b \<in> set bs. b \<noteq> [] \<and> length b \<le> BLOCK"
  shows "container inflate (concat (map (block_bytes deflate) bs)) = (concat bs, None)"
  using assms(2) by (induction bs) (simp_all add: container_block [OF assms(1)] container.simps [of inflate "[]"])

text \<open>What has been written so far: whole blocks in the sink, and the rest in the buffer.\<close>

definition wrote :: "(bytes \<Rightarrow> bytes) \<Rightarrow> framed_writer \<Rightarrow> bytes \<Rightarrow> bool" where
  "wrote deflate w data \<longleftrightarrow> sk_faults (fw_inner w) = [] \<and> length (fw_buf w) < BLOCK \<and>
     (\<exists>bs. sk_data (fw_inner w) = concat (map (block_bytes deflate) bs) \<and> data = concat bs @ fw_buf w \<and>
       (\<forall>b \<in> set bs. b \<noteq> [] \<and> length b \<le> BLOCK))"

lemma framed_emit_ok:
  assumes "sk_faults (fw_inner w) = []" "length (deflate (fw_buf w)) \<le> MAX_BLOCK"
  shows "framed_emit deflate w = (Inr (), w\<lparr>fw_buf := [], fw_inner := (fw_inner w)\<lparr>sk_data := sk_data (fw_inner w) @
    (if fw_buf w = [] then [] else block_bytes deflate (fw_buf w))\<rparr>\<rparr>)"
  using assms by (simp add: framed_emit_def sink_write_all_def block_bytes_def Let_def)

lemma wrote_emit:
  assumes "codec_ok inflate deflate" "sk_faults (fw_inner w) = []" "length (fw_buf w) \<le> BLOCK"
    and "sk_data (fw_inner w) = concat (map (block_bytes deflate) bs)" "\<forall>b \<in> set bs. b \<noteq> [] \<and> length b \<le> BLOCK"
    and "fw_buf w \<noteq> []"
  shows "\<exists>w'. framed_emit deflate w = (Inr (), w') \<and> fw_buf w' = [] \<and> wrote deflate w' (concat bs @ fw_buf w)"
proof -
  have "length (deflate (fw_buf w)) \<le> MAX_BLOCK" using assms(1,3,6) by (auto simp: codec_ok_def)
  from framed_emit_ok [where deflate = deflate and w = w, OF assms(2) this] assms show ?thesis
    by (auto simp: wrote_def intro!: exI [of _ "bs @ [fw_buf w]"])
qed

lemma framed_write_loop_ok:
  assumes "codec_ok inflate deflate" "wrote deflate w data"
  shows "\<exists>w'. framed_write_loop deflate rest w = (Inr (), w') \<and> wrote deflate w' (data @ rest)"
  using assms
proof (induction deflate rest w arbitrary: data rule: framed_write_loop.induct)
  case (1 deflate rest w)
  show ?case
  proof (cases "rest = []")
    case False
    define tk where "tk = min (BLOCK - length (fw_buf w)) (length rest)"
    define w1 where "w1 = w\<lparr>fw_buf := fw_buf w @ take tk rest\<rparr>"
    from "1.prems"(2) obtain bs where w: "sk_faults (fw_inner w) = []" "length (fw_buf w) < BLOCK"
      "sk_data (fw_inner w) = concat (map (block_bytes deflate) bs)" "data = concat bs @ fw_buf w"
      "\<forall>b \<in> set bs. b \<noteq> [] \<and> length b \<le> BLOCK" by (auto simp: wrote_def)
    have len: "length (fw_buf w1) = length (fw_buf w) + tk" by (simp add: w1_def tk_def)
    have nb: "\<not> BLOCK < length (fw_buf w)" using w(2) by simp
    have data: "data @ rest = (concat bs @ fw_buf w1) @ drop tk rest" by (simp add: w(4) w1_def)
    show ?thesis
    proof (cases "length (fw_buf w1) = BLOCK")
      case True
      then obtain w2 where e: "framed_emit deflate w1 = (Inr (), w2)" "wrote deflate w2 (concat bs @ fw_buf w1)"
        using wrote_emit [OF "1.prems"(1), of w1 bs] w(1,3,5) by (fastforce simp: w1_def)
      from 1(1) [OF False nb refl tk_def w1_def True e(1) [symmetric] refl "1.prems"(1) e(2)]
      obtain w' where "framed_write_loop deflate (drop tk rest) w2 = (Inr (), w')"
        "wrote deflate w' ((concat bs @ fw_buf w1) @ drop tk rest)" by blast
      moreover have "framed_write_loop deflate rest w = framed_write_loop deflate (drop tk rest) w2"
        using False nb True len e(1) by (subst framed_write_loop.simps) (simp add: Let_def tk_def [symmetric] w1_def [symmetric])
      ultimately show ?thesis using data by auto
    next
      case small: False
      then have "length (fw_buf w1) < BLOCK" using len w(2) by (simp add: tk_def)
      then have "wrote deflate w1 (concat bs @ fw_buf w1)" using w by (auto simp: wrote_def w1_def)
      from 1(2) [OF False nb refl tk_def w1_def small "1.prems"(1) this]
      obtain w' where "framed_write_loop deflate (drop tk rest) w1 = (Inr (), w')"
        "wrote deflate w' ((concat bs @ fw_buf w1) @ drop tk rest)" by blast
      moreover have "framed_write_loop deflate rest w = framed_write_loop deflate (drop tk rest) w1"
        using False nb small len by (subst framed_write_loop.simps) (simp add: Let_def tk_def [symmetric] w1_def [symmetric])
      ultimately show ?thesis using data by auto
    qed
  qed (use "1.prems" in \<open>simp add: framed_write_loop.simps [of deflate "[]" w]\<close>)
qed

fun framed_write_list :: "(bytes \<Rightarrow> bytes) \<Rightarrow> bytes list \<Rightarrow> framed_writer \<Rightarrow> (io_error + nat list) \<times> framed_writer" where
  "framed_write_list deflate [] w = (Inr [], w)"
| "framed_write_list deflate (d # ds) w =
     (case framed_write deflate d w of
        (Inl e, w') \<Rightarrow> (Inl e, w')
      | (Inr n, w') \<Rightarrow> (case framed_write_list deflate ds w' of (r, w'') \<Rightarrow> (and_then r (\<lambda>ns. Inr (n # ns)), w'')))"

lemma framed_write_list_ok:
  assumes "codec_ok inflate deflate"
  shows "wrote deflate w data \<Longrightarrow>
    \<exists>w'. framed_write_list deflate ds w = (Inr (map length ds), w') \<and> wrote deflate w' (data @ concat ds)"
proof (induction ds arbitrary: w data)
  case (Cons d ds)
  from framed_write_loop_ok [OF assms Cons.prems, of d] obtain w1 where
    w1: "framed_write_loop deflate d w = (Inr (), w1)" "wrote deflate w1 (data @ d)" by blast
  from Cons.IH [OF w1(2)] w1(1) show ?case by (auto simp: framed_write_def)
qed simp

lemma framed_finish_ok:
  assumes "codec_ok inflate deflate" "wrote deflate w data"
  shows "\<exists>k. framed_finish deflate w = Inr k \<and> container inflate (sk_data k) = (data, None)"
proof -
  from assms(2) obtain bs where w: "sk_faults (fw_inner w) = []" "length (fw_buf w) < BLOCK"
    "sk_data (fw_inner w) = concat (map (block_bytes deflate) bs)" "data = concat bs @ fw_buf w"
    "\<forall>b \<in> set bs. b \<noteq> [] \<and> length b \<le> BLOCK" by (auto simp: wrote_def)
  show ?thesis
  proof (cases "fw_buf w = []")
    case True
    with w container_blocks [OF assms(1) w(5)] show ?thesis
      by (simp add: framed_finish_def framed_emit_def sink_flush_def)
  next
    case False
    with wrote_emit [OF assms(1) w(1) _ w(3,5)] w(2,4) obtain w' where
      e: "framed_emit deflate w = (Inr (), w')" "fw_buf w' = []" "wrote deflate w' data" by auto
    then obtain bs' where "sk_data (fw_inner w') = concat (map (block_bytes deflate) bs')" "data = concat bs'"
      "\<forall>b \<in> set bs'. b \<noteq> [] \<and> length b \<le> BLOCK" "sk_faults (fw_inner w') = []" by (auto simp: wrote_def)
    with e(1) container_blocks [OF assms(1), of bs'] show ?thesis by (simp add: framed_finish_def sink_flush_def)
  qed
qed

text \<open>
  The cap on a block bounds what is read from the wire, not what it decompresses to: the reader holds
  the whole of one decompressed block.
\<close>

lemma block_in_memory:
  assumes "clean (fr_inner r)" "src_data (fr_inner r) = u32_to_be_bytes (word_of_nat (length block)) @ block @ rest"
    and "block \<noteq> []" "length block \<le> MAX_BLOCK" "inflate block = Some out"
  shows "\<exists>r'. next_block inflate r = (Inr True, r') \<and> fr_buf r' = out"
proof -
  let ?d = "src_data (fr_inner r)" and ?h = "u32_to_be_bytes (word_of_nat (length block))"
  from read_full_clean [OF assms(1), of "[]" 4] assms(2) obtain s where
    h: "read_full 4 [] (fr_inner r) = (Inr ?h, s)" "clean s" "src_data s = block @ rest" by auto
  from read_full_clean [OF h(2), of "[]" "length block"] h(3) obtain s' where
    "read_full (length block) [] s = (Inr block, s')" by auto
  with h(1) block_header [OF assms(4)] be_head [of "word_of_nat (length block)" "[]"] assms(3-5)
  show ?thesis by (simp add: next_block_def Let_def)
qed

section \<open>Properties\<close>

text \<open>
  C23: the reader returns exactly what the stream holds. However the bytes of a container arrive
  (in any portions, with interrupted reads between them) and whatever size of buffer the caller
  reads with, the bytes returned are the decoded blocks in order, and the reading ends as the stream
  does: at a clean or truncated end without an error, at a block over the cap or one that does not
  decompress with an error.
\<close>

theorem container_read_exact:
  assumes "clean s" "0 < n"
  shows "framed_drain inflate n (framed_new s) = container inflate (src_data s)"
  using framed_drain_content [OF assms(2), of "framed_new s" inflate] assms(1)
  by (simp add: framed_new_def framed_content_def split: prod.splits)

theorem container_read_exact_witness:
  "framed_drain (\<lambda>b. None) 2 (framed_new [Rd_Bytes [0x80, 0], Rd_Interrupted, Rd_Bytes [0, 3, 65, 66, 67, 0]]) = ([65, 66, 67], None)"
proof -
  have "container (\<lambda>b. None) [0x80, 0, 0, 3, 65, 66, 67, 0] = ([65, 66, 67], None)"
    by (simp add: container.simps u32_from_be_bytes_def)
  with container_read_exact [of "[Rd_Bytes [0x80, 0], Rd_Interrupted, Rd_Bytes [0, 3, 65, 66, 67, 0]]" 2 "\<lambda>b. None"]
  show ?thesis by simp
qed

text \<open>
  What is written is read back. Whatever pieces are written, and whatever portions and buffers
  they are read with, the reader returns the concatenation of the pieces, provided decompression
  undoes compression.
\<close>

theorem container_roundtrip:
  assumes "codec_ok inflate deflate"
  shows "\<exists>w k. framed_write_list deflate ds (framed_writer_new \<lparr>sk_data = [], sk_faults = []\<rparr>) = (Inr (map length ds), w) \<and>
    framed_finish deflate w = Inr k \<and>
    (\<forall>s n. clean s \<and> src_data s = sk_data k \<and> 0 < n \<longrightarrow> framed_drain inflate n (framed_new s) = (concat ds, None))"
proof -
  have "wrote deflate (framed_writer_new \<lparr>sk_data = [], sk_faults = []\<rparr>) []"
    by (auto simp: wrote_def framed_writer_new_def intro: exI [of _ "[]"])
  from framed_write_list_ok [OF assms this, of ds] obtain w where
    w: "framed_write_list deflate ds (framed_writer_new \<lparr>sk_data = [], sk_faults = []\<rparr>) = (Inr (map length ds), w)"
      "wrote deflate w (concat ds)" by auto
  from framed_finish_ok [OF assms w(2)] obtain k where
    "framed_finish deflate w = Inr k" "container inflate (sk_data k) = (concat ds, None)" by blast
  moreover have "framed_drain inflate n (framed_new s) = container inflate (src_data s)" if "clean s" "0 < n" for s n
    using framed_drain_content [OF that(2), of "framed_new s" inflate] that(1)
    by (simp add: framed_new_def framed_content_def split: prod.splits)
  ultimately show ?thesis using w(1) by auto
qed

theorem container_roundtrip_witness:
  "\<exists>w k. framed_write_list (\<lambda>b. b) [[1, 2], [3]] (framed_writer_new \<lparr>sk_data = [], sk_faults = []\<rparr>) = (Inr [2, 1], w) \<and>
     framed_finish (\<lambda>b. b) w = Inr k \<and>
     (sk_data k \<noteq> [] \<longrightarrow> framed_drain Some 5 (framed_new [Rd_Bytes (sk_data k)]) = ([1, 2, 3], None))"
proof -
  have "codec_ok Some (\<lambda>b. b)" by (simp add: codec_ok_def)
  from container_roundtrip [OF this, of "[[1, 2], [3]]"] obtain w k where
    "framed_write_list (\<lambda>b. b) [[1, 2], [3]] (framed_writer_new \<lparr>sk_data = [], sk_faults = []\<rparr>) = (Inr [2, 1], w)"
    "framed_finish (\<lambda>b. b) w = Inr k"
    "\<forall>s n. clean s \<and> src_data s = sk_data k \<and> 0 < n \<longrightarrow> framed_drain Some n (framed_new s) = ([1, 2, 3], None)"
    by auto
  moreover from this(3) have "sk_data k \<noteq> [] \<longrightarrow> framed_drain Some 5 (framed_new [Rd_Bytes (sk_data k)]) = ([1, 2, 3], None)"
    by simp
  ultimately show ?thesis by blast
qed

end
