(* ===== verification/Plist.thy ===== *)
theory Plist
  imports Unicode Machines
begin

text \<open>
  The binary property lists of \<open>sharingd/src/plist.rs\<close>: the writer that flattens a value into
  numbered objects and lays them out with an offset table and a trailer, and the reader of
  strangers' documents. The theorems: what the writer produces is read back as meant; whatever a
  stranger sends, what the reader builds is bounded in depth, in objects and in bytes; and the one
  way it can still panic.
\<close>

section \<open>The writer\<close>

datatype plist_value =
    V_Str rstring
  | V_Data bytes
  | V_Bool bool
  | V_Array "plist_value list"
  | V_Dict "(rstring \<times> plist_value) list"

datatype plist_node =
    N_Bool bool
  | N_Str rstring
  | N_Data bytes
  | N_Array "nat list"
  | N_Dict "nat list" "nat list"

text \<open>\<open>flatten\<close> and the loops of its two containers over values, the keys and the values of entries.\<close>

fun flatten_keys :: "rstring list \<Rightarrow> plist_node list \<Rightarrow> nat list \<times> plist_node list" where
  "flatten_keys [] out = ([], out)"
| "flatten_keys (k # ks) out =
     (case flatten_keys ks (out @ [N_Str k]) of (is, out') \<Rightarrow> (length out # is, out'))"

fun flatten :: "plist_value \<Rightarrow> plist_node list \<Rightarrow> nat \<times> plist_node list"
  and flatten_items :: "plist_value list \<Rightarrow> plist_node list \<Rightarrow> nat list \<times> plist_node list" where
  "flatten (V_Bool b) out = (length out, out @ [N_Bool b])"
| "flatten (V_Str s) out = (length out, out @ [N_Str s])"
| "flatten (V_Data d) out = (length out, out @ [N_Data d])"
| "flatten (V_Array items) out =
     (case flatten_items items (out @ [N_Array []]) of
        (kids, out') \<Rightarrow> (length out, out'[length out := N_Array kids]))"
| "flatten (V_Dict entries) out =
     (case flatten_keys (map fst entries) (out @ [N_Dict [] []]) of
        (keys, out') \<Rightarrow>
          (case flatten_items (map snd entries) out' of
             (vals, out'') \<Rightarrow> (length out, out''[length out := N_Dict keys vals])))"
| "flatten_items [] out = ([], out)"
| "flatten_items (v # vs) out =
     (case flatten v out of (k, out') \<Rightarrow>
        (case flatten_items vs out' of (ks, out'') \<Rightarrow> (k # ks, out'')))"

definition byte_width :: "u64 \<Rightarrow> nat" where
  "byte_width m = (if m \<le> 0xFF then 1 else if m \<le> 0xFFFF then 2 else if m \<le> 0xFFFFFFFF then 4 else 8)"

text \<open>The last \<open>w\<close> of the eight bytes of \<open>to_be_bytes\<close>.\<close>

definition write_uint :: "u64 \<Rightarrow> nat \<Rightarrow> bytes" where
  "write_uint v w = map (\<lambda>i. ucast (drop_bit (8 * i) v)) (rev [0..<w])"

definition write_int_object :: "u64 \<Rightarrow> bytes" where
  "write_int_object v =
     (if v \<le> 0xFF then 0x10 # write_uint v 1
      else if v \<le> 0xFFFF then 0x11 # write_uint v 2
      else 0x12 # write_uint v 4)"

definition write_marker :: "u8 \<Rightarrow> nat \<Rightarrow> bytes" where
  "write_marker kind len =
     (if len < 0x0F then [kind OR word_of_nat len]
      else (kind OR 0x0F) # write_int_object (word_of_nat len))"

definition is_ascii :: "rstring \<Rightarrow> bool" where
  "is_ascii s = list_all (\<lambda>b. b < 0x80) s"

definition write_string :: "rstring \<Rightarrow> bytes" where
  "write_string s =
     (if is_ascii s then write_marker 0x50 (length s) @ s
      else let units = encode_utf16 s in
        write_marker 0x60 (length units) @ concat (map u16_to_be_bytes units))"

definition write_refs :: "nat list \<Rightarrow> nat \<Rightarrow> bytes" where
  "write_refs ks w = concat (map (\<lambda>k. write_uint (word_of_nat k) w) ks)"

fun write_node :: "nat \<Rightarrow> plist_node \<Rightarrow> bytes" where
  "write_node w (N_Bool b) = [if b then 0x09 else 0x08]"
| "write_node w (N_Str s) = write_string s"
| "write_node w (N_Data d) = write_marker 0x40 (length d) @ d"
| "write_node w (N_Array children) = write_marker 0xA0 (length children) @ write_refs children w"
| "write_node w (N_Dict keys vals) = write_marker 0xD0 (length keys) @ write_refs keys w @ write_refs vals w"

text \<open>The loop over the objects: each offset is taken before its object is written.\<close>

fun write_nodes :: "nat \<Rightarrow> plist_node list \<Rightarrow> bytes \<Rightarrow> nat list \<Rightarrow> bytes \<times> nat list" where
  "write_nodes w [] out offsets = (out, offsets)"
| "write_nodes w (n # ns) out offsets = write_nodes w ns (out @ write_node w n) (offsets @ [length out])"

abbreviation bplist00 :: bytes where
  "bplist00 \<equiv> [0x62, 0x70, 0x6C, 0x69, 0x73, 0x74, 0x30, 0x30]"

definition plist_encode :: "plist_value \<Rightarrow> bytes" where
  "plist_encode root =
     (let objects = snd (flatten root []);
          ref_size = byte_width (word_of_nat (length objects)) in
      case write_nodes ref_size objects bplist00 [] of
        (out, offsets) \<Rightarrow>
          let table_start = length out;
              offset_size = byte_width (word_of_nat table_start) in
          out @ write_refs offsets offset_size @
          replicate 5 0 @ [0] @ [word_of_nat offset_size, word_of_nat ref_size] @
          write_uint (word_of_nat (length objects)) 8 @ write_uint 0 8 @ write_uint (word_of_nat table_start) 8)"

definition plist_dict :: "(rstring \<times> plist_value) list \<Rightarrow> bytes" where
  "plist_dict pairs = plist_encode (V_Dict pairs)"

section \<open>The reader\<close>

datatype plist_val =
    Val_Str rstring
  | Val_Data bytes
  | Val_Int i64
  | Val_Bool bool
  | Val_Array "plist_val list"
  | Val_Dict "(rstring \<times> plist_val) list"
  | Val_Other

fun val_get :: "plist_val \<Rightarrow> rstring \<Rightarrow> plist_val option" where
  "val_get (Val_Dict entries) key = map_option snd (List.find (\<lambda>e. fst e = key) entries)"
| "val_get _ key = None"

fun val_as_str :: "plist_val \<Rightarrow> rstring option" where
  "val_as_str (Val_Str s) = Some s"
| "val_as_str _ = None"

abbreviation MAX_DEPTH :: nat where "MAX_DEPTH \<equiv> 16"
abbreviation MAX_ELEMENTS :: nat where "MAX_ELEMENTS \<equiv> 4096"
abbreviation MAX_TOTAL_OBJECTS :: nat where "MAX_TOTAL_OBJECTS \<equiv> 100000"
abbreviation (input) BYTE_AMPLIFICATION :: nat where "BYTE_AMPLIFICATION \<equiv> 8"
abbreviation (input) MIN_BYTE_BUDGET :: nat where "MIN_BYTE_BUDGET \<equiv> 256 * 1024"

definition be :: "bytes \<Rightarrow> u64" where
  "be bs = foldl (\<lambda>acc x. push_bit 8 acc OR ucast x) 0 bs"

record plist_parser =
  pp_buf :: bytes
  pp_table_start :: nat
  pp_offset_size :: nat
  pp_ref_size :: nat
  pp_num_objects :: nat

text \<open>
  The two cells of the parser are the state of a reading. An \<open>Option\<close> that a step returns is
  \<open>P_None\<close> or \<open>P_Some\<close>; \<open>P_Panic\<close> is an addition that leaves \<open>usize\<close>, which the platform's build
  checks. Sums of a position below the buffer's length and a constant stay inside \<open>usize\<close>, since no
  buffer is longer than \<open>isize::MAX\<close>, and are written as they are.
\<close>

record plist_budget =
  pb_objects :: nat
  pb_bytes :: nat

datatype 'a plist_res = P_Panic | P_None | P_Some 'a

type_synonym 'a plist_read = "plist_budget \<Rightarrow> 'a plist_res \<times> plist_budget"

definition p_some :: "'a \<Rightarrow> 'a plist_read" where
  "p_some x s = (P_Some x, s)"

definition p_none :: "'a plist_read" where
  "p_none s = (P_None, s)"

definition p_panic :: "'a plist_read" where
  "p_panic s = (P_Panic, s)"

definition p_try :: "'a plist_read \<Rightarrow> ('a \<Rightarrow> 'b plist_read) \<Rightarrow> 'b plist_read" where
  "p_try m f s =
     (case m s of (P_Panic, s') \<Rightarrow> (P_Panic, s') | (P_None, s') \<Rightarrow> (P_None, s') | (P_Some x, s') \<Rightarrow> f x s')"

definition p_opt :: "'a option \<Rightarrow> 'a plist_read" where
  "p_opt x = (case x of None \<Rightarrow> p_none | Some y \<Rightarrow> p_some y)"

text \<open>A \<open>for\<close> loop that pushes what its body returns.\<close>

primrec p_for :: "('i \<Rightarrow> 'a list plist_read) \<Rightarrow> 'i list \<Rightarrow> 'a list plist_read" where
  "p_for f [] = p_some []"
| "p_for f (i # is) = p_try (f i) (\<lambda>xs. p_try (p_for f is) (\<lambda>ys. p_some (xs @ ys)))"

definition checked_mul :: "nat \<Rightarrow> nat \<Rightarrow> nat option" where
  "checked_mul a b = (if a * b < usize_modulus then Some (a * b) else None)"

text \<open>\<open>self.buf.get(a..a + n)?\<close>\<close>

definition p_slice :: "plist_parser \<Rightarrow> nat \<Rightarrow> nat \<Rightarrow> bytes plist_read" where
  "p_slice p a n =
     (if usize_modulus \<le> a + n then p_panic else p_opt (get_range (pp_buf p) a (a + n)))"

definition spend_object :: "unit plist_read" where
  "spend_object s =
     (if pb_objects s = 0 then (P_None, s) else (P_Some (), s\<lparr>pb_objects := pb_objects s - 1\<rparr>))"

definition spend_bytes :: "nat \<Rightarrow> unit plist_read" where
  "spend_bytes n s =
     (if pb_bytes s < n then (P_None, s) else (P_Some (), s\<lparr>pb_bytes := pb_bytes s - n\<rparr>))"

definition offset_of :: "plist_parser \<Rightarrow> nat \<Rightarrow> nat plist_read" where
  "offset_of p index =
     (if pp_num_objects p \<le> index then p_none
      else p_try (p_slice p (pp_table_start p + index * pp_offset_size p) (pp_offset_size p)) (\<lambda>raw.
        if unat (be raw) < length (pp_buf p) then p_some (unat (be raw)) else p_none))"

definition p_sized :: "plist_parser \<Rightarrow> nat \<Rightarrow> nat \<Rightarrow> (nat \<times> nat) plist_read" where
  "p_sized p at low =
     (if low \<noteq> 0x0F then p_some (low, at + 1)
      else p_try (p_opt (get_at (pp_buf p) (at + 1))) (\<lambda>m.
        if drop_bit 4 m \<noteq> 0x1 then p_none
        else let width = 2 ^ unat (m AND 0x0F) in
          p_try (p_slice p (at + 2) width) (\<lambda>raw. p_some (unat (be raw), at + 2 + width))))"

definition p_reference :: "plist_parser \<Rightarrow> nat \<Rightarrow> nat \<Rightarrow> nat plist_read" where
  "p_reference p body i =
     p_try (p_opt (checked_mul i (pp_ref_size p))) (\<lambda>d.
     p_try (p_opt (checked_add body d)) (\<lambda>at.
     p_try (p_slice p at (pp_ref_size p)) (\<lambda>raw. p_some (unat (be raw)))))"

text \<open>\<open>chunks_exact(2)\<close> and \<open>from_be_bytes\<close>.\<close>

fun be_units :: "bytes \<Rightarrow> u16 list" where
  "be_units (a # b # bs) = u16_from_be_bytes a b # be_units bs"
| "be_units _ = []"

text \<open>
  The arms of \<open>object\<close>: the two containers and the \<open>match\<close> on the marker, with what \<open>object\<close> does one
  level deeper as an argument.
\<close>

definition p_array :: "plist_parser \<Rightarrow> (nat \<Rightarrow> plist_val plist_read) \<Rightarrow> nat \<Rightarrow> nat \<Rightarrow> plist_val plist_read" where
  "p_array p obj count body =
     (if MAX_ELEMENTS < count then p_none
      else p_try (p_for (\<lambda>i.
          p_try (p_reference p body i) (\<lambda>r.
          p_try (obj r) (\<lambda>v. p_some [v]))) [0..<count])
        (\<lambda>out. p_some (Val_Array out)))"

definition p_dict :: "plist_parser \<Rightarrow> (nat \<Rightarrow> plist_val plist_read) \<Rightarrow> nat \<Rightarrow> nat \<Rightarrow> plist_val plist_read" where
  "p_dict p obj count body =
     (if MAX_ELEMENTS < count then p_none
      else p_try (p_for (\<lambda>i.
          p_try (p_reference p body i) (\<lambda>kr.
          p_try (p_reference p body (count + i)) (\<lambda>vr.
          p_try (obj kr) (\<lambda>key.
            case val_as_str key of
              None \<Rightarrow> p_some []
            | Some k \<Rightarrow> p_try (obj vr) (\<lambda>v. p_some [(k, v)]))))) [0..<count])
        (\<lambda>out. p_some (Val_Dict out)))"

definition p_match :: "plist_parser \<Rightarrow> (nat \<Rightarrow> plist_val plist_read) \<Rightarrow> nat \<Rightarrow> u8 \<Rightarrow> plist_val plist_read" where
  "p_match p obj at marker =
     (let kind = drop_bit 4 marker; low = unat (marker AND 0x0F) in
      if kind = 0x0 then
        p_some (if marker = 0x08 then Val_Bool False else if marker = 0x09 then Val_Bool True else Val_Other)
      else if kind = 0x1 then
        p_try (p_slice p (at + 1) (2 ^ low)) (\<lambda>raw. p_some (Val_Int (be raw)))
      else if kind = 0x4 then
        p_try (p_sized p at low) (\<lambda>(len, body).
        p_try (p_slice p body len) (\<lambda>v.
        p_try (spend_bytes (length v)) (\<lambda>_. p_some (Val_Data v))))
      else if kind = 0x5 then
        p_try (p_sized p at low) (\<lambda>(len, body).
        p_try (p_slice p body len) (\<lambda>raw.
        let s = from_utf8_lossy raw in
        p_try (spend_bytes (length s)) (\<lambda>_. p_some (Val_Str s))))
      else if kind = 0x6 then
        p_try (p_sized p at low) (\<lambda>(units, body).
        p_try (p_opt (checked_mul units 2)) (\<lambda>len.
        p_try (p_slice p body len) (\<lambda>raw.
        let s = from_utf16_lossy (be_units raw) in
        p_try (spend_bytes (length s)) (\<lambda>_. p_some (Val_Str s)))))
      else if kind = 0xA then p_try (p_sized p at low) (\<lambda>(count, body). p_array p obj count body)
      else if kind = 0xD then p_try (p_sized p at low) (\<lambda>(count, body). p_dict p obj count body)
      else p_some Val_Other)"

text \<open>
  \<open>object\<close> at depth \<open>MAX_DEPTH + 1 - n\<close>: \<open>n\<close> is how many more levels may be entered, so that \<open>0\<close> is
  the depth that is refused.
\<close>

primrec p_object :: "plist_parser \<Rightarrow> nat \<Rightarrow> nat \<Rightarrow> plist_val plist_read" where
  "p_object p 0 = (\<lambda>index. p_none)"
| "p_object p (Suc n) = (\<lambda>index.
     p_try spend_object (\<lambda>_.
     p_try (offset_of p index) (\<lambda>at.
     p_try (p_opt (get_at (pp_buf p) at)) (\<lambda>marker.
     p_match p (p_object p n) at marker))))"

definition plist_budget_of :: "bytes \<Rightarrow> plist_budget" where
  "plist_budget_of buf =
     \<lparr>pb_objects = MAX_TOTAL_OBJECTS,
      pb_bytes = max (min (length buf * BYTE_AMPLIFICATION) (usize_modulus - 1)) MIN_BYTE_BUDGET\<rparr>"

definition plist_parse :: "bytes \<Rightarrow> plist_val plist_res" where
  "plist_parse buf =
     (if length buf < 40 \<or> take 8 buf \<noteq> bplist00 then P_None
      else
        let trailer = drop (length buf - 32) buf;
            offset_size = unat (trailer ! 6);
            ref_size = unat (trailer ! 7);
            num_objects = unat (be (take 8 (drop 8 trailer)));
            root = unat (be (take 8 (drop 16 trailer)));
            table_start = unat (be (take 8 (drop 24 trailer))) in
        if offset_size = 0 \<or> 8 < offset_size \<or> ref_size = 0 \<or> 8 < ref_size then P_None
        else if num_objects = 0 \<or> MAX_ELEMENTS < num_objects \<or> num_objects \<le> root then P_None
        else
          (case checked_mul num_objects offset_size of
             None \<Rightarrow> P_None
           | Some table_len \<Rightarrow>
             (case checked_add table_start table_len of
                None \<Rightarrow> P_None
              | Some e \<Rightarrow>
                if length buf < e then P_None
                else
                  fst (p_object \<lparr>pp_buf = buf, pp_table_start = table_start, pp_offset_size = offset_size,
                                pp_ref_size = ref_size, pp_num_objects = num_objects\<rparr>
                        (MAX_DEPTH + 1) root (plist_budget_of buf)))))"

section \<open>What a stranger's document can cost\<close>

fun val_nodes :: "plist_val \<Rightarrow> nat" where
  "val_nodes (Val_Array vs) = Suc (sum_list (map val_nodes vs))"
| "val_nodes (Val_Dict es) = Suc (sum_list (map (\<lambda>e. Suc (val_nodes (snd e))) es))"
| "val_nodes _ = 1"

fun val_bytes :: "plist_val \<Rightarrow> nat" where
  "val_bytes (Val_Str s) = length s"
| "val_bytes (Val_Data d) = length d"
| "val_bytes (Val_Array vs) = sum_list (map val_bytes vs)"
| "val_bytes (Val_Dict es) = sum_list (map (\<lambda>e. length (fst e) + val_bytes (snd e)) es)"
| "val_bytes _ = 0"

fun val_height :: "plist_val \<Rightarrow> nat" where
  "val_height (Val_Array vs) = Suc (foldr max (map val_height vs) 0)"
| "val_height (Val_Dict es) = Suc (foldr max (map (\<lambda>e. val_height (snd e)) es) 0)"
| "val_height _ = 1"

text \<open>
  What a reading costs, whatever the budget it starts from: it only spends, and a value it returns
  is paid for, \<open>Q\<close> relating the value to the objects and the bytes spent on it.
\<close>

definition p_costs :: "'a plist_read \<Rightarrow> ('a \<Rightarrow> nat \<Rightarrow> nat \<Rightarrow> bool) \<Rightarrow> bool" where
  "p_costs m Q \<longleftrightarrow>
     (\<forall>s r s'. m s = (r, s') \<longrightarrow> pb_objects s' \<le> pb_objects s \<and> pb_bytes s' \<le> pb_bytes s \<and>
       (\<forall>x. r = P_Some x \<longrightarrow> Q x (pb_objects s - pb_objects s') (pb_bytes s - pb_bytes s')))"

lemma p_costs_try:
  assumes "p_costs m P" "\<And>x a b. P x a b \<Longrightarrow> p_costs (f x) (\<lambda>y c d. Q y (a + c) (b + d))"
  shows "p_costs (p_try m f) Q"
  unfolding p_costs_def
proof (intro allI impI)
  fix s r s'
  assume t: "p_try m f s = (r, s')"
  obtain q u where m: "m s = (q, u)" by force
  with assms(1) have u: "pb_objects u \<le> pb_objects s" "pb_bytes u \<le> pb_bytes s"
    "\<And>x. q = P_Some x \<Longrightarrow> P x (pb_objects s - pb_objects u) (pb_bytes s - pb_bytes u)"
    unfolding p_costs_def by blast+
  show "pb_objects s' \<le> pb_objects s \<and> pb_bytes s' \<le> pb_bytes s \<and>
    (\<forall>x. r = P_Some x \<longrightarrow> Q x (pb_objects s - pb_objects s') (pb_bytes s - pb_bytes s'))"
  proof (cases q)
    case (P_Some x)
    with t m have "f x u = (r, s')" by (simp add: p_try_def)
    with assms(2) [OF u(3) [OF P_Some]] have v: "pb_objects s' \<le> pb_objects u" "pb_bytes s' \<le> pb_bytes u"
      "\<And>y. r = P_Some y \<Longrightarrow> Q y (pb_objects s - pb_objects u + (pb_objects u - pb_objects s'))
        (pb_bytes s - pb_bytes u + (pb_bytes u - pb_bytes s'))"
      unfolding p_costs_def by blast+
    with u(1,2) show ?thesis by simp
  qed (use t m u in \<open>simp_all add: p_try_def\<close>)
qed

lemma p_costs_simple:
  "Q x 0 0 \<Longrightarrow> p_costs (p_some x) Q" "p_costs p_none Q" "p_costs p_panic Q"
  "(\<And>x. z = Some x \<Longrightarrow> Q x 0 0) \<Longrightarrow> p_costs (p_opt z) Q"
  by (auto simp: p_costs_def p_some_def p_none_def p_panic_def p_opt_def split: option.splits)

lemma p_costs_spend:
  "p_costs spend_object (\<lambda>_ a b. a = 1 \<and> b = 0)" "p_costs (spend_bytes n) (\<lambda>_ a b. a = 0 \<and> b = n)"
  by (auto simp: p_costs_def spend_object_def spend_bytes_def split: if_splits)

abbreviation free :: "'a \<Rightarrow> nat \<Rightarrow> nat \<Rightarrow> bool" where
  "free x a b \<equiv> a = 0 \<and> b = 0"

lemma p_costs_free:
  "p_costs (p_slice p i n) free" "p_costs (offset_of p k) free" "p_costs (p_sized p k l) free" "p_costs (p_reference p k l) free"
proof -
  have slice: "p_costs (p_slice p i n) free" for i n
    by (simp add: p_slice_def p_costs_simple)
  show "p_costs (p_slice p i n) free" by (rule slice)
  show "p_costs (offset_of p k) free" "p_costs (p_sized p k l) free" "p_costs (p_reference p k l) free"
    unfolding offset_of_def p_sized_def p_reference_def Let_def
    by (auto intro!: p_costs_try [where P = free] p_costs_simple slice)
qed

text \<open>What the loop pushed is paid for when what each round pushed is.\<close>

definition paid :: "('a \<Rightarrow> nat) \<Rightarrow> ('a \<Rightarrow> nat) \<Rightarrow> ('a \<Rightarrow> bool) \<Rightarrow> 'a list \<Rightarrow> nat \<Rightarrow> nat \<Rightarrow> bool" where
  "paid f g R xs a b \<longleftrightarrow> sum_list (map f xs) \<le> a \<and> sum_list (map g xs) \<le> b \<and> list_all R xs"

lemma p_costs_for:
  assumes "\<And>i. p_costs (h i) (paid f g R)"
  shows "p_costs (p_for h is) (paid f g R)"
proof (induction "is")
  case (Cons i "is")
  show ?case unfolding p_for.simps
    by (rule p_costs_try [OF assms p_costs_try [OF Cons p_costs_simple(1)]]) (simp add: paid_def)
qed (simp add: p_costs_simple paid_def)

lemma foldr_max_le: "list_all (\<lambda>x. f x \<le> n) xs \<Longrightarrow> foldr max (map f xs) 0 \<le> (n :: nat)"
  by (induction xs) simp_all

definition val_paid :: "nat \<Rightarrow> plist_val \<Rightarrow> nat \<Rightarrow> nat \<Rightarrow> bool" where
  "val_paid n v a b \<longleftrightarrow> val_nodes v \<le> a \<and> val_bytes v \<le> b \<and> val_height v \<le> n"

lemma val_paid_atom:
  "val_paid (Suc n) (Val_Bool t) (Suc 0) 0" "val_paid (Suc n) (Val_Int i) (Suc 0) 0" "val_paid (Suc n) Val_Other (Suc 0) 0"
  by (simp_all add: val_paid_def)

lemma p_costs_leaf:
  "p_costs (p_try (spend_bytes (length v)) (\<lambda>_. p_some (Val_Data v))) (\<lambda>v a b. val_paid (Suc n) v (Suc a) b)"
  "p_costs (p_try (spend_bytes (length s)) (\<lambda>_. p_some (Val_Str s))) (\<lambda>v a b. val_paid (Suc n) v (Suc a) b)"
  by (auto intro!: p_costs_try [OF p_costs_spend(2)] p_costs_simple simp: val_paid_def)

lemma p_costs_free_try:
  assumes "p_costs m free" "\<And>x. p_costs (f x) Q"
  shows "p_costs (p_try m f) Q"
  by (rule p_costs_try [OF assms(1)]) (simp add: assms(2))

lemma p_costs_opt_try: "(\<And>x. p_costs (f x) Q) \<Longrightarrow> p_costs (p_try (p_opt z) f) Q"
  by (rule p_costs_free_try) (simp_all add: p_costs_simple)

lemma p_costs_array:
  assumes "\<And>r. p_costs (obj r) (val_paid n)"
  shows "p_costs (p_array p obj count body) (\<lambda>v a b. val_paid (Suc n) v (Suc a) b)"
proof -
  have "p_costs (p_try (p_reference p body i) (\<lambda>r. p_try (obj r) (\<lambda>v. p_some [v])))
      (paid val_nodes val_bytes (\<lambda>v. val_height v \<le> n))" for i
    by (intro p_costs_free_try [OF p_costs_free(4)] p_costs_try [OF assms] p_costs_simple(1))
      (simp add: paid_def val_paid_def)
  note loop = p_costs_for [OF this]
  show ?thesis unfolding p_array_def
    by (auto intro!: p_costs_try [OF loop] p_costs_simple simp: paid_def val_paid_def foldr_max_le)
qed

lemma p_costs_dict:
  assumes "\<And>r. p_costs (obj r) (val_paid n)"
  shows "p_costs (p_dict p obj count body) (\<lambda>v a b. val_paid (Suc n) v (Suc a) b)"
proof -
  let ?P = "paid (\<lambda>e. Suc (val_nodes (snd e))) (\<lambda>e. length (fst e) + val_bytes (snd e)) (\<lambda>e. val_height (snd e) \<le> n)"
  have "p_costs (case val_as_str key of None \<Rightarrow> p_some [] | Some k \<Rightarrow> p_try (obj vr) (\<lambda>v. p_some [(k, v)]))
      (\<lambda>y c d. ?P y (a + c) (b + d))" if key: "val_paid n key a b" for vr key a b
  proof (cases key)
    case (Val_Str k)
    with key have "1 \<le> a" "length k \<le> b" by (simp_all add: val_paid_def)
    then show ?thesis
      by (auto intro!: p_costs_try [OF assms] p_costs_simple(1) simp: Val_Str paid_def val_paid_def)
  qed (simp_all add: p_costs_simple paid_def)
  then have "p_costs (p_try (p_reference p body i) (\<lambda>kr. p_try (p_reference p body (count + i)) (\<lambda>vr. p_try (obj kr) (\<lambda>key.
      case val_as_str key of None \<Rightarrow> p_some [] | Some k \<Rightarrow> p_try (obj vr) (\<lambda>v. p_some [(k, v)]))))) ?P" for i
    by (intro p_costs_free_try [OF p_costs_free(4)] p_costs_try [OF assms])
  note loop = p_costs_for [OF this]
  show ?thesis unfolding p_dict_def
    by (auto intro!: p_costs_try [OF loop] p_costs_simple simp: paid_def val_paid_def foldr_max_le)
qed

lemma p_costs_object: "p_costs (p_object p n index) (val_paid n)"
proof (induction n arbitrary: index)
  case (Suc n)
  show ?case unfolding p_object.simps p_match_def Let_def
    by (rule p_costs_try [OF p_costs_spend(1)], clarify, rule p_costs_free_try [OF p_costs_free(2)], rule p_costs_opt_try)
      (auto intro!: p_costs_free_try [OF p_costs_free(3)] p_costs_free_try [OF p_costs_free(1)] p_costs_opt_try
        p_costs_leaf p_costs_array p_costs_dict Suc p_costs_simple simp: val_paid_atom)
qed (simp add: p_costs_simple)

lemma plist_parse_costs:
  assumes "plist_parse buf = P_Some v"
  shows "val_nodes v \<le> MAX_TOTAL_OBJECTS" "val_bytes v \<le> max (8 * length buf) MIN_BYTE_BUDGET"
    "val_height v \<le> MAX_DEPTH + 1"
proof -
  from assms obtain p root where "fst (p_object p (MAX_DEPTH + 1) root (plist_budget_of buf)) = P_Some v"
    unfolding plist_parse_def Let_def by (auto split: if_splits option.splits)
  then obtain s' where "p_object p (MAX_DEPTH + 1) root (plist_budget_of buf) = (P_Some v, s')"
    by (metis prod.collapse)
  with p_costs_object [of p "MAX_DEPTH + 1" root] have "val_paid (MAX_DEPTH + 1) v
      (pb_objects (plist_budget_of buf) - pb_objects s') (pb_bytes (plist_budget_of buf) - pb_bytes s')"
    unfolding p_costs_def by blast
  then have "val_nodes v \<le> pb_objects (plist_budget_of buf)" "val_bytes v \<le> pb_bytes (plist_budget_of buf)"
    "val_height v \<le> MAX_DEPTH + 1"
    by (auto simp: val_paid_def)
  then show "val_nodes v \<le> MAX_TOTAL_OBJECTS" "val_bytes v \<le> max (8 * length buf) MIN_BYTE_BUDGET"
    "val_height v \<le> MAX_DEPTH + 1"
    by (auto simp: plist_budget_of_def)
qed

section \<open>Reading back what was written\<close>

fun val_of :: "plist_value \<Rightarrow> plist_val" where
  "val_of (V_Str s) = Val_Str s"
| "val_of (V_Data d) = Val_Data d"
| "val_of (V_Bool b) = Val_Bool b"
| "val_of (V_Array vs) = Val_Array (map val_of vs)"
| "val_of (V_Dict es) = Val_Dict (map (\<lambda>e. (fst e, val_of (snd e))) es)"

text \<open>The object at \<open>i\<close> stands for a value, its parts standing after it.\<close>

inductive denotes :: "plist_node list \<Rightarrow> nat \<Rightarrow> plist_value \<Rightarrow> bool" for objs where
  bool: "i < length objs \<Longrightarrow> objs ! i = N_Bool b \<Longrightarrow> denotes objs i (V_Bool b)"
| str: "i < length objs \<Longrightarrow> objs ! i = N_Str s \<Longrightarrow> denotes objs i (V_Str s)"
| data: "i < length objs \<Longrightarrow> objs ! i = N_Data d \<Longrightarrow> denotes objs i (V_Data d)"
| array: "i < length objs \<Longrightarrow> objs ! i = N_Array ks \<Longrightarrow> list_all2 (\<lambda>k v. i < k \<and> denotes objs k v) ks vs \<Longrightarrow>
    denotes objs i (V_Array vs)"
| dict: "i < length objs \<Longrightarrow> objs ! i = N_Dict ks ls \<Longrightarrow>
    list_all2 (\<lambda>k e. i < k \<and> k < length objs \<and> objs ! k = N_Str (fst e)) ks es \<Longrightarrow>
    list_all2 (\<lambda>k e. i < k \<and> denotes objs k (snd e)) ls es \<Longrightarrow> denotes objs i (V_Dict es)"

lemma denotes_bound: "denotes objs i v \<Longrightarrow> i < length objs"
  by (induction rule: denotes.cases) auto

lemma denotes_mono:
  assumes "denotes objs i v" "\<And>j. i \<le> j \<Longrightarrow> j < length objs \<Longrightarrow> j < length objs' \<and> objs' ! j = objs ! j"
  shows "denotes objs' i v"
  using assms
proof (induction rule: denotes.induct)
  case (array i ks vs)
  have "list_all2 (\<lambda>k v. i < k \<and> denotes objs' k v) ks vs"
    using array(3) by (rule list_all2_mono) (use array(4) in auto)
  with array(1,2,4) show ?case by (intro denotes.array) auto
next
  case (dict i ks ls es)
  have "list_all2 (\<lambda>k e. i < k \<and> k < length objs' \<and> objs' ! k = N_Str (fst e)) ks es"
    using dict(3) by (rule list_all2_mono) (use dict(5) in auto)
  moreover have "list_all2 (\<lambda>k e. i < k \<and> denotes objs' k (snd e)) ls es"
    using dict(4) by (rule list_all2_mono) (use dict(5) in auto)
  ultimately show ?case using dict(1,2,5) by (intro denotes.dict) auto
qed (auto intro: denotes.intros)

fun node_bytes :: "plist_node \<Rightarrow> nat" where
  "node_bytes (N_Str s) = length s"
| "node_bytes (N_Data d) = length d"
| "node_bytes _ = 0"

lemma flatten_keys_eq: "flatten_keys ks out = ([length out..<length out + length ks], out @ map N_Str ks)"
proof (induction ks arbitrary: out)
  case (Cons k ks)
  have "[length out..<length out + length (k # ks)] = length out # [Suc (length out)..<length out + length (k # ks)]"
    by (rule upt_conv_Cons) simp
  with Cons show ?case by simp
qed simp

lemma sum_list_Suc: "sum_list (map (\<lambda>x. Suc (f x)) xs) = length xs + sum_list (map f xs)"
  by (induction xs) simp_all

text \<open>What \<open>flatten\<close> appends for a value, and for the items of a container.\<close>

lemma flatten_spec:
  "\<exists>ext. flatten v out = (length out, out @ ext) \<and> length ext = val_nodes (val_of v) \<and>
     sum_list (map node_bytes ext) = val_bytes (val_of v) \<and> denotes (out @ ext) (length out) v"
  "\<exists>ks ext. flatten_items vs out = (ks, out @ ext) \<and> length ext = sum_list (map (val_nodes \<circ> val_of) vs) \<and>
     sum_list (map node_bytes ext) = sum_list (map (val_bytes \<circ> val_of) vs) \<and>
     list_all2 (\<lambda>k v. length out \<le> k \<and> denotes (out @ ext) k v) ks vs"
proof (induction v out and vs out rule: flatten_flatten_items.induct)
  case (4 items out)
  then obtain ks ext where i: "flatten_items items (out @ [N_Array []]) = (ks, (out @ [N_Array []]) @ ext)"
    "length ext = sum_list (map (val_nodes \<circ> val_of) items)"
    "sum_list (map node_bytes ext) = sum_list (map (val_bytes \<circ> val_of) items)"
    "list_all2 (\<lambda>k v. length (out @ [N_Array []]) \<le> k \<and> denotes ((out @ [N_Array []]) @ ext) k v) ks items"
    by blast
  let ?ext = "N_Array ks # ext"
  have "list_all2 (\<lambda>k v. length out < k \<and> denotes (out @ ?ext) k v) ks items"
    using i(4) by (rule list_all2_mono) (auto elim!: denotes_mono simp: nth_append nth_Cons split: nat.splits)
  then have "denotes (out @ ?ext) (length out) (V_Array items)"
    by (intro denotes.array) auto
  with i(1-3) show ?case
    by (intro exI [of _ ?ext]) (simp add: list_update_append comp_def)
next
  case (5 entries out)
  let ?b = "out @ [N_Dict [] []]"
  let ?c = "?b @ map N_Str (map fst entries)"
  obtain ls ext where i: "flatten_items (map snd entries) ?c = (ls, ?c @ ext)"
    "length ext = sum_list (map (val_nodes \<circ> val_of) (map snd entries))"
    "sum_list (map node_bytes ext) = sum_list (map (val_bytes \<circ> val_of) (map snd entries))"
    "list_all2 (\<lambda>k v. length ?c \<le> k \<and> denotes (?c @ ext) k v) ls (map snd entries)"
    using "5.IH" [OF flatten_keys_eq [symmetric]] by blast
  let ?ks = "[length ?b..<length ?b + length entries]"
  let ?ext = "N_Dict ?ks ls # map N_Str (map fst entries) @ ext"
  have "list_all2 (\<lambda>k e. length out < k \<and> denotes (out @ ?ext) k (snd e)) ls entries"
    using i(4) unfolding list_all2_map2
    by (rule list_all2_mono) (auto elim!: denotes_mono simp: nth_append nth_Cons split: nat.splits)
  moreover have "list_all2 (\<lambda>k e. length out < k \<and> k < length (out @ ?ext) \<and> (out @ ?ext) ! k = N_Str (fst e)) ?ks entries"
    unfolding list_all2_conv_all_nth by (auto simp: nth_append nth_Cons less_Suc_eq split: nat.splits)
  ultimately have "denotes (out @ ?ext) (length out) (V_Dict entries)"
    by (intro denotes.dict) auto
  with i(1-3) show ?case
    by (intro exI [of _ ?ext])
      (simp add: flatten_keys_eq list_update_append comp_def sum_list_Suc sum_list_addf)
next
  case (7 v vs out)
  from "7.IH"(1) obtain e where e: "flatten v out = (length out, out @ e)" "length e = val_nodes (val_of v)"
    "sum_list (map node_bytes e) = val_bytes (val_of v)" "denotes (out @ e) (length out) v"
    by blast
  from "7.IH"(2) [OF e(1) [symmetric]] obtain ks f where f: "flatten_items vs (out @ e) = (ks, (out @ e) @ f)"
    "length f = sum_list (map (val_nodes \<circ> val_of) vs)"
    "sum_list (map node_bytes f) = sum_list (map (val_bytes \<circ> val_of) vs)"
    "list_all2 (\<lambda>k v. length (out @ e) \<le> k \<and> denotes ((out @ e) @ f) k v) ks vs"
    by blast
  have "denotes (out @ e @ f) (length out) v"
    using e(4) by (rule denotes_mono) (auto simp: nth_append)
  moreover have "list_all2 (\<lambda>k v. length out \<le> k \<and> denotes (out @ e @ f) k v) ks vs"
    using f(4) by (rule list_all2_mono) auto
  ultimately show ?case using e(1-3) f(1-3)
    by (intro exI [of _ "length out # ks"] exI [of _ "e @ f"]) (simp add: comp_def)
qed (auto intro!: denotes.intros)

text \<open>A reading with an exact price.\<close>

definition p_reads :: "'a plist_read \<Rightarrow> 'a \<Rightarrow> nat \<Rightarrow> nat \<Rightarrow> bool" where
  "p_reads m x a b \<longleftrightarrow>
     (\<forall>s. a \<le> pb_objects s \<longrightarrow> b \<le> pb_bytes s \<longrightarrow>
       m s = (P_Some x, s\<lparr>pb_objects := pb_objects s - a, pb_bytes := pb_bytes s - b\<rparr>))"

lemma p_reads_try: "p_reads m x a b \<Longrightarrow> p_reads (f x) y c d \<Longrightarrow> p_reads (p_try m f) y (a + c) (b + d)"
  by (simp add: p_reads_def p_try_def)

lemma p_try_some [simp]: "p_try (p_some x) f = f x"
  by (simp add: p_try_def p_some_def fun_eq_iff)

lemma p_opt_Some [simp]: "p_opt (Some x) = p_some x"
  by (simp add: p_opt_def)

lemma p_reads_some [simp]: "p_reads (p_some x) x 0 0"
  by (simp add: p_reads_def p_some_def)

lemma p_reads_spend: "p_reads spend_object () 1 0" "p_reads (spend_bytes n) () 0 n"
  by (auto simp: p_reads_def spend_object_def spend_bytes_def)

lemma p_reads_for:
  assumes "\<And>i. i \<in> set is \<Longrightarrow> p_reads (h i) [x i] (a i) (b i)"
  shows "p_reads (p_for h is) (map x is) (sum_list (map a is)) (sum_list (map b is))"
  using assms
proof (induction "is")
  case (Cons i "is")
  have "p_reads (p_try (p_for h is) (\<lambda>ys. p_some ([x i] @ ys))) (map x (i # is)) (sum_list (map a is)) (sum_list (map b is))"
    using Cons by (simp add: p_reads_def p_try_def p_some_def)
  moreover have "p_reads (h i) [x i] (a i) (b i)" using Cons.prems by simp
  ultimately show ?case using p_reads_try [of "h i" "[x i]" "a i" "b i" "\<lambda>xs. p_try (p_for h is) (\<lambda>ys. p_some (xs @ ys))"]
    by simp
qed simp

subsection \<open>Numbers and lengths\<close>

lemma length_write_uint [simp]: "length (write_uint v w) = w"
  by (simp add: write_uint_def)

lemma be_fold:
  "foldl (\<lambda>acc x. push_bit 8 acc OR ucast x) acc (write_uint v w) = push_bit (8 * w) acc OR take_bit (8 * w) v"
proof (induction w arbitrary: acc)
  case (Suc w)
  have "write_uint v (Suc w) = ucast (drop_bit (8 * w) v) # write_uint v w" by (simp add: write_uint_def)
  moreover have "push_bit (8 * w) (push_bit 8 acc OR ucast (ucast (drop_bit (8 * w) v) :: u8)) OR take_bit (8 * w) v =
    push_bit (8 * Suc w) acc OR take_bit (8 * Suc w) v"
    by (rule bit_word_eqI) (auto simp: bit_simps add.commute [of 8] less_diff_conv2 not_le not_less)
  ultimately show ?case using Suc by simp
qed (simp add: write_uint_def)

lemma be_write_uint: "unat v < 2 ^ (8 * w) \<Longrightarrow> be (write_uint v w) = v"
  unfolding be_def be_fold by (rule bit_word_eqI) (auto simp: bit_simps dest: bit_bound)

lemma be_write_nat: "k < 2 ^ (8 * w) \<Longrightarrow> w \<le> 8 \<Longrightarrow> unat (be (write_uint (word_of_nat k) w)) = k"
proof -
  assume k: "k < 2 ^ (8 * w)" "w \<le> 8"
  moreover from k(2) have "(2 :: nat) ^ (8 * w) \<le> 2 ^ 64" by (intro power_increasing) simp_all
  ultimately have "k < 2 ^ 64" by linarith
  then have u: "unat (word_of_nat k :: u64) = k" by (simp add: unat_of_nat)
  with be_write_uint [of "word_of_nat k" w] k show ?thesis by simp
qed

lemma byte_width_holds:
  assumes "m < usize_modulus"
  shows "m < 2 ^ (8 * byte_width (word_of_nat m))" "byte_width (word_of_nat m) \<in> {1, 2, 4, 8}"
  using assms by (auto simp: byte_width_def word_le_nat_alt unat_of_nat)

lemma marker_bits:
  fixes kind x :: u8
  assumes "kind AND 0x0F = 0" "unat x < 16"
  shows "drop_bit 4 (kind OR x) = drop_bit 4 kind" "(kind OR x) AND 0x0F = x"
proof -
  have x: "\<not> bit x n" if "4 \<le> n" for n using bit_bound [of x 4 n] assms(2) that by auto
  have m: "(0x0F :: u8) = mask 4" by (simp add: mask_eq_decr_exp)
  have k: "\<not> bit kind n" if "n < 4" for n
    using assms(1) that unfolding m by (metis bit_take_bit_iff take_bit_eq_mask bit_0_eq bot_apply bot_bool_def)
  show "drop_bit 4 (kind OR x) = drop_bit 4 kind" by (rule bit_word_eqI) (auto simp: bit_simps x)
  show "(kind OR x) AND 0x0F = x" unfolding m by (rule bit_word_eqI) (use k x in \<open>auto simp: bit_simps not_le [symmetric]\<close>)
qed

lemma p_slice_at:
  assumes "drop a (pp_buf p) = xs @ rest" "a \<le> length (pp_buf p)" "fits (pp_buf p)"
  shows "p_slice p a (length xs) = p_some xs"
proof -
  have "length (drop a (pp_buf p)) = length xs + length rest" using assms(1) by simp
  with assms(2) have "a + length xs \<le> length (pp_buf p)" by simp
  with assms show ?thesis by (simp add: p_slice_def get_range_def fits_def)
qed

lemma p_sized_escape:
  assumes "drop at (pp_buf p) = m # (0x10 OR word_of_nat l) # write_uint (word_of_nat k) (2 ^ l) @ rest"
    "fits (pp_buf p)" "l < 4" "k < 2 ^ (8 * 2 ^ l)"
  shows "p_sized p at 0x0F = p_some (k, at + 2 + 2 ^ l) \<and> drop (at + 2 + 2 ^ l) (pp_buf p) = rest \<and>
    at + 2 + 2 ^ l \<le> length (pp_buf p)"
proof -
  let ?n = "0x10 OR word_of_nat l :: u8"
  have "length (drop at (pp_buf p)) = 2 + 2 ^ l + length rest" using assms(1) by simp
  then have len: "at + 2 + 2 ^ l \<le> length (pp_buf p)" by simp
  have "drop (2 + at) (pp_buf p) = drop 2 (drop at (pp_buf p))" by simp
  then have d2: "drop (at + 2) (pp_buf p) = write_uint (word_of_nat k) (2 ^ l) @ rest"
    unfolding assms(1) by (simp add: add.commute)
  have "drop (2 ^ l + (at + 2)) (pp_buf p) = drop (2 ^ l) (drop (at + 2) (pp_buf p))" by (rule drop_drop [symmetric])
  then have d3: "drop (at + 2 + 2 ^ l) (pp_buf p) = rest"
    unfolding d2 by (simp add: add.commute)
  have "drop (at + 1) (pp_buf p) ! 0 = ?n"
    using arg_cong [OF assms(1), of "\<lambda>xs. drop 1 xs ! 0"] by (simp add: add.commute)
  then have g: "get_at (pp_buf p) (at + 1) = Some ?n" using len by (simp add: get_at_def)
  have l: "unat (word_of_nat l :: u8) = l" using assms(3) by (simp add: unat_of_nat)
  have w: "(2 :: nat) ^ l \<le> 8" using assms(3) power_increasing [of l 3 "2 :: nat"] by simp
  note b = marker_bits [of "0x10" "word_of_nat l", simplified l]
  have m1: "drop_bit 4 ?n = 1" using b(1) assms(3) by simp
  have "p_slice p (at + 2) (2 ^ l) = p_some (write_uint (word_of_nat k) (2 ^ l))"
    using p_slice_at [OF d2] len assms(2) by simp
  then have "p_sized p at 0x0F = p_some (k, at + 2 + 2 ^ l)"
    using b(2) assms(3) w assms(4) g l m1 by (simp add: p_sized_def Let_def be_write_nat)
  with d3 len show ?thesis by blast
qed

lemma write_marker_cases:
  assumes "len < 2 ^ 32"
  obtains "len < 15" "write_marker kind len = [kind OR word_of_nat len]"
  | l where "15 \<le> len" "l < 3" "len < 2 ^ (8 * 2 ^ l)"
      "write_marker kind len = (kind OR 0x0F) # (0x10 OR word_of_nat l) # write_uint (word_of_nat len) (2 ^ l)"
proof (cases "len < 15")
  case False
  have u: "unat (word_of_nat len :: u64) = len" using assms by (simp add: unat_of_nat)
  consider "len \<le> 0xFF" | "0xFF < len" "len \<le> 0xFFFF" | "0xFFFF < len" by linarith
  then show thesis
  proof cases
    case 1
    with False u show thesis by (intro that(2) [of 0]) (simp_all add: write_marker_def write_int_object_def word_le_nat_alt)
  next
    case 2
    with False u show thesis by (intro that(2) [of 1]) (simp_all add: write_marker_def write_int_object_def word_le_nat_alt)
  next
    case 3
    with False u assms show thesis by (intro that(2) [of 2]) (simp_all add: write_marker_def write_int_object_def word_le_nat_alt)
  qed
qed (use that(1) in \<open>simp add: write_marker_def\<close>)

text \<open>What follows a marker is found, with the length the marker was given.\<close>

lemma p_marker_at:
  assumes "drop at (pp_buf p) = write_marker kind len @ rest" "fits (pp_buf p)" "len < 2 ^ 32" "kind AND 0x0F = 0"
  obtains m body where "get_at (pp_buf p) at = Some m" "drop_bit 4 m = drop_bit 4 kind"
    "p_sized p at (unat (m AND 0x0F)) = p_some (len, body)" "drop body (pp_buf p) = rest"
    "body \<le> length (pp_buf p)"
proof (rule write_marker_cases [OF assms(3), of kind])
  assume s: "len < 15" "write_marker kind len = [kind OR word_of_nat len]"
  let ?m = "kind OR word_of_nat len"
  have u: "unat (word_of_nat len :: u8) = len" using s(1) by (simp add: unat_of_nat)
  from assms(1) s(2) have d: "drop at (pp_buf p) = ?m # rest" by simp
  then have at: "at < length (pp_buf p)" by (cases "at < length (pp_buf p)") auto
  with d have "pp_buf p ! at = ?m" "drop (at + 1) (pp_buf p) = rest" by (simp_all add: drop_eq_Cons)
  with marker_bits [OF assms(4), of "word_of_nat len"] u s(1) at show thesis
    by (intro that [of ?m "at + 1"]) (simp_all add: get_at_def p_sized_def)
next
  fix l
  assume s: "15 \<le> len" "l < 3" "len < 2 ^ (8 * 2 ^ l)"
    "write_marker kind len = (kind OR 0x0F) # (0x10 OR word_of_nat l) # write_uint (word_of_nat len) (2 ^ l)"
  have d: "drop at (pp_buf p) = (kind OR 0x0F) # (0x10 OR word_of_nat l) # write_uint (word_of_nat len) (2 ^ l) @ rest"
    using assms(1) s(4) by simp
  then have at: "at < length (pp_buf p)" by (cases "at < length (pp_buf p)") auto
  with d have g: "get_at (pp_buf p) at = Some (kind OR 0x0F)" by (simp add: drop_eq_Cons get_at_def)
  from s(2) have "l < 4" by simp
  from p_sized_escape [OF d assms(2) this s(3)] g marker_bits [of kind "0x0F", OF assms(4)] show thesis
    by (intro that [of "kind OR 0x0F" "at + 2 + 2 ^ l"]) simp_all
qed

lemma length_write_refs [simp]: "length (write_refs ks w) = length ks * w"
  by (induction ks) (simp_all add: write_refs_def)

lemma write_refs_at: "i < length ks \<Longrightarrow> \<exists>tl. drop (i * w) (write_refs ks w) = write_uint (word_of_nat (ks ! i)) w @ tl"
proof (induction ks arbitrary: i)
  case (Cons k ks)
  then show ?case by (cases i) (auto simp: write_refs_def)
qed simp

lemma drop_refs_at:
  assumes "drop a buf = write_refs ks w @ rest" "i < length ks" "a \<le> length buf"
  obtains tl where "drop (a + i * w) buf = write_uint (word_of_nat (ks ! i)) w @ tl" "a + i * w + w \<le> length buf"
proof -
  have le: "i * w + w \<le> length ks * w" using assms(2) by (metis mult_Suc add.commute Suc_leI mult_le_mono1)
  obtain tl where "drop (i * w) (write_refs ks w) = write_uint (word_of_nat (ks ! i)) w @ tl"
    using write_refs_at [OF assms(2)] by blast
  moreover have "drop (a + i * w) buf = drop (i * w) (write_refs ks w @ rest)"
    using assms(1) by (metis add.commute drop_drop)
  moreover have "length buf - a = length ks * w + length rest" using arg_cong [OF assms(1), of length] by simp
  ultimately show thesis using le assms(3) by (intro that [of "tl @ drop (i * w - length ks * w) rest"]) auto
qed

lemma p_reference_at:
  assumes "drop body (pp_buf p) = write_refs ks (pp_ref_size p) @ rest" "i < length ks" "body \<le> length (pp_buf p)"
    "fits (pp_buf p)" "ks ! i < 2 ^ (8 * pp_ref_size p)" "pp_ref_size p \<le> 8"
  shows "p_reference p body i = p_some (ks ! i)"
proof -
  let ?w = "pp_ref_size p"
  obtain tl where t: "drop (body + i * ?w) (pp_buf p) = write_uint (word_of_nat (ks ! i)) ?w @ tl"
    "body + i * ?w + ?w \<le> length (pp_buf p)"
    by (rule drop_refs_at [OF assms(1-3)])
  then have "p_slice p (body + i * ?w) ?w = p_some (write_uint (word_of_nat (ks ! i)) ?w)"
    using p_slice_at [OF t(1) _ assms(4)] by simp
  moreover have "checked_mul i ?w = Some (i * ?w)" "checked_add body (i * ?w) = Some (body + i * ?w)"
    using t(2) assms(4) by (simp_all add: checked_mul_def fits_def)
  ultimately show ?thesis using be_write_nat [OF assms(5,6)] by (simp add: p_reference_def del: checked_add_Some)
qed

lemma write_refs_append: "write_refs (ks @ ls) w = write_refs ks w @ write_refs ls w"
  by (simp add: write_refs_def)

subsection \<open>Objects in place\<close>

text \<open>Every object stands where the offset table says, in its written form.\<close>

definition laid :: "plist_parser \<Rightarrow> plist_node list \<Rightarrow> bool" where
  "laid p objs \<longleftrightarrow> pp_num_objects p = length objs \<and> length objs \<le> MAX_ELEMENTS \<and>
     length objs < 2 ^ (8 * pp_ref_size p) \<and> pp_ref_size p \<le> 8 \<and> fits (pp_buf p) \<and>
     (\<forall>i < length objs. \<exists>at rest. offset_of p i = p_some at \<and> at < length (pp_buf p) \<and>
        drop at (pp_buf p) = write_node (pp_ref_size p) (objs ! i) @ rest)"

lemma laid_at:
  assumes "laid p objs" "i < length objs"
  obtains at rest where "offset_of p i = p_some at" "drop at (pp_buf p) = write_node (pp_ref_size p) (objs ! i) @ rest"
    "at < length (pp_buf p)"
  using assms unfolding laid_def by blast

fun plist_ok :: "plist_value \<Rightarrow> bool" where
  "plist_ok (V_Str s) \<longleftrightarrow> utf8_valid s \<and> length s < 2 ^ 32"
| "plist_ok (V_Data d) \<longleftrightarrow> length d < 2 ^ 32"
| "plist_ok (V_Bool b) \<longleftrightarrow> True"
| "plist_ok (V_Array vs) \<longleftrightarrow> list_all plist_ok vs"
| "plist_ok (V_Dict es) \<longleftrightarrow> list_all (\<lambda>e. utf8_valid (fst e) \<and> length (fst e) < 2 ^ 32 \<and> plist_ok (snd e)) es"

lemma encode_length: "length (utf16_encode c) \<le> length (utf8_encode c)" "length (utf8_encode c) \<le> 3 * length (utf16_encode c)"
  by (auto simp: utf16_encode_def utf8_encode_def)

lemma encode_utf16_length:
  assumes "utf8_valid s"
  shows "length (encode_utf16 s) \<le> length s" "length s \<le> 3 * length (encode_utf16 s)"
proof -
  have "length (concat (map utf16_encode cs)) \<le> length (concat (map utf8_encode cs)) \<and>
    length (concat (map utf8_encode cs)) \<le> 3 * length (concat (map utf16_encode cs))" for cs
  proof (induction cs)
    case (Cons c cs)
    with encode_length [of c] show ?case by auto
  qed simp
  from this [of "chars s"] chars_valid [OF assms]
  show "length (encode_utf16 s) \<le> length s" "length s \<le> 3 * length (encode_utf16 s)"
    by (simp_all add: encode_utf16_def)
qed

lemma be_units_written [simp]: "be_units (concat (map u16_to_be_bytes us)) = us"
  by (induction us) (simp_all add: u16_to_be_bytes_def u16_be_roundtrip)

lemma length_units [simp]: "length (concat (map u16_to_be_bytes us)) = length us * 2"
  by (induction us) simp_all

text \<open>The steps every object of a laid-out document shares.\<close>

lemma p_reads_object:
  assumes "offset_of p i = p_some at" "get_at (pp_buf p) at = Some marker" "p_reads (p_match p (p_object p n) at marker) v a b"
  shows "p_reads (p_object p (Suc n) i) v (Suc a) b"
  using p_reads_try [of spend_object "()" 1 0 _ v a b] p_reads_spend(1) assms by simp

lemma p_reads_leaf:
  "p_reads (p_try (spend_bytes (length s)) (\<lambda>_. p_some v)) v 0 (length s)"
  using p_reads_try [OF p_reads_spend(2) p_reads_some, of "length s" "\<lambda>_. v"] by simp

lemma p_reads_data:
  assumes "laid p objs" "i < length objs" "objs ! i = N_Data d" "length d < 2 ^ 32"
  shows "p_reads (p_object p (Suc n) i) (Val_Data d) 1 (length d)"
proof -
  have f: "fits (pp_buf p)" using assms(1) by (simp add: laid_def)
  obtain at rest where o: "offset_of p i = p_some at" "drop at (pp_buf p) = write_marker 0x40 (length d) @ d @ rest"
    using laid_at [OF assms(1,2)] assms(3) by (metis write_node.simps(3) append_assoc)
  obtain m body where m: "get_at (pp_buf p) at = Some m" "drop_bit 4 m = drop_bit 4 0x40"
    "p_sized p at (unat (m AND 0x0F)) = p_some (length d, body)" "drop body (pp_buf p) = d @ rest"
    "body \<le> length (pp_buf p)"
    by (rule p_marker_at [OF o(2) f assms(4)]) simp_all
  have "p_reads (p_match p (p_object p n) at m) (Val_Data d) 0 (length d)"
    using m(2,3) p_reads_leaf p_slice_at [OF m(4,5) f] by (simp add: p_match_def Let_def)
  from p_reads_object [OF o(1) m(1) this] show ?thesis by simp
qed

lemma p_reads_str:
  assumes "laid p objs" "i < length objs" "objs ! i = N_Str s" "utf8_valid s" "length s < 2 ^ 32"
  shows "p_reads (p_object p (Suc n) i) (Val_Str s) 1 (length s)"
proof -
  have f: "fits (pp_buf p)" using assms(1) by (simp add: laid_def)
  obtain at rest where o: "offset_of p i = p_some at" "drop at (pp_buf p) = write_string s @ rest"
    using laid_at [OF assms(1,2)] assms(3) by (metis write_node.simps(2))
  show ?thesis
  proof (cases "is_ascii s")
    case True
    with o(2) have d: "drop at (pp_buf p) = write_marker 0x50 (length s) @ s @ rest" by (simp add: write_string_def)
    obtain m body where m: "get_at (pp_buf p) at = Some m" "drop_bit 4 m = drop_bit 4 0x50"
      "p_sized p at (unat (m AND 0x0F)) = p_some (length s, body)" "drop body (pp_buf p) = s @ rest"
      "body \<le> length (pp_buf p)"
      by (rule p_marker_at [OF d f assms(5)]) simp_all
    have "p_reads (p_match p (p_object p n) at m) (Val_Str s) 0 (length s)"
      using m(2,3) p_reads_leaf assms(4) p_slice_at [OF m(4,5) f] by (simp add: p_match_def Let_def)
    from p_reads_object [OF o(1) m(1) this] show ?thesis by simp
  next
    case False
    let ?u = "encode_utf16 s"
    let ?raw = "concat (map u16_to_be_bytes ?u)"
    from False o(2) have d: "drop at (pp_buf p) = write_marker 0x60 (length ?u) @ ?raw @ rest" by (simp add: write_string_def Let_def)
    have u: "length ?u < 2 ^ 32" using encode_utf16_length(1) [OF assms(4)] assms(5) by linarith
    obtain m body where m: "get_at (pp_buf p) at = Some m" "drop_bit 4 m = drop_bit 4 0x60"
      "p_sized p at (unat (m AND 0x0F)) = p_some (length ?u, body)" "drop body (pp_buf p) = ?raw @ rest"
      "body \<le> length (pp_buf p)"
      by (rule p_marker_at [OF d f u]) simp_all
    have "p_opt (checked_mul (length ?u) 2) = p_some (length ?raw)"
      using u by (simp add: checked_mul_def)
    then have "p_reads (p_match p (p_object p n) at m) (Val_Str s) 0 (length s)"
      using m(2,3) p_reads_leaf from_utf16_encode [OF assms(4)] p_slice_at [OF m(4,5) f] by (simp add: p_match_def Let_def)
    from p_reads_object [OF o(1) m(1) this] show ?thesis by simp
  qed
qed

lemma p_reads_for_list:
  assumes "length xs = count" "\<And>i. i < count \<Longrightarrow> p_reads (h i) [xs ! i] (f (xs ! i)) (g (xs ! i))"
  shows "p_reads (p_for h [0..<count]) xs (sum_list (map f xs)) (sum_list (map g xs))"
proof -
  have "xs = map ((!) xs) [0..<count]" using assms(1) by (metis map_nth)
  then have "map f xs = map (\<lambda>i. f (xs ! i)) [0..<count]" "map g xs = map (\<lambda>i. g (xs ! i)) [0..<count]"
    by (metis (mono_tags, lifting) comp_apply map_eq_conv map_map)+
  moreover have "p_reads (p_for h [0..<count]) (map ((!) xs) [0..<count])
    (sum_list (map (\<lambda>i. f (xs ! i)) [0..<count])) (sum_list (map (\<lambda>i. g (xs ! i)) [0..<count]))"
    by (rule p_reads_for) (use assms(2) in auto)
  ultimately show ?thesis using \<open>xs = _\<close> by simp
qed

lemma p_reads_wrap: "p_reads m x a b \<Longrightarrow> p_reads (p_try m (\<lambda>out. p_some (f out))) (f x) a b"
  using p_reads_try [of m x a b "\<lambda>out. p_some (f out)" "f x" 0 0] by simp

lemma laid_small: "laid p objs \<Longrightarrow> k < length objs \<Longrightarrow> k < 2 ^ (8 * pp_ref_size p)"
  by (simp add: laid_def)

lemma p_reads_array:
  assumes "laid p objs" "i < length objs" "objs ! i = N_Array ks" "length ks = length vs" "length vs \<le> MAX_ELEMENTS"
    "\<And>j. j < length vs \<Longrightarrow> ks ! j < length objs \<and>
      p_reads (p_object p n (ks ! j)) (val_of (vs ! j)) (val_nodes (val_of (vs ! j))) (val_bytes (val_of (vs ! j)))"
  shows "p_reads (p_object p (Suc n) i) (val_of (V_Array vs)) (val_nodes (val_of (V_Array vs))) (val_bytes (val_of (V_Array vs)))"
proof -
  have f: "fits (pp_buf p)" "pp_ref_size p \<le> 8" using assms(1) by (simp_all add: laid_def)
  obtain at rest where o: "offset_of p i = p_some at"
    "drop at (pp_buf p) = write_marker 0xA0 (length ks) @ write_refs ks (pp_ref_size p) @ rest"
    using laid_at [OF assms(1,2)] assms(3) by (metis write_node.simps(4) append_assoc)
  have small: "length ks < 2 ^ 32" using assms(4,5) by simp
  obtain m body where m: "get_at (pp_buf p) at = Some m" "drop_bit 4 m = drop_bit 4 0xA0"
    "p_sized p at (unat (m AND 0x0F)) = p_some (length ks, body)"
    "drop body (pp_buf p) = write_refs ks (pp_ref_size p) @ rest" "body \<le> length (pp_buf p)"
    by (rule p_marker_at [OF o(2) f(1) small]) simp_all
  let ?vs = "map val_of vs"
  have "p_reads (p_for (\<lambda>i. p_try (p_reference p body i) (\<lambda>r. p_try (p_object p n r) (\<lambda>v. p_some [v]))) [0..<length ks])
    ?vs (sum_list (map val_nodes ?vs)) (sum_list (map val_bytes ?vs))"
  proof (rule p_reads_for_list)
    fix j assume j: "j < length ks"
    with assms(4,6) have "ks ! j < length objs" by simp
    from p_reference_at [OF m(4) j m(5) f(1) laid_small [OF assms(1) this] f(2)] j assms(4,6)
    show "p_reads (p_try (p_reference p body j) (\<lambda>r. p_try (p_object p n r) (\<lambda>v. p_some [v])))
      [?vs ! j] (val_nodes (?vs ! j)) (val_bytes (?vs ! j))"
      by (simp add: p_reads_wrap [where f = "\<lambda>v. [v]"])
  qed (simp add: assms(4))
  from p_reads_wrap [OF this, of Val_Array] m(2,3) assms(4,5)
  have "p_reads (p_match p (p_object p n) at m) (Val_Array ?vs) (sum_list (map val_nodes ?vs)) (sum_list (map val_bytes ?vs))"
    by (simp add: p_match_def p_array_def Let_def)
  from p_reads_object [OF o(1) m(1) this] show ?thesis by simp
qed

lemma p_reads_entry:
  assumes "p_reads (obj kr) (Val_Str k) 1 (length k)" "p_reads (obj vr) v a b"
  shows "p_reads (p_try (obj kr) (\<lambda>key. case val_as_str key of None \<Rightarrow> p_some []
    | Some k \<Rightarrow> p_try (obj vr) (\<lambda>v. p_some [(k, v)]))) [(k, v)] (Suc a) (length k + b)"
proof -
  have "p_reads (case val_as_str (Val_Str k) of None \<Rightarrow> p_some [] | Some k \<Rightarrow> p_try (obj vr) (\<lambda>v. p_some [(k, v)])) [(k, v)] a b"
    using p_reads_wrap [OF assms(2), of "\<lambda>v. [(k, v)]"] by simp
  from p_reads_try [OF assms(1), of "\<lambda>key. case val_as_str key of None \<Rightarrow> p_some []
    | Some k \<Rightarrow> p_try (obj vr) (\<lambda>v. p_some [(k, v)])", OF this] show ?thesis by simp
qed

lemma p_reads_dict:
  assumes "laid p objs" "i < length objs" "objs ! i = N_Dict ks ls" "length ks = length es" "length ls = length es"
    "length es \<le> MAX_ELEMENTS"
    "\<And>j. j < length es \<Longrightarrow> ks ! j < length objs \<and> ls ! j < length objs \<and>
      p_reads (p_object p n (ks ! j)) (Val_Str (fst (es ! j))) 1 (length (fst (es ! j))) \<and>
      p_reads (p_object p n (ls ! j)) (val_of (snd (es ! j))) (val_nodes (val_of (snd (es ! j)))) (val_bytes (val_of (snd (es ! j))))"
  shows "p_reads (p_object p (Suc n) i) (val_of (V_Dict es)) (val_nodes (val_of (V_Dict es))) (val_bytes (val_of (V_Dict es)))"
proof -
  have f: "fits (pp_buf p)" "pp_ref_size p \<le> 8" using assms(1) by (simp_all add: laid_def)
  obtain at rest where o: "offset_of p i = p_some at"
    "drop at (pp_buf p) = write_marker 0xD0 (length ks) @ write_refs (ks @ ls) (pp_ref_size p) @ rest"
    using laid_at [OF assms(1,2)] assms(3) by (metis write_node.simps(5) append_assoc write_refs_append)
  have small: "length ks < 2 ^ 32" using assms(4,6) by simp
  obtain m body where m: "get_at (pp_buf p) at = Some m" "drop_bit 4 m = drop_bit 4 0xD0"
    "p_sized p at (unat (m AND 0x0F)) = p_some (length ks, body)"
    "drop body (pp_buf p) = write_refs (ks @ ls) (pp_ref_size p) @ rest" "body \<le> length (pp_buf p)"
    by (rule p_marker_at [OF o(2) f(1) small]) simp_all
  let ?es = "map (\<lambda>e. (fst e, val_of (snd e))) es"
  let ?loop = "\<lambda>i. p_try (p_reference p body i) (\<lambda>kr. p_try (p_reference p body (length ks + i)) (\<lambda>vr.
    p_try (p_object p n kr) (\<lambda>key. case val_as_str key of None \<Rightarrow> p_some []
      | Some k \<Rightarrow> p_try (p_object p n vr) (\<lambda>v. p_some [(k, v)]))))"
  have ref: "p_reference p body j = p_some ((ks @ ls) ! j)" if "j < length (ks @ ls)" "(ks @ ls) ! j < length objs" for j
    by (rule p_reference_at [OF m(4) that(1) m(5) f(1) laid_small [OF assms(1) that(2)] f(2)])
  have "p_reads (p_for ?loop [0..<length ks]) ?es
    (sum_list (map (\<lambda>e. Suc (val_nodes (snd e))) ?es)) (sum_list (map (\<lambda>e. length (fst e) + val_bytes (snd e)) ?es))"
  proof (rule p_reads_for_list)
    fix j assume j: "j < length ks"
    with assms(4,5,7) have "p_reference p body j = p_some (ks ! j)" "p_reference p body (length ks + j) = p_some (ls ! j)"
      using ref [of j] ref [of "length ks + j"] by (simp_all add: nth_append)
    with j assms(4,7) show "p_reads (?loop j) [?es ! j] (Suc (val_nodes (snd (?es ! j)))) (length (fst (?es ! j)) + val_bytes (snd (?es ! j)))"
      by (simp add: p_reads_entry)
  qed (simp add: assms(4))
  from p_reads_wrap [OF this, of Val_Dict] m(2,3) assms(4,6)
  have "p_reads (p_match p (p_object p n) at m) (Val_Dict ?es)
    (sum_list (map (\<lambda>e. Suc (val_nodes (snd e))) ?es)) (sum_list (map (\<lambda>e. length (fst e) + val_bytes (snd e)) ?es))"
    by (simp add: p_match_def p_dict_def Let_def)
  from p_reads_object [OF o(1) m(1) this] show ?thesis by simp
qed

lemma p_reads_bool:
  assumes "laid p objs" "i < length objs" "objs ! i = N_Bool b"
  shows "p_reads (p_object p (Suc n) i) (Val_Bool b) 1 0"
proof -
  obtain at rest where o: "offset_of p i = p_some at" "drop at (pp_buf p) = (if b then 0x09 else 0x08) # rest" "at < length (pp_buf p)"
    using laid_at [OF assms(1,2)] assms(3) by (metis write_node.simps(1) append_Cons append_Nil)
  then have "get_at (pp_buf p) at = Some (if b then 0x09 else 0x08)" by (simp add: drop_eq_Cons get_at_def)
  moreover have "p_reads (p_match p (p_object p n) at (if b then 0x09 else 0x08)) (Val_Bool b) 0 0"
    by (simp add: p_match_def Let_def)
  ultimately show ?thesis using p_reads_object [OF o(1)] by simp
qed

lemma foldr_max_mem: "x \<in> set xs \<Longrightarrow> f x \<le> foldr max (map f xs) (0 :: nat)"
  by (induction xs) auto

lemma val_pos: "1 \<le> val_height v" "1 \<le> val_nodes v"
  by (induction v rule: val_height.induct) auto

lemma sum_list_mem: "x \<in> set xs \<Longrightarrow> f x \<le> sum_list (map f xs)" for f :: "'a \<Rightarrow> nat"
  by (simp add: member_le_sum_list)

lemma sum_list_length: "(\<And>x. 1 \<le> f x) \<Longrightarrow> length xs \<le> sum_list (map f xs)" for f :: "'a \<Rightarrow> nat"
proof (induction xs)
  case (Cons x xs)
  from Cons.prems [of x] Cons.IH [OF Cons.prems] show ?case by simp
qed simp

lemma p_reads_value:
  assumes "denotes objs i v" "laid p objs" "plist_ok v" "val_height (val_of v) \<le> n" "val_nodes (val_of v) \<le> MAX_ELEMENTS"
  shows "p_reads (p_object p n i) (val_of v) (val_nodes (val_of v)) (val_bytes (val_of v))"
  using assms
proof (induction arbitrary: n rule: denotes.induct)
  case (bool i b)
  then show ?case by (cases n) (auto intro: p_reads_bool [OF _ _ bool(2), simplified])
next
  case (str i s)
  then show ?case by (cases n) (auto intro: p_reads_str [OF _ _ str(2), simplified])
next
  case (data i d)
  then show ?case by (cases n) (auto intro: p_reads_data [OF _ _ data(2), simplified])
next
  case (array i ks vs)
  then obtain m where n: "n = Suc m" by (cases n) auto
  have len: "length ks = length vs" using array.IH by (rule list_all2_lengthD)
  have "length vs \<le> sum_list (map (\<lambda>v. val_nodes (val_of v)) vs)" by (rule sum_list_length) (rule val_pos)
  with array.prems(4) have small: "length vs \<le> MAX_ELEMENTS" by (simp add: comp_def)
  show ?case unfolding n
  proof (rule p_reads_array [OF array.prems(1) array.hyps len small])
    fix j assume j: "j < length vs"
    then have mem: "vs ! j \<in> set vs" by simp
    have ih: "denotes objs (ks ! j) (vs ! j)" "laid p objs \<Longrightarrow> plist_ok (vs ! j) \<Longrightarrow> val_height (val_of (vs ! j)) \<le> m \<Longrightarrow>
      val_nodes (val_of (vs ! j)) \<le> MAX_ELEMENTS \<Longrightarrow> p_reads (p_object p m (ks ! j)) (val_of (vs ! j)) (val_nodes (val_of (vs ! j))) (val_bytes (val_of (vs ! j)))"
      using list_all2_nthD2 [OF array.IH j] by blast+
    have "val_height (val_of (vs ! j)) \<le> m" "val_nodes (val_of (vs ! j)) \<le> MAX_ELEMENTS" "plist_ok (vs ! j)"
      using array.prems(2-4) n foldr_max_mem [OF mem, of "\<lambda>v. val_height (val_of v)"]
        sum_list_mem [OF mem, of "\<lambda>v. val_nodes (val_of v)"] mem by (auto simp: comp_def list_all_iff)
    with ih array.prems(1) show "ks ! j < length objs \<and> p_reads (p_object p m (ks ! j)) (val_of (vs ! j))
      (val_nodes (val_of (vs ! j))) (val_bytes (val_of (vs ! j)))"
      using denotes_bound by blast
  qed
next
  case (dict i ks ls es)
  then obtain m where n: "n = Suc m" by (cases n) auto
  have len: "length ks = length es" "length ls = length es" using dict.hyps(3) dict.IH by (auto dest: list_all2_lengthD)
  have "length es \<le> sum_list (map (\<lambda>e. Suc (val_nodes (val_of (snd e)))) es)" by (rule sum_list_length) simp
  with dict.prems(4) have small: "length es \<le> MAX_ELEMENTS" by (simp add: comp_def)
  show ?case unfolding n
  proof (rule p_reads_dict [OF dict.prems(1) dict.hyps(1,2) len small])
    fix j assume j: "j < length es"
    then have mem: "es ! j \<in> set es" by simp
    let ?v = "snd (es ! j)"
    have key: "ks ! j < length objs" "objs ! (ks ! j) = N_Str (fst (es ! j))"
      using list_all2_nthD2 [OF dict.hyps(3) j] by blast+
    have ih: "denotes objs (ls ! j) ?v" "laid p objs \<Longrightarrow> plist_ok ?v \<Longrightarrow> val_height (val_of ?v) \<le> m \<Longrightarrow>
      val_nodes (val_of ?v) \<le> MAX_ELEMENTS \<Longrightarrow> p_reads (p_object p m (ls ! j)) (val_of ?v) (val_nodes (val_of ?v)) (val_bytes (val_of ?v))"
      using list_all2_nthD2 [OF dict.IH j] by blast+
    have h: "val_height (val_of ?v) \<le> m" "val_nodes (val_of ?v) \<le> MAX_ELEMENTS" "plist_ok ?v"
      "utf8_valid (fst (es ! j))" "length (fst (es ! j)) < 2 ^ 32"
      using dict.prems(2-4) n foldr_max_mem [OF mem, of "\<lambda>e. val_height (val_of (snd e))"]
        sum_list_mem [OF mem, of "\<lambda>e. Suc (val_nodes (val_of (snd e)))"] mem by (auto simp: comp_def list_all_iff)
    from h(1) val_pos(1) [of "val_of ?v"] obtain m' where "m = Suc m'" by (cases m) auto
    with p_reads_str [OF dict.prems(1) key h(4,5)] ih h dict.prems(1) key(1)
    show "ks ! j < length objs \<and> ls ! j < length objs \<and>
      p_reads (p_object p m (ks ! j)) (Val_Str (fst (es ! j))) 1 (length (fst (es ! j))) \<and>
      p_reads (p_object p m (ls ! j)) (val_of ?v) (val_nodes (val_of ?v)) (val_bytes (val_of ?v))"
      using denotes_bound by blast
  qed
qed

subsection \<open>The whole document\<close>

lemma write_nodes_eq:
  "write_nodes w ns out offs =
     (out @ concat (map (write_node w) ns),
      offs @ map (\<lambda>i. length out + length (concat (map (write_node w) (take i ns)))) [0..<length ns])"
proof (induction ns arbitrary: out offs)
  case (Cons n ns)
  have "[0..<length (n # ns)] = 0 # map Suc [0..<length ns]"
    by (metis length_Cons map_Suc_upt upt_conv_Cons zero_less_Suc)
  with Cons show ?case by (simp add: comp_def)
qed simp

lemma write_marker_nonempty [simp]: "write_marker k n \<noteq> []"
  by (simp add: write_marker_def)

lemma write_node_nonempty: "write_node w n \<noteq> []"
  by (cases n) (simp_all add: write_string_def Let_def)

fun node_ok :: "plist_node \<Rightarrow> bool" where
  "node_ok (N_Str s) = utf8_valid s"
| "node_ok _ = True"

lemma write_node_bytes: "node_ok n \<Longrightarrow> node_bytes n \<le> 2 * length (write_node w n)"
  using encode_utf16_length(2) by (cases n) (fastforce simp: write_string_def Let_def)+

lemma list_all_update: "list_all P xs \<Longrightarrow> P x \<Longrightarrow> list_all P (xs[i := x])"
  unfolding list_all_iff using set_update_subset_insert by fastforce

lemma flatten_ok:
  "plist_ok v \<Longrightarrow> list_all node_ok out \<Longrightarrow> list_all node_ok (snd (flatten v out))"
  "list_all plist_ok vs \<Longrightarrow> list_all node_ok out \<Longrightarrow> list_all node_ok (snd (flatten_items vs out))"
proof (induction v out and vs out rule: flatten_flatten_items.induct)
  case (5 entries out)
  have "list_all plist_ok (map snd entries)" "list_all node_ok (out @ N_Dict [] [] # map N_Str (map fst entries))"
    using 5(2,3) by (auto simp: list_all_iff)
  with 5(1) [OF flatten_keys_eq [symmetric]] show ?case
    by (auto simp: flatten_keys_eq split: prod.splits intro!: list_all_update)
qed (auto split: prod.splits intro!: list_all_update)

lemma sum_list_bytes:
  "list_all node_ok ns \<Longrightarrow> sum_list (map node_bytes ns) \<le> 2 * length (concat (map (write_node w) ns))"
proof (induction ns)
  case (Cons n ns)
  then show ?case using write_node_bytes [of n w] by simp
qed simp

text \<open>The bytes of a document, part by part.\<close>

lemma plist_encode_parts:
  fixes v :: plist_value
  defines "objs \<equiv> snd (flatten v [])"
  defines "w \<equiv> byte_width (word_of_nat (length objs))"
  defines "body \<equiv> concat (map (write_node w) objs)"
  defines "start \<equiv> 8 + length body"
  defines "ow \<equiv> byte_width (word_of_nat start)"
  defines "offs \<equiv> map (\<lambda>i. 8 + length (concat (map (write_node w) (take i objs)))) [0..<length objs]"
  shows "plist_encode v = bplist00 @ body @ write_refs offs ow @ [0, 0, 0, 0, 0, 0, word_of_nat ow, word_of_nat w] @
    write_uint (word_of_nat (length objs)) 8 @ write_uint 0 8 @ write_uint (word_of_nat start) 8"
proof -
  have m: "length bplist00 = 8" and len: "length (bplist00 @ body) = start" by (simp_all add: start_def)
  have wn: "write_nodes w objs bplist00 [] = (bplist00 @ body, offs)"
    unfolding write_nodes_eq m body_def offs_def by simp
  have "replicate 5 (0 :: u8) = [0, 0, 0, 0, 0]" by (simp add: numeral_eq_Suc)
  then show ?thesis
    unfolding plist_encode_def Let_def objs_def [symmetric] w_def [symmetric] wn prod.case len ow_def [symmetric] by simp
qed

lemma concat_split: "i < length xs \<Longrightarrow> concat xs = concat (take i xs) @ xs ! i @ concat (drop (Suc i) xs)"
  by (metis concat.simps(2) concat_append id_take_nth_drop)

lemma drop_magic: "drop (8 + n) (bplist00 @ xs) = drop n xs"
  using drop_drop [of n 8 "bplist00 @ xs"] by (simp add: add.commute)

lemma laid_document:
  fixes objs :: "plist_node list"
  defines "w \<equiv> byte_width (word_of_nat (length objs))"
  defines "body \<equiv> concat (map (write_node w) objs)"
  defines "start \<equiv> 8 + length body"
  defines "ow \<equiv> byte_width (word_of_nat start)"
  defines "offs \<equiv> map (\<lambda>i. 8 + length (concat (map (write_node w) (take i objs)))) [0..<length objs]"
  assumes buf: "buf = bplist00 @ body @ write_refs offs ow @ rest" and "fits buf" "length objs \<le> MAX_ELEMENTS"
  shows "laid \<lparr>pp_buf = buf, pp_table_start = start, pp_offset_size = ow, pp_ref_size = w, pp_num_objects = length objs\<rparr> objs"
proof -
  let ?p = "\<lparr>pp_buf = buf, pp_table_start = start, pp_offset_size = ow, pp_ref_size = w, pp_num_objects = length objs\<rparr>"
  have "length objs < usize_modulus" using assms(8) by simp
  from byte_width_holds [OF this] have w: "length objs < 2 ^ (8 * w)" "w \<le> 8" by (auto simp: w_def)
  have st: "start \<le> length buf" by (simp add: buf start_def)
  with assms(7) have "start < usize_modulus" by (simp add: fits_def)
  from byte_width_holds [OF this] have ow: "start < 2 ^ (8 * ow)" "ow \<le> 8" by (auto simp: ow_def)
  have "\<exists>at tl. offset_of ?p i = p_some at \<and> at < length buf \<and> drop at buf = write_node w (objs ! i) @ tl"
    if i: "i < length objs" for i
  proof -
    let ?pre = "concat (map (write_node w) (take i objs))"
    let ?at = "8 + length ?pre"
    have b: "body = ?pre @ write_node w (objs ! i) @ concat (map (write_node w) (drop (Suc i) objs))"
      unfolding body_def using concat_split [of i "map (write_node w) objs"] i by (simp add: take_map drop_map)
    have off: "offs ! i = ?at" "i < length offs" using i by (simp_all add: offs_def)
    have "?at < start" using write_node_nonempty [of w "objs ! i"] by (simp add: start_def b)
    then have at: "?at < length buf" "?at < 2 ^ (8 * ow)" using st ow(1) by linarith+
    have "length (bplist00 @ body) = start" by (simp add: start_def)
    then have d: "drop start buf = write_refs offs ow @ rest"
      unfolding buf by (metis append_assoc append_eq_conv_conj)
    obtain tl where t: "drop (start + i * ow) buf = write_uint (word_of_nat (offs ! i)) ow @ tl" "start + i * ow + ow \<le> length buf"
      by (rule drop_refs_at [OF d off(2) st])
    have "p_slice ?p (start + i * ow) ow = p_some (write_uint (word_of_nat ?at) ow)"
      using p_slice_at [of "start + i * ow" ?p "write_uint (word_of_nat (offs ! i)) ow" tl] t assms(7)
      unfolding off(1) [symmetric] by simp
    then have "offset_of ?p i = p_some ?at"
      using i be_write_nat [OF at(2) ow(2)] at(1) by (simp add: offset_of_def)
    moreover have "drop ?at buf = write_node w (objs ! i) @ concat (map (write_node w) (drop (Suc i) objs)) @ write_refs offs ow @ rest"
      unfolding buf b drop_magic by simp
    ultimately show ?thesis using at(1) by blast
  qed
  with w assms(7,8) show ?thesis by (simp add: laid_def)
qed

text \<open>A parser set up from a well-formed trailer.\<close>

lemma plist_parse_trailer:
  assumes "buf = bplist00 @ mid @ [0, 0, 0, 0, 0, 0, word_of_nat ow, word_of_nat w] @
      write_uint (word_of_nat n) 8 @ write_uint 0 8 @ write_uint (word_of_nat start) 8"
    and "1 \<le> ow" "ow \<le> 8" "1 \<le> w" "w \<le> 8" "0 < n" "n \<le> MAX_ELEMENTS" "start + n * ow \<le> length buf" "fits buf"
  shows "plist_parse buf = fst (p_object \<lparr>pp_buf = buf, pp_table_start = start, pp_offset_size = ow, pp_ref_size = w,
    pp_num_objects = n\<rparr> (MAX_DEPTH + 1) 0 (plist_budget_of buf))"
proof -
  let ?h = "[0, 0, 0, 0, 0, 0, word_of_nat ow, word_of_nat w] :: bytes"
  let ?a = "write_uint (word_of_nat n) 8" and ?b = "write_uint 0 8" and ?c = "write_uint (word_of_nat start) 8"
  define t where "t = ?h @ ?a @ ?b @ ?c"
  have bt: "buf = (bplist00 @ mid) @ t" and lt: "length t = 32" by (simp_all add: assms(1) t_def)
  then have d: "drop (length buf - 32) buf = t"
    by (metis add_diff_cancel_right' append_eq_conv_conj length_append)
  have len: "\<not> length buf < 40" using bt lt by simp
  have magic: "take 8 buf = bplist00" by (simp add: assms(1))
  have d8: "drop 8 t = ?a @ ?b @ ?c" by (simp add: t_def)
  then have d16: "drop 16 t = ?b @ ?c" using drop_drop [of 8 8 t] by simp
  then have d24: "drop 24 t = ?c" using drop_drop [of 8 16 t] by simp
  have st: "start < usize_modulus" "n * ow < usize_modulus" "start + n * ow < usize_modulus"
    using assms(8,9) by (simp_all add: fits_def)
  have nums: "unat (be (take 8 (drop 8 t))) = n" "unat (be (take 8 (drop 16 t))) = 0" "unat (be (take 8 (drop 24 t))) = start"
    using be_write_nat [of n 8] be_write_nat [of 0 8] be_write_nat [of start 8] st assms(7) by (simp_all add: d8 d16 d24)
  have "t ! 6 = word_of_nat ow" "t ! 7 = word_of_nat w" by (simp_all add: t_def)
  then have widths: "unat (t ! 6) = ow" "unat (t ! 7) = w" using assms(3,5) by (simp_all add: unat_of_nat)
  have "checked_mul n ow = Some (n * ow)" "checked_add start (n * ow) = Some (start + n * ow)"
    using st by (simp_all add: checked_mul_def)
  with assms(2-8) len magic show ?thesis
    by (simp add: plist_parse_def Let_def d nums widths del: checked_add_Some)
qed

lemma plist_roundtrip_aux:
  assumes "plist_ok v" "val_height (val_of v) \<le> MAX_DEPTH + 1" "val_nodes (val_of v) \<le> MAX_ELEMENTS" "fits (plist_encode v)"
  shows "plist_parse (plist_encode v) = P_Some (val_of v)"
proof -
  define objs where "objs = snd (flatten v [])"
  define w where "w = byte_width (word_of_nat (length objs))"
  define body where "body = concat (map (write_node w) objs)"
  define start where "start = 8 + length body"
  define ow where "ow = byte_width (word_of_nat start)"
  define offs where "offs = map (\<lambda>i. 8 + length (concat (map (write_node w) (take i objs)))) [0..<length objs]"
  define trailer where "trailer = [0, 0, 0, 0, 0, 0, word_of_nat ow, word_of_nat w] @
    write_uint (word_of_nat (length objs)) 8 @ write_uint 0 8 @ write_uint (word_of_nat start) 8"
  define buf where "buf = plist_encode v"
  note defs = objs_def w_def body_def start_def ow_def offs_def
  have buf: "buf = bplist00 @ body @ write_refs offs ow @ trailer"
    unfolding buf_def plist_encode_parts trailer_def defs by simp
  obtain ext where e: "flatten v [] = (0, ext)" "length ext = val_nodes (val_of v)"
    "sum_list (map node_bytes ext) = val_bytes (val_of v)" "denotes ext 0 v"
    using flatten_spec(1) [of v "[]"] by auto
  then have o: "objs = ext" by (simp add: objs_def)
  have n: "length objs \<le> MAX_ELEMENTS" "0 < length objs" using e(2) assms(3) val_pos(2) [of "val_of v"] by (simp_all add: o)
  let ?p = "\<lparr>pp_buf = buf, pp_table_start = start, pp_offset_size = ow, pp_ref_size = w, pp_num_objects = length objs\<rparr>"
  have "laid ?p objs"
    using laid_document [of buf objs trailer] buf assms(4) n(1) by (simp add: defs buf_def)
  from p_reads_value [OF e(4) this [unfolded o] assms(1-3)]
  have reads: "p_reads (p_object ?p (MAX_DEPTH + 1) 0) (val_of v) (val_nodes (val_of v)) (val_bytes (val_of v))" by (simp add: o)
  have "sum_list (map node_bytes objs) \<le> 2 * length body"
    unfolding body_def using flatten_ok(1) [OF assms(1), of "[]"] by (intro sum_list_bytes) (simp add: objs_def)
  then have "val_bytes (val_of v) \<le> 2 * length buf" by (simp add: buf e(3) [symmetric] o)
  with assms(4) have "val_bytes (val_of v) \<le> pb_bytes (plist_budget_of buf)" "val_nodes (val_of v) \<le> pb_objects (plist_budget_of buf)"
    using assms(3) by (simp_all add: plist_budget_of_def buf_def fits_def)
  with reads have run: "fst (p_object ?p (MAX_DEPTH + 1) 0 (plist_budget_of buf)) = P_Some (val_of v)"
    unfolding p_reads_def by simp
  have "start < usize_modulus" "length objs < usize_modulus"
    using assms(4) n(1) buf by (simp_all add: start_def fits_def buf_def [symmetric])
  from byte_width_holds(2) [OF this(1)] byte_width_holds(2) [OF this(2)] have "1 \<le> ow" "ow \<le> 8" "1 \<le> w" "w \<le> 8"
    by (auto simp: ow_def w_def)
  moreover have "start + length objs * ow \<le> length buf" by (simp add: buf start_def offs_def)
  ultimately show ?thesis
    using plist_parse_trailer [of buf "body @ write_refs offs ow" ow w "length objs" start] buf n assms(4) run
    by (simp add: trailer_def buf_def)
qed

section \<open>Properties\<close>

text \<open>
  C24: every value whose strings are UTF-8, whose leaves are shorter than 4 GiB, that is at most 17 levels
  deep and has at most 4096 objects is read back from the document \<open>encode\<close> writes for it, strings
  that are not ASCII through UTF-16, shared budgets and reference widths included.
\<close>

theorem plist_roundtrip:
  assumes "plist_ok v" "val_height (val_of v) \<le> MAX_DEPTH + 1" "val_nodes (val_of v) \<le> MAX_ELEMENTS" "fits (plist_encode v)"
  shows "plist_parse (plist_encode v) = P_Some (val_of v)"
  by (rule plist_roundtrip_aux [OF assms])

abbreviation (input) sample_discover :: plist_value where
  "sample_discover \<equiv> V_Dict [([0x41], V_Array [V_Bool True, V_Data [1, 2]]), ([0x42], V_Str [0xC3, 0xA9])]"

lemma sample_discover_ok:
  "plist_ok sample_discover" "val_height (val_of sample_discover) \<le> MAX_DEPTH + 1"
  "val_nodes (val_of sample_discover) \<le> MAX_ELEMENTS" "fits (plist_encode sample_discover)"
proof -
  have "utf8_valid [0x41]" "utf8_valid [0x42]" "utf8_valid [0xC3, 0xA9]" by code_simp+
  then show "plist_ok sample_discover" by simp
  have "utf8_char [0xC3, 0xA9] = (True, 2)" by code_simp
  then have "chars [0xC3, 0xA9] = [0xE9]"
    by (subst chars.simps) (simp add: chars.simps utf8_scalar_def byte_at_def)
  then have "encode_utf16 [0xC3, 0xA9] = [0xE9]" by (simp add: encode_utf16_def utf16_encode_def)
  then have "length (plist_encode sample_discover) < 200"
    by (simp add: plist_encode_def Let_def byte_width_def write_marker_def write_refs_def write_string_def is_ascii_def
      write_uint_def)
  then show "fits (plist_encode sample_discover)" by (simp add: fits_def)
qed simp_all

theorem plist_roundtrip_witness:
  "plist_parse (plist_encode sample_discover) =
     P_Some (Val_Dict [([0x41], Val_Array [Val_Bool True, Val_Data [1, 2]]), ([0x42], Val_Str [0xC3, 0xA9])])"
  using plist_roundtrip [OF sample_discover_ok] by simp

text \<open>
  C25: whatever a stranger sends, a value that \<open>parse\<close> returns is at most 17 levels deep, has at most 100000
  objects, and its strings and data together hold at most eight bytes per byte received or 256 KiB,
  however often the document refers to one object.
\<close>

theorem plist_bounded:
  assumes "plist_parse buf = P_Some v"
  shows "val_height v \<le> MAX_DEPTH + 1 \<and> val_nodes v \<le> MAX_TOTAL_OBJECTS \<and>
    val_bytes v \<le> max (8 * length buf) (256 * 1024)"
  using plist_parse_costs [OF assms] by simp

theorem plist_bounded_witness:
  "val_bytes (val_of sample_discover) \<le> max (8 * length (plist_encode sample_discover)) (256 * 1024)"
  using plist_bounded [OF plist_roundtrip_aux [OF sample_discover_ok]] by simp

text \<open>A one-object document whose data leaf claims \<open>2\<^sup>6\<^sup>4 - 1\<close> bytes.\<close>

definition hostile_length :: bytes where
  "hostile_length = bplist00 @ ([0x4F, 0x13] @ write_uint 0xFFFFFFFFFFFFFFFF 8 @ [8]) @ [0, 0, 0, 0, 0, 0, word_of_nat 1, word_of_nat 1] @
     write_uint (word_of_nat 1) 8 @ write_uint 0 8 @ write_uint (word_of_nat 18) 8"

text \<open>
  A length is added to the position of its body before it is compared with the buffer, so a
  51-byte document that claims \<open>2\<^sup>6\<^sup>4 - 1\<close> bytes makes \<open>parse\<close> panic instead of returning \<open>None\<close>.
\<close>

theorem plist_length_overflow: "plist_parse hostile_length = P_Panic \<and> length hostile_length = 51"
proof -
  let ?p = "\<lparr>pp_buf = hostile_length, pp_table_start = 18, pp_offset_size = 1, pp_ref_size = 1, pp_num_objects = 1\<rparr>"
  have len: "length hostile_length = 51" by (simp add: hostile_length_def)
  have parse: "plist_parse hostile_length = fst (p_object ?p (MAX_DEPTH + 1) 0 (plist_budget_of hostile_length))"
    by (rule plist_parse_trailer [OF hostile_length_def]) (simp_all add: len fits_def)
  have "offset_of ?p 0 = p_some 8"
  proof -
    have "drop 18 hostile_length = [8] @ drop 19 hostile_length" by code_simp
    then have "p_slice ?p 18 1 = p_some [8]" using p_slice_at [of 18 ?p "[8]"] len by (simp add: fits_def)
    moreover have "be [8] = 8" by code_simp
    ultimately show ?thesis by (simp add: offset_of_def len)
  qed
  moreover have "get_at hostile_length 8 = Some 0x4F" by code_simp
  moreover have "p_sized ?p 8 15 = p_some (18446744073709551615, 18)"
  proof -
    have "drop 8 hostile_length = 0x4F # (0x10 OR word_of_nat 3) # write_uint (word_of_nat 18446744073709551615) (2 ^ 3) @ drop 18 hostile_length"
      by (simp add: hostile_length_def)
    with p_sized_escape [of 8 ?p "0x4F" 3 18446744073709551615 "drop 18 hostile_length"] len show ?thesis
      by (simp add: fits_def)
  qed
  moreover have "p_slice ?p 18 18446744073709551615 = p_panic" by (simp add: p_slice_def)
  ultimately have "fst (p_object ?p (Suc n) 0 (plist_budget_of hostile_length)) = P_Panic" for n
    by (simp add: p_match_def Let_def p_try_def spend_object_def plist_budget_of_def p_some_def p_opt_def p_panic_def)
  from this [of 16] parse len show ?thesis by simp
qed

end
