(* ===== verification/Netlink.thy ===== *)
theory Netlink
  imports Rust_Std "HOL-Library.Multiset"
begin

text \<open>
  The netlink messages of the Wi-Fi daemon: \<open>src/src/route.rs\<close> (the link-local route, the routing rule
  and the search for a VPN kill-switch) and \<open>src/src/nl80211.rs\<close> (the frequency of the association). The
  kernel is an argument: a function from a message and the kernel's state to its answer. What is shown
  of it is stated for a kernel that adds and deletes rules as netlink documents.
\<close>

section \<open>Attributes\<close>

text \<open>The target is little-endian, so that is what \<open>to_ne_bytes\<close> gives.\<close>

definition u16_to_ne_bytes :: "u16 \<Rightarrow> bytes" where
  "u16_to_ne_bytes w = [ucast w, ucast (drop_bit 8 w)]"

definition u32_to_ne_bytes :: "u32 \<Rightarrow> bytes" where
  "u32_to_ne_bytes w = [ucast w, ucast (drop_bit 8 w), ucast (drop_bit 16 w), ucast (drop_bit 24 w)]"

definition u16_from_ne_bytes :: "u8 \<Rightarrow> u8 \<Rightarrow> u16" where
  "u16_from_ne_bytes a b = u16_from_be_bytes b a"

definition u32_from_ne_bytes :: "u8 \<Rightarrow> u8 \<Rightarrow> u8 \<Rightarrow> u8 \<Rightarrow> u32" where
  "u32_from_ne_bytes a b c d = u32_from_be_bytes d c b a"

lemma length_to_ne_bytes [simp]: "length (u16_to_ne_bytes w) = 2" "length (u32_to_ne_bytes v) = 4"
  by (simp_all add: u16_to_ne_bytes_def u32_to_ne_bytes_def)

lemma ne_roundtrip [simp]:
  "u16_from_ne_bytes (ucast w) (ucast (drop_bit 8 w)) = w"
  "u32_from_ne_bytes (ucast v) (ucast (drop_bit 8 v)) (ucast (drop_bit 16 v)) (ucast (drop_bit 24 v)) = v"
  by (simp_all add: u16_from_ne_bytes_def u32_from_ne_bytes_def cast_simps)

definition align4 :: "nat \<Rightarrow> nat" where
  "align4 n = (n + 3) div 4 * 4"

text \<open>\<open>buf.resize(n, 0)\<close>.\<close>

definition resize :: "nat \<Rightarrow> bytes \<Rightarrow> bytes" where
  "resize n buf = take n buf @ replicate (n - length buf) 0"

definition put_attr :: "bytes \<Rightarrow> u16 \<Rightarrow> bytes \<Rightarrow> bytes" where
  "put_attr buf ty payload =
     (let out = buf @ u16_to_ne_bytes (word_of_nat (4 + length payload)) @ u16_to_ne_bytes ty @ payload in
      resize (align4 (length out)) out)"

function find_attr_at :: "bytes \<Rightarrow> u16 \<Rightarrow> nat \<Rightarrow> bytes option" where
  "find_attr_at buf want off =
     (if off + 4 \<le> length buf then
        let len = unat (u16_from_ne_bytes (buf ! off) (buf ! (off + 1)));
            ty = u16_from_ne_bytes (buf ! (off + 2)) (buf ! (off + 3)) in
        if len < 4 \<or> length buf < off + len then None
        else if ty = want then Some (take (len - 4) (drop (off + 4) buf))
        else find_attr_at buf want (off + align4 len)
      else None)"
  by pat_completeness auto
termination
  by (relation "measure (\<lambda>(buf, want, off). length buf - off)") (auto simp: align4_def)

declare find_attr_at.simps [simp del]

definition find_attr :: "bytes \<Rightarrow> u16 \<Rightarrow> bytes option" where
  "find_attr buf want = find_attr_at buf want 0"

section \<open>Requests to the kernel\<close>

abbreviation (input) RTM_NEWROUTE :: u16 where "RTM_NEWROUTE \<equiv> 24"
abbreviation (input) RTM_NEWRULE :: u16 where "RTM_NEWRULE \<equiv> 32"
abbreviation (input) RTM_DELRULE :: u16 where "RTM_DELRULE \<equiv> 33"
abbreviation (input) NLM_F_REQUEST :: u16 where "NLM_F_REQUEST \<equiv> 0x01"
abbreviation (input) NLM_F_ACK :: u16 where "NLM_F_ACK \<equiv> 0x04"
abbreviation (input) NLM_F_EXCL :: u16 where "NLM_F_EXCL \<equiv> 0x200"
abbreviation (input) NLM_F_CREATE :: u16 where "NLM_F_CREATE \<equiv> 0x400"
abbreviation (input) NLMSG_ERROR :: u16 where "NLMSG_ERROR \<equiv> 0x2"
abbreviation (input) RTPROT_STATIC :: u8 where "RTPROT_STATIC \<equiv> 4"
abbreviation (input) RT_SCOPE_LINK :: u8 where "RT_SCOPE_LINK \<equiv> 253"
abbreviation (input) RTN_UNICAST :: u8 where "RTN_UNICAST \<equiv> 1"
abbreviation (input) RT_TABLE_UNSPEC :: u8 where "RT_TABLE_UNSPEC \<equiv> 0"
abbreviation (input) RTA_DST :: u16 where "RTA_DST \<equiv> 1"
abbreviation (input) RTA_OIF :: u16 where "RTA_OIF \<equiv> 4"
abbreviation (input) RTA_TABLE :: u16 where "RTA_TABLE \<equiv> 15"
abbreviation (input) FRA_PRIORITY :: u16 where "FRA_PRIORITY \<equiv> 6"
abbreviation (input) FRA_TABLE :: u16 where "FRA_TABLE \<equiv> 15"
abbreviation (input) FRA_OIFNAME :: u16 where "FRA_OIFNAME \<equiv> 17"
abbreviation (input) FRA_UID_RANGE :: u16 where "FRA_UID_RANGE \<equiv> 20"
abbreviation (input) FR_ACT_TO_TBL :: u8 where "FR_ACT_TO_TBL \<equiv> 1"
abbreviation (input) RULE_PRIORITY_EXEMPT :: u32 where "RULE_PRIORITY_EXEMPT \<equiv> 13500"
abbreviation (input) RULE_PRIORITY_PLAIN :: u32 where "RULE_PRIORITY_PLAIN \<equiv> 15500"
abbreviation (input) RULE_PRIORITIES :: "u32 list" where "RULE_PRIORITIES \<equiv> [RULE_PRIORITY_EXEMPT, RULE_PRIORITY_PLAIN]"
abbreviation (input) AF_INET6 :: u8 where "AF_INET6 \<equiv> 10"
abbreviation (input) EEXIST :: u32 where "EEXIST \<equiv> 17"

record nl_msg_hdr =
  nh_len :: u32
  nh_ty :: u16
  nh_flags :: u16
  nh_seq :: u32
  nh_pid :: u32

definition hdr_bytes :: "nl_msg_hdr \<Rightarrow> bytes" where
  "hdr_bytes h = u32_to_ne_bytes (nh_len h) @ u16_to_ne_bytes (nh_ty h) @ u16_to_ne_bytes (nh_flags h) @
     u32_to_ne_bytes (nh_seq h) @ u32_to_ne_bytes (nh_pid h)"

record rt_msg =
  rt_family :: u8
  rt_dst_len :: u8
  rt_src_len :: u8
  rt_tos :: u8
  rt_table :: u8
  rt_protocol :: u8
  rt_scope :: u8
  rt_ty :: u8
  rt_flags :: u32

definition rt_default :: rt_msg where
  "rt_default = \<lparr>rt_family = 0, rt_dst_len = 0, rt_src_len = 0, rt_tos = 0, rt_table = 0, rt_protocol = 0,
     rt_scope = 0, rt_ty = 0, rt_flags = 0\<rparr>"

definition rt_bytes :: "rt_msg \<Rightarrow> bytes" where
  "rt_bytes m = [rt_family m, rt_dst_len m, rt_src_len m, rt_tos m, rt_table m, rt_protocol m, rt_scope m, rt_ty m] @
     u32_to_ne_bytes (rt_flags m)"

datatype nl_error = Nl_Os u32 | Nl_Bad_Name | Nl_No_User | Nl_Not_Found | Nl_Other | Nl_Panic

text \<open>
  The system the daemon runs on. \<open>sys_netlink\<close> is \<open>socket\<close>, \<open>sendto\<close> and \<open>recv\<close> on one routing socket: the
  error number of the call that failed, or the datagram that answers. \<open>sys_genl\<close> is the same on a
  generic netlink socket, and \<open>sys_dump\<close> a dump request with the datagrams that \<open>recv\<close> returns in turn;
  after the last of them \<open>recv\<close> runs into its timeout.
\<close>

record 'k sys =
  sys_index :: "rstring \<Rightarrow> 'k \<Rightarrow> u32"
  sys_uid :: "'k \<Rightarrow> u32 option"
  sys_netlink :: "bytes \<Rightarrow> 'k \<Rightarrow> (u32 + bytes) \<times> 'k"
  sys_genl :: "bytes \<Rightarrow> 'k \<Rightarrow> (u32 + bytes) \<times> 'k"
  sys_dump :: "bytes \<Rightarrow> 'k \<Rightarrow> u32 + (u32 + bytes) list"

definition nl_request :: "u16 \<Rightarrow> bytes \<Rightarrow> u16 \<Rightarrow> bytes" where
  "nl_request msg_ty body flags =
     hdr_bytes \<lparr>nh_len = word_of_nat (16 + length body), nh_ty = msg_ty, nh_flags = flags, nh_seq = 1, nh_pid = 0\<rparr> @ body"

text \<open>
  The verdict on the answer, which \<open>recv\<close> cuts to the 512 bytes of its buffer. Error numbers are small,
  so that their negation stays inside \<open>i32\<close>.
\<close>

definition nl_verdict :: "bytes \<Rightarrow> nl_error + unit" where
  "nl_verdict answer =
     (let resp = take 512 answer in
      if length resp < 20 then Inr ()
      else if u16_from_ne_bytes (resp ! 4) (resp ! 5) = NLMSG_ERROR then
        let err = u32_from_ne_bytes (resp ! 16) (resp ! 17) (resp ! 18) (resp ! 19) in
        if err = 0 then Inr ()
        else if - err = EEXIST then Inr ()
        else Inl (Nl_Os (- err))
      else Inr ())"

definition send_nl_flags :: "'k sys \<Rightarrow> u16 \<Rightarrow> bytes \<Rightarrow> u16 \<Rightarrow> 'k \<Rightarrow> (nl_error + unit) \<times> 'k" where
  "send_nl_flags sys msg_ty body flags k =
     (case sys_netlink sys (nl_request msg_ty body flags) k of
        (Inl e, k') \<Rightarrow> (Inl (Nl_Os e), k')
      | (Inr answer, k') \<Rightarrow> (nl_verdict answer, k'))"

definition send_nl :: "'k sys \<Rightarrow> u16 \<Rightarrow> bytes \<Rightarrow> 'k \<Rightarrow> (nl_error + unit) \<times> 'k" where
  "send_nl sys msg_ty body = send_nl_flags sys msg_ty body (NLM_F_REQUEST OR NLM_F_CREATE OR NLM_F_EXCL OR NLM_F_ACK)"

definition index_of :: "'k sys \<Rightarrow> rstring \<Rightarrow> 'k \<Rightarrow> nl_error + u32" where
  "index_of sys iface k =
     (if 0 \<in> set iface then Inl Nl_Bad_Name
      else let idx = sys_index sys iface k in
        if idx = 0 then Inl Nl_Other else Inr idx)"

definition table_id :: "'k sys \<Rightarrow> rstring \<Rightarrow> 'k \<Rightarrow> u32" where
  "table_id sys iface k = (if 0 \<in> set iface then 0 else sys_index sys iface k)"

definition sharing_uid :: "'k sys \<Rightarrow> 'k \<Rightarrow> nl_error + u32" where
  "sharing_uid sys k = ok_or Nl_No_User (sys_uid sys k)"

definition rt_start :: "rt_msg \<Rightarrow> bytes" where
  "rt_start rt = resize (align4 (length (rt_bytes rt))) (rt_bytes rt)"

definition link_local_body :: "u32 \<Rightarrow> bytes" where
  "link_local_body idx =
     put_attr (put_attr (put_attr
       (rt_start (rt_default\<lparr>rt_family := AF_INET6, rt_dst_len := 64, rt_table := RT_TABLE_UNSPEC,
          rt_protocol := RTPROT_STATIC, rt_scope := RT_SCOPE_LINK, rt_ty := RTN_UNICAST\<rparr>))
       RTA_DST ([0xFE, 0x80] @ replicate 14 0))
       RTA_OIF (u32_to_ne_bytes idx))
       RTA_TABLE (u32_to_ne_bytes idx)"

definition add_link_local :: "'k sys \<Rightarrow> rstring \<Rightarrow> 'k \<Rightarrow> (nl_error + unit) \<times> 'k" where
  "add_link_local sys iface k =
     (case index_of sys iface k of
        Inl e \<Rightarrow> (Inl e, k)
      | Inr idx \<Rightarrow> send_nl sys RTM_NEWROUTE (link_local_body idx) k)"

definition rule_start :: bytes where
  "rule_start = rt_start (rt_default\<lparr>rt_family := AF_INET6, rt_table := RT_TABLE_UNSPEC, rt_ty := FR_ACT_TO_TBL\<rparr>)"

definition del_rule_body :: "u32 \<Rightarrow> bytes" where
  "del_rule_body priority = put_attr rule_start FRA_PRIORITY (u32_to_ne_bytes priority)"

definition del_rule_at :: "'k sys \<Rightarrow> u32 \<Rightarrow> 'k \<Rightarrow> (nl_error + unit) \<times> 'k" where
  "del_rule_at sys priority k =
     send_nl_flags sys RTM_DELRULE (del_rule_body priority) (NLM_F_REQUEST OR NLM_F_ACK) k"

text \<open>\<open>for _ in 0..n\<close>, left when a deletion fails: how many rules it took out.\<close>

primrec sweep_at :: "'k sys \<Rightarrow> u32 \<Rightarrow> nat \<Rightarrow> 'k \<Rightarrow> nat \<times> 'k" where
  "sweep_at sys p 0 k = (0, k)"
| "sweep_at sys p (Suc n) k =
     (case del_rule_at sys p k of
        (Inl _, k') \<Rightarrow> (0, k')
      | (Inr _, k') \<Rightarrow> (case sweep_at sys p n k' of (removed, k'') \<Rightarrow> (Suc removed, k'')))"

primrec sweep :: "'k sys \<Rightarrow> u32 list \<Rightarrow> 'k \<Rightarrow> nat \<times> 'k" where
  "sweep sys [] k = (0, k)"
| "sweep sys (p # ps) k =
     (case sweep_at sys p 8 k of (a, k') \<Rightarrow> (case sweep sys ps k' of (b, k'') \<Rightarrow> (a + b, k'')))"

definition add_rule_body :: "rstring \<Rightarrow> u32 \<Rightarrow> u32 \<Rightarrow> u32 \<Rightarrow> bytes" where
  "add_rule_body iface idx priority uid =
     put_attr (put_attr (put_attr (put_attr rule_start
       FRA_OIFNAME (iface @ [0]))
       FRA_TABLE (u32_to_ne_bytes idx))
       FRA_PRIORITY (u32_to_ne_bytes priority))
       FRA_UID_RANGE (u32_to_ne_bytes uid @ u32_to_ne_bytes uid)"

definition add_rule :: "'k sys \<Rightarrow> rstring \<Rightarrow> bool \<Rightarrow> 'k \<Rightarrow> (nl_error + unit) \<times> 'k" where
  "add_rule sys iface exempt k =
     (case index_of sys iface k of
        Inl e \<Rightarrow> (Inl e, k)
      | Inr idx \<Rightarrow>
        let priority = if exempt then RULE_PRIORITY_EXEMPT else RULE_PRIORITY_PLAIN;
            k' = snd (sweep sys RULE_PRIORITIES k) in
        case sharing_uid sys k' of
          Inl e \<Rightarrow> (Inl e, k')
        | Inr uid \<Rightarrow> send_nl sys RTM_NEWRULE (add_rule_body iface idx priority uid) k')"

definition remove_rule :: "'k sys \<Rightarrow> 'k \<Rightarrow> (nl_error + unit) \<times> 'k" where
  "remove_rule sys k =
     (case sweep sys RULE_PRIORITIES k of
        (removed, k') \<Rightarrow> (if removed = 0 then Inl Nl_Not_Found else Inr (), k'))"

section \<open>Is a kill-switch in force\<close>

abbreviation (input) RTM_GETRULE :: u16 where "RTM_GETRULE \<equiv> 34"
abbreviation (input) NLM_F_ROOT :: u16 where "NLM_F_ROOT \<equiv> 0x100"
abbreviation (input) NLM_F_MATCH :: u16 where "NLM_F_MATCH \<equiv> 0x200"
abbreviation (input) NLM_F_DUMP :: u16 where "NLM_F_DUMP \<equiv> NLM_F_ROOT OR NLM_F_MATCH"
abbreviation (input) NLMSG_DONE :: u16 where "NLMSG_DONE \<equiv> 3"
abbreviation (input) FR_ACT_PROHIBIT :: u8 where "FR_ACT_PROHIBIT \<equiv> 8"

text \<open>The inner loop over one datagram: a verdict, or \<open>None\<close> for the next \<open>recv\<close>.\<close>

function scan_dump :: "bytes \<Rightarrow> nat \<Rightarrow> (nl_error + bool) option" where
  "scan_dump buf off =
     (if off + 16 \<le> length buf then
        let len = unat (u32_from_ne_bytes (buf ! off) (buf ! (off + 1)) (buf ! (off + 2)) (buf ! (off + 3)));
            ty = u16_from_ne_bytes (buf ! (off + 4)) (buf ! (off + 5)) in
        if len < 16 \<or> length buf < off + len then Some (Inr False)
        else if ty = NLMSG_DONE then Some (Inr False)
        else if ty = NLMSG_ERROR then Some (Inl Nl_Other)
        else if off + 16 + 8 \<le> length buf \<and> buf ! (off + 16 + 7) = FR_ACT_PROHIBIT then Some (Inr True)
        else scan_dump buf (off + align4 len)
      else None)"
  by pat_completeness auto
termination
  by (relation "measure (\<lambda>(buf, off). length buf - off)") (auto simp: align4_def)

declare scan_dump.simps [simp del]

fun scan_dumps :: "(u32 + bytes) list \<Rightarrow> nl_error + bool" where
  "scan_dumps [] = Inl Nl_Other"
| "scan_dumps (Inl e # ds) = Inl (Nl_Os e)"
| "scan_dumps (Inr d # ds) =
     (case scan_dump (take 32768 d) 0 of Some v \<Rightarrow> v | None \<Rightarrow> scan_dumps ds)"

definition dump_request :: bytes where
  "dump_request = nl_request RTM_GETRULE (replicate 12 0) (NLM_F_REQUEST OR NLM_F_DUMP)"

definition probe_prohibit_rule :: "'k sys \<Rightarrow> 'k \<Rightarrow> nl_error + bool" where
  "probe_prohibit_rule sys k =
     (case sys_dump sys dump_request k of
        Inl e \<Rightarrow> Inl (Nl_Os e)
      | Inr ds \<Rightarrow> scan_dumps ds)"

definition lockdown_active :: "'k sys \<Rightarrow> 'k \<Rightarrow> bool" where
  "lockdown_active sys k = (case probe_prohibit_rule sys k of Inr found \<Rightarrow> found | Inl e \<Rightarrow> True)"

section \<open>The frequency of the association\<close>

abbreviation (input) GENL_ID_CTRL :: u16 where "GENL_ID_CTRL \<equiv> 16"
abbreviation (input) CTRL_CMD_GETFAMILY :: u8 where "CTRL_CMD_GETFAMILY \<equiv> 3"
abbreviation (input) CTRL_ATTR_FAMILY_ID :: u16 where "CTRL_ATTR_FAMILY_ID \<equiv> 1"
abbreviation (input) CTRL_ATTR_FAMILY_NAME :: u16 where "CTRL_ATTR_FAMILY_NAME \<equiv> 2"
abbreviation (input) NL80211_CMD_GET_INTERFACE :: u8 where "NL80211_CMD_GET_INTERFACE \<equiv> 5"
abbreviation (input) NL80211_ATTR_IFINDEX :: u16 where "NL80211_ATTR_IFINDEX \<equiv> 3"
abbreviation (input) NL80211_ATTR_WIPHY_FREQ :: u16 where "NL80211_ATTR_WIPHY_FREQ \<equiv> 38"
abbreviation (input) NLMSG_HDR_LEN :: nat where "NLMSG_HDR_LEN \<equiv> 16"
abbreviation (input) GENL_HDR_LEN :: nat where "GENL_HDR_LEN \<equiv> 4"

definition genl_message :: "u16 \<Rightarrow> u8 \<Rightarrow> bytes \<Rightarrow> bytes" where
  "genl_message family cmd body =
     u32_to_ne_bytes (word_of_nat (NLMSG_HDR_LEN + GENL_HDR_LEN + length body)) @ u16_to_ne_bytes family @
     u16_to_ne_bytes NLM_F_REQUEST @ u32_to_ne_bytes 1 @ u32_to_ne_bytes 0 @ [cmd, 1] @ u16_to_ne_bytes 0 @ body"

definition genl_request :: "'k sys \<Rightarrow> u16 \<Rightarrow> u8 \<Rightarrow> bytes \<Rightarrow> 'k \<Rightarrow> (nl_error + bytes) \<times> 'k" where
  "genl_request sys family cmd body k =
     (case sys_genl sys (genl_message family cmd body) k of
        (Inl e, k') \<Rightarrow> (Inl (Nl_Os e), k')
      | (Inr answer, k') \<Rightarrow>
        (let resp = take 8192 answer in
         if length resp < NLMSG_HDR_LEN then (Inl Nl_Other, k')
         else if u16_from_ne_bytes (resp ! 4) (resp ! 5) = NLMSG_ERROR then
           (if length resp < 20 then Inl Nl_Panic
            else let e = u32_from_ne_bytes (resp ! 16) (resp ! 17) (resp ! 18) (resp ! 19) in
              if e = 0 then Inl Nl_Other else Inl (Nl_Os (- e)), k')
         else (Inr resp, k')))"

text \<open>\<open>&resp[20..]\<close>, which panics on a shorter answer.\<close>

definition genl_attrs :: "bytes \<Rightarrow> nl_error + bytes" where
  "genl_attrs resp = (if length resp < NLMSG_HDR_LEN + GENL_HDR_LEN then Inl Nl_Panic else Inr (drop 20 resp))"

definition nl80211_family :: "'k sys \<Rightarrow> 'k \<Rightarrow> (nl_error + u16) \<times> 'k" where
  "nl80211_family sys k =
     (case genl_request sys GENL_ID_CTRL CTRL_CMD_GETFAMILY (put_attr [] CTRL_ATTR_FAMILY_NAME (str ''nl80211'' @ [0])) k of
        (Inl e, k') \<Rightarrow> (Inl e, k')
      | (Inr resp, k') \<Rightarrow>
        (and_then (genl_attrs resp) (\<lambda>attrs.
           case find_attr attrs CTRL_ATTR_FAMILY_ID of
             Some v \<Rightarrow> if 2 \<le> length v then Inr (u16_from_ne_bytes (v ! 0) (v ! 1)) else Inl Nl_Other
           | None \<Rightarrow> Inl Nl_Other), k'))"

definition frequency_of_tuned :: "'k sys \<Rightarrow> rstring \<Rightarrow> 'k \<Rightarrow> (nl_error + u32) \<times> 'k" where
  "frequency_of_tuned sys iface k =
     (case index_of sys iface k of
        Inl e \<Rightarrow> (Inl e, k)
      | Inr idx \<Rightarrow>
        (case nl80211_family sys k of
           (Inl e, k') \<Rightarrow> (Inl e, k')
         | (Inr family, k') \<Rightarrow>
           (case genl_request sys family NL80211_CMD_GET_INTERFACE (put_attr [] NL80211_ATTR_IFINDEX (u32_to_ne_bytes idx)) k' of
              (Inl e, k'') \<Rightarrow> (Inl e, k'')
            | (Inr resp, k'') \<Rightarrow>
              (and_then (genl_attrs resp) (\<lambda>attrs.
                 case find_attr attrs NL80211_ATTR_WIPHY_FREQ of
                   Some v \<Rightarrow> if 4 \<le> length v then Inr (u32_from_ne_bytes (v ! 0) (v ! 1) (v ! 2) (v ! 3)) else Inr 0
                 | None \<Rightarrow> Inr 0), k''))))"

section \<open>Attributes round trip\<close>

lemma align4_simps: "align4 n mod 4 = 0" "n \<le> align4 n" "align4 n < n + 4" "n mod 4 = 0 \<Longrightarrow> align4 n = n"
proof -
  show "align4 n mod 4 = 0" "n \<le> align4 n" "align4 n < n + 4" by (simp_all add: align4_def)
  show "n mod 4 = 0 \<Longrightarrow> align4 n = n" unfolding align4_def by presburger
qed

lemma align4_add: "m mod 4 = 0 \<Longrightarrow> align4 (m + n) = m + align4 n"
  unfolding align4_def by presburger

definition attr_bytes :: "u16 \<Rightarrow> bytes \<Rightarrow> bytes" where
  "attr_bytes ty payload =
     u16_to_ne_bytes (word_of_nat (4 + length payload)) @ u16_to_ne_bytes ty @ payload @
     replicate (align4 (4 + length payload) - (4 + length payload)) 0"

lemma length_attr_bytes: "length (attr_bytes ty p) = align4 (4 + length p)"
  using align4_simps(2) [of "4 + length p"] by (simp add: attr_bytes_def)

lemma resize_grow: "length buf \<le> n \<Longrightarrow> resize n buf = buf @ replicate (n - length buf) 0"
  by (simp add: resize_def)

lemma put_attr_bytes:
  assumes "length buf mod 4 = 0"
  shows "put_attr buf ty p = buf @ attr_bytes ty p"
proof -
  let ?out = "buf @ u16_to_ne_bytes (word_of_nat (4 + length p)) @ u16_to_ne_bytes ty @ p"
  have len: "length ?out = length buf + (4 + length p)" by simp
  have "put_attr buf ty p = ?out @ replicate (align4 (length ?out) - length ?out) 0"
    unfolding put_attr_def Let_def by (rule resize_grow) (rule align4_simps(2))
  then show ?thesis unfolding len align4_add [OF assms] by (simp add: attr_bytes_def)
qed

lemma length_mod_attr [simp]: "length buf mod 4 = 0 \<Longrightarrow> length (buf @ attr_bytes ty p) mod 4 = 0"
  using align4_simps(1) by (simp add: length_attr_bytes mod_add_eq [symmetric])

lemma find_attr_shift: "find_attr_at (xs @ buf) want (length xs + off) = find_attr_at buf want off"
proof (induction buf want off rule: find_attr_at.induct)
  case (1 buf want off)
  then show ?case
    unfolding find_attr_at.simps [of "xs @ buf" want "length xs + off"] find_attr_at.simps [of buf want off]
    by (simp add: Let_def nth_append add.assoc)
qed

lemma find_attr_Nil [simp]: "find_attr [] want = None"
  by (simp add: find_attr_def find_attr_at.simps)

lemma find_attr_step:
  assumes "4 + length p < 65536"
  shows "find_attr (attr_bytes ty p @ rest) want = (if ty = want then Some p else find_attr rest want)"
proof -
  let ?n = "4 + length p"
  let ?b = "attr_bytes ty p @ rest"
  have u: "unat (word_of_nat ?n :: u16) = ?n" using assms by (simp add: unat_of_nat del: of_nat_add of_nat_numeral)
  have le: "?n \<le> length (attr_bytes ty p)" using align4_simps(2) by (simp add: length_attr_bytes)
  have b: "?b = [ucast (word_of_nat ?n :: u16), ucast (drop_bit 8 (word_of_nat ?n :: u16)), ucast ty, ucast (drop_bit 8 ty)] @
      p @ replicate (align4 ?n - ?n) 0 @ rest"
    by (simp add: attr_bytes_def u16_to_ne_bytes_def)
  have i: "u16_from_ne_bytes (?b ! 0) (?b ! 1) = word_of_nat ?n" "u16_from_ne_bytes (?b ! 2) (?b ! 3) = ty"
    unfolding b by (simp_all del: of_nat_add of_nat_numeral)
  have t: "take (?n - 4) (drop 4 ?b) = p" unfolding b by simp
  have s: "find_attr_at ?b want (align4 ?n) = find_attr rest want"
    using find_attr_shift [of "attr_bytes ty p" rest want 0] by (simp add: length_attr_bytes find_attr_def)
  have "4 \<le> length ?b" "\<not> (?n < 4 \<or> length ?b < ?n)" using le by (auto simp del: of_nat_add)
  then show ?thesis
    unfolding find_attr_def find_attr_at.simps [of ?b want 0] Let_def add_0 i u t s [unfolded find_attr_def]
    using i u t s by (simp add: find_attr_def del: of_nat_add of_nat_numeral)
qed

section \<open>A kernel that keeps rules\<close>

record fib_rule =
  fr_priority :: u32
  fr_table :: u32
  fr_oif :: bytes
  fr_uids :: "u32 \<times> u32"

definition read_u32 :: "bytes \<Rightarrow> u32" where
  "read_u32 v = u32_from_ne_bytes (v ! 0) (v ! 1) (v ! 2) (v ! 3)"

text \<open>The rule a request describes: its attributes follow the 16 bytes of header and 12 of \<open>fib_rule_hdr\<close>.\<close>

definition msg_type :: "bytes \<Rightarrow> u16" where
  "msg_type msg = u16_from_ne_bytes (msg ! 4) (msg ! 5)"

definition msg_priority :: "bytes \<Rightarrow> u32 option" where
  "msg_priority msg = map_option read_u32 (find_attr (drop 28 msg) FRA_PRIORITY)"

definition msg_rule :: "bytes \<Rightarrow> fib_rule option" where
  "msg_rule msg =
     (let attrs = drop 28 msg in
      case (find_attr attrs FRA_PRIORITY, find_attr attrs FRA_TABLE, find_attr attrs FRA_OIFNAME, find_attr attrs FRA_UID_RANGE) of
        (Some p, Some t, Some n, Some u) \<Rightarrow>
          Some \<lparr>fr_priority = read_u32 p, fr_table = read_u32 t, fr_oif = takeWhile (\<lambda>b. b \<noteq> 0) n,
                fr_uids = (read_u32 u, read_u32 (drop 4 u))\<rparr>
      | _ \<Rightarrow> None)"

text \<open>The answer to a request that asked for an acknowledgement: the negated error number, 0 for none.\<close>

definition nl_answer :: "u32 \<Rightarrow> bytes \<Rightarrow> bool" where
  "nl_answer errno a \<longleftrightarrow> 20 \<le> length a \<and> msg_type a = NLMSG_ERROR \<and> read_u32 (drop 16 a) = - errno"

abbreviation (input) ENOENT :: u32 where "ENOENT \<equiv> 2"

text \<open>
  What netlink documents of rules: a deletion takes out one rule that matches, here by its priority,
  and answers \<open>ENOENT\<close> when there is none; an exclusive creation adds the rule, or answers \<open>EEXIST\<close>
  when it is there already.
\<close>

definition rule_kernel :: "'k sys \<Rightarrow> ('k \<Rightarrow> fib_rule multiset) \<Rightarrow> bool" where
  "rule_kernel sys rules \<longleftrightarrow>
     (\<forall>k msg p. msg_type msg = RTM_DELRULE \<longrightarrow> msg_priority msg = Some p \<longrightarrow>
        (\<exists>a k'. sys_netlink sys msg k = (Inr a, k') \<and>
           (if \<exists>r \<in># rules k. fr_priority r = p
            then nl_answer 0 a \<and> (\<exists>r \<in># rules k. fr_priority r = p \<and> rules k' = rules k - {#r#})
            else nl_answer ENOENT a \<and> rules k' = rules k))) \<and>
     (\<forall>k msg r. msg_type msg = RTM_NEWRULE \<longrightarrow> msg_rule msg = Some r \<longrightarrow>
        (\<exists>a k'. sys_netlink sys msg k = (Inr a, k') \<and>
           (if r \<in># rules k then nl_answer EEXIST a \<and> rules k' = rules k
            else nl_answer 0 a \<and> rules k' = add_mset r (rules k))))"

lemma rule_kernel_del:
  assumes "rule_kernel sys rules" "msg_type msg = RTM_DELRULE" "msg_priority msg = Some p"
  shows "\<exists>a k'. sys_netlink sys msg k = (Inr a, k') \<and>
    (if \<exists>r \<in># rules k. fr_priority r = p
     then nl_answer 0 a \<and> (\<exists>r \<in># rules k. fr_priority r = p \<and> rules k' = rules k - {#r#})
     else nl_answer ENOENT a \<and> rules k' = rules k)"
  using assms unfolding rule_kernel_def by blast

lemma rule_kernel_new:
  assumes "rule_kernel sys rules" "msg_type msg = RTM_NEWRULE" "msg_rule msg = Some r"
  shows "\<exists>a k'. sys_netlink sys msg k = (Inr a, k') \<and>
    (if r \<in># rules k then nl_answer EEXIST a \<and> rules k' = rules k
     else nl_answer 0 a \<and> rules k' = add_mset r (rules k))"
  using assms unfolding rule_kernel_def by blast

lemma nl_verdict_answer:
  assumes "nl_answer e a"
  shows "nl_verdict a = (if e = 0 \<or> e = EEXIST then Inr () else Inl (Nl_Os e))"
proof -
  have "take 512 a ! i = a ! i" if "i < 20" for i using that by simp
  then show ?thesis
    using assms unfolding nl_verdict_def nl_answer_def msg_type_def read_u32_def
    by (auto simp: Let_def minus_equation_iff [of e])
qed

lemma msg_type_hdr: "msg_type (hdr_bytes h @ xs) = nh_ty h"
  by (simp add: msg_type_def hdr_bytes_def u32_to_ne_bytes_def u16_to_ne_bytes_def)

lemma msg_type_request: "msg_type (nl_request ty body flags) = ty"
  by (simp add: nl_request_def msg_type_hdr)

lemma length_hdr_bytes [simp]: "length (hdr_bytes h) = 16"
  by (simp add: hdr_bytes_def)

lemma rule_start_length: "length rule_start = 12"
  by code_simp

lemma rule_start_aligned: "length rule_start mod 4 = 0"
  by (simp add: rule_start_length)

lemma drop_request: "length xs = 12 \<Longrightarrow> drop 28 (nl_request ty (xs @ body) flags) = body"
  by (simp add: nl_request_def hdr_bytes_def)

lemma read_u32_bytes [simp]: "read_u32 (u32_to_ne_bytes w @ xs) = w"
  by (simp add: read_u32_def u32_to_ne_bytes_def)

lemma read_u32_only [simp]: "read_u32 (u32_to_ne_bytes w) = w"
  using read_u32_bytes [of w "[]"] by simp

lemma msg_priority_del: "msg_priority (nl_request ty (del_rule_body p) flags) = Some p"
  using find_attr_step [of "u32_to_ne_bytes p" FRA_PRIORITY "[]"]
  by (simp add: msg_priority_def del_rule_body_def put_attr_bytes rule_start_length drop_request)

lemma msg_rule_add:
  assumes "length iface < 65000" "0 \<notin> set iface"
  shows "msg_rule (nl_request ty (add_rule_body iface idx p uid) flags) =
    Some \<lparr>fr_priority = p, fr_table = idx, fr_oif = iface, fr_uids = (uid, uid)\<rparr>"
proof -
  let ?attrs = "attr_bytes FRA_OIFNAME (iface @ [0]) @ attr_bytes FRA_TABLE (u32_to_ne_bytes idx) @
    attr_bytes FRA_PRIORITY (u32_to_ne_bytes p) @ attr_bytes FRA_UID_RANGE (u32_to_ne_bytes uid @ u32_to_ne_bytes uid)"
  have "add_rule_body iface idx p uid = rule_start @ ?attrs"
    unfolding add_rule_body_def by (simp only: put_attr_bytes length_mod_attr rule_start_aligned) simp
  then have d: "drop 28 (nl_request ty (add_rule_body iface idx p uid) flags) = ?attrs"
    by (simp add: drop_request rule_start_length)
  have len: "4 + length (iface @ [0 :: u8]) < 65536" using assms(1) by simp
  have "takeWhile (\<lambda>b. b \<noteq> 0) (iface @ [0]) = iface" using assms(2) by (simp add: takeWhile_append)
  moreover have "find_attr ?attrs FRA_UID_RANGE = Some (u32_to_ne_bytes uid @ u32_to_ne_bytes uid)"
    using len find_attr_step [of "u32_to_ne_bytes uid @ u32_to_ne_bytes uid" FRA_UID_RANGE "[]"] by (simp add: find_attr_step)
  ultimately show ?thesis using len unfolding msg_rule_def d Let_def by (simp add: find_attr_step)
qed

section \<open>Sweeping and replacing the rule\<close>

definition at_priority :: "u32 \<Rightarrow> fib_rule multiset \<Rightarrow> fib_rule multiset" where
  "at_priority p R = filter_mset (\<lambda>r. fr_priority r = p) R"

definition off_priority :: "u32 \<Rightarrow> fib_rule multiset \<Rightarrow> fib_rule multiset" where
  "off_priority p R = filter_mset (\<lambda>r. fr_priority r \<noteq> p) R"

lemma at_priority_remove:
  assumes "r \<in># R" "fr_priority r = p"
  shows "size (at_priority p (R - {#r#})) = size (at_priority p R) - 1" "off_priority p (R - {#r#}) = off_priority p R"
    "0 < size (at_priority p R)"
proof -
  from assms(1) obtain S where R: "R = add_mset r S" by (metis mset_add)
  show "size (at_priority p (R - {#r#})) = size (at_priority p R) - 1" "off_priority p (R - {#r#}) = off_priority p R"
    "0 < size (at_priority p R)"
    unfolding R using assms(2) by (simp_all add: at_priority_def off_priority_def)
qed

lemma at_priority_none: "\<not> (\<exists>r \<in># R. fr_priority r = p) \<Longrightarrow> at_priority p R = {#}"
  by (auto simp: at_priority_def)

lemma del_rule_at_kernel:
  assumes "rule_kernel sys rules"
  obtains e k' where "del_rule_at sys p k = (Inl e, k')" "at_priority p (rules k) = {#}" "rules k' = rules k"
  | k' where "del_rule_at sys p k = (Inr (), k')" "0 < size (at_priority p (rules k))"
      "size (at_priority p (rules k')) = size (at_priority p (rules k)) - 1" "off_priority p (rules k') = off_priority p (rules k)"
proof -
  let ?msg = "nl_request RTM_DELRULE (del_rule_body p) (NLM_F_REQUEST OR NLM_F_ACK)"
  from assms obtain a k' where s: "sys_netlink sys ?msg k = (Inr a, k')"
    "if \<exists>r \<in># rules k. fr_priority r = p
     then nl_answer 0 a \<and> (\<exists>r \<in># rules k. fr_priority r = p \<and> rules k' = rules k - {#r#})
     else nl_answer ENOENT a \<and> rules k' = rules k"
    using rule_kernel_del [OF assms msg_type_request msg_priority_del] by blast
  then have d: "del_rule_at sys p k = (nl_verdict a, k')" by (simp add: del_rule_at_def send_nl_flags_def)
  show thesis
  proof (cases "\<exists>r \<in># rules k. fr_priority r = p")
    case True
    with s(2) obtain r where "nl_answer 0 a" "r \<in># rules k" "fr_priority r = p" "rules k' = rules k - {#r#}" by auto
    with d at_priority_remove show thesis by (intro that(2) [of k']) (simp_all add: nl_verdict_answer)
  next
    case False
    with s(2) have "nl_answer ENOENT a" "rules k' = rules k" by simp_all
    with d False show thesis by (intro that(1) [of "Nl_Os ENOENT" k']) (simp_all add: nl_verdict_answer at_priority_none)
  qed
qed

lemma sweep_at_kernel:
  assumes "rule_kernel sys rules" "sweep_at sys p n k = (m, k')"
  shows "m = min n (size (at_priority p (rules k))) \<and> size (at_priority p (rules k')) = size (at_priority p (rules k)) - n \<and>
    off_priority p (rules k') = off_priority p (rules k)"
  using assms(2)
proof (induction n arbitrary: k m)
  case (Suc n)
  show ?case
  proof (rule del_rule_at_kernel [OF assms(1), of p k])
    fix e k1 assume "del_rule_at sys p k = (Inl e, k1)" "at_priority p (rules k) = {#}" "rules k1 = rules k"
    with Suc.prems show ?thesis by simp
  next
    fix k1 assume d: "del_rule_at sys p k = (Inr (), k1)" "0 < size (at_priority p (rules k))"
      "size (at_priority p (rules k1)) = size (at_priority p (rules k)) - 1" "off_priority p (rules k1) = off_priority p (rules k)"
    obtain m1 k2 where "sweep_at sys p n k1 = (m1, k2)" by force
    with d Suc.prems Suc.IH [of k1 m1] show ?thesis by auto
  qed
qed simp

lemma at_off_priority: "p \<noteq> q \<Longrightarrow> at_priority p (off_priority q R) = at_priority p R"
  unfolding at_priority_def off_priority_def filter_filter_mset by (rule filter_mset_cong0) auto

definition foreign :: "fib_rule multiset \<Rightarrow> fib_rule multiset" where
  "foreign R = filter_mset (\<lambda>r. fr_priority r \<notin> set RULE_PRIORITIES) R"

lemma foreign_off: "foreign (off_priority RULE_PRIORITY_EXEMPT R) = foreign R" "foreign (off_priority RULE_PRIORITY_PLAIN R) = foreign R"
  by (auto simp: foreign_def off_priority_def filter_filter_mset intro!: filter_mset_cong)

lemma sweep_kernel:
  assumes "rule_kernel sys rules" "sweep sys RULE_PRIORITIES k = (n, k')"
  defines "c \<equiv> \<lambda>p. size (at_priority p (rules k))"
  shows "size (at_priority RULE_PRIORITY_EXEMPT (rules k')) = c RULE_PRIORITY_EXEMPT - 8"
    "size (at_priority RULE_PRIORITY_PLAIN (rules k')) = c RULE_PRIORITY_PLAIN - 8"
    "foreign (rules k') = foreign (rules k)" "n = min 8 (c RULE_PRIORITY_EXEMPT) + min 8 (c RULE_PRIORITY_PLAIN)"
proof -
  let ?E = RULE_PRIORITY_EXEMPT and ?P = RULE_PRIORITY_PLAIN
  obtain a k1 b where s: "sweep_at sys ?E 8 k = (a, k1)" "sweep_at sys ?P 8 k1 = (b, k')" and n: "n = a + b"
    using assms(2) by (auto split: prod.splits)
  note e = sweep_at_kernel [OF assms(1) s(1)] and p = sweep_at_kernel [OF assms(1) s(2)]
  have "at_priority ?P (rules k1) = at_priority ?P (rules k)"
    using e at_off_priority [of ?P ?E "rules k1"] at_off_priority [of ?P ?E "rules k"] by simp
  moreover have "at_priority ?E (rules k') = at_priority ?E (rules k1)"
    using p at_off_priority [of ?E ?P "rules k'"] at_off_priority [of ?E ?P "rules k1"] by simp
  ultimately show "size (at_priority ?E (rules k')) = c ?E - 8" "size (at_priority ?P (rules k')) = c ?P - 8"
    "n = min 8 (c ?E) + min 8 (c ?P)"
    using e p n by (simp_all add: c_def)
  have "foreign (rules k1) = foreign (rules k)" using foreign_off(1) e by metis
  moreover have "foreign (rules k') = foreign (rules k1)" using foreign_off(2) p by metis
  ultimately show "foreign (rules k') = foreign (rules k)" by simp
qed

definition our_rule :: "rstring \<Rightarrow> u32 \<Rightarrow> bool \<Rightarrow> u32 \<Rightarrow> fib_rule" where
  "our_rule iface idx exempt uid =
     \<lparr>fr_priority = if exempt then RULE_PRIORITY_EXEMPT else RULE_PRIORITY_PLAIN, fr_table = idx, fr_oif = iface, fr_uids = (uid, uid)\<rparr>"

definition ours :: "fib_rule multiset \<Rightarrow> fib_rule multiset" where
  "ours R = filter_mset (\<lambda>r. fr_priority r \<in> set RULE_PRIORITIES) R"

lemma size_ours: "size (ours R) = size (at_priority RULE_PRIORITY_EXEMPT R) + size (at_priority RULE_PRIORITY_PLAIN R)"
  by (induction R) (auto simp: ours_def at_priority_def)

lemma sweep_clears:
  assumes "rule_kernel sys rules" "size (at_priority RULE_PRIORITY_EXEMPT (rules k)) \<le> 8"
    "size (at_priority RULE_PRIORITY_PLAIN (rules k)) \<le> 8" "sweep sys RULE_PRIORITIES k = (n, k')"
  shows "ours (rules k') = {#}" "n = size (ours (rules k))"
proof -
  have "size (ours (rules k')) = 0" using sweep_kernel [OF assms(1,4)] assms(2,3) by (simp add: size_ours)
  then show "ours (rules k') = {#}" by (simp only: size_eq_0_iff_empty)
  show "n = size (ours (rules k))" using sweep_kernel [OF assms(1,4)] assms(2,3) by (simp add: size_ours)
qed

lemma add_rule_kernel:
  assumes "rule_kernel sys rules" "index_of sys iface k = Inr idx" "\<And>k. sharing_uid sys k = Inr uid"
    "length iface < 65000" "size (at_priority RULE_PRIORITY_EXEMPT (rules k)) \<le> 8"
    "size (at_priority RULE_PRIORITY_PLAIN (rules k)) \<le> 8"
  obtains k' where "add_rule sys iface exempt k = (Inr (), k')" "ours (rules k') = {#our_rule iface idx exempt uid#}"
    "foreign (rules k') = foreign (rules k)"
proof -
  obtain n k1 where s: "sweep sys RULE_PRIORITIES k = (n, k1)" by force
  have o: "ours (rules k1) = {#}" and f: "foreign (rules k1) = foreign (rules k)"
    using sweep_clears [OF assms(1,5,6) s] sweep_kernel(3) [OF assms(1) s] by simp_all
  let ?r = "our_rule iface idx exempt uid"
  let ?p = "if exempt then RULE_PRIORITY_EXEMPT else RULE_PRIORITY_PLAIN"
  let ?flags = "NLM_F_REQUEST OR NLM_F_CREATE OR NLM_F_EXCL OR NLM_F_ACK"
  let ?msg = "nl_request RTM_NEWRULE (add_rule_body iface idx ?p uid) ?flags"
  have nul: "0 \<notin> set iface" using assms(2) by (auto simp: index_of_def split: if_splits)
  have new: "?r \<notin># rules k1" using o by (auto simp: ours_def our_rule_def)
  have m: "msg_rule ?msg = Some ?r" using msg_rule_add [OF assms(4) nul] by (simp add: our_rule_def)
  obtain a k' where "sys_netlink sys ?msg k1 = (Inr a, k')" "nl_answer 0 a" "rules k' = add_mset ?r (rules k1)"
    using rule_kernel_new [OF assms(1) msg_type_request m, of k1] new by auto
  then have "add_rule sys iface exempt k = (Inr (), k')" "rules k' = add_mset ?r (rules k1)"
    using assms(2,3) s by (simp_all add: add_rule_def Let_def send_nl_def send_nl_flags_def nl_verdict_answer)
  with o f show thesis by (intro that [of k']) (auto simp: ours_def foreign_def our_rule_def)
qed

section \<open>The dump of the rules\<close>

definition dump_msg :: "u16 \<Rightarrow> bytes \<Rightarrow> bytes" where
  "dump_msg ty payload =
     hdr_bytes \<lparr>nh_len = word_of_nat (16 + length payload), nh_ty = ty, nh_flags = 2, nh_seq = 1, nh_pid = 0\<rparr> @ payload @
     replicate (align4 (16 + length payload) - (16 + length payload)) 0"

lemma length_dump_msg: "length (dump_msg ty p) = align4 (16 + length p)"
  using align4_simps(2) [of "16 + length p"] by (simp add: dump_msg_def hdr_bytes_def)

lemma scan_dump_shift: "scan_dump (xs @ buf) (length xs + off) = scan_dump buf off"
proof (induction buf off rule: scan_dump.induct)
  case (1 buf off)
  then show ?case
    unfolding scan_dump.simps [of "xs @ buf" "length xs + off"] scan_dump.simps [of buf off]
    by (simp add: Let_def nth_append add.assoc)
qed

text \<open>One message of a dump: its end, an error, a rule that prohibits, or one that does not.\<close>

lemma scan_dump_step:
  assumes "8 \<le> length p" "length p < 65536"
  shows "scan_dump (dump_msg ty p @ rest) 0 =
    (if ty = NLMSG_DONE then Some (Inr False) else if ty = NLMSG_ERROR then Some (Inl Nl_Other)
     else if p ! 7 = FR_ACT_PROHIBIT then Some (Inr True) else scan_dump rest 0)"
proof -
  let ?n = "16 + length p"
  let ?b = "dump_msg ty p @ rest"
  have u: "unat (word_of_nat ?n :: u32) = ?n" using assms by (simp add: unat_of_nat del: of_nat_add of_nat_numeral)
  have le: "?n \<le> length (dump_msg ty p)" using align4_simps(2) by (simp add: length_dump_msg)
  let ?h = "u32_to_ne_bytes (word_of_nat ?n) @ u16_to_ne_bytes ty @ u16_to_ne_bytes 2 @ u32_to_ne_bytes 1 @ u32_to_ne_bytes 0"
  have b: "?b = ?h @ p @ replicate (align4 ?n - ?n) 0 @ rest" by (simp add: dump_msg_def hdr_bytes_def)
  have i: "u32_from_ne_bytes (?b ! 0) (?b ! 1) (?b ! 2) (?b ! 3) = word_of_nat ?n" "u16_from_ne_bytes (?b ! 4) (?b ! 5) = ty"
    unfolding b by (simp_all add: u32_to_ne_bytes_def u16_to_ne_bytes_def del: of_nat_add of_nat_numeral)
  have "?b ! (16 + 7) = (p @ replicate (align4 ?n - ?n) 0 @ rest) ! 7"
    unfolding b using nth_append_length_plus [of ?h "p @ replicate (align4 ?n - ?n) 0 @ rest" 7] by simp
  then have a: "?b ! (16 + 7) = p ! 7" using assms(1) by (simp add: nth_append)
  have s: "scan_dump ?b (align4 ?n) = scan_dump rest 0"
    using scan_dump_shift [of "dump_msg ty p" rest 0] by (simp add: length_dump_msg)
  have "16 \<le> length ?b" "\<not> (?n < 16 \<or> length ?b < ?n)" "16 + 8 \<le> length ?b" using le assms(1) by auto
  then show ?thesis
    unfolding scan_dump.simps [of ?b 0] Let_def add_0 i u a s by simp
qed

text \<open>A datagram of rules, each the action at byte 7 of what follows the header.\<close>

definition rules_datagram :: "bytes list \<Rightarrow> bytes" where
  "rules_datagram rs = concat (map (dump_msg RTM_NEWRULE) rs)"

abbreviation (input) rule_payload :: "bytes \<Rightarrow> bool" where
  "rule_payload p \<equiv> 8 \<le> length p \<and> length p < 65536"

lemma scan_rules:
  assumes "list_all rule_payload rs"
  shows "scan_dump (rules_datagram rs @ rest) 0 =
    (if \<exists>r \<in> set rs. r ! 7 = FR_ACT_PROHIBIT then Some (Inr True) else scan_dump rest 0)"
  using assms by (induction rs) (auto simp: rules_datagram_def scan_dump_step)

lemma scan_end: "scan_dump [] 0 = None" "scan_dump (dump_msg NLMSG_DONE p @ rest) 0 = Some (Inr False)" if "8 \<le> length p" "length p < 65536"
  using that by (simp_all add: scan_dump.simps [of "[]"] scan_dump_step)

definition dump_of :: "bytes list list \<Rightarrow> bytes list \<Rightarrow> (u32 + bytes) list" where
  "dump_of dss final = map (\<lambda>rs. Inr (rules_datagram rs)) dss @ [Inr (rules_datagram final @ dump_msg NLMSG_DONE (replicate 8 0))]"

lemma scan_dumps_rules:
  assumes "list_all (list_all rule_payload) (final # dss)" "\<And>d. d \<in> set (dump_of dss final) \<Longrightarrow> \<exists>b. d = Inr b \<and> length b \<le> 32768"
  shows "scan_dumps (dump_of dss final) = Inr (\<exists>rs \<in> set (final # dss). \<exists>r \<in> set rs. r ! 7 = FR_ACT_PROHIBIT)"
  using assms
proof (induction dss)
  case Nil
  let ?b = "rules_datagram final @ dump_msg NLMSG_DONE (replicate 8 0)"
  have "length ?b \<le> 32768" using Nil.prems(2) by (simp add: dump_of_def)
  then have "take 32768 ?b = ?b" by (rule take_all)
  moreover have "scan_dump (dump_msg NLMSG_DONE (replicate 8 0)) 0 = Some (Inr False)"
    using scan_end(2) [of "replicate 8 0" "[]"] by simp
  ultimately show ?case using Nil.prems(1) by (simp add: dump_of_def scan_rules del: take_append)
next
  case (Cons rs dss)
  have d: "dump_of (rs # dss) final = Inr (rules_datagram rs) # dump_of dss final" by (simp add: dump_of_def)
  then have "length (rules_datagram rs) \<le> 32768" using Cons.prems(2) by auto
  then have t: "take 32768 (rules_datagram rs) = rules_datagram rs" by (rule take_all)
  have ih: "scan_dumps (dump_of dss final) = Inr (\<exists>rs \<in> set (final # dss). \<exists>r \<in> set rs. r ! 7 = FR_ACT_PROHIBIT)"
    by (rule Cons.IH) (use Cons.prems d in auto)
  show ?case using scan_rules [of rs "[]"] Cons.prems(1) ih t
    by (auto simp: d scan_dump.simps [of "[]"])
qed

section \<open>A kernel with the documented behaviour\<close>

definition nl_ack :: "u32 \<Rightarrow> bytes" where
  "nl_ack errno = hdr_bytes \<lparr>nh_len = 36, nh_ty = NLMSG_ERROR, nh_flags = 0, nh_seq = 1, nh_pid = 0\<rparr> @ u32_to_ne_bytes (- errno)"

definition sample_netlink :: "bytes \<Rightarrow> fib_rule list \<Rightarrow> (u32 + bytes) \<times> fib_rule list" where
  "sample_netlink msg k =
     (if msg_type msg = RTM_DELRULE then
        (case msg_priority msg of
           None \<Rightarrow> (Inr (nl_ack 22), k)
         | Some p \<Rightarrow> (case List.find (\<lambda>r. fr_priority r = p) k of
             None \<Rightarrow> (Inr (nl_ack ENOENT), k)
           | Some r \<Rightarrow> (Inr (nl_ack 0), remove1 r k)))
      else if msg_type msg = RTM_NEWRULE then
        (case msg_rule msg of
           None \<Rightarrow> (Inr (nl_ack 22), k)
         | Some r \<Rightarrow> if r \<in> set k then (Inr (nl_ack EEXIST), k) else (Inr (nl_ack 0), r # k))
      else (Inr (nl_ack 0), k))"

definition sample_sys :: "fib_rule list sys" where
  "sample_sys = \<lparr>sys_index = (\<lambda>_ _. 52), sys_uid = (\<lambda>_. Some 7500), sys_netlink = sample_netlink,
     sys_genl = (\<lambda>_ k. (Inl 1, k)), sys_dump = (\<lambda>_ _. Inr (dump_of [] [[0, 0, 0, 0, 0, 0, 0, FR_ACT_PROHIBIT]]))\<rparr>"

lemma nl_ack_answer: "nl_answer e (nl_ack e)"
  by (simp add: nl_answer_def nl_ack_def msg_type_hdr)

lemma find_SomeD: "List.find P xs = Some x \<Longrightarrow> P x \<and> x \<in> set xs"
  by (auto simp: find_Some_iff)

lemma sample_rule_kernel: "rule_kernel sample_sys mset"
  unfolding rule_kernel_def
proof (intro conjI allI impI)
  fix k msg p assume m: "msg_type msg = RTM_DELRULE" "msg_priority msg = Some p"
  show "\<exists>a k'. sys_netlink sample_sys msg k = (Inr a, k') \<and> (if \<exists>r \<in># mset k. fr_priority r = p
    then nl_answer 0 a \<and> (\<exists>r \<in># mset k. fr_priority r = p \<and> mset k' = mset k - {#r#}) else nl_answer ENOENT a \<and> mset k' = mset k)"
  proof (cases "List.find (\<lambda>r. fr_priority r = p) k")
    case None
    then have "\<not> (\<exists>r \<in># mset k. fr_priority r = p)" by (simp add: find_None_iff)
    with None m show ?thesis by (simp add: sample_sys_def sample_netlink_def nl_ack_answer)
  next
    case (Some r)
    with find_SomeD [OF Some] m show ?thesis by (auto simp: sample_sys_def sample_netlink_def nl_ack_answer)
  qed
qed (auto simp: sample_sys_def sample_netlink_def nl_ack_answer)

section \<open>Properties\<close>

text \<open>
  On a kernel that keeps rules as documented and holds at most eight rules of ours at each of the
  two priorities, \<open>add_rule\<close> leaves exactly one rule of ours, the one asked for, scoped to the one
  user, and touches no other rule; so a demotion leaves nothing above the kill-switch, whatever
  indices the swept rules had.
\<close>

theorem rule_replaced:
  assumes "rule_kernel sys rules" "index_of sys iface k = Inr idx" "\<And>k. sharing_uid sys k = Inr uid"
    "length iface < 65000" "size (at_priority RULE_PRIORITY_EXEMPT (rules k)) \<le> 8"
    "size (at_priority RULE_PRIORITY_PLAIN (rules k)) \<le> 8"
  shows "\<exists>k'. add_rule sys iface exempt k = (Inr (), k') \<and> ours (rules k') = {#our_rule iface idx exempt uid#} \<and>
    foreign (rules k') = foreign (rules k)"
  by (rule add_rule_kernel [OF assms]) blast

abbreviation (input) stale_rules :: "fib_rule list" where
  "stale_rules \<equiv> [our_rule (str ''tlink0'') 40 True 7500, our_rule (str ''tlink0'') 41 True 7500,
     \<lparr>fr_priority = 32000, fr_table = 0, fr_oif = [], fr_uids = (0, 0)\<rparr>]"

theorem rule_replaced_witness:
  "\<exists>k'. add_rule sample_sys (str ''tlink0'') False stale_rules = (Inr (), k') \<and>
     ours (mset k') = {#our_rule (str ''tlink0'') 52 False 7500#} \<and> foreign (mset k') = foreign (mset stale_rules)"
  by (rule rule_replaced [OF sample_rule_kernel])
    (simp_all add: index_of_def sharing_uid_def sample_sys_def str_def at_priority_def our_rule_def)

text \<open>
  When the kernel's answer is a dump of rules in any number of datagrams, ended as documented, a
  kill-switch is reported exactly when some rule prohibits; and when the dump fails, it is reported.
\<close>

theorem lockdown_exact:
  assumes "sys_dump sys dump_request k = Inr (dump_of dss final)"
    "list_all (list_all rule_payload) (final # dss)" "\<And>d. d \<in> set (dump_of dss final) \<Longrightarrow> \<exists>b. d = Inr b \<and> length b \<le> 32768"
  shows "lockdown_active sys k \<longleftrightarrow> (\<exists>rs \<in> set (final # dss). \<exists>r \<in> set rs. r ! 7 = FR_ACT_PROHIBIT)"
  using scan_dumps_rules [OF assms(2,3)] by (simp add: lockdown_active_def probe_prohibit_rule_def assms(1))

theorem lockdown_exact_witness: "lockdown_active sample_sys []"
  using lockdown_exact [of sample_sys "[]" "[]" "[[0, 0, 0, 0, 0, 0, 0, FR_ACT_PROHIBIT]]"]
  by (auto simp: sample_sys_def dump_of_def rules_datagram_def length_dump_msg align4_def)

text \<open>
  A dump cut inside a message is reported as no kill-switch, although the rules of the missing part
  are not known.
\<close>

theorem truncated_dump_open:
  assumes "sys_dump sys dump_request k =
      Inr (Inr (take n (dump_msg RTM_NEWRULE p)) # ds)"
    "16 \<le> n" "n < 16 + length p" "length p < 32000"
  shows "\<not> lockdown_active sys k"
proof -
  let ?b = "take n (dump_msg RTM_NEWRULE p)"
  let ?m = "word_of_nat (16 + length p) :: u32"
  have u: "unat ?m = 16 + length p" using assms(4) by (simp add: unat_of_nat del: of_nat_add of_nat_numeral)
  have len: "length ?b = n" using assms(3) align4_simps(2) [of "16 + length p"] by (simp add: length_dump_msg)
  have "?b ! i = dump_msg RTM_NEWRULE p ! i" if "i < 16" for i using that assms(2) by simp
  then have i: "u32_from_ne_bytes (?b ! 0) (?b ! 1) (?b ! 2) (?b ! 3) = ?m"
    by (simp add: dump_msg_def hdr_bytes_def u32_to_ne_bytes_def u16_to_ne_bytes_def del: of_nat_add of_nat_numeral)
  have "scan_dump ?b 0 = Some (Inr False)"
    unfolding scan_dump.simps [of ?b 0] Let_def add_0 i u len using assms(2,3) by simp
  moreover have "take 32768 ?b = ?b" by (rule take_all) (use len assms(3,4) in linarith)
  ultimately show ?thesis by (simp add: lockdown_active_def probe_prohibit_rule_def assms(1) del: take_take)
qed

theorem truncated_dump_open_witness:
  "\<not> lockdown_active (sample_sys\<lparr>sys_dump := (\<lambda>_ _. Inr [Inr (take 20 (dump_msg RTM_NEWRULE [0, 0, 0, 0, 0, 0, 0, FR_ACT_PROHIBIT]))])\<rparr>) []"
  by (rule truncated_dump_open [where n = 20 and ds = "[]" and p = "[0, 0, 0, 0, 0, 0, 0, FR_ACT_PROHIBIT]"]) simp_all

end
