(* ===== verification/Awdl_Daemon.thy ===== *)
theory Awdl_Daemon
  imports Netlink Rust_Text Protobuf
begin

text \<open>
  The Wi-Fi daemon, \<open>src/src/main.rs\<close>: which channels it offers, how it configures the vendor library
  (whose symbols \<open>src/src/mosey.rs\<close> resolves), and its poll loop, which brings the link up and down and
  moves the routing rule above and below a VPN kill-switch as the authenticated window opens and closes.
  One round of the loop is a function of the daemon's state and of what the round meets: properties,
  files, clock readings, the vendor library and the kernel.
\<close>

section \<open>Channels and configuration\<close>

abbreviation (input) CHANNELS_24 :: bytes where "CHANNELS_24 \<equiv> [6 :: u8]"
abbreviation (input) CHANNELS_5 :: bytes where "CHANNELS_5 \<equiv> [149 :: u8, 44]"

definition channels_for :: "int \<Rightarrow> u8 list list" where
  "channels_for f =
     (if f < 0 then [CHANNELS_5, CHANNELS_24]
      else if f = 0 then [CHANNELS_5, CHANNELS_24]
      else if 5000 \<le> f then [CHANNELS_24, CHANNELS_5]
      else [CHANNELS_5, CHANNELS_24])"

definition same_band_as_sta :: "u8 list \<Rightarrow> int \<Rightarrow> bool" where
  "same_band_as_sta channels f =
     (if f \<le> 0 then False else list_all (\<lambda>c. (c \<le> 14) = (f < 5000)) channels)"

abbreviation (input) CFG_DBS_SUPPORTED :: bytes where "CFG_DBS_SUPPORTED \<equiv> [0x08 :: u8, 0x01]"
abbreviation (input) CFG_RATE_ADAPTATION :: bytes where "CFG_RATE_ADAPTATION \<equiv> [0x30 :: u8, 0x01]"
abbreviation (input) CFG_STA_FREQ_TAG :: u8 where "CFG_STA_FREQ_TAG \<equiv> 0x10"

function config_varint :: "u32 \<Rightarrow> bytes" where
  "config_varint n = (if 0x80 \<le> n then ((ucast n AND 0x7F) OR 0x80) # config_varint (drop_bit 7 n) else [ucast n])"
  by pat_completeness auto
termination
proof (relation "measure unat", goal_cases)
  case (2 n)
  then have "0 < unat n" by (simp add: word_le_nat_alt)
  then show ?case by (simp add: drop_bit_eq_div unat_div)
qed simp

declare config_varint.simps [simp del]

definition mosey_config :: "int \<Rightarrow> bytes" where
  "mosey_config f =
     CFG_DBS_SUPPORTED @ (if 0 < f then CFG_STA_FREQ_TAG # config_varint (word_of_int f) else []) @ CFG_RATE_ADAPTATION"

datatype op_mode = Radiotap | Netlink_Mode

section \<open>What the daemon reads\<close>

text \<open>
  What one round of the loop meets. \<open>w_props\<close> is \<open>__system_property_get\<close> (empty when unset) as the loop
  reads it, \<open>w_later\<close> the same as acquiring the link reads it, up to seconds later, \<open>w_file\<close>
  \<open>read_to_string\<close>, \<open>w_exists\<close> \<open>Path::exists\<close>, \<open>w_clock i\<close> the reading in milliseconds of the \<open>i\<close>-th place of
  the loop that reads the clock, \<open>w_start\<close> whether \<open>mosey_start_5\<close> takes the channels, country, mode and
  configuration, \<open>w_blind\<close> what \<open>mosey_health\<close> says, \<open>w_upper\<close> \<open>str::to_uppercase\<close>, \<open>w_set\<close> whether
  \<open>__system_property_set\<close> succeeds, and \<open>w_kernel\<close> what others did to the kernel since the last round.
\<close>

record 'k world =
  w_props :: "string \<Rightarrow> bytes"
  w_later :: "string \<Rightarrow> bytes"
  w_file :: "string \<Rightarrow> rstring option"
  w_exists :: "string \<Rightarrow> bool"
  w_clock :: "nat \<Rightarrow> nat"
  w_start :: "u8 list \<Rightarrow> rstring \<Rightarrow> op_mode \<Rightarrow> bytes \<Rightarrow> bool"
  w_blind :: "u32 option"
  w_upper :: "rstring \<Rightarrow> rstring"
  w_set :: bool
  w_kernel :: "'k \<Rightarrow> 'k"

definition read_property :: "'k world \<Rightarrow> string \<Rightarrow> rstring option" where
  "read_property w name = (let v = w_props w name in if v = [] then None else from_utf8 v)"

definition in_acquire :: "'k world \<Rightarrow> 'k world" where
  "in_acquire w = w\<lparr>w_props := w_later w\<rparr>"

definition wants_radio :: "'k world \<Rightarrow> bool" where
  "wants_radio w = (case read_property w ''tarish.awdl.wanted'' of Some v \<Rightarrow> str_trim v \<noteq> [0x30] | None \<Rightarrow> True)"

definition exemption_earned :: "'k world \<Rightarrow> bool" where
  "exemption_earned w \<longleftrightarrow> read_property w ''tarish.awdl.exempt'' = Some [0x31]"

definition awdl_link_is_dead :: "'k world \<Rightarrow> bool" where
  "awdl_link_is_dead w =
     (case w_file w ''/sys/class/net/wondertap0/operstate'' of
        Some v \<Rightarrow> str_trim v = str ''down'' \<or> str_trim v = str ''notpresent''
      | None \<Rightarrow> True)"

fun country_from :: "'k world \<Rightarrow> string list \<Rightarrow> rstring option" where
  "country_from w [] = None"
| "country_from w (prop # props) =
     (case read_property w prop of
        None \<Rightarrow> country_from w props
      | Some raw \<Rightarrow>
        let v = w_upper w (str_trim (hd (split_on 0x2C raw))) in
        if length v = 2 \<and> list_all (\<lambda>b. 0x41 \<le> b \<and> b \<le> 0x5A \<or> 0x61 \<le> b \<and> b \<le> 0x7A) v then Some v
        else country_from w props)"

definition country_code :: "'k world \<Rightarrow> rstring option" where
  "country_code w = country_from w [''persist.tarish.country'', ''persist.vendor.wifi.country'', ''gsm.operator.iso-country'',
     ''gsm.sim.operator.iso-country'', ''ro.boot.wificountrycode'']"

text \<open>
  \<open>u8::from_str_radix\<close> on two bytes, and the loop over the pairs: slicing inside a character panics, a pair that
  is no number gives no override.
\<close>

definition hex_value :: "u8 \<Rightarrow> u8 option" where
  "hex_value b =
     (if is_digit b then Some (b - 0x30)
      else if 0x61 \<le> b \<and> b \<le> 0x66 then Some (b - 0x61 + 10)
      else if 0x41 \<le> b \<and> b \<le> 0x46 then Some (b - 0x41 + 10)
      else None)"

definition hex_pair :: "u8 \<Rightarrow> u8 \<Rightarrow> u8 option" where
  "hex_pair x y =
     (if x = 0x2B then hex_value y
      else case (hex_value x, hex_value y) of (Some h, Some l) \<Rightarrow> Some (16 * h + l) | _ \<Rightarrow> None)"

fun hex_loop :: "bytes \<Rightarrow> nl_error + bytes option" where
  "hex_loop (x # y # s) =
     (if s \<noteq> [] \<and> 0x80 \<le> hd s \<and> hd s < 0xC0 then Inl Nl_Panic
      else case hex_pair x y of
        None \<Rightarrow> Inr None
      | Some b \<Rightarrow> (case hex_loop s of Inr (Some bs) \<Rightarrow> Inr (Some (b # bs)) | r \<Rightarrow> r))"
| "hex_loop _ = Inr (Some [])"

definition config_override :: "'k world \<Rightarrow> nl_error + bytes option" where
  "config_override w =
     (case read_property w ''persist.tarish.mosey_config'' of
        None \<Rightarrow> Inr None
      | Some v \<Rightarrow>
        let hex = concat (map utf8_encode (filter (\<lambda>c. \<not> is_whitespace c) (chars v))) in
        if hex = [] \<or> odd (length hex) then Inr None else hex_loop hex)"

definition channel_override :: "'k world \<Rightarrow> u8 list option" where
  "channel_override w =
     (case read_property w ''persist.tarish.channels'' of
        None \<Rightarrow> None
      | Some v \<Rightarrow>
        let l = map word_of_nat (List.map_filter (\<lambda>c. parse_unsigned 255 (str_trim c)) (split_on 0x2C v)) in
        if l = [] then None else Some l)"

definition radio_modes :: "'k world \<Rightarrow> op_mode list" where
  "radio_modes w = (if w_exists w ''/sys/class/net/radiotap0'' then [Radiotap, Netlink_Mode] else [Netlink_Mode, Radiotap])"

definition frequency_of :: "'k sys \<Rightarrow> 'k world \<Rightarrow> rstring \<Rightarrow> string \<Rightarrow> 'k \<Rightarrow> (nl_error + u32) \<times> 'k" where
  "frequency_of sys w iface operstate k =
     (case w_file w operstate of
        Some v \<Rightarrow> if str_trim v = str ''up'' then frequency_of_tuned sys iface k else (Inr 0, k)
      | None \<Rightarrow> (Inl Nl_Other, k))"

definition in_range :: "int \<Rightarrow> bool" where
  "in_range f \<longleftrightarrow> 2000 \<le> f \<and> f \<le> 7200"

text \<open>
  The three sources of the frequency in their order: the bench override, the kernel, and what the client
  published. A panic in the netlink code is the only error.
\<close>

definition sta_published :: "'k world \<Rightarrow> int" where
  "sta_published w =
     (case Option.bind (read_property w ''tarish.awdl.sta_freq'') (\<lambda>v. parse_signed 2147483647 (str_trim v)) of
        Some f \<Rightarrow> if in_range f then f else if f < 0 then - 1 else 0
      | None \<Rightarrow> 0)"

definition sta_kernel :: "'k sys \<Rightarrow> 'k world \<Rightarrow> 'k \<Rightarrow> (nl_error + int) \<times> 'k" where
  "sta_kernel sys w k =
     (case frequency_of sys w (str ''wlan0'') ''/sys/class/net/wlan0/operstate'' k of
        (Inl e, k') \<Rightarrow> (if e = Nl_Panic then Inl e else Inr (sta_published w), k')
      | (Inr f, k') \<Rightarrow> (Inr (if in_range (uint f) then uint f else sta_published w), k'))"

definition sta_frequency :: "'k sys \<Rightarrow> 'k world \<Rightarrow> 'k \<Rightarrow> (nl_error + int) \<times> 'k" where
  "sta_frequency sys w k =
     (case Option.bind (read_property w ''persist.tarish.sta_freq'') (\<lambda>v. parse_unsigned 4294967295 (str_trim v)) of
        Some f \<Rightarrow> if in_range (int f) then (Inr (int f), k) else sta_kernel sys w k
      | None \<Rightarrow> sta_kernel sys w k)"

section \<open>The link\<close>

abbreviation (input) MAX_MDNS :: u32 where "MAX_MDNS \<equiv> 0x7FFFFFFF"

text \<open>The channels offered, and \<open>Session::start\<close> for each mode and channel list until one is taken.\<close>

definition offered :: "'k world \<Rightarrow> int \<Rightarrow> u8 list list" where
  "offered w sta =
     (case channel_override w of
        Some c \<Rightarrow> [c]
      | None \<Rightarrow> filter (\<lambda>c. \<not> same_band_as_sta c sta) (channels_for sta))"

definition session_start :: "'k world \<Rightarrow> u8 list \<Rightarrow> rstring \<Rightarrow> op_mode \<Rightarrow> bytes \<Rightarrow> bool" where
  "session_start w channels country mode config = (if length country \<noteq> 2 then False else w_start w channels country mode config)"

definition search :: "'k world \<Rightarrow> rstring \<Rightarrow> bytes \<Rightarrow> u8 list list \<Rightarrow> (op_mode \<times> u8 list) option" where
  "search w country config offer =
     List.find (\<lambda>(mode, channels). session_start w channels country mode config) (List.product (radio_modes w) offer)"

text \<open>
  The platform the daemon was built for: the system calls, the name of the data interface, which is
  resolved once, and what the vendor library's start and stop do to the kernel.
\<close>

record 'k platform =
  p_sys :: "'k sys"
  p_iface :: rstring
  p_up :: "'k \<Rightarrow> 'k"
  p_down :: "'k \<Rightarrow> 'k"

datatype acquired = A_Panic | A_Err | A_Ok op_mode "u8 list"

definition acquire :: "'k platform \<Rightarrow> 'k world \<Rightarrow> 'k \<Rightarrow> acquired \<times> 'k" where
  "acquire pf w k =
     (case country_code w of
        None \<Rightarrow> (A_Err, k)
      | Some country \<Rightarrow>
        (case sta_frequency (p_sys pf) w k of
           (Inl e, k1) \<Rightarrow> (A_Panic, k1)
         | (Inr sta, k1) \<Rightarrow>
           (case config_override w of
              Inl e \<Rightarrow> (A_Panic, k1)
            | Inr over \<Rightarrow>
              (case search w country (unwrap_or (mosey_config sta) over) (offered w sta) of
                 None \<Rightarrow> (A_Err, k1)
               | Some (mode, channels) \<Rightarrow>
                 let k2 = p_up pf k1;
                     k3 = snd (add_link_local (p_sys pf) (p_iface pf) k2);
                     k4 = snd (add_rule (p_sys pf) (p_iface pf) (exemption_earned w) k3) in
                 (A_Ok mode channels, k4)))))"

text \<open>\<open>Drop for Link\<close>: the rule first, then the session.\<close>

definition drop_link :: "'k platform \<Rightarrow> 'k \<Rightarrow> 'k" where
  "drop_link pf k = p_down pf (snd (remove_rule (p_sys pf) k))"

section \<open>The poll loop\<close>

abbreviation (input) LOCKDOWN_EVERY :: nat where "LOCKDOWN_EVERY \<equiv> 5000"
abbreviation (input) EXEMPT_MAX :: nat where "EXEMPT_MAX \<equiv> 660000"
abbreviation (input) BLIND_RESTART_AFTER_SECS :: u32 where "BLIND_RESTART_AFTER_SECS \<equiv> 60"
abbreviation (input) BLIND_RESTART_COOLDOWN :: nat where "BLIND_RESTART_COOLDOWN \<equiv> 180000"

text \<open>The loop's variables; \<open>d_lockdown_prop\<close> is what was last published. Only messages depend on the last error.\<close>

record 'k daemon =
  d_kernel :: 'k
  d_link :: bool
  d_last_blind_restart :: "nat option"
  d_last_want :: "bool option"
  d_retry_at :: nat
  d_last_exempt :: "bool option"
  d_exempt_since :: "nat option"
  d_exempt_capped :: bool
  d_last_lockdown :: "bool option"
  d_lockdown_checked_at :: "nat option"
  d_lockdown_prop :: "bool option"
  d_panicked :: bool

definition daemon_start :: "'k \<Rightarrow> nat \<Rightarrow> 'k daemon" where
  "daemon_start k now =
     \<lparr>d_kernel = k, d_link = False, d_last_blind_restart = None, d_last_want = None, d_retry_at = now, d_last_exempt = None,
      d_exempt_since = None, d_exempt_capped = False, d_last_lockdown = None, d_lockdown_checked_at = None,
      d_lockdown_prop = None, d_panicked = False\<rparr>"

text \<open>\<open>map_or(true, |t| t.elapsed() >= d)\<close>.\<close>

definition due :: "nat option \<Rightarrow> nat \<Rightarrow> nat \<Rightarrow> bool" where
  "due t d now = (case t of None \<Rightarrow> True | Some t \<Rightarrow> d \<le> now - t)"

definition tick_lockdown :: "'k platform \<Rightarrow> 'k world \<Rightarrow> 'k daemon \<Rightarrow> 'k daemon" where
  "tick_lockdown pf w d =
     (if due (d_lockdown_checked_at d) LOCKDOWN_EVERY (w_clock w 0) then
        let locked = lockdown_active (p_sys pf) (d_kernel d);
            d' = d\<lparr>d_lockdown_checked_at := Some (w_clock w 1)\<rparr> in
        if d_last_lockdown d' \<noteq> Some locked then 
          d'\<lparr>d_lockdown_prop := (if w_set w then Some locked else d_lockdown_prop d'), d_last_lockdown := Some locked\<rparr>
        else d'
      else d)"

definition tick_want :: "'k world \<Rightarrow> 'k daemon \<Rightarrow> 'k daemon" where
  "tick_want w d =
     (if d_last_want d \<noteq> Some (wants_radio w)
      then d\<lparr>d_last_want := Some (wants_radio w), d_retry_at := w_clock w 2\<rparr> else d)"

text \<open>The ceiling, applied to what the property says: the exemption, and the two variables it is kept in.\<close>

definition exempt_now :: "'k world \<Rightarrow> 'k daemon \<Rightarrow> bool \<times> nat option \<times> bool" where
  "exempt_now w d =
     (if exemption_earned w then
        (case d_exempt_since d of
           None \<Rightarrow> (True, Some (w_clock w 3), d_exempt_capped d)
         | Some t \<Rightarrow> if EXEMPT_MAX < w_clock w 3 - t then (False, Some t, True) else (True, Some t, d_exempt_capped d))
      else (False, None, False))"

definition tick_exempt :: "'k platform \<Rightarrow> 'k world \<Rightarrow> 'k daemon \<Rightarrow> 'k daemon" where
  "tick_exempt pf w d =
     (case exempt_now w d of
        (exempt, since, capped) \<Rightarrow>
          let d' = d\<lparr>d_exempt_since := since, d_exempt_capped := capped\<rparr> in
          if d_last_exempt d' \<noteq> Some exempt then
            d'\<lparr>d_kernel := (if d_link d' then snd (add_rule (p_sys pf) (p_iface pf) exempt (d_kernel d')) else d_kernel d'),
               d_last_exempt := Some exempt\<rparr>
          else d')"

definition tick_link :: "'k platform \<Rightarrow> 'k world \<Rightarrow> 'k daemon \<Rightarrow> 'k daemon" where
  "tick_link pf w d =
     (let want = wants_radio w in
      if want \<and> \<not> d_link d \<and> d_retry_at d \<le> w_clock w 4 then
        (case acquire pf (in_acquire w) (d_kernel d) of
           (A_Ok _ _, k) \<Rightarrow> d\<lparr>d_link := True, d_kernel := k\<rparr>
         | (A_Err, k) \<Rightarrow> d\<lparr>d_kernel := k, d_retry_at := w_clock w 5 + 5000\<rparr>
         | (A_Panic, k) \<Rightarrow> d\<lparr>d_kernel := k, d_panicked := True\<rparr>)
      else if \<not> want \<and> d_link d then d\<lparr>d_link := False, d_kernel := drop_link pf (d_kernel d)\<rparr>
      else if want \<and> d_link d \<and> awdl_link_is_dead w then d\<lparr>d_link := False, d_kernel := drop_link pf (d_kernel d)\<rparr>
      else if want \<and> d_link d \<and> BLIND_RESTART_AFTER_SECS \<le> unwrap_or 0 (w_blind w) \<and>
          due (d_last_blind_restart d) BLIND_RESTART_COOLDOWN (w_clock w 6) then
        d\<lparr>d_last_blind_restart := Some (w_clock w 7), d_link := False, d_kernel := drop_link pf (d_kernel d)\<rparr>
      else d)"

definition tick :: "'k platform \<Rightarrow> 'k world \<Rightarrow> 'k daemon \<Rightarrow> 'k daemon" where
  "tick pf w d =
     (if d_panicked d then d
      else tick_link pf w (tick_exempt pf w (tick_want w (tick_lockdown pf w (d\<lparr>d_kernel := w_kernel w (d_kernel d)\<rparr>)))))"

text \<open>The loop until a signal, then the link is dropped.\<close>

fun daemon_run :: "'k platform \<Rightarrow> 'k world list \<Rightarrow> 'k daemon \<Rightarrow> 'k daemon" where
  "daemon_run pf [] d = d"
| "daemon_run pf (w # ws) d = daemon_run pf ws (tick pf w d)"

definition shutdown :: "'k platform \<Rightarrow> 'k daemon \<Rightarrow> 'k daemon" where
  "shutdown pf d = (if d_link d then d\<lparr>d_link := False, d_kernel := drop_link pf (d_kernel d)\<rparr> else d)"

section \<open>Configuration and channels\<close>

lemma config_varint_bytes: "config_varint n = varint_bytes (ucast n)"
proof (induction n rule: config_varint.induct)
  case (1 n)
  have "unat n < 2 ^ 64" using unsigned_less [of n, where ?'a = nat] by simp
  then have "0x80 \<le> n \<longleftrightarrow> 0x80 \<le> (ucast n :: u64)"
    by (simp add: word_le_nat_alt unsigned_ucast_eq take_bit_nat_eq_self)
  moreover have "drop_bit 7 (ucast n :: u64) = ucast (drop_bit 7 n)"
    by (rule bit_word_eqI) (auto simp: bit_simps dest: bit_imp_le_length)
  moreover have "ucast (ucast n :: u64) = (ucast n :: u8)" by (rule bit_word_eqI) (auto simp: bit_simps)
  ultimately show ?case using 1 by (simp add: config_varint.simps [of n] varint_bytes.simps [of "ucast n"])
qed

lemma mosey_config_enc:
  "mosey_config f = pb_enc ([Varint 1 1] @ (if 0 < f then [Varint 2 (ucast (word_of_int f :: u32))] else []) @ [Varint 6 1])"
proof -
  have "enc_field (Varint 1 1) = CFG_DBS_SUPPORTED" "enc_field (Varint 6 1) = CFG_RATE_ADAPTATION"
    "varint_bytes (field_tag 2 WIRE_VARINT) = [CFG_STA_FREQ_TAG]" by code_simp+
  then show ?thesis by (simp add: mosey_config_def config_varint_bytes)
qed

section \<open>The rule through the loop\<close>

text \<open>
  What the theorems ask of the platform: rules are kept as netlink documents, nothing else the daemon
  calls changes them, and the user of the sharing daemon is known.
\<close>

definition daemon_kernel :: "'k platform \<Rightarrow> ('k \<Rightarrow> fib_rule multiset) \<Rightarrow> u32 \<Rightarrow> bool" where
  "daemon_kernel pf rules uid \<longleftrightarrow>
     rule_kernel (p_sys pf) rules \<and> (\<forall>k. sharing_uid (p_sys pf) k = Inr uid) \<and> length (p_iface pf) < 65000 \<and>
     (\<forall>k. rules (p_up pf k) = rules k) \<and> (\<forall>k. rules (p_down pf k) = rules k) \<and>
     (\<forall>msg k. rules (snd (sys_genl (p_sys pf) msg k)) = rules k) \<and>
     (\<forall>msg k. msg_type msg = RTM_NEWROUTE \<longrightarrow> rules (snd (sys_netlink (p_sys pf) msg k)) = rules k)"

lemma genl_rules:
  assumes "daemon_kernel pf rules uid"
  shows "rules (snd (genl_request (p_sys pf) a b c k)) = rules k"
proof -
  have "rules (snd (sys_genl (p_sys pf) m k)) = rules k" for m using assms by (simp add: daemon_kernel_def)
  then show ?thesis unfolding genl_request_def Let_def
    by (auto split: prod.splits sum.splits) (metis snd_conv)+
qed

lemma sta_frequency_rules:
  assumes "daemon_kernel pf rules uid"
  shows "rules (snd (sta_frequency (p_sys pf) w k)) = rules k"
proof -
  have g: "rules k' = rules k" if "genl_request (p_sys pf) a b c k = (r, k')" for a b c k r k'
    using genl_rules [OF assms, of a b c k] that by simp
  have fam: "rules k' = rules k" if "nl80211_family (p_sys pf) k = (r, k')" for k r k'
    using that by (auto simp: nl80211_family_def split: prod.splits sum.splits dest: g)
  have "rules (snd (frequency_of_tuned (p_sys pf) i k)) = rules k" for i
    by (auto simp: frequency_of_tuned_def split: prod.splits sum.splits dest!: g fam)
  then have "rules (snd (frequency_of (p_sys pf) w i f k)) = rules k" for i f
    by (auto simp: frequency_of_def split: option.splits)
  then have "rules (snd (sta_kernel (p_sys pf) w k)) = rules k"
    unfolding sta_kernel_def by (auto split: prod.splits sum.splits) (metis snd_conv)+
  then show ?thesis by (auto simp: sta_frequency_def split: option.splits)
qed

lemma route_rules:
  assumes "daemon_kernel pf rules uid"
  shows "rules (snd (add_link_local (p_sys pf) (p_iface pf) k)) = rules k"
proof -
  have "rules (snd (sys_netlink (p_sys pf) (nl_request RTM_NEWROUTE b fl) k)) = rules k" for b fl
    using assms msg_type_request unfolding daemon_kernel_def by blast
  then show ?thesis unfolding add_link_local_def send_nl_def send_nl_flags_def
    by (auto split: prod.splits sum.splits) (metis snd_conv)+
qed

lemma at_most_8:
  assumes "ours R = {#} \<or> ours R = {#r#}"
  shows "size (at_priority RULE_PRIORITY_EXEMPT R) \<le> 8" "size (at_priority RULE_PRIORITY_PLAIN R) \<le> 8"
  using size_ours [of R] assms by auto

lemma drop_link_rules:
  assumes "daemon_kernel pf rules uid" "ours (rules k) = {#} \<or> ours (rules k) = {#r#}"
  shows "ours (rules (drop_link pf k)) = {#}"
proof -
  have rk: "rule_kernel (p_sys pf) rules" and d: "\<And>k. rules (p_down pf k) = rules k" using assms(1) by (auto simp: daemon_kernel_def)
  obtain n k' where s: "sweep (p_sys pf) RULE_PRIORITIES k = (n, k')" by force
  from sweep_clears(1) [OF rk at_most_8 [OF assms(2)] s] s d show ?thesis by (simp add: drop_link_def remove_rule_def)
qed

text \<open>Moving the rule when the interface resolves, and when it does not.\<close>

lemma add_rule_result:
  assumes "daemon_kernel pf rules uid" "ours (rules k) = {#} \<or> ours (rules k) = {#r#}"
  shows "(\<exists>idx. index_of (p_sys pf) (p_iface pf) k = Inr idx \<and>
      ours (rules (snd (add_rule (p_sys pf) (p_iface pf) e k))) = {#our_rule (p_iface pf) idx e uid#}) \<or>
    (\<exists>err. index_of (p_sys pf) (p_iface pf) k = Inl err) \<and> snd (add_rule (p_sys pf) (p_iface pf) e k) = k"
proof (cases "index_of (p_sys pf) (p_iface pf) k")
  case (Inr idx)
  have p: "rule_kernel (p_sys pf) rules" "\<And>k. sharing_uid (p_sys pf) k = Inr uid" "length (p_iface pf) < 65000"
    using assms(1) by (auto simp: daemon_kernel_def)
  obtain k' where "add_rule (p_sys pf) (p_iface pf) e k = (Inr (), k')" "ours (rules k') = {#our_rule (p_iface pf) idx e uid#}"
    by (rule add_rule_kernel [OF p(1) Inr p(2,3) at_most_8 [OF assms(2)]])
  with Inr show ?thesis by auto
qed (simp add: add_rule_def)

text \<open>
  Acquiring the link looks at the property alone, when the loop may have decided otherwise: because the ceiling
  holds the exemption down, or because the property has changed since the loop read it. \<open>unheld\<close> follows a run and is
  true while such a link is up and the loop has had no reason since to move its rule.
\<close>

definition unheld_step :: "'k platform \<Rightarrow> 'k world \<Rightarrow> 'k daemon \<Rightarrow> bool \<Rightarrow> bool" where
  "unheld_step pf w d h \<longleftrightarrow>
     d_link (tick pf w d) \<and> \<not> fst (exempt_now w d) \<and> (if d_link d then h else exemption_earned (in_acquire w))"

fun unheld :: "'k platform \<Rightarrow> 'k world list \<Rightarrow> 'k daemon \<Rightarrow> bool \<Rightarrow> bool" where
  "unheld pf [] d h \<longleftrightarrow> h"
| "unheld pf (w # ws) d h \<longleftrightarrow> unheld pf ws (tick pf w d) (unheld_step pf w d h)"

text \<open>
  What holds between rounds: without a link there is no rule of ours; with one there is at most one, and
  one above the kill-switch only as long as the loop believes the exemption to be on, or has not moved it.
\<close>

definition rule_inv :: "'k platform \<Rightarrow> ('k \<Rightarrow> fib_rule multiset) \<Rightarrow> u32 \<Rightarrow> bool \<Rightarrow> 'k daemon \<Rightarrow> bool" where
  "rule_inv pf rules uid h d \<longleftrightarrow>
     ours (rules (d_kernel d)) = {#} \<or>
     d_link d \<and> (\<exists>idx e. ours (rules (d_kernel d)) = {#our_rule (p_iface pf) idx e uid#} \<and>
       (e \<longrightarrow> d_last_exempt d = Some True \<or> h \<and> d_last_exempt d = Some False))"

text \<open>A round in which others leave our rules alone, and the data interface resolves while the link is up.\<close>

definition round_ok :: "'k platform \<Rightarrow> ('k \<Rightarrow> fib_rule multiset) \<Rightarrow> 'k world \<Rightarrow> 'k daemon \<Rightarrow> bool" where
  "round_ok pf rules w d \<longleftrightarrow>
     (\<forall>k. ours (rules (w_kernel w k)) = ours (rules k)) \<and>
     (d_link d \<longrightarrow> (\<exists>idx. index_of (p_sys pf) (p_iface pf) (w_kernel w (d_kernel d)) = Inr idx))"

fun run_ok :: "'k platform \<Rightarrow> ('k \<Rightarrow> fib_rule multiset) \<Rightarrow> 'k world list \<Rightarrow> 'k daemon \<Rightarrow> bool" where
  "run_ok pf rules [] d \<longleftrightarrow> True"
| "run_ok pf rules (w # ws) d \<longleftrightarrow> round_ok pf rules w d \<and> run_ok pf rules ws (tick pf w d)"

lemma tick_lockdown_fields [simp]:
  "d_kernel (tick_lockdown pf w d) = d_kernel d" "d_link (tick_lockdown pf w d) = d_link d"
  "d_last_exempt (tick_lockdown pf w d) = d_last_exempt d" "d_exempt_since (tick_lockdown pf w d) = d_exempt_since d"
  "d_exempt_capped (tick_lockdown pf w d) = d_exempt_capped d"
  by (simp_all add: tick_lockdown_def Let_def)

lemma tick_want_fields [simp]:
  "d_kernel (tick_want w d) = d_kernel d" "d_link (tick_want w d) = d_link d"
  "d_last_exempt (tick_want w d) = d_last_exempt d" "d_exempt_since (tick_want w d) = d_exempt_since d"
  "d_exempt_capped (tick_want w d) = d_exempt_capped d"
  by (simp_all add: tick_want_def)

lemma tick_link_fields [simp]: "d_last_exempt (tick_link pf w d) = d_last_exempt d" "d_exempt_since (tick_link pf w d) = d_exempt_since d"
  by (auto simp: tick_link_def Let_def split: prod.splits acquired.splits)

lemma tick_exempt_fields [simp]:
  "d_link (tick_exempt pf w d) = d_link d" "d_last_exempt (tick_exempt pf w d) = Some (fst (exempt_now w d))"
  "d_exempt_since (tick_exempt pf w d) = fst (snd (exempt_now w d))"
  by (auto simp: tick_exempt_def Let_def split: prod.splits)

lemma exempt_now_cong: "d_exempt_since d = d_exempt_since d' \<Longrightarrow> d_exempt_capped d = d_exempt_capped d' \<Longrightarrow> exempt_now w d = exempt_now w d'"
  by (simp add: exempt_now_def split: option.splits)

lemma tick_exempt_inv:
  assumes "daemon_kernel pf rules uid" "rule_inv pf rules uid h d" "d_link d \<Longrightarrow> \<exists>idx. index_of (p_sys pf) (p_iface pf) (d_kernel d) = Inr idx"
  shows "rule_inv pf rules uid (h \<and> \<not> fst (exempt_now w d)) (tick_exempt pf w d)"
proof (cases "d_last_exempt d = Some (fst (exempt_now w d)) \<or> \<not> d_link d")
  case True
  then have k: "d_kernel (tick_exempt pf w d) = d_kernel d" by (auto simp: tick_exempt_def Let_def split: prod.splits)
  consider "ours (rules (d_kernel d)) = {#}" | idx e where "d_link d" "ours (rules (d_kernel d)) = {#our_rule (p_iface pf) idx e uid#}"
      "e \<longrightarrow> d_last_exempt d = Some True \<or> h \<and> d_last_exempt d = Some False"
    using assms(2) unfolding rule_inv_def by blast
  then show ?thesis
  proof cases
    case 2
    with True show ?thesis
      unfolding rule_inv_def k tick_exempt_fields by (intro disjI2 conjI exI [of _ idx] exI [of _ e]) auto
  qed (simp add: rule_inv_def k)
next
  case False
  then have k: "d_kernel (tick_exempt pf w d) = snd (add_rule (p_sys pf) (p_iface pf) (fst (exempt_now w d)) (d_kernel d))"
    by (auto simp: tick_exempt_def Let_def split: prod.splits)
  have "ours (rules (d_kernel d)) = {#} \<or> (\<exists>r. ours (rules (d_kernel d)) = {#r#})" using assms(2) by (auto simp: rule_inv_def)
  then obtain r where "ours (rules (d_kernel d)) = {#} \<or> ours (rules (d_kernel d)) = {#r#}" by blast
  from add_rule_result [OF assms(1) this, of "fst (exempt_now w d)"] assms(3) False obtain idx where
    "ours (rules (d_kernel (tick_exempt pf w d))) = {#our_rule (p_iface pf) idx (fst (exempt_now w d)) uid#}"
    unfolding k by force
  with False show ?thesis by (auto simp: rule_inv_def)
qed

lemma acquire_rules:
  assumes "daemon_kernel pf rules uid" "ours (rules k) = {#}" "acquire pf w k = (res, k')"
  shows "ours (rules k') = {#} \<or> (\<exists>m c. res = A_Ok m c) \<and> (\<exists>idx. ours (rules k') = {#our_rule (p_iface pf) idx (exemption_earned w) uid#})"
proof -
  have s: "rules (snd (sta_frequency (p_sys pf) w k)) = rules k" by (rule sta_frequency_rules [OF assms(1)])
  have up: "rules (p_up pf k) = rules k" for k using assms(1) by (simp add: daemon_kernel_def)
  have "ours (rules (snd (add_rule (p_sys pf) (p_iface pf) (exemption_earned w) k2))) = {#} \<or>
      (\<exists>idx. ours (rules (snd (add_rule (p_sys pf) (p_iface pf) (exemption_earned w) k2))) = {#our_rule (p_iface pf) idx (exemption_earned w) uid#})"
    if "ours (rules k2) = {#}" for k2
    using add_rule_result [OF assms(1), of k2 _ "exemption_earned w"] that by fastforce
  then have "ours (rules k4) = {#} \<or> (\<exists>idx. ours (rules k4) = {#our_rule (p_iface pf) idx (exemption_earned w) uid#})"
    if "rules k1 = rules k"
      "k4 = snd (add_rule (p_sys pf) (p_iface pf) (exemption_earned w) (snd (add_link_local (p_sys pf) (p_iface pf) (p_up pf k1))))"
    for k1 k4
    unfolding that(2) using that(1) up route_rules [OF assms(1)] assms(2) by simp
  with assms(2,3) s show ?thesis
    unfolding acquire_def Let_def by (fastforce split: option.splits prod.splits sum.splits)
qed

lemma tick_link_cases:
  "tick_link pf w d = d \<or> d_kernel (tick_link pf w d) = drop_link pf (d_kernel d) \<or>
   \<not> d_link d \<and> d_kernel (tick_link pf w d) = snd (acquire pf (in_acquire w) (d_kernel d)) \<and>
     (d_link (tick_link pf w d) \<longleftrightarrow> (\<exists>m c. fst (acquire pf (in_acquire w) (d_kernel d)) = A_Ok m c))"
proof (cases "acquire pf (in_acquire w) (d_kernel d)")
  case (Pair res k)
  then show ?thesis by (cases res) (simp_all add: tick_link_def Let_def)
qed

lemma tick_link_inv:
  assumes "daemon_kernel pf rules uid" "rule_inv pf rules uid h d" "d_last_exempt d = Some e" "d_link d \<Longrightarrow> h \<Longrightarrow> h'"
    "\<not> d_link d \<Longrightarrow> d_link (tick_link pf w d) \<Longrightarrow> exemption_earned (in_acquire w) \<Longrightarrow> \<not> e \<Longrightarrow> h'"
  shows "rule_inv pf rules uid h' (tick_link pf w d)"
proof -
  obtain r where r: "ours (rules (d_kernel d)) = {#} \<or> ours (rules (d_kernel d)) = {#r#}" using assms(2) by (auto simp: rule_inv_def)
  note dl = drop_link_rules [OF assms(1) r]
  obtain res k' where a: "acquire pf (in_acquire w) (d_kernel d) = (res, k')" by force
  consider "tick_link pf w d = d" | "d_kernel (tick_link pf w d) = drop_link pf (d_kernel d)"
    | "\<not> d_link d" "d_kernel (tick_link pf w d) = k'" "d_link (tick_link pf w d) \<longleftrightarrow> (\<exists>m c. res = A_Ok m c)"
    using tick_link_cases [of pf w d] a by auto
  then show ?thesis
  proof cases
    case 3
    then have "ours (rules (d_kernel d)) = {#}" using assms(2) by (auto simp: rule_inv_def)
    from acquire_rules [OF assms(1) this a] 3 assms(3,5) show ?thesis by (cases e) (auto simp: rule_inv_def)
  qed (use assms(2,4) dl in \<open>auto simp: rule_inv_def\<close>)
qed

lemma tick_inv:
  assumes "daemon_kernel pf rules uid" "rule_inv pf rules uid h d" "round_ok pf rules w d" "\<not> d_panicked d"
  shows "rule_inv pf rules uid (unheld_step pf w d h) (tick pf w d)"
proof -
  let ?d0 = "d\<lparr>d_kernel := w_kernel w (d_kernel d)\<rparr>"
  let ?d1 = "tick_want w (tick_lockdown pf w ?d0)"
  let ?d2 = "tick_exempt pf w ?d1"
  have t: "tick pf w d = tick_link pf w ?d2" using assms(4) by (simp add: tick_def)
  have "ours (rules (w_kernel w (d_kernel d))) = ours (rules (d_kernel d))" using assms(3) by (simp add: round_ok_def)
  then have "rule_inv pf rules uid h ?d1" using assms(2) by (simp add: rule_inv_def)
  moreover have e: "exempt_now w ?d1 = exempt_now w d" by (rule exempt_now_cong) simp_all
  ultimately have i2: "rule_inv pf rules uid (h \<and> \<not> fst (exempt_now w d)) ?d2"
    using tick_exempt_inv [OF assms(1), of h ?d1 w] assms(3) by (simp add: round_ok_def)
  show ?thesis
  proof (cases "d_link (tick pf w d)")
    case True
    show ?thesis
      unfolding t by (rule tick_link_inv [OF assms(1) i2, of "fst (exempt_now w d)"])
        (use True t e in \<open>auto simp: unheld_step_def\<close>)
  next
    case False
    have "rule_inv pf rules uid True (tick_link pf w ?d2)"
      by (rule tick_link_inv [OF assms(1) i2, of "fst (exempt_now w d)"]) (simp_all add: e)
    with False show ?thesis unfolding t by (auto simp: rule_inv_def)
  qed
qed

lemma tick_panic: "d_panicked d \<Longrightarrow> tick pf w d = d"
  by (simp add: tick_def)

lemma daemon_run_panic: "d_panicked d \<Longrightarrow> daemon_run pf ws d = d"
  by (induction ws) (simp_all add: tick_panic)

lemma daemon_run_inv:
  "daemon_kernel pf rules uid \<Longrightarrow> rule_inv pf rules uid h d \<Longrightarrow> run_ok pf rules ws d \<Longrightarrow> \<not> d_panicked (daemon_run pf ws d) \<Longrightarrow>
   rule_inv pf rules uid (unheld pf ws d h) (daemon_run pf ws d)"
proof (induction ws arbitrary: d h)
  case (Cons w ws)
  then have "\<not> d_panicked d" using daemon_run_panic [of d pf "w # ws"] by auto
  with Cons show ?case by (auto intro: tick_inv)
qed simp

lemma daemon_run_snoc: "daemon_run pf (ws @ [w]) d = tick pf w (daemon_run pf ws d)"
  by (induction ws arbitrary: d) simp_all

lemma unheld_snoc: "unheld pf (ws @ [w]) d h \<longleftrightarrow> unheld_step pf w (daemon_run pf ws d) (unheld pf ws d h)"
  by (induction ws arbitrary: d h) simp_all

lemma run_ok_snoc: "run_ok pf rules (ws @ [w]) d \<longleftrightarrow> run_ok pf rules ws d \<and> round_ok pf rules w (daemon_run pf ws d)"
  by (induction ws arbitrary: d) auto

lemma tick_exempt_state:
  assumes "\<not> d_panicked d"
  shows "d_last_exempt (tick pf w d) = Some (fst (exempt_now w d))" "d_exempt_since (tick pf w d) = fst (snd (exempt_now w d))"
proof -
  have "exempt_now w (tick_want w (tick_lockdown pf w (d\<lparr>d_kernel := w_kernel w (d_kernel d)\<rparr>))) = exempt_now w d"
    by (rule exempt_now_cong) simp_all
  then show "d_last_exempt (tick pf w d) = Some (fst (exempt_now w d))" "d_exempt_since (tick pf w d) = fst (snd (exempt_now w d))"
    using assms by (simp_all add: tick_def)
qed

lemma exempt_now_True: "fst (exempt_now w d) \<Longrightarrow> exemption_earned w \<and> (\<exists>t. fst (snd (exempt_now w d)) = Some t \<and> w_clock w 3 - t \<le> EXEMPT_MAX)"
  by (auto simp: exempt_now_def split: if_splits option.splits)

lemma exempt_rule_inv:
  assumes "rule_inv pf rules uid h d" "at_priority RULE_PRIORITY_EXEMPT (rules (d_kernel d)) \<noteq> {#}"
  shows "d_link d \<and> (d_last_exempt d = Some True \<or> h)"
proof -
  let ?R = "rules (d_kernel d)"
  have a: "at_priority RULE_PRIORITY_EXEMPT ?R = at_priority RULE_PRIORITY_EXEMPT (ours ?R)"
    unfolding at_priority_def ours_def filter_filter_mset by (rule filter_mset_cong0) auto
  with assms(2) have "ours ?R \<noteq> {#}" by (auto simp: at_priority_def)
  with assms(1) obtain idx e where "d_link d" "ours ?R = {#our_rule (p_iface pf) idx e uid#}" "e \<longrightarrow> d_last_exempt d = Some True \<or> h"
    unfolding rule_inv_def by blast
  moreover have e using assms(2) unfolding a calculation(2) by (simp add: at_priority_def our_rule_def split: if_splits)
  ultimately show ?thesis by simp
qed

lemma window_step:
  assumes "daemon_kernel pf rules uid" "rule_inv pf rules uid h d" "round_ok pf rules w d" "\<not> d_panicked d"
    "at_priority RULE_PRIORITY_EXEMPT (rules (d_kernel (tick pf w d))) \<noteq> {#}"
  shows "d_link (tick pf w d) \<and>
    (exemption_earned w \<and> (\<exists>t. d_exempt_since (tick pf w d) = Some t \<and> w_clock w 3 - t \<le> EXEMPT_MAX) \<or> unheld_step pf w d h)"
  using exempt_rule_inv [OF tick_inv [OF assms(1-4)] assms(5)] tick_exempt_state [OF assms(4), of pf w] exempt_now_True [of w d]
  by auto

section \<open>A platform to run it on\<close>

definition sample_platform :: "fib_rule list platform" where
  "sample_platform = \<lparr>p_sys = sample_sys, p_iface = str ''tlink0'', p_up = id, p_down = id\<rparr>"

definition sample_props :: "bytes \<Rightarrow> string \<Rightarrow> bytes" where
  "sample_props exempt name =
     (if name = ''tarish.awdl.exempt'' then exempt else if name = ''persist.tarish.country'' then str ''US'' else [])"

definition sample_world :: "nat \<Rightarrow> bytes \<Rightarrow> fib_rule list world" where
  "sample_world t exempt = \<lparr>
     w_props = sample_props exempt, w_later = sample_props exempt,
     w_file = (\<lambda>name. if name = ''/sys/class/net/wondertap0/operstate'' then Some (str ''up'') else None),
     w_exists = (\<lambda>_. False), w_clock = (\<lambda>_. t), w_start = (\<lambda>_ _ _ _. True), w_blind = None, w_upper = id,
     w_set = True, w_kernel = id\<rparr>"

lemma sample_in_acquire [simp]: "in_acquire (sample_world t e) = sample_world t e"
  by (simp add: in_acquire_def sample_world_def)

lemma sample_daemon_kernel: "daemon_kernel sample_platform mset 7500"
  using sample_rule_kernel
  by (simp add: daemon_kernel_def sample_platform_def str_def sharing_uid_def) (simp add: sample_sys_def sample_netlink_def)

lemma sample_add_rule: "add_rule sample_sys (str ''tlink0'') e [] = (Inr (), [our_rule (str ''tlink0'') 52 e 7500])"
proof -
  have "del_rule_at sample_sys p [] = (Inl (Nl_Os 2), [])" for p
    by (simp add: del_rule_at_def send_nl_flags_def sample_sys_def sample_netlink_def msg_type_request msg_priority_del
        nl_verdict_answer [OF nl_ack_answer])
  then have "sweep_at sample_sys p 8 [] = (0, [])" for p by (simp add: numeral_eq_Suc)
  moreover have n: "0 \<notin> set (str ''tlink0'')" "length (str ''tlink0'') < 65000" by (simp_all add: str_def)
  moreover have "send_nl sample_sys RTM_NEWRULE (add_rule_body (str ''tlink0'') 52 p 7500) [] =
      (Inr (), [\<lparr>fr_priority = p, fr_table = 52, fr_oif = str ''tlink0'', fr_uids = (7500, 7500)\<rparr>])" for p
    using n by (simp add: send_nl_def send_nl_flags_def sample_sys_def sample_netlink_def msg_type_request msg_rule_add
        nl_verdict_answer [OF nl_ack_answer])
  moreover have "sys_index sample_sys i k = 52" "sys_uid sample_sys k = Some 7500" for i k by (simp_all add: sample_sys_def)
  ultimately show ?thesis
    by (simp add: add_rule_def Let_def index_of_def sharing_uid_def our_rule_def)
qed

lemma sample_world_simps:
  "exemption_earned (sample_world t e) \<longleftrightarrow> e = [0x31]" "wants_radio (sample_world t e)" "\<not> awdl_link_is_dead (sample_world t e)"
  "country_code (sample_world t e) = Some (str ''US'')" "config_override (sample_world t e) = Inr None"
proof -
  have v: "utf8_valid [0x31]" "utf8_valid (str ''US'')" by code_simp+
  have "list_all is_ascii_graphic (str ''up'')" "list_all is_ascii_graphic (str ''US'')" by code_simp+
  then have tr: "str_trim (str ''up'') = str ''up''" "str_trim (str ''US'') = str ''US''" by (simp_all add: str_trim_graphic)
  show "exemption_earned (sample_world t e) \<longleftrightarrow> e = [0x31]"
    using v by (auto simp: exemption_earned_def read_property_def sample_world_def sample_props_def from_utf8_def Let_def)
  show "wants_radio (sample_world t e)" by (simp add: wants_radio_def read_property_def sample_world_def sample_props_def)
  show "\<not> awdl_link_is_dead (sample_world t e)" using tr by (simp add: awdl_link_is_dead_def sample_world_def sample_props_def str_def)
  have sp: "hd (split_on 0x2C (str ''US'')) = str ''US''" "str ''US'' \<noteq> []"
    "list_all (\<lambda>b. 0x41 \<le> b \<and> b \<le> 0x5A \<or> 0x61 \<le> b \<and> b \<le> 0x7A) (str ''US'')" "length (str ''US'') = 2" by code_simp+
  show "country_code (sample_world t e) = Some (str ''US'')"
    using v tr sp by (simp add: country_code_def read_property_def sample_world_def sample_props_def from_utf8_def Let_def)
  show "config_override (sample_world t e) = Inr None" by (simp add: config_override_def read_property_def sample_world_def sample_props_def)
qed

lemma sample_acquire: "\<exists>m c. acquire sample_platform (sample_world t e) [] = (A_Ok m c, [our_rule (str ''tlink0'') 52 (e = [0x31]) 7500])"
proof -
  have "sta_frequency sample_sys (sample_world t e) [] = (Inr 0, [])"
    by (simp add: sta_frequency_def sta_kernel_def sta_published_def frequency_of_def read_property_def sample_world_def sample_props_def)
  moreover have "offered (sample_world t e) 0 = [CHANNELS_5, CHANNELS_24]"
    by (simp add: offered_def channel_override_def read_property_def sample_world_def sample_props_def channels_for_def same_band_as_sta_def)
  moreover have "snd (add_link_local sample_sys i []) = []" for i
    by (simp add: add_link_local_def send_nl_def send_nl_flags_def sample_sys_def sample_netlink_def msg_type_request split: sum.splits)
  moreover have "length (str ''US'') = 2" by code_simp
  ultimately show ?thesis
    by (simp add: acquire_def sample_world_simps sample_platform_def Let_def sample_add_rule search_def session_start_def radio_modes_def)
      (simp add: sample_world_def sample_props_def)
qed

lemma sample_tick:
  "d_kernel (tick sample_platform (sample_world t e) (daemon_start [] 0)) = [our_rule (str ''tlink0'') 52 (e = [0x31]) 7500]"
  "d_link (tick sample_platform (sample_world t e) (daemon_start [] 0))"
proof -
  obtain m c where "acquire sample_platform (sample_world t e) [] = (A_Ok m c, [our_rule (str ''tlink0'') 52 (e = [0x31]) 7500])"
    using sample_acquire by blast
  moreover have "w_kernel (sample_world t e) = id" "w_clock (sample_world t e) i = t" for i by (simp_all add: sample_world_def sample_props_def)
  ultimately show "d_kernel (tick sample_platform (sample_world t e) (daemon_start [] 0)) = [our_rule (str ''tlink0'') 52 (e = [0x31]) 7500]"
    "d_link (tick sample_platform (sample_world t e) (daemon_start [] 0))"
    by (simp_all add: tick_def tick_link_def Let_def sample_world_simps) (simp_all add: daemon_start_def tick_exempt_def tick_want_def tick_lockdown_def Let_def due_def split: prod.splits)
qed

section \<open>When the ceiling is passed\<close>

lemma tick_parts:
  assumes "\<not> d_panicked d"
  obtains d2 where "tick pf w d = tick_link pf w d2" "d_link d2 = d_link d" "d_last_exempt d2 = Some (fst (exempt_now w d))"
    "d_exempt_since d2 = fst (snd (exempt_now w d))"
    "d_kernel d2 = (if d_last_exempt d \<noteq> Some (fst (exempt_now w d)) \<and> d_link d
       then snd (add_rule (p_sys pf) (p_iface pf) (fst (exempt_now w d)) (w_kernel w (d_kernel d))) else w_kernel w (d_kernel d))"
    "d_panicked d2 = False" "d_last_blind_restart d2 = d_last_blind_restart d"
proof -
  let ?d1 = "tick_want w (tick_lockdown pf w (d\<lparr>d_kernel := w_kernel w (d_kernel d)\<rparr>))"
  have e: "exempt_now w ?d1 = exempt_now w d" by (rule exempt_now_cong) simp_all
  have "d_panicked ?d1 = False" "d_last_blind_restart ?d1 = d_last_blind_restart d"
    using assms by (simp_all add: tick_want_def tick_lockdown_def Let_def)
  moreover have "tick pf w d = tick_link pf w (tick_exempt pf w ?d1)" using assms by (simp add: tick_def)
  ultimately show thesis
    by (intro that [of "tick_exempt pf w ?d1"]) (auto simp: e tick_exempt_def Let_def split: prod.splits)
qed

lemma tick_link_stays: "d_link d \<Longrightarrow> d_link (tick_link pf w d) \<Longrightarrow> tick_link pf w d = d"
  by (auto simp: tick_link_def Let_def split: if_splits)

lemma tick_link_acquires:
  "\<not> d_link d \<Longrightarrow> d_link (tick_link pf w d) \<Longrightarrow>
     \<exists>m c k. acquire pf (in_acquire w) (d_kernel d) = (A_Ok m c, k) \<and> tick_link pf w d = d\<lparr>d_link := True, d_kernel := k\<rparr>"
  by (auto simp: tick_link_def Let_def split: if_splits prod.splits acquired.splits)

lemma acquire_exempt:
  assumes "daemon_kernel pf rules uid" "ours (rules k) = {#}" "acquire pf w k = (A_Ok m c, k')" "exemption_earned w"
    "\<And>k. \<exists>idx. index_of (p_sys pf) (p_iface pf) k = Inr idx"
  shows "\<exists>idx. ours (rules k') = {#our_rule (p_iface pf) idx True uid#}"
proof -
  obtain sta k1 where k1: "sta_frequency (p_sys pf) w k = (Inr sta, k1)"
    "k' = snd (add_rule (p_sys pf) (p_iface pf) True (snd (add_link_local (p_sys pf) (p_iface pf) (p_up pf k1))))"
    using assms(3,4) unfolding acquire_def Let_def by (auto split: option.splits prod.splits sum.splits)
  let ?k3 = "snd (add_link_local (p_sys pf) (p_iface pf) (p_up pf k1))"
  have "rules k1 = rules k" using sta_frequency_rules [OF assms(1), of w k] k1(1) by simp
  then have "rules ?k3 = rules k" using route_rules [OF assms(1), of "p_up pf k1"] assms(1) by (simp add: daemon_kernel_def)
  then have "ours (rules ?k3) = {#} \<or> ours (rules ?k3) = {#r#}" for r using assms(2) by simp
  from add_rule_result [OF assms(1) this, of True] assms(5) [of ?k3] show ?thesis unfolding k1(2) by auto
qed

lemma at_ours: "ours R = {#our_rule i x True u#} \<Longrightarrow> at_priority RULE_PRIORITY_EXEMPT R \<noteq> {#}"
proof
  assume o: "ours R = {#our_rule i x True u#}" and a: "at_priority RULE_PRIORITY_EXEMPT R = {#}"
  have "our_rule i x True u \<in># ours R" by (simp add: o)
  then have "our_rule i x True u \<in># at_priority RULE_PRIORITY_EXEMPT R" by (simp add: ours_def at_priority_def our_rule_def)
  with a show False by simp
qed

lemma outlives:
  assumes pf: "daemon_kernel pf rules uid" "\<And>k. \<exists>idx. index_of (p_sys pf) (p_iface pf) k = Inr idx"
    and w: "\<And>k. rules (w_kernel w1 k) = rules k" "\<And>k. rules (w_kernel w2 k) = rules k"
    and d: "\<not> d_panicked d" "\<not> d_link d" "ours (rules (d_kernel d)) = {#}"
    and past: "exemption_earned w1" "exemption_earned (in_acquire w1)" "d_exempt_since d = Some t" "EXEMPT_MAX < w_clock w1 3 - t"
    and up: "d_link (tick pf w1 d)" "\<not> exemption_earned w2" "d_link (tick pf w2 (tick pf w1 d))"
  shows "at_priority RULE_PRIORITY_EXEMPT (rules (d_kernel (tick pf w2 (tick pf w1 d)))) \<noteq> {#}"
proof -
  have e1: "\<not> fst (exempt_now w1 d)" using past(1,3,4) by (simp add: exempt_now_def)
  have e2: "\<not> fst (exempt_now w2 d')" for d' using up(2) by (simp add: exempt_now_def)
  obtain d2 where d2: "tick pf w1 d = tick_link pf w1 d2" "d_link d2 = d_link d" "d_last_exempt d2 = Some (fst (exempt_now w1 d))"
    "d_kernel d2 = w_kernel w1 (d_kernel d)" "d_panicked d2 = False"
    by (rule tick_parts [OF d(1), of pf w1]) (use d(2) in auto)
  from tick_link_acquires [of d2 pf w1] d2 d(2) up(1) obtain m c k where a: "acquire pf (in_acquire w1) (d_kernel d2) = (A_Ok m c, k)"
    "tick pf w1 d = d2\<lparr>d_link := True, d_kernel := k\<rparr>" by auto
  have "ours (rules (d_kernel d2)) = {#}" using d2(4) w(1) d(3) by simp
  from acquire_exempt [OF pf(1) this a(1) past(2) pf(2)] obtain idx where k: "ours (rules k) = {#our_rule (p_iface pf) idx True uid#}" by blast
  let ?d3 = "tick pf w1 d"
  have "\<not> d_panicked ?d3" "d_last_exempt ?d3 = Some False" "d_link ?d3" "d_kernel ?d3 = k" using a(2) d2(3,5) e1 by simp_all
  then obtain d4 where d4: "tick pf w2 ?d3 = tick_link pf w2 d4" "d_link d4" "d_kernel d4 = w_kernel w2 k"
    using tick_parts [of ?d3 pf w2] e2 by metis
  from tick_link_stays [of d4 pf w2] d4 up(3) have "d_kernel (tick pf w2 ?d3) = w_kernel w2 k" by simp
  with at_ours [OF k] w(2) show ?thesis by simp
qed

lemma sample_acquires: "\<exists>m c k'. acquire sample_platform (sample_world t e) k = (A_Ok m c, k')"
proof -
  have "sta_frequency sample_sys (sample_world t e) k = (Inr 0, k)"
    by (simp add: sta_frequency_def sta_kernel_def sta_published_def frequency_of_def read_property_def sample_world_def sample_props_def)
  moreover have "offered (sample_world t e) 0 = [CHANNELS_5, CHANNELS_24]"
    by (simp add: offered_def channel_override_def read_property_def sample_world_def sample_props_def channels_for_def same_band_as_sta_def)
  moreover have "length (str ''US'') = 2" by code_simp
  ultimately show ?thesis
    by (simp add: acquire_def sample_world_simps sample_platform_def Let_def search_def session_start_def radio_modes_def)
      (simp add: sample_world_def sample_props_def)
qed

section \<open>Properties\<close>



text \<open>
  When the link is lost and acquired again while the ceiling holds the exemption down, the rule is
  installed above the kill-switch, since acquiring looks at the property alone; and when the property is
  then cleared, the loop sees no change and leaves the rule where it is.
\<close>

theorem exemption_outlives_window:
  assumes "daemon_kernel pf rules uid" "\<And>k. \<exists>idx. index_of (p_sys pf) (p_iface pf) k = Inr idx"
    "\<And>k. rules (w_kernel w1 k) = rules k" "\<And>k. rules (w_kernel w2 k) = rules k"
    "\<not> d_panicked d" "\<not> d_link d" "ours (rules (d_kernel d)) = {#}"
    "exemption_earned w1" "exemption_earned (in_acquire w1)" "d_exempt_since d = Some t" "EXEMPT_MAX < w_clock w1 3 - t"
    "d_link (tick pf w1 d)" "\<not> exemption_earned w2" "d_link (tick pf w2 (tick pf w1 d))"
  shows "at_priority RULE_PRIORITY_EXEMPT (rules (d_kernel (tick pf w2 (tick pf w1 d)))) \<noteq> {#}"
  by (rule outlives [OF assms])

abbreviation (input) capped_state :: "fib_rule list daemon" where
  "capped_state \<equiv> (daemon_start [] 0)\<lparr>d_exempt_since := Some 0, d_exempt_capped := True, d_last_exempt := Some False\<rparr>"

theorem exemption_outlives_window_witness:
  "at_priority RULE_PRIORITY_EXEMPT (mset (d_kernel (tick sample_platform (sample_world 662000 [0x30])
     (tick sample_platform (sample_world 661000 [0x31]) capped_state)))) \<noteq> {#}"
proof (rule exemption_outlives_window [OF sample_daemon_kernel, where t = 0])
  have idx: "index_of sample_sys (str ''tlink0'') k = Inr 52" for k by (simp add: index_of_def sample_sys_def str_def)
  then show "\<exists>idx. index_of (p_sys sample_platform) (p_iface sample_platform) k = Inr idx" for k by (simp add: sample_platform_def)
  have c: "w_clock (sample_world t e) i = t" "w_kernel (sample_world t e) k = k" "w_blind (sample_world t e) = None" for t e i k
    by (simp_all add: sample_world_def sample_props_def)
  let ?d1 = "tick sample_platform (sample_world 661000 [0x31]) capped_state"
  obtain m a k' where q: "acquire sample_platform (sample_world 661000 [0x31]) [] = (A_Ok m a, k')" using sample_acquires by blast
  show up: "d_link ?d1"
    by (simp add: tick_def tick_link_def Let_def sample_world_simps c tick_exempt_def exempt_now_def)
      (simp add: q daemon_start_def tick_want_def tick_lockdown_def Let_def due_def sample_world_simps c)
  show "d_link (tick sample_platform (sample_world 662000 [0x30]) ?d1)"
    using up by (simp add: tick_def [of _ _ ?d1] tick_link_def Let_def sample_world_simps c)
qed (simp_all add: sample_world_simps daemon_start_def ours_def, simp_all add: sample_world_def sample_props_def)

lemma in_range_sta:
  assumes "sta_frequency sys w k = (Inr sta, k1)" "0 < sta"
  shows "in_range sta"
proof -
  have p: "0 < sta_published w \<Longrightarrow> in_range (sta_published w)"
    by (auto simp: sta_published_def Let_def split: option.splits if_splits)
  have "in_range sta" if "sta_kernel sys w k = (Inr sta, k1)"
    using that assms(2) p by (auto simp: sta_kernel_def Let_def split: prod.splits sum.splits if_splits)
  with assms show ?thesis by (auto simp: sta_frequency_def split: option.splits if_splits)
qed

text \<open>What a round meets besides the vendor library is looked up without it.\<close>

lemma start_irrelevant [simp]:
  "country_code (w\<lparr>w_start := f\<rparr>) = country_code w" "sta_frequency sys (w\<lparr>w_start := f\<rparr>) k = sta_frequency sys w k"
  "config_override (w\<lparr>w_start := f\<rparr>) = config_override w" "offered (w\<lparr>w_start := f\<rparr>) sta = offered w sta"
  "exemption_earned (w\<lparr>w_start := f\<rparr>) = exemption_earned w" "radio_modes (w\<lparr>w_start := f\<rparr>) = radio_modes w"
proof -
  have r [simp]: "read_property (w\<lparr>w_start := f\<rparr>) n = read_property w n" for n by (simp add: read_property_def)
  have [simp]: "country_from (w\<lparr>w_start := f\<rparr>) ps = country_from w ps" for ps
    by (induction ps) (simp_all add: Let_def split: option.split)
  show "country_code (w\<lparr>w_start := f\<rparr>) = country_code w" "config_override (w\<lparr>w_start := f\<rparr>) = config_override w"
    "offered (w\<lparr>w_start := f\<rparr>) sta = offered w sta" "exemption_earned (w\<lparr>w_start := f\<rparr>) = exemption_earned w"
    "radio_modes (w\<lparr>w_start := f\<rparr>) = radio_modes w"
    by (simp_all add: country_code_def config_override_def offered_def channel_override_def exemption_earned_def radio_modes_def
      del: country_from.simps)
  have p: "sta_published (w\<lparr>w_start := f\<rparr>) = sta_published w" by (simp add: sta_published_def)
  have "sta_kernel sys (w\<lparr>w_start := f\<rparr>) k = sta_kernel sys w k"
    unfolding sta_kernel_def frequency_of_def p by simp
  then show "sta_frequency sys (w\<lparr>w_start := f\<rparr>) k = sta_frequency sys w k"
    by (simp add: sta_frequency_def split: option.split)
qed

lemma mosey_config_fields:
  assumes "in_range sta"
  shows "pb_fields (mosey_config sta) = Inr [Varint 1 1, Varint 2 (word_of_int sta), Varint 6 1]"
proof -
  have "take_bit 32 sta = sta" using assms by (intro take_bit_int_eq_self) (simp_all add: in_range_def)
  then have u: "ucast (word_of_int sta :: u32) = (word_of_int sta :: u64)" by (simp only: ucast_eq uint_word_of_int_eq len_num1 len_bit0) simp
  let ?fs = "[Varint 1 1, Varint 2 (word_of_int sta), Varint 6 1]"
  have "length (pb_enc ?fs) \<le> 60"
    using length_enc_field [of "?fs ! 0"] length_enc_field [of "?fs ! 1"] length_enc_field [of "?fs ! 2"] by simp
  then have "fits (pb_enc ?fs)" by (simp add: fits_def)
  then show ?thesis using pb_fields_enc [of ?fs] assms u by (simp add: mosey_config_enc in_range_def)
qed

text \<open>
  C26: a radio that comes up while Wi-Fi is associated stays off the association's band, and is told about it. When
  neither bench override is set, the channels the library has taken are all of the other band; the configuration it
  has taken says, as a protobuf, that the station is on the frequency of the association; and the library was asked with no
  other configuration: what it would have said to one makes no difference.
\<close>

theorem association_spared:
  assumes "acquire pf w k = (A_Ok mode channels, k')" "channel_override w = None" "config_override w = Inr None"
    "sta_frequency (p_sys pf) w k = (Inr sta, k1)" "0 < sta"
  shows "(\<forall>c \<in> set channels. (c \<le> 14) \<noteq> (sta < 5000)) \<and>
    (\<exists>country config. country_code w = Some country \<and> w_start w channels country mode config \<and>
      pb_fields config = Inr [Varint 1 1, Varint 2 (word_of_int sta), Varint 6 1] \<and>
      (\<forall>start. (\<forall>ch m. start ch country m config = w_start w ch country m config) \<longrightarrow>
        acquire pf (w\<lparr>w_start := start\<rparr>) k = acquire pf w k))"
proof -
  obtain country where country: "country_code w = Some country" using assms(1) by (auto simp: acquire_def split: option.splits)
  have found: "search w country (mosey_config sta) (offered w sta) = Some (mode, channels)"
    using assms(1,3,4) country by (auto simp: acquire_def Let_def split: option.splits)
  then have "channels \<in> set (offered w sta)" and start: "w_start w channels country mode (mosey_config sta)"
    by (auto simp: search_def session_start_def dest: find_SomeD split: if_splits)
  then have band: "\<forall>c \<in> set channels. (c \<le> 14) \<noteq> (sta < 5000)"
    using assms(2,5) by (auto simp: offered_def channels_for_def same_band_as_sta_def split: if_splits)
  have only: "acquire pf (w\<lparr>w_start := start\<rparr>) k = acquire pf w k"
    if "\<forall>ch m. start ch country m (mosey_config sta) = w_start w ch country m (mosey_config sta)" for start
  proof -
    have "search (w\<lparr>w_start := start\<rparr>) country (mosey_config sta) o' = search w country (mosey_config sta) o'" for o'
      using that by (simp add: search_def session_start_def)
    then show ?thesis by (simp add: acquire_def assms(3,4) country split: option.split)
  qed
  show ?thesis
    using band start country only mosey_config_fields [OF in_range_sta [OF assms(4,5)]] by blast
qed

abbreviation (input) associated_world :: "fib_rule list world" where
  "associated_world \<equiv> (sample_world 0 [])\<lparr>w_props := (\<lambda>name. if name = ''persist.tarish.sta_freq'' then str ''5520''
     else if name = ''persist.tarish.country'' then str ''US'' else [])\<rparr>"

lemma associated_acquire:
  "sta_frequency sample_sys associated_world [] = (Inr 5520, [])" "channel_override associated_world = None"
  "\<exists>k'. acquire sample_platform associated_world [] = (A_Ok Netlink_Mode CHANNELS_24, k')"
proof -
  have "list_all is_ascii_graphic (str ''5520'')" "list_all is_ascii_graphic (str ''US'')" by code_simp+
  then have tr: "str_trim (str ''5520'') = str ''5520''" "str_trim (str ''US'') = str ''US''" by (simp_all add: str_trim_graphic)
  have v: "utf8_valid (str ''5520'')" "utf8_valid (str ''US'')" by code_simp+
  have "parse_unsigned 4294967295 (str ''5520'') = Some 5520"
    by (simp add: parse_unsigned_def decimal_def str_def is_digit_def of_char_def)
  then show f: "sta_frequency sample_sys associated_world [] = (Inr 5520, [])"
    using v tr by (simp add: sta_frequency_def read_property_def from_utf8_def in_range_def Let_def) (simp add: str_def)
  show c: "channel_override associated_world = None" by (simp add: channel_override_def read_property_def)
  have o: "offered associated_world 5520 = [CHANNELS_24]" using c by (simp add: offered_def channels_for_def same_band_as_sta_def)
  have sp: "hd (split_on 0x2C (str ''US'')) = str ''US''" "str ''US'' \<noteq> []" "length (str ''US'') = 2"
    "list_all (\<lambda>b. 0x41 \<le> b \<and> b \<le> 0x5A \<or> 0x61 \<le> b \<and> b \<le> 0x7A) (str ''US'')" by code_simp+
  have cc: "country_code associated_world = Some (str ''US'')"
    using v tr sp by (simp add: country_code_def read_property_def sample_world_def sample_props_def from_utf8_def Let_def)
  have "radio_modes associated_world = [Netlink_Mode, Radiotap]" by (simp add: radio_modes_def sample_world_def sample_props_def)
  then have "search associated_world (str ''US'') cfg [CHANNELS_24] = Some (Netlink_Mode, CHANNELS_24)" for cfg
    using sp(3) by (simp add: search_def session_start_def) (simp add: sample_world_def sample_props_def)
  with f o cc show "\<exists>k'. acquire sample_platform associated_world [] = (A_Ok Netlink_Mode CHANNELS_24, k')"
    by (simp add: acquire_def Let_def sample_platform_def config_override_def read_property_def)
qed

theorem association_spared_witness:
  "list_all (\<lambda>c. (c \<le> 14) \<noteq> ((5520 :: int) < 5000)) CHANNELS_24 \<and>
   (\<exists>country config. country_code associated_world = Some country \<and> w_start associated_world CHANNELS_24 country Netlink_Mode config \<and>
     pb_fields config = Inr [Varint 1 1, Varint 2 5520, Varint 6 1])"
proof -
  obtain k' where a: "acquire sample_platform associated_world [] = (A_Ok Netlink_Mode CHANNELS_24, k')"
    using associated_acquire(3) by blast
  have "sta_frequency (p_sys sample_platform) associated_world [] = (Inr 5520, [])"
    using associated_acquire(1) by (simp add: sample_platform_def)
  moreover have "config_override associated_world = Inr None" by (simp add: config_override_def read_property_def)
  ultimately obtain country config where "country_code associated_world = Some country"
    "w_start associated_world CHANNELS_24 country Netlink_Mode config"
    "pb_fields config = Inr [Varint 1 1, Varint 2 (word_of_int 5520), Varint 6 1]" "\<forall>c \<in> set CHANNELS_24. (c \<le> 14) \<noteq> ((5520 :: int) < 5000)"
    using association_spared [OF a associated_acquire(2), of 5520 "[]"] by auto
  then show ?thesis unfolding list_all_iff by (intro conjI exI [of _ country] exI [of _ config]) simp_all
qed

end
