(* ===== verification/Endpoint_Id.thy ===== *)
theory Endpoint_Id
  imports Rust_Text
begin

text \<open>
  The identity of a Quick Share endpoint on the local network (\<open>sharingd/src/quickshare/mod.rs\<close>, and
  the second base64 encoder of \<open>discovery.rs\<close>): the four characters of an id, the instance name they are
  packed into, and base64 in both directions. The lemmas: an id is recovered from its instance name, a
  label that is not of this service gives none, and a decoder that stops early has a prefix of what was
  encoded.
\<close>

section \<open>Model\<close>

abbreviation (input) SERVICE_ID_HASH_PREFIX :: bytes where "SERVICE_ID_HASH_PREFIX \<equiv> [0xFC :: u8, 0x9F, 0x5E]"
abbreviation (input) PCP :: u8 where "PCP \<equiv> 0x23"
abbreviation (input) INSTANCE_RAW_LEN :: nat where "INSTANCE_RAW_LEN \<equiv> 10"
abbreviation (input) QS_ID_LEN :: nat where "QS_ID_LEN \<equiv> 4"

definition ENDPOINT_ID_ALPHABET :: bytes where
  "ENDPOINT_ID_ALPHABET = str ''ABCDEFGHIJKLMNOPQRSTUVWXYZabcdefghijklmnopqrstuvwxyz0123456789''"

definition B64URL :: bytes where
  "B64URL = str ''ABCDEFGHIJKLMNOPQRSTUVWXYZabcdefghijklmnopqrstuvwxyz0123456789-_''"

text \<open>One round of the encoder: \<open>count\<close> characters of the three bytes, absent ones being zero.\<close>

definition b64_word :: "u8 \<Rightarrow> u8 \<Rightarrow> u8 \<Rightarrow> u32" where
  "b64_word a b c = push_bit 16 (ucast a) OR push_bit 8 (ucast b) OR ucast c"

definition sextet :: "u32 \<Rightarrow> nat \<Rightarrow> u32" where
  "sextet n k = drop_bit k n AND 0x3F"

definition b64_chunk :: "u8 \<Rightarrow> u8 \<Rightarrow> u8 \<Rightarrow> nat \<Rightarrow> rstring" where
  "b64_chunk a b c count = map (\<lambda>i. B64URL ! unat (sextet (b64_word a b c) (18 - 6 * i))) [0..<count]"

fun base64url_encode :: "bytes \<Rightarrow> rstring" where
  "base64url_encode [] = []"
| "base64url_encode [a] = b64_chunk a 0 0 2"
| "base64url_encode [a, b] = b64_chunk a b 0 3"
| "base64url_encode (a # b # c # bs) = b64_chunk a b c 4 @ base64url_encode bs"

text \<open>The encoder of \<open>discovery.rs\<close>, which spells the four characters out.\<close>

definition b64_pushes :: "u8 \<Rightarrow> u8 \<Rightarrow> u8 \<Rightarrow> nat \<Rightarrow> rstring" where
  "b64_pushes a b c len =
     (let n = b64_word a b c in
      [B64URL ! (unat (drop_bit 18 n) mod 64), B64URL ! (unat (drop_bit 12 n) mod 64)] @
      (if 1 < len then [B64URL ! (unat (drop_bit 6 n) mod 64)] else []) @
      (if 2 < len then [B64URL ! (unat n mod 64)] else []))"

fun base64_url_nopad :: "bytes \<Rightarrow> rstring" where
  "base64_url_nopad [] = []"
| "base64_url_nopad [a] = b64_pushes a 0 0 1"
| "base64_url_nopad [a, b] = b64_pushes a b 0 2"
| "base64_url_nopad (a # b # c # bs) = b64_pushes a b c 3 @ base64_url_nopad bs"

definition b64_value :: "u8 \<Rightarrow> u8 option" where
  "b64_value c =
     (if 0x41 \<le> c \<and> c \<le> 0x5A then Some (c - 0x41)
      else if 0x61 \<le> c \<and> c \<le> 0x7A then Some (c - 0x61 + 26)
      else if 0x30 \<le> c \<and> c \<le> 0x39 then Some (c - 0x30 + 52)
      else if c = 0x2D \<or> c = 0x2B then Some 62
      else if c = 0x5F \<or> c = 0x2F then Some 63
      else None)"

fun b64_loop :: "bytes \<Rightarrow> u32 \<Rightarrow> nat \<Rightarrow> bytes \<Rightarrow> bytes option" where
  "b64_loop [] acc bits out = Some out"
| "b64_loop (c # cs) acc bits out =
     (if c = 0x3D then b64_loop cs acc bits out
      else case b64_value c of
        None \<Rightarrow> None
      | Some v \<Rightarrow>
        let acc' = push_bit 6 acc OR ucast v; bits' = bits + 6 in
        if 8 \<le> bits' then b64_loop cs acc' (bits' - 8) (out @ [ucast (drop_bit (bits' - 8) acc')])
        else b64_loop cs acc' bits' out)"

definition base64_any_decode :: "bytes \<Rightarrow> bytes option" where
  "base64_any_decode input = b64_loop input 0 0 []"

definition instance_name :: "bytes \<Rightarrow> rstring" where
  "instance_name endpoint_id = base64url_encode ([PCP] @ endpoint_id @ SERVICE_ID_HASH_PREFIX @ [0, 0])"

definition endpoint_id_from_instance :: "rstring \<Rightarrow> bytes option" where
  "endpoint_id_from_instance inst =
     (case base64_any_decode (hd (split_on 0x2E inst)) of
        None \<Rightarrow> None
      | Some raw \<Rightarrow>
        if length raw < 1 + QS_ID_LEN + 3 \<or> raw ! 0 \<noteq> PCP then None
        else if take 3 (drop (1 + QS_ID_LEN) raw) \<noteq> SERVICE_ID_HASH_PREFIX then None
        else Some (take QS_ID_LEN (drop 1 raw)))"

text \<open>\<open>r\<close> is what \<open>getrandom\<close> put into the four bytes.\<close>

definition random_endpoint_id :: "bytes \<Rightarrow> bytes" where
  "random_endpoint_id r = map (\<lambda>b. ENDPOINT_ID_ALPHABET ! unat (b mod 62)) r"

section \<open>Base64\<close>

lemma b64url_values: "k < 64 \<Longrightarrow> b64_value (B64URL ! k) = Some (word_of_nat k) \<and> B64URL ! k \<noteq> 0x3D"
proof -
  have "list_all (\<lambda>k. b64_value (B64URL ! k) = Some (word_of_nat k) \<and> B64URL ! k \<noteq> 0x3D) [0..<64]" by code_simp
  then show "k < 64 \<Longrightarrow> b64_value (B64URL ! k) = Some (word_of_nat k) \<and> B64URL ! k \<noteq> 0x3D" by (simp add: list_all_iff)
qed

lemma bit_sextet: "bit (sextet w k) n \<longleftrightarrow> n < 6 \<and> bit w (k + n)"
proof -
  have m: "(0x3F :: u32) = mask 6" by (simp add: mask_eq_exp_minus_1)
  show ?thesis unfolding sextet_def m bit_and_iff bit_mask_iff bit_drop_bit_eq by auto
qed

lemma bit_b64_word:
  "bit (b64_word a b c) n \<longleftrightarrow>
     (if n < 8 then bit c n else if n < 16 then bit b (n - 8) else bit a (n - 16))"
  by (auto simp: b64_word_def bit_simps dest: bit_imp_le_length)

lemma sextet_unat: "unat (sextet w k) = unat (drop_bit k w) mod 64" "unat (sextet w k) < 64"
proof -
  have "sextet w k = take_bit 6 (drop_bit k w)" by (rule bit_word_eqI) (auto simp: bit_sextet bit_simps)
  then show "unat (sextet w k) = unat (drop_bit k w) mod 64" by (simp only: unsigned_take_bit_eq) (simp add: take_bit_eq_mod)
  then show "unat (sextet w k) < 64" by simp
qed

lemma b64_pushes_chunk: "b64_pushes a b c (Suc 0) = b64_chunk a b c 2" "b64_pushes a b c 2 = b64_chunk a b c 3"
  "b64_pushes a b c 3 = b64_chunk a b c 4"
  by (simp_all add: b64_pushes_def b64_chunk_def Let_def sextet_unat upt_rec)

text \<open>The two encoders are one function.\<close>

lemma base64_encoders: "base64_url_nopad bs = base64url_encode bs"
  by (induction bs rule: base64url_encode.induct) (simp_all add: b64_pushes_chunk)

lemma length_chunk [simp]: "length (b64_chunk a b c n) = n"
  by (simp add: b64_chunk_def)

lemma length_base64: "length (base64url_encode bs) = (4 * length bs + 2) div 3"
  by (induction bs rule: base64url_encode.induct) simp_all

lemma b64_loop_sextet:
  "b64_loop (B64URL ! unat (sextet w k) # cs) acc bits out =
     (let acc' = push_bit 6 acc OR sextet w k; bits' = bits + 6 in
      if 8 \<le> bits' then b64_loop cs acc' (bits' - 8) (out @ [ucast (drop_bit (bits' - 8) acc')])
      else b64_loop cs acc' bits' out)"
proof -
  have "ucast (word_of_nat (unat (sextet w k)) :: u8) = sextet w k"
    by (rule bit_word_eqI) (auto simp: bit_simps bit_sextet)
  with b64url_values [OF sextet_unat(2) [of w k]] show ?thesis by (simp add: Let_def)
qed

lemma b64_bytes:
  fixes acc :: u32 and a b c :: u8
  defines "acc1 \<equiv> push_bit 6 (push_bit 6 acc OR sextet (b64_word a b c) 18) OR sextet (b64_word a b c) 12"
  defines "acc2 \<equiv> push_bit 6 acc1 OR sextet (b64_word a b c) 6"
  shows "ucast (drop_bit 4 acc1) = a" "ucast (drop_bit 2 acc2) = b"
    "ucast (push_bit 6 acc2 OR sextet (b64_word a b c) 0) = c"
proof -
  have b1: "bit acc1 n \<longleftrightarrow> n < 32 \<and> (if n < 12 then bit (b64_word a b c) (12 + n) else bit acc (n - 12))" for n
    by (auto simp: acc1_def bit_or_iff bit_push_bit_iff bit_sextet dest: bit_imp_le_length)
  have b2: "bit acc2 n \<longleftrightarrow> n < 32 \<and> (if n < 6 then bit (b64_word a b c) (6 + n) else bit acc1 (n - 6))" for n
    by (auto simp: acc2_def bit_or_iff bit_push_bit_iff bit_sextet dest: bit_imp_le_length)
  show "ucast (drop_bit 4 acc1) = a" "ucast (drop_bit 2 acc2) = b" "ucast (push_bit 6 acc2 OR sextet (b64_word a b c) 0) = c"
    by (rule bit_word_eqI; auto simp: bit_ucast_iff bit_drop_bit_eq bit_or_iff bit_push_bit_iff b1 b2 bit_sextet bit_b64_word)+
qed

lemma b64_loop_chunk:
  "\<exists>acc'. b64_loop (b64_chunk a b c 4 @ cs) acc 0 out = b64_loop cs acc' 0 (out @ [a, b, c])"
  "b64_loop (b64_chunk a b 0 3) acc 0 out = Some (out @ [a, b])"
  "b64_loop (b64_chunk a 0 0 2) acc 0 out = Some (out @ [a])"
  by (simp_all add: b64_chunk_def Let_def upt_rec b64_loop_sextet b64_bytes [of acc] del: push_bit_or drop_bit_or b64_loop.simps(2)) blast

lemma b64_loop_encode: "b64_loop (base64url_encode bs) acc 0 out = Some (out @ bs)"
proof (induction bs arbitrary: acc out rule: base64url_encode.induct)
  case (4 a b c bs)
  obtain acc' where "b64_loop (b64_chunk a b c 4 @ base64url_encode bs) acc 0 out = b64_loop (base64url_encode bs) acc' 0 (out @ [a, b, c])"
    using b64_loop_chunk(1) by blast
  with 4 show ?case by simp
qed (simp_all add: b64_loop_chunk)

lemma base64_roundtrip: "base64_any_decode (base64url_encode bs) = Some bs"
  by (simp add: base64_any_decode_def b64_loop_encode)

text \<open>
  A decoder given only the first characters has the first bytes, three for every four characters.
\<close>

lemma b64_loop_append:
  "b64_loop (xs @ ys) acc bits out = Some res \<Longrightarrow>
   \<exists>acc' bits' out'. b64_loop xs acc bits out = Some out' \<and> b64_loop ys acc' bits' out' = Some res"
proof (induction xs arbitrary: acc bits out)
  case (Cons x xs)
  then show ?case by (auto simp: Let_def split: option.splits if_splits)
qed auto

lemma b64_loop_out: "b64_loop xs acc bits out = Some res \<Longrightarrow> bits < 8 \<Longrightarrow>
   \<exists>t. res = out @ t \<and> length t \<le> (bits + 6 * length xs) div 8"
proof (induction xs arbitrary: acc bits out)
  case (Cons x xs)
  show ?case
  proof (cases "x = 0x3D")
    case True
    with Cons.prems have "b64_loop xs acc bits out = Some res" by simp
    from Cons.IH [OF this Cons.prems(2)] show ?thesis by fastforce
  next
    case False
    with Cons.prems obtain v where v: "b64_value x = Some v" by (auto split: option.splits)
    show ?thesis
    proof (cases "8 \<le> bits + 6")
      case True
      with False v Cons.prems obtain y acc' where "b64_loop xs acc' (bits + 6 - 8) (out @ [y]) = Some res"
        by (auto simp: Let_def)
      moreover from Cons.prems(2) have "bits + 6 - 8 < 8" by simp
      ultimately obtain t where "res = (out @ [y]) @ t" "length t \<le> (bits + 6 - 8 + 6 * length xs) div 8"
        using Cons.IH by blast
      with True show ?thesis by (intro exI [of _ "y # t"]) auto
    next
      case f: False
      with False v Cons.prems obtain acc' where "b64_loop xs acc' (bits + 6) out = Some res" by (auto simp: Let_def)
      from Cons.IH [OF this] f show ?thesis by (auto simp: algebra_simps)
    qed
  qed
qed simp

lemma base64_prefix:
  "\<exists>k. base64_any_decode (take n (base64url_encode bs)) = Some (take k bs) \<and> k \<le> 6 * n div 8"
proof -
  have "b64_loop (take n (base64url_encode bs) @ drop n (base64url_encode bs)) 0 0 [] = Some bs"
    using b64_loop_encode [of bs 0 "[]"] by simp
  then obtain acc bits r where r: "b64_loop (take n (base64url_encode bs)) 0 0 [] = Some r"
    "b64_loop (drop n (base64url_encode bs)) acc bits r = Some bs"
    using b64_loop_append by blast
  have mono: "\<exists>t. res = out @ t" if "b64_loop xs acc bits out = Some res" for xs acc bits out and res :: bytes
    using that
  proof (induction xs arbitrary: acc bits out)
    case (Cons x xs)
    then show ?case by (auto simp: Let_def split: option.splits if_splits) (metis append.assoc)+
  qed simp
  from mono [OF r(2)] obtain t where "bs = r @ t" by blast
  moreover from b64_loop_out [OF r(1)] have "length r \<le> 6 * length (take n (base64url_encode bs)) div 8" by auto
  moreover have "6 * length (take n (base64url_encode bs)) div 8 \<le> 6 * n div 8" by (rule div_le_mono) simp
  ultimately show ?thesis using r(1) by (intro exI [of _ "length r"]) (auto simp: base64_any_decode_def)
qed

section \<open>Characters\<close>

lemma b64url_graphic: "c \<in> set B64URL \<Longrightarrow> is_ascii_graphic c \<and> c \<noteq> 0x2E"
proof -
  have "list_all (\<lambda>c. is_ascii_graphic c \<and> c \<noteq> 0x2E) B64URL" by code_simp
  then show "c \<in> set B64URL \<Longrightarrow> is_ascii_graphic c \<and> c \<noteq> 0x2E" by (simp add: list_all_iff)
qed

lemma length_B64URL: "length B64URL = 64"
  by (simp add: B64URL_def str_def)

lemma set_chunk: "set (b64_chunk a b c n) \<subseteq> set B64URL"
  by (auto simp: b64_chunk_def length_B64URL sextet_unat)

lemma set_base64: "set (base64url_encode bs) \<subseteq> set B64URL"
proof (induction bs rule: base64url_encode.induct)
  case (4 a b c bs)
  with set_chunk [of a b c 4] show ?case by auto
qed (use set_chunk in auto)

lemma split_on_before: "d \<notin> set xs \<Longrightarrow> split_on d (xs @ d # ys) = xs # split_on d ys"
  by (induction xs) auto

lemma split_on_no: "d \<notin> set xs \<Longrightarrow> split_on d xs = [xs]"
  by (induction xs) auto

text \<open>An id is recovered from its instance name, whatever the service it is published under.\<close>

lemma instance_name_facts:
  assumes "length i = QS_ID_LEN"
  shows "length (instance_name i) = 14" "set (instance_name i) \<subseteq> set B64URL" "0x2E \<notin> set (instance_name i)"
  using assms set_base64 b64url_graphic by (auto simp: instance_name_def length_base64)

lemma endpoint_id_roundtrip:
  assumes "length i = QS_ID_LEN"
  shows "endpoint_id_from_instance (instance_name i @ 0x2E # service) = Some i"
proof -
  have "hd (split_on 0x2E (instance_name i @ 0x2E # service)) = instance_name i"
    using instance_name_facts(3) [OF assms] by (simp add: split_on_before)
  then show ?thesis
    using assms by (simp add: endpoint_id_from_instance_def) (simp add: instance_name_def base64_roundtrip)
qed

lemma random_endpoint_id_ok: "set (random_endpoint_id r) \<subseteq> set ENDPOINT_ID_ALPHABET" "length (random_endpoint_id r) = length r"
proof -
  have "unat (b mod 62) < 62" for b :: u8 by (simp add: unat_mod_distrib)
  moreover have "length ENDPOINT_ID_ALPHABET = 62" by (simp add: ENDPOINT_ID_ALPHABET_def str_def)
  ultimately have "ENDPOINT_ID_ALPHABET ! unat (b mod 62) \<in> set ENDPOINT_ID_ALPHABET" for b :: u8
    by (intro nth_mem) simp
  then show "set (random_endpoint_id r) \<subseteq> set ENDPOINT_ID_ALPHABET" by (auto simp: random_endpoint_id_def)
qed (simp add: random_endpoint_id_def)

lemma alphabet_graphic: "set i \<subseteq> set ENDPOINT_ID_ALPHABET \<Longrightarrow> list_all is_ascii_graphic i"
proof -
  have "list_all is_ascii_graphic ENDPOINT_ID_ALPHABET" by code_simp
  then show "set i \<subseteq> set ENDPOINT_ID_ALPHABET \<Longrightarrow> list_all is_ascii_graphic i" by (auto simp: list_all_iff)
qed

end
