(* ===== verification/Discovery.thy ===== *)
theory Discovery
  imports Dns Endpoint Endpoint_Id
begin

text \<open>
  Quick Share discovery on the local network (\<open>sharingd/src/quickshare/discovery.rs\<close>): the browser, which
  folds multicast DNS records into a table of peers, and the responder, which announces this device,
  answers queries and withdraws. The sockets are the sequence of datagrams a poll receives before it times
  out and the packets that are sent. The theorems: the table holds only instances of this service under
  their own ids, an announcement is discovered whole, with its limits (a name over 171 bytes is lost, a
  withdrawal is taken for an announcement), and responders answer queries and never one another.
\<close>

section \<open>Model\<close>

definition SERVICE_TYPE :: rstring where
  "SERVICE_TYPE = str ''_FC9F5ED42C8A._tcp.local''"

abbreviation (input) TTL_SECS :: u32 where "TTL_SECS \<equiv> 120"

record qs_peer =
  qp_endpoint_id :: rstring
  qp_instance :: rstring
  qp_host :: rstring
  qp_port :: u16
  qp_addr :: "bytes option"
  qp_name :: "rstring option"
  qp_last_seen :: nat

type_synonym qs_table = "(rstring, qs_peer) hashmap"

function name_from_txt_at :: "bytes \<Rightarrow> nat \<Rightarrow> rstring option" where
  "name_from_txt_at rdata i =
     (if i < length rdata then
        let len = unat (rdata ! i) in
        if length rdata < i + 1 + len then None
        else
          let entry = take len (drop (i + 1) rdata); eq = length (takeWhile (\<lambda>c. c \<noteq> 0x3D) entry) in
          if 0x3D \<notin> set entry \<or> take eq entry \<noteq> [0x6E] then name_from_txt_at rdata (i + 1 + len)
          else
            (case base64_any_decode (drop (eq + 1) entry) of
               None \<Rightarrow> None
             | Some raw \<Rightarrow> (case endpoint_parse raw of None \<Rightarrow> None | Some e \<Rightarrow> ei_device_name e))
      else None)"
  by pat_completeness auto
termination
  by (relation "measure (\<lambda>(rdata, i). length rdata - i)") auto

declare name_from_txt_at.simps [simp del]

definition name_from_txt :: "bytes \<Rightarrow> rstring option" where
  "name_from_txt rdata = name_from_txt_at rdata 0"

text \<open>One record of a packet; \<open>now\<close> is the clock while it is handled.\<close>

definition absorb_rr :: "bytes \<Rightarrow> nat \<Rightarrow> dns_rr \<Rightarrow> qs_table \<Rightarrow> qs_table" where
  "absorb_rr packet now rr peers =
     (if rr_type rr = TYPE_PTR \<and> rr_name rr = SERVICE_TYPE then
        (case fst (dns_name \<lparr>dr_buf = packet, dr_pos = rr_rdata_at rr\<rparr>) of
           None \<Rightarrow> peers
         | Some inst \<Rightarrow>
           (case endpoint_id_from_instance inst of
              None \<Rightarrow> peers
            | Some i \<Rightarrow>
              let p = unwrap_or \<lparr>qp_endpoint_id = from_utf8_lossy i, qp_instance = inst, qp_host = [], qp_port = 0,
                    qp_addr = None, qp_name = None, qp_last_seen = now\<rparr> (hm_get peers inst) in
              hm_insert inst (p\<lparr>qp_last_seen := now\<rparr>) peers))
      else if rr_type rr = TYPE_SRV \<and> 6 \<le> length (rr_rdata rr) then
        let port = u16_from_be_bytes (rr_rdata rr ! 4) (rr_rdata rr ! 5);
            host = unwrap_or [] (fst (dns_name \<lparr>dr_buf = packet, dr_pos = rr_rdata_at rr + 6\<rparr>)) in
        (case hm_get peers (rr_name rr) of
           None \<Rightarrow> peers
         | Some p \<Rightarrow> hm_insert (rr_name rr) (p\<lparr>qp_port := port, qp_host := host, qp_last_seen := now\<rparr>) peers)
      else if rr_type rr = TYPE_TXT then
        (case hm_get peers (rr_name rr) of
           None \<Rightarrow> peers
         | Some p \<Rightarrow>
           let p' = (case name_from_txt (rr_rdata rr) of None \<Rightarrow> p | Some name \<Rightarrow> p\<lparr>qp_name := Some name\<rparr>) in
           hm_insert (rr_name rr) (p'\<lparr>qp_last_seen := now\<rparr>) peers)
      else if rr_type rr = TYPE_A \<and> length (rr_rdata rr) = 4 then
        map (\<lambda>(k, p). (k, if qp_host p \<noteq> [] \<and> qp_host p = rr_name rr
                          then p\<lparr>qp_addr := Some (rr_rdata rr), qp_last_seen := now\<rparr> else p)) peers
      else peers)"

fun absorb :: "bytes \<Rightarrow> (nat \<Rightarrow> nat) \<Rightarrow> nat \<Rightarrow> dns_rr list \<Rightarrow> qs_table \<Rightarrow> qs_table" where
  "absorb packet clock n [] peers = peers"
| "absorb packet clock n (rr # rrs) peers = absorb packet clock (Suc n) rrs (absorb_rr packet (clock n) rr peers)"

text \<open>
  \<open>poll\<close>: the datagrams received before the first timeout, at most 32, each cut to the buffer of 4096
  bytes. \<open>clock d n\<close> is the time at the \<open>n\<close>-th record of the \<open>d\<close>-th of them.
\<close>

fun poll_loop :: "(nat \<Rightarrow> nat \<Rightarrow> nat) \<Rightarrow> nat \<Rightarrow> bytes list \<Rightarrow> qs_table \<Rightarrow> qs_table" where
  "poll_loop clock d [] peers = peers"
| "poll_loop clock d (dg # dgs) peers =
     poll_loop clock (Suc d) dgs
       (case dns_parse (take 4096 dg) of
          None \<Rightarrow> peers
        | Some msg \<Rightarrow> absorb (take 4096 dg) (clock d) 0 (dm_records msg) peers)"

definition browser_poll :: "(nat \<Rightarrow> nat \<Rightarrow> nat) \<Rightarrow> bytes list \<Rightarrow> qs_table \<Rightarrow> qs_table" where
  "browser_poll clock dgs peers = poll_loop clock 0 (take 32 dgs) peers"

definition browser_query :: bytes where
  "browser_query = dns_query SERVICE_TYPE"

definition browser_expire :: "nat \<Rightarrow> nat \<Rightarrow> qs_table \<Rightarrow> qs_table" where
  "browser_expire now older_than peers = filter (\<lambda>(_, p). now - qp_last_seen p < older_than) peers"

definition browser_peers :: "qs_table \<Rightarrow> qs_peer list" where
  "browser_peers peers = map snd peers"

text \<open>The operations on the table in the order the daemon makes them.\<close>

datatype browser_event = Poll "nat \<Rightarrow> nat \<Rightarrow> nat" "bytes list" | Expire nat nat

fun browser_on :: "qs_table \<Rightarrow> browser_event \<Rightarrow> qs_table \<times> unit list" where
  "browser_on peers (Poll clock dgs) = (browser_poll clock dgs peers, [])"
| "browser_on peers (Expire now older_than) = (browser_expire now older_than peers, [])"

section \<open>The responder\<close>

record qs_identity =
  qi_endpoint_id :: bytes
  qi_endpoint_info :: bytes
  qi_device_token :: bytes

text \<open>The random bytes are arguments: the metadata, the token and those the id is drawn with.\<close>

definition identity_new :: "rstring \<Rightarrow> bytes \<Rightarrow> bytes \<Rightarrow> bytes \<Rightarrow> qs_identity" where
  "identity_new device_name metadata token random = \<lparr>
     qi_endpoint_id = random_endpoint_id random,
     qi_endpoint_info = endpoint_encode \<lparr>ei_version = 0, ei_hidden = False, ei_device_type = Dev_Phone,
       ei_metadata = metadata, ei_device_name = Some device_name\<rparr>,
     qi_device_token = token\<rparr>"

definition id_str :: "qs_identity \<Rightarrow> rstring" where
  "id_str ident = from_utf8_lossy (qi_endpoint_id ident)"

record qs_responder =
  qr_instance :: rstring
  qr_host :: rstring
  qr_addr :: bytes
  qr_endpoint_info :: bytes
  qr_port :: u16

text \<open>\<open>str::to_lowercase\<close> on the characters of base64.\<close>

definition ascii_lower :: "rstring \<Rightarrow> rstring" where
  "ascii_lower s = map (\<lambda>b. if 0x41 \<le> b \<and> b \<le> 0x5A then b + 0x20 else b) s"

text \<open>\<open>addr\<close> is the address of the interface.\<close>

definition responder_new :: "qs_identity \<Rightarrow> bytes \<Rightarrow> u16 \<Rightarrow> qs_responder" where
  "responder_new ident addr port =
     (let label = instance_name (qi_endpoint_id ident) in
      \<lparr>qr_instance = label @ 0x2E # SERVICE_TYPE, qr_host = str ''tarish-'' @ ascii_lower label @ str ''.local'',
       qr_addr = addr, qr_endpoint_info = qi_endpoint_info ident, qr_port = port\<rparr>)"

definition answers_with_ttl :: "qs_responder \<Rightarrow> u32 \<Rightarrow> bytes list" where
  "answers_with_ttl r ttl =
     (let entry = str ''n='' @ base64_url_nopad (qr_endpoint_info r);
          txt = word_of_nat (length entry) # entry;
          srv = u16_to_be_bytes 0 @ u16_to_be_bytes 0 @ u16_to_be_bytes (qr_port r) @ encode_name (qr_host r) in
      [dns_record SERVICE_TYPE TYPE_PTR ttl (encode_name (qr_instance r)) False,
       dns_record (qr_instance r) TYPE_SRV ttl srv True,
       dns_record (qr_instance r) TYPE_TXT ttl txt True,
       dns_record (qr_host r) TYPE_A ttl (qr_addr r) True])"

definition announce :: "qs_responder \<Rightarrow> bytes" where
  "announce r = dns_response (answers_with_ttl r TTL_SECS)"

definition stop_advertising :: "qs_responder \<Rightarrow> bytes" where
  "stop_advertising r = dns_response (answers_with_ttl r 0)"

text \<open>\<open>poll\<close>: what is sent for the datagrams received before the first timeout, one packet for each answered.\<close>

definition wanted :: "qs_responder \<Rightarrow> dns_message \<Rightarrow> bool" where
  "wanted r msg \<longleftrightarrow> list_ex (\<lambda>q. q_name q = SERVICE_TYPE \<or> q_name q = qr_instance r \<or> q_name q = qr_host r) (dm_questions msg)"

definition responder_poll :: "qs_responder \<Rightarrow> bytes list \<Rightarrow> bytes list" where
  "responder_poll r dgs =
     concat (map (\<lambda>dg. case dns_parse (take 4096 dg) of
         None \<Rightarrow> []
       | Some msg \<Rightarrow> if wanted r msg then [announce r] else []) (take 32 dgs))"

section \<open>The table\<close>

text \<open>
  What holds of the table whatever was received: one entry for an instance, and each is an instance of this
  service with the id its name carries.
\<close>

definition peer_ok :: "rstring \<Rightarrow> qs_peer \<Rightarrow> bool" where
  "peer_ok k p \<longleftrightarrow> qp_instance p = k \<and> (\<exists>i. endpoint_id_from_instance k = Some i \<and> qp_endpoint_id p = from_utf8_lossy i)"

definition table_ok :: "qs_table \<Rightarrow> bool" where
  "table_ok peers \<longleftrightarrow> hm_wf peers \<and> (\<forall>x \<in> set peers. peer_ok (fst x) (snd x))"

lemma table_ok_get: "table_ok peers \<Longrightarrow> hm_get peers k = Some p \<Longrightarrow> peer_ok k p"
  by (auto simp: table_ok_def dest!: map_of_SomeD)

lemma table_ok_insert:
  assumes "table_ok peers" "peer_ok k p"
  shows "table_ok (hm_insert k p peers)"
proof -
  from assms(1) have "hm_wf (hm_insert k p peers)" by (simp add: table_ok_def hm.wf_insert)
  moreover have "set (hm_insert k p peers) \<subseteq> {(k, p)} \<union> set peers" by (induction peers) auto
  ultimately show ?thesis using assms by (auto simp: table_ok_def)
qed

lemma table_ok_update:
  assumes "table_ok peers" "hm_get peers k = Some p" "qp_instance p' = qp_instance p" "qp_endpoint_id p' = qp_endpoint_id p"
  shows "table_ok (hm_insert k p' peers)"
  using table_ok_get [OF assms(1,2)] assms by (intro table_ok_insert) (simp_all add: peer_ok_def)

lemma table_ok_map:
  assumes "table_ok peers" "\<And>p. qp_instance (f p) = qp_instance p" "\<And>p. qp_endpoint_id (f p) = qp_endpoint_id p"
  shows "table_ok (map (\<lambda>(k, p). (k, f p)) peers)"
proof -
  have m: "map fst (map (\<lambda>(k, p). (k, f p)) peers) = map fst peers" by (induction peers) auto
  have "peer_ok k (f p) = peer_ok k p" for k p by (simp add: peer_ok_def assms(2,3))
  with assms(1) show ?thesis unfolding table_ok_def hm_wf_def m by auto
qed

lemma absorb_rr_ok:
  assumes "table_ok peers"
  shows "table_ok (absorb_rr packet now rr peers)"
proof -
  have "table_ok (map (\<lambda>(k, p). (k, if qp_host p \<noteq> [] \<and> qp_host p = rr_name rr
      then p\<lparr>qp_addr := Some (rr_rdata rr), qp_last_seen := now\<rparr> else p)) peers)"
    using assms by (rule table_ok_map) simp_all
  moreover have "table_ok (hm_insert inst (unwrap_or \<lparr>qp_endpoint_id = from_utf8_lossy i, qp_instance = inst, qp_host = [],
      qp_port = 0, qp_addr = None, qp_name = None, qp_last_seen = now\<rparr> (hm_get peers inst)\<lparr>qp_last_seen := now\<rparr>) peers)"
    if "endpoint_id_from_instance inst = Some i" for inst i
    using assms that by (cases "hm_get peers inst") (auto simp: peer_ok_def intro: table_ok_insert table_ok_update)
  ultimately show ?thesis
    using assms by (auto simp: absorb_rr_def Let_def intro!: table_ok_update split: option.splits)
qed

lemma absorb_ok: "table_ok peers \<Longrightarrow> table_ok (absorb packet clock n rrs peers)"
  by (induction rrs arbitrary: n peers) (simp_all add: absorb_rr_ok)

lemma poll_loop_ok: "table_ok peers \<Longrightarrow> table_ok (poll_loop clock d dgs peers)"
  by (induction dgs arbitrary: d peers) (simp_all add: absorb_ok split: option.split)

lemma browser_expire_ok: "table_ok peers \<Longrightarrow> table_ok (browser_expire now older_than peers)"
  by (auto simp: browser_expire_def table_ok_def hm_wf_def distinct_map_filter)

interpretation browser: invariant_machine browser_on "\<lambda>_. True" table_ok
proof
  fix peers e
  assume "table_ok peers"
  then show "table_ok (fst (browser_on peers e))"
    by (cases e) (simp_all add: browser_poll_def poll_loop_ok browser_expire_ok)
qed

section \<open>What the responder puts on the wire\<close>

lemma service_type_facts: "list_all is_ascii_graphic SERVICE_TYPE" "length SERVICE_TYPE = 24" "SERVICE_TYPE \<noteq> []"
  "split_on 0x2E SERVICE_TYPE = [str ''_FC9F5ED42C8A'', str ''_tcp'', str ''local'']"
  by code_simp+

lemma graphic_lower: "set l \<subseteq> set B64URL \<Longrightarrow> list_all is_ascii_graphic (ascii_lower l) \<and> 0x2E \<notin> set (ascii_lower l)"
proof -
  have "list_all (\<lambda>b. is_ascii_graphic (if 0x41 \<le> b \<and> b \<le> 0x5A then b + 0x20 else b) \<and>
      (if 0x41 \<le> b \<and> b \<le> 0x5A then b + 0x20 else b) \<noteq> 0x2E) B64URL" by code_simp
  then show "set l \<subseteq> set B64URL \<Longrightarrow> list_all is_ascii_graphic (ascii_lower l) \<and> 0x2E \<notin> set (ascii_lower l)"
    unfolding list_all_iff ascii_lower_def by fastforce
qed

text \<open>A responder whose names are those of an endpoint id.\<close>

definition responder_ok :: "qs_responder \<Rightarrow> bytes \<Rightarrow> bool" where
  "responder_ok r i \<longleftrightarrow> length i = QS_ID_LEN \<and> qr_instance r = instance_name i @ 0x2E # SERVICE_TYPE \<and>
     qr_host r = str ''tarish-'' @ ascii_lower (instance_name i) @ str ''.local'' \<and> length (qr_addr r) = 4 \<and>
     length (qr_endpoint_info r) \<le> 273"

lemma responder_names:
  assumes "responder_ok r i"
  shows "dns_name_wf SERVICE_TYPE" "dns_name_wf (qr_instance r)" "dns_name_wf (qr_host r)"
    "length (qr_instance r) = 39" "length (qr_host r) = 27" "endpoint_id_from_instance (qr_instance r) = Some i"
proof -
  from assms have i: "length i = 4" by (simp add: responder_ok_def)
  note f = instance_name_facts [OF i]
  let ?l = "ascii_lower (instance_name i)"
  have ll: "length ?l = 14" using f by (simp add: ascii_lower_def)
  note g = graphic_lower [OF f(2)]
  have lg: "list_all is_ascii_graphic (instance_name i)" using f(2) b64url_graphic by (auto simp: list_all_iff)
  show "dns_name_wf SERVICE_TYPE"
    using service_type_facts by (simp add: dns_name_wf_def graphic_valid) (simp add: str_def)
  have p: "list_all is_ascii_graphic (str ''tarish-'')" "list_all is_ascii_graphic (str ''.local'')" "is_ascii_graphic 0x2E"
    "0x2E \<notin> set (str ''tarish-'')" "str ''.local'' = 0x2E # str ''local''" "0x2E \<notin> set (str ''local'')"
    "length (str ''tarish-'') = 7" "length (str ''local'') = 5" by code_simp+
  show n: "length (qr_instance r) = 39" "length (qr_host r) = 27"
    using assms f(1) ll service_type_facts(2) p by (simp_all add: responder_ok_def)
  have "split_on 0x2E (qr_instance r) = [instance_name i, str ''_FC9F5ED42C8A'', str ''_tcp'', str ''local'']"
    using assms f(3) service_type_facts(4) by (simp add: responder_ok_def split_on_before)
  moreover have "list_all is_ascii_graphic (qr_instance r)" using assms lg service_type_facts(1) p by (simp add: responder_ok_def)
  ultimately show "dns_name_wf (qr_instance r)"
    using n f(1) by (auto simp: dns_name_wf_def graphic_valid) (simp_all add: str_def)
  have "split_on 0x2E (qr_host r) = [str ''tarish-'' @ ?l, str ''local'']"
    using assms p g split_on_before [of "0x2E" "str ''tarish-'' @ ?l" "str ''local''"] split_on_no [of "0x2E" "str ''local''"]
    by (simp add: responder_ok_def)
  moreover have "list_all is_ascii_graphic (qr_host r)" using assms g p by (simp add: responder_ok_def)
  ultimately show "dns_name_wf (qr_host r)"
    using n ll p by (auto simp: dns_name_wf_def graphic_valid)
  show "endpoint_id_from_instance (qr_instance r) = Some i"
    using assms endpoint_id_roundtrip [OF i] by (simp add: responder_ok_def)
qed

text \<open>The four answers as values.\<close>

definition txt_of :: "qs_responder \<Rightarrow> bytes" where
  "txt_of r = (let entry = str ''n='' @ base64_url_nopad (qr_endpoint_info r) in word_of_nat (length entry) # entry)"

definition srv_of :: "qs_responder \<Rightarrow> bytes" where
  "srv_of r = u16_to_be_bytes 0 @ u16_to_be_bytes 0 @ u16_to_be_bytes (qr_port r) @ encode_name (qr_host r)"

definition qs_answers :: "qs_responder \<Rightarrow> u32 \<Rightarrow> dns_answer list" where
  "qs_answers r ttl =
     [\<lparr>da_name = SERVICE_TYPE, da_type = TYPE_PTR, da_ttl = ttl, da_rdata = encode_name (qr_instance r), da_flush = False\<rparr>,
      \<lparr>da_name = qr_instance r, da_type = TYPE_SRV, da_ttl = ttl, da_rdata = srv_of r, da_flush = True\<rparr>,
      \<lparr>da_name = qr_instance r, da_type = TYPE_TXT, da_ttl = ttl, da_rdata = txt_of r, da_flush = True\<rparr>,
      \<lparr>da_name = qr_host r, da_type = TYPE_A, da_ttl = ttl, da_rdata = qr_addr r, da_flush = True\<rparr>]"

lemma answers_eq: "answers_with_ttl r ttl = map answer_bytes (qs_answers r ttl)"
  by (simp add: answers_with_ttl_def qs_answers_def answer_bytes_def txt_of_def srv_of_def Let_def)

lemma length_txt_of: "length (txt_of r) = 3 + (4 * length (qr_endpoint_info r) + 2) div 3"
  by (simp add: txt_of_def Let_def base64_encoders length_base64) (simp add: str_def)

lemma length_srv_of: "responder_ok r i \<Longrightarrow> length (srv_of r) = 35"
  by (simp add: srv_of_def responder_names length_encode_name u16_to_be_bytes_def)

lemma responder_packet:
  assumes "responder_ok r i"
  shows "length (dns_response (answers_with_ttl r ttl)) \<le> 4096"
    "dns_parse (dns_response (answers_with_ttl r ttl)) = Some \<lparr>dm_questions = [], dm_records = answers_at 12 (qs_answers r ttl)\<rparr>"
proof -
  note n = responder_names [OF assms]
  have l: "length (qr_addr r) = 4" "length (qr_endpoint_info r) \<le> 273" using assms by (simp_all add: responder_ok_def)
  have t: "length (txt_of r) \<le> 400" using l(2) by (simp add: length_txt_of)
  have "list_all answer_ok (qs_answers r ttl)"
    using n t l length_srv_of [OF assms] by (simp add: qs_answers_def answer_ok_def length_encode_name)
  moreover show "length (dns_response (answers_with_ttl r ttl)) \<le> 4096"
    using n t l length_srv_of [OF assms] service_type_facts(2)
    by (simp add: answers_eq dns_response_def u16_to_be_bytes_def qs_answers_def length_answer length_encode_name)
  ultimately show "dns_parse (dns_response (answers_with_ttl r ttl)) =
      Some \<lparr>dm_questions = [], dm_records = answers_at 12 (qs_answers r ttl)\<rparr>"
    unfolding answers_eq by (intro dns_parse_response) (simp_all add: qs_answers_def fits_def)
qed

section \<open>What the browser makes of it\<close>

lemma names_in_packet:
  fixes ttl :: u32
  assumes "responder_ok r i"
  defines "P \<equiv> dns_response (answers_with_ttl r ttl)"
  shows "fst (dns_name \<lparr>dr_buf = P, dr_pos = rr_rdata_at (answers_at 12 (qs_answers r ttl) ! 0)\<rparr>) = Some (qr_instance r)"
    "fst (dns_name \<lparr>dr_buf = P, dr_pos = rr_rdata_at (answers_at 12 (qs_answers r ttl) ! 1) + 6\<rparr>) = Some (qr_host r)"
proof -
  note n = responder_names [OF assms(1)]
  have fit: "fits P" using responder_packet(1) [OF assms(1), of ttl] by (simp add: P_def fits_def)
  obtain a1 a2 as where a: "qs_answers r ttl = a1 # a2 # as" "da_rdata a1 = encode_name (qr_instance r)" "da_rdata a2 = srv_of r"
    by (simp add: qs_answers_def)
  define six where "six = u16_to_be_bytes 0 @ u16_to_be_bytes 0 @ u16_to_be_bytes (qr_port r)"
  have six: "srv_of r = six @ encode_name (qr_host r)" "length six = 6"
    by (simp_all add: six_def srv_of_def u16_to_be_bytes_def)
  show "fst (dns_name \<lparr>dr_buf = P, dr_pos = rr_rdata_at (answers_at 12 (qs_answers r ttl) ! 0)\<rparr>) = Some (qr_instance r)"
    using name_in_answer [of a1 "[]" _ "[]" "a2 # as"] n(2) fit a by (simp add: P_def answers_eq)
  show "fst (dns_name \<lparr>dr_buf = P, dr_pos = rr_rdata_at (answers_at 12 (qs_answers r ttl) ! 1) + 6\<rparr>) = Some (qr_host r)"
    using name_in_answer [of a2 six _ "[a1]" as] n(3) fit a six by (simp add: P_def answers_eq)
qed

text \<open>The entry a packet of the responder leaves, whatever the lifetime of its records.\<close>

definition peer_of :: "qs_responder \<Rightarrow> bytes \<Rightarrow> rstring option \<Rightarrow> nat \<Rightarrow> qs_peer" where
  "peer_of r i name now = \<lparr>qp_endpoint_id = from_utf8_lossy i, qp_instance = qr_instance r, qp_host = qr_host r,
     qp_port = qr_port r, qp_addr = Some (qr_addr r), qp_name = name, qp_last_seen = now\<rparr>"

lemma srv_port: "u16_from_be_bytes (srv_of r ! 4) (srv_of r ! 5) = qr_port r"
  by (simp add: srv_of_def u16_to_be_bytes_def nth_append cast_simps)

lemma ptr_absorbed:
  assumes "responder_ok r i" "table_ok peers" "rr_type rr = TYPE_PTR" "rr_name rr = SERVICE_TYPE"
    "fst (dns_name \<lparr>dr_buf = P, dr_pos = rr_rdata_at rr\<rparr>) = Some (qr_instance r)"
  obtains p where "hm_get (absorb_rr P now rr peers) (qr_instance r) = Some p" "qp_endpoint_id p = from_utf8_lossy i"
    "qp_instance p = qr_instance r" "qp_name p = Option.bind (hm_get peers (qr_instance r)) qp_name"
proof -
  note n = responder_names(6) [OF assms(1)]
  show thesis
  proof (cases "hm_get peers (qr_instance r)")
    case None
    with assms n that show ?thesis by (simp add: absorb_rr_def Let_def update_conv')
  next
    case (Some p)
    with table_ok_get [OF assms(2) Some] n have "qp_endpoint_id p = from_utf8_lossy i" "qp_instance p = qr_instance r"
      by (auto simp: peer_ok_def)
    with Some assms n that [of "p\<lparr>qp_last_seen := now\<rparr>"] show ?thesis by (simp add: absorb_rr_def Let_def update_conv')
  qed
qed

lemma responder_absorbed:
  assumes "responder_ok r i" "table_ok peers"
  shows "hm_get (absorb (dns_response (answers_with_ttl r ttl)) clock 0 (answers_at 12 (qs_answers r ttl)) peers) (qr_instance r) =
    Some (peer_of r i (case name_from_txt (txt_of r) of None \<Rightarrow> Option.bind (hm_get peers (qr_instance r)) qp_name | Some n \<Rightarrow> Some n)
      (clock 3))"
proof -
  let ?P = "dns_response (answers_with_ttl r ttl)"
  obtain r1 r2 r3 r4 where rr: "answers_at 12 (qs_answers r ttl) = [r1, r2, r3, r4]"
    "rr_type r1 = TYPE_PTR" "rr_name r1 = SERVICE_TYPE"
    "rr_type r2 = TYPE_SRV" "rr_name r2 = qr_instance r" "rr_rdata r2 = srv_of r"
    "rr_type r3 = TYPE_TXT" "rr_name r3 = qr_instance r" "rr_rdata r3 = txt_of r"
    "rr_type r4 = TYPE_A" "rr_name r4 = qr_host r" "rr_rdata r4 = qr_addr r"
    by (simp add: answers_at_def qs_answers_def answer_rr_def)
  have nm: "fst (dns_name \<lparr>dr_buf = ?P, dr_pos = rr_rdata_at r1\<rparr>) = Some (qr_instance r)"
    "fst (dns_name \<lparr>dr_buf = ?P, dr_pos = rr_rdata_at r2 + 6\<rparr>) = Some (qr_host r)"
    using names_in_packet [OF assms(1), of ttl] rr(1) by simp_all
  obtain p where p: "hm_get (absorb_rr ?P (clock 0) r1 peers) (qr_instance r) = Some p" "qp_endpoint_id p = from_utf8_lossy i"
    "qp_instance p = qr_instance r" "qp_name p = Option.bind (hm_get peers (qr_instance r)) qp_name"
    using ptr_absorbed [OF assms rr(2,3) nm(1)] by blast
  define ps1 where "ps1 = absorb_rr ?P (clock 0) r1 peers"
  define p2 where "p2 = p\<lparr>qp_port := qr_port r, qp_host := qr_host r, qp_last_seen := clock 1\<rparr>"
  have 2: "absorb_rr ?P (clock 1) r2 ps1 = hm_insert (qr_instance r) p2 ps1"
    using p(1) rr nm(2) length_srv_of [OF assms(1)] by (simp add: absorb_rr_def Let_def srv_port ps1_def p2_def)
  define p3 where "p3 = (case name_from_txt (txt_of r) of None \<Rightarrow> p2 | Some n \<Rightarrow> p2\<lparr>qp_name := Some n\<rparr>)\<lparr>qp_last_seen := clock 2\<rparr>"
  have 3: "absorb_rr ?P (clock 2) r3 (hm_insert (qr_instance r) p2 ps1) =
      hm_insert (qr_instance r) p3 (hm_insert (qr_instance r) p2 ps1)"
    using rr by (simp add: absorb_rr_def Let_def update_conv' p3_def)
  have h: "qp_host p3 = qr_host r" "qr_host r \<noteq> []"
    using responder_names(5) [OF assms(1)] by (auto simp: p3_def p2_def split: option.split)
  have "hm_get (absorb_rr ?P (clock 3) r4 (hm_insert (qr_instance r) p3 (hm_insert (qr_instance r) p2 ps1))) (qr_instance r) =
      Some (p3\<lparr>qp_addr := Some (qr_addr r), qp_last_seen := clock 3\<rparr>)"
    using rr h assms(1) by (simp add: absorb_rr_def map_of_map update_conv' responder_ok_def)
  moreover have "p3\<lparr>qp_addr := Some (qr_addr r), qp_last_seen := clock 3\<rparr> =
      peer_of r i (case name_from_txt (txt_of r) of None \<Rightarrow> Option.bind (hm_get peers (qr_instance r)) qp_name | Some n \<Rightarrow> Some n) (clock 3)"
    using p by (simp add: p3_def p2_def peer_of_def split: option.split)
  ultimately show ?thesis using rr(1) 2 3 by (simp add: ps1_def numeral_eq_Suc)
qed

lemma responder_polled:
  assumes "responder_ok r i" "table_ok peers"
  shows "hm_get (browser_poll clock [dns_response (answers_with_ttl r ttl)] peers) (qr_instance r) =
    Some (peer_of r i (case name_from_txt (txt_of r) of None \<Rightarrow> Option.bind (hm_get peers (qr_instance r)) qp_name | Some n \<Rightarrow> Some n)
      (clock 0 3))"
  using responder_packet [OF assms(1), of ttl] responder_absorbed [OF assms, of ttl "clock 0"] by (simp add: browser_poll_def)

section \<open>The name in the TXT record\<close>

lemma txt_entry: "txt_of r = word_of_nat (2 + length (base64url_encode (qr_endpoint_info r))) # [0x6E, 0x3D] @ base64url_encode (qr_endpoint_info r)"
  by (simp add: txt_of_def Let_def base64_encoders) (simp add: str_def)

text \<open>The reader takes as much of the entry as its length byte says.\<close>

lemma name_from_txt_entry:
  assumes "k \<le> length enc" "unat b = 2 + k"
  shows "name_from_txt (b # [0x6E, 0x3D] @ enc) =
    (case base64_any_decode (take k enc) of None \<Rightarrow> None
     | Some raw \<Rightarrow> (case endpoint_parse raw of None \<Rightarrow> None | Some e \<Rightarrow> ei_device_name e))"
  using assms by (simp add: name_from_txt_def name_from_txt_at.simps [of _ 0] Let_def)

lemma unat_byte: "n < 256 \<Longrightarrow> unat (word_of_nat n :: u8) = n"
  by (simp add: unat_of_nat)

lemma txt_name_fits:
  assumes "length (qr_endpoint_info r) \<le> 189"
  shows "name_from_txt (txt_of r) = (case endpoint_parse (qr_endpoint_info r) of None \<Rightarrow> None | Some e \<Rightarrow> ei_device_name e)"
proof -
  let ?enc = "base64url_encode (qr_endpoint_info r)"
  have "length ?enc \<le> 253" using assms by (simp add: length_base64)
  then have "unat (word_of_nat (2 + length ?enc) :: u8) = 2 + length ?enc" by (intro unat_byte) simp
  from name_from_txt_entry [OF order_refl this] show ?thesis by (simp only: txt_entry) (simp add: base64_roundtrip)
qed

text \<open>A structure cut before its end has no name for the reader.\<close>

lemma endpoint_cut:
  assumes "endpoint_ok e" "\<not> ei_hidden e" "j < length (endpoint_encode e)"
  shows "(case endpoint_parse (take j (endpoint_encode e)) of None \<Rightarrow> None | Some e' \<Rightarrow> ei_device_name e') = None"
proof -
  let ?n = "cut_name (unwrap_or [] (ei_device_name e))"
  have m: "length (ei_metadata e) = 16" "utf8_valid (unwrap_or [] (ei_device_name e))"
    using assms(1) by (simp_all add: endpoint_ok_def)
  have "length ?n \<le> 255" using cut_name(1) [OF m(2)] .
  then have n: "unat (word_of_nat (length ?n) :: u8) = length ?n" by (intro unat_byte) simp
  have enc: "endpoint_encode e = endpoint_header e # ei_metadata e @ word_of_nat (length ?n) # ?n"
    using assms(2) by (simp add: endpoint_encode_def Let_def)
  have "\<not> (17 < j \<and> 18 + length ?n \<le> j)" using assms(3) enc m by simp
  moreover have "17 < j \<Longrightarrow> take j (endpoint_encode e) ! 17 = word_of_nat (length ?n)"
    using m by (simp add: enc nth_append)
  moreover have "0 < j \<Longrightarrow> take j (endpoint_encode e) ! 0 = endpoint_header e" by (simp add: enc)
  ultimately show ?thesis
    using assms n endpoint_header_bits(2) [of e] by (auto simp: endpoint_parse_def Let_def get_at_def)
qed

lemma txt_name_lost:
  assumes "endpoint_ok e" "\<not> ei_hidden e" "qr_endpoint_info r = endpoint_encode e" "192 \<le> length (endpoint_encode e)" "length (endpoint_encode e) \<le> 273"
  shows "name_from_txt (txt_of r) = None"
proof -
  let ?enc = "base64url_encode (qr_endpoint_info r)"
  define k where "k = length ?enc - 256"
  have l: "length ?enc = 256 + k" "k \<le> 108" using assms(3-5) by (simp_all add: length_base64 k_def)
  have "(word_of_nat (2 + length ?enc) :: u8) = word_of_nat (2 + k)" by (simp add: l(1))
  then have "unat (word_of_nat (2 + length ?enc) :: u8) = 2 + k" using l(2) unat_byte [of "2 + k"] by simp
  from name_from_txt_entry [OF _ this, of ?enc] l(1) have "name_from_txt (txt_of r) =
    (case base64_any_decode (take k ?enc) of None \<Rightarrow> None
     | Some raw \<Rightarrow> (case endpoint_parse raw of None \<Rightarrow> None | Some e \<Rightarrow> ei_device_name e))"
    by (simp only: txt_entry)
  moreover obtain j where "base64_any_decode (take k ?enc) = Some (take j (qr_endpoint_info r))" "j \<le> 6 * k div 8"
    using base64_prefix by blast
  moreover from \<open>j \<le> 6 * k div 8\<close> l(2) assms(4) have "j < length (endpoint_encode e)" by simp
  ultimately show ?thesis using endpoint_cut [OF assms(1,2), of j] assms(3) by simp
qed

section \<open>Properties\<close>

definition my_endpoint :: "rstring \<Rightarrow> bytes \<Rightarrow> endpoint_info" where
  "my_endpoint name metadata = \<lparr>ei_version = 0, ei_hidden = False, ei_device_type = Dev_Phone,
     ei_metadata = metadata, ei_device_name = Some name\<rparr>"

definition my_responder :: "rstring \<Rightarrow> bytes \<Rightarrow> bytes \<Rightarrow> bytes \<Rightarrow> bytes \<Rightarrow> u16 \<Rightarrow> qs_responder" where
  "my_responder name metadata token random addr port = responder_new (identity_new name metadata token random) addr port"

lemma my_responder_ok:
  assumes "utf8_valid name" "length metadata = 16" "length random = 4" "length addr = 4" "length name \<le> 255"
  shows "responder_ok (my_responder name metadata token random addr port) (random_endpoint_id random)"
    "endpoint_ok (my_endpoint name metadata)"
    "qr_endpoint_info (my_responder name metadata token random addr port) = endpoint_encode (my_endpoint name metadata)"
    "length (endpoint_encode (my_endpoint name metadata)) = 18 + length name"
    "endpoint_parse (endpoint_encode (my_endpoint name metadata)) = Some (my_endpoint name metadata)"
    "from_utf8_lossy (random_endpoint_id random) = random_endpoint_id random"
proof -
  have cut: "cut_name name = name" using assms(5) by (simp add: cut_name_def)
  show i: "qr_endpoint_info (my_responder name metadata token random addr port) = endpoint_encode (my_endpoint name metadata)"
    by (simp add: my_responder_def responder_new_def identity_new_def my_endpoint_def Let_def)
  show e: "endpoint_ok (my_endpoint name metadata)" using assms by (simp add: endpoint_ok_def my_endpoint_def)
  show l: "length (endpoint_encode (my_endpoint name metadata)) = 18 + length name"
    using assms(2) cut by (simp add: endpoint_encode_def my_endpoint_def Let_def)
  show "responder_ok (my_responder name metadata token random addr port) (random_endpoint_id random)"
    unfolding responder_ok_def i l using assms random_endpoint_id_ok(2) [of random]
    by (simp add: my_responder_def responder_new_def identity_new_def Let_def)
  show "endpoint_parse (endpoint_encode (my_endpoint name metadata)) = Some (my_endpoint name metadata)"
    using endpoint_parse_encode [OF e] cut by (simp add: endpoint_view_def my_endpoint_def)
  show "from_utf8_lossy (random_endpoint_id random) = random_endpoint_id random"
    using graphic_valid [OF alphabet_graphic [OF random_endpoint_id_ok(1)]] by simp
qed

lemma reached_table: "table_ok (fst (run browser_on [] es))"
  by (rule browser.run_inv) (simp_all add: table_ok_def hm_wf_def list_all_iff)

lemma packet_discovered:
  assumes "utf8_valid name" "length name \<le> 171" "length metadata = 16" "length random = 4" "length addr = 4"
    "r = my_responder name metadata token random addr port"
  shows "hm_get (fst (run browser_on [] (es @ [Poll clock [dns_response (answers_with_ttl r ttl)]]))) (qr_instance r) =
    Some \<lparr>qp_endpoint_id = random_endpoint_id random, qp_instance = qr_instance r, qp_host = qr_host r, qp_port = port,
      qp_addr = Some addr, qp_name = Some name, qp_last_seen = clock 0 3\<rparr>"
proof -
  have n: "length name \<le> 255" using assms(2) by simp
  note ok = my_responder_ok [OF assms(1,3,4,5) n]
  have "name_from_txt (txt_of r) = Some name"
    using txt_name_fits [of r] ok(3-5) assms(2,6) by simp (simp add: my_endpoint_def)
  moreover have "qr_port r = port" "qr_addr r = addr" by (simp_all add: assms(6) my_responder_def responder_new_def Let_def)
  moreover have "fst (run browser_on [] (es @ [Poll clock [dg]])) = browser_poll clock [dg] (fst (run browser_on [] es))" for dg
    by (simp add: run_snoc Let_def split: prod.split)
  ultimately show ?thesis
    using responder_polled [OF ok(1) reached_table [of es], where ttl = ttl and clock = clock] ok(6) assms(6) by (simp add: peer_of_def)
qed

text \<open>
  Whatever was received and expired, the table of peers has one entry for an instance, filed under its own
  name, and only instances whose label carries the hash of this service, with the endpoint id that label
  carries.
\<close>

theorem browser_sound:
  assumes "hm_get (fst (run browser_on [] es)) k = Some p"
  shows "distinct (map qp_instance (browser_peers (fst (run browser_on [] es)))) \<and> qp_instance p = k \<and>
    (\<exists>i. endpoint_id_from_instance k = Some i \<and> qp_endpoint_id p = from_utf8_lossy i)"
proof -
  note t = reached_table [of es]
  then have "map qp_instance (map snd (fst (run browser_on [] es))) = map fst (fst (run browser_on [] es))"
    by (simp add: table_ok_def peer_ok_def)
  with t have "distinct (map qp_instance (browser_peers (fst (run browser_on [] es))))"
    unfolding browser_peers_def table_ok_def hm_wf_def by metis
  with table_ok_get [OF t assms] show ?thesis by (simp add: peer_ok_def)
qed

theorem browser_sound_witness:
  "\<exists>es k p. hm_get (fst (run browser_on [] es)) k = Some p \<and> qp_endpoint_id p = str ''ABCD'' \<and>
    (\<exists>i. endpoint_id_from_instance k = Some i \<and> qp_endpoint_id p = from_utf8_lossy i)"
proof -
  have i: "random_endpoint_id [0, 1, 2, 3] = str ''ABCD''" by code_simp
  have v: "utf8_valid (str ''Pixel'')" "length (str ''Pixel'') \<le> 171" by code_simp+
  let ?r = "my_responder (str ''Pixel'') (replicate 16 0) [] [0, 1, 2, 3] [192, 168, 0, 7] 4242"
  let ?es = "[Poll (\<lambda>_ _. 0) [dns_response (answers_with_ttl ?r 120)]]"
  obtain p where p: "hm_get (fst (run browser_on [] ?es)) (qr_instance ?r) = Some p" "qp_endpoint_id p = str ''ABCD''"
    using packet_discovered [OF v, of "replicate 16 0" "[0, 1, 2, 3]" "[192, 168, 0, 7]" ?r "[]" 4242 "[]" "\<lambda>_ _. 0" 120]
    unfolding i by fastforce
  with browser_sound [OF p(1)] show ?thesis by blast
qed

text \<open>
  C17: a device that announces itself is discovered whole: whatever the browser has seen before, its packet leaves
  an entry with the device's id, the host and port it listens on, the address of its interface and its name,
  provided the name has at most 171 bytes.
\<close>

theorem announcement_discovered:
  assumes "utf8_valid name" "length name \<le> 171" "length metadata = 16" "length random = 4" "length addr = 4"
    "r = my_responder name metadata token random addr port"
  shows "hm_get (fst (run browser_on [] (es @ [Poll clock [announce r]]))) (qr_instance r) =
    Some \<lparr>qp_endpoint_id = random_endpoint_id random, qp_instance = qr_instance r, qp_host = qr_host r, qp_port = port,
      qp_addr = Some addr, qp_name = Some name, qp_last_seen = clock 0 3\<rparr>"
  unfolding announce_def using assms by (rule packet_discovered)

theorem announcement_discovered_witness:
  "\<exists>r. hm_get (fst (run browser_on [] [Poll (\<lambda>_ _. 7) [announce r]])) (qr_instance r) =
    Some \<lparr>qp_endpoint_id = str ''ABCD'', qp_instance = qr_instance r, qp_host = qr_host r, qp_port = 4242,
      qp_addr = Some [192, 168, 0, 7], qp_name = Some (str ''Pixel''), qp_last_seen = 7\<rparr>"
proof -
  have i: "random_endpoint_id [0, 1, 2, 3] = str ''ABCD''" by code_simp
  have "utf8_valid (str ''Pixel'')" "length (str ''Pixel'') \<le> 171" by code_simp+
  from announcement_discovered [OF this, of "replicate 16 0" "[0, 1, 2, 3]" "[192, 168, 0, 7]" _ "[]" 4242 "[]"]
  show ?thesis unfolding i by fastforce
qed

text \<open>
  A name of 174 to 255 bytes is lost: the length byte of the TXT entry wraps around, so a peer that has not
  met the device lists it without a name.
\<close>

theorem long_name_lost:
  assumes "utf8_valid name" "174 \<le> length name" "length name \<le> 255" "length metadata = 16" "length random = 4" "length addr = 4"
    "r = my_responder name metadata token random addr port"
  shows "\<exists>p. hm_get (fst (run browser_on [] [Poll clock [announce r]])) (qr_instance r) = Some p \<and>
    qp_endpoint_id p = random_endpoint_id random \<and> qp_addr p = Some addr \<and> qp_name p = None"
proof -
  note ok = my_responder_ok [OF assms(1,4,5,6,3)]
  have "\<not> ei_hidden (my_endpoint name metadata)" by (simp add: my_endpoint_def)
  then have "name_from_txt (txt_of r) = None"
    using txt_name_lost [OF ok(2) _ ok(3)] ok(4) assms(2,3,7) by simp
  moreover have "qr_addr r = addr" by (simp add: assms(7) my_responder_def responder_new_def Let_def)
  ultimately show ?thesis
    using responder_polled [OF ok(1), where peers = "[]" and clock = clock and ttl = TTL_SECS] ok(6) assms(7)
    by (simp add: announce_def peer_of_def table_ok_def hm_wf_def)
qed

theorem long_name_lost_witness:
  "\<exists>r p. hm_get (fst (run browser_on [] [Poll (\<lambda>_ _. 0) [announce r]])) (qr_instance r) = Some p \<and>
    qp_endpoint_id p = str ''ABCD'' \<and> qp_addr p = Some [192, 168, 0, 7] \<and> qp_name p = None"
proof -
  have i: "random_endpoint_id [0, 1, 2, 3] = str ''ABCD''" by code_simp
  have "utf8_valid (replicate 200 0x61)" by (rule ascii_utf8_valid) simp
  from long_name_lost [OF this, of "replicate 16 0" "[0, 1, 2, 3]" "[192, 168, 0, 7]" _ "[]" 4242 "\<lambda>_ _. 0"]
  show ?thesis unfolding i by fastforce
qed

text \<open>
  The browser does not honour a withdrawal. The packet sent on leaving, with a lifetime of zero, leaves the
  entry it should remove, seen just now, and adds one for a device that was not listed.
\<close>

theorem goodbye_not_honoured:
  assumes "utf8_valid name" "length name \<le> 171" "length metadata = 16" "length random = 4" "length addr = 4"
    "r = my_responder name metadata token random addr port"
  shows "\<exists>p. hm_get (fst (run browser_on [] (es @ [Poll clock [stop_advertising r]]))) (qr_instance r) = Some p \<and>
    qp_last_seen p = clock 0 3"
  unfolding stop_advertising_def using packet_discovered [OF assms, of es clock 0] by simp

theorem goodbye_not_honoured_witness:
  "\<exists>r p. hm_get (fst (run browser_on [] [Poll (\<lambda>_ _. 9) [stop_advertising r]])) (qr_instance r) = Some p \<and> qp_last_seen p = 9"
proof -
  have "utf8_valid (str ''Pixel'')" "length (str ''Pixel'') \<le> 171" by code_simp+
  from goodbye_not_honoured [OF this, of "replicate 16 0" "[0, 1, 2, 3]" "[192, 168, 0, 7]" _ "[]" 4242 "[]" "\<lambda>_ _. 9"]
  show ?thesis by fastforce
qed

text \<open>
  A responder answers every browser's query, once, with its announcement, and never answers what another
  responder sends, so two of them cannot talk each other into a loop.
\<close>

theorem responder_answers_queries:
  assumes "utf8_valid name" "length name \<le> 255" "length metadata = 16" "length random = 4" "length addr = 4"
    "r' = my_responder name metadata token random addr port"
  shows "responder_poll r [browser_query, announce r', stop_advertising r'] = [announce r]"
proof -
  note ok = my_responder_ok [OF assms(1,3,4,5,2)]
  have p: "dns_parse (take 4096 (dns_response (answers_with_ttl r' ttl))) = Some \<lparr>dm_questions = [], dm_records = answers_at 12 (qs_answers r' ttl)\<rparr>" for ttl
    using responder_packet [OF ok(1), where ttl = ttl] assms(6) by simp
  have "length browser_query \<le> 4096" by code_simp
  moreover from this have "dns_parse browser_query = Some \<lparr>dm_questions = [\<lparr>q_name = SERVICE_TYPE, q_type = TYPE_PTR\<rparr>], dm_records = []\<rparr>"
    unfolding browser_query_def dns_query_def using responder_names(1) [OF ok(1)]
    by (intro dns_parse_query) (simp_all add: fits_def)
  ultimately show ?thesis using p by (simp add: responder_poll_def announce_def stop_advertising_def wanted_def)
qed

theorem responder_answers_queries_witness:
  "\<exists>r'. responder_poll r' [browser_query, announce r', stop_advertising r'] = [announce r']"
proof -
  have "utf8_valid (str ''Pixel'')" "length (str ''Pixel'') \<le> 255" by code_simp+
  from responder_answers_queries [OF this, of "replicate 16 0" "[0, 1, 2, 3]" "[192, 168, 0, 7]" _ "[]" 4242] show ?thesis by fastforce
qed

end
