(* ===== verification/Stream_Frames.thy ===== *)
theory Stream_Frames
  imports Framing Rust_Io
begin

text \<open>
  Frames over a stream (\<open>Frames\<close>, \<open>write_frame\<close> and \<open>bad\<close> of \<open>sharingd/src/quickshare/connection.rs\<close>): the decoder of
  \<open>framing.rs\<close> over a reader that delivers in pieces, and the encoder over a writer. The lemma
  \<open>frames_next_encoded\<close> composes the two: the next frame comes out whole, whatever the pieces, and the
  decoder and the stream together hold exactly what follows it.
\<close>

section \<open>Model\<close>

abbreviation (input) FRAMES_BUF :: nat where "FRAMES_BUF \<equiv> 16384"

record frames =
  fr_stream :: source
  fr_decoder :: decoder

definition frames_new :: "source \<Rightarrow> frames" where
  "frames_new s = \<lparr>fr_stream = s, fr_decoder = decoder_new\<rparr>"

text \<open>The kinds of failure: \<open>InvalidData\<close> carries which message it was raised with.\<close>

abbreviation (input) bad :: "nat \<Rightarrow> io_error" where "bad n \<equiv> Io_InvalidData n"

function frames_next :: "frames \<Rightarrow> (io_error + bytes) \<times> frames" where
  "frames_next f =
     (case next_frame (fr_decoder f) of
        (Inl e, d) \<Rightarrow> (Inl (bad 0), f\<lparr>fr_decoder := d\<rparr>)
      | (Inr (Some x), d) \<Rightarrow> (Inr x, f\<lparr>fr_decoder := d\<rparr>)
      | (Inr None, d) \<Rightarrow>
        (case src_read FRAMES_BUF (fr_stream f) of
           (Inl e, s) \<Rightarrow> (Inl e, \<lparr>fr_stream = s, fr_decoder = d\<rparr>)
         | (Inr [], s) \<Rightarrow> (Inl Io_UnexpectedEof, \<lparr>fr_stream = s, fr_decoder = d\<rparr>)
         | (Inr (b # bs), s) \<Rightarrow> frames_next \<lparr>fr_stream = s, fr_decoder = decoder_push (b # bs) d\<rparr>))"
  by pat_completeness auto
termination
proof (relation "measure (\<lambda>f. src_size (fr_stream f))")
  show "(\<lparr>fr_stream = s, fr_decoder = decoder_push (b # bs) d\<rparr>, f) \<in> measure (\<lambda>f. src_size (fr_stream f))"
    if "(x, s) = src_read FRAMES_BUF (fr_stream f)" "x = Inr y" "y = b # bs" for f s b bs d x y
  proof -
    from that have r: "src_read FRAMES_BUF (fr_stream f) = (Inr (b # bs), s)" by simp
    from src_read_size [OF r _ src_read_Nil(1) [OF r]] show ?thesis by simp
  qed
qed simp

declare frames_next.simps [simp del]

definition write_frame :: "bytes \<Rightarrow> sink \<Rightarrow> (io_error + unit) \<times> sink" where
  "write_frame payload k =
     (case sink_write_all (framing_encode payload) k of
        (Inl e, k') \<Rightarrow> (Inl e, k')
      | (Inr _, k') \<Rightarrow> sink_flush k')"

section \<open>Reading what was framed\<close>

lemma next_frame_short:
  assumes "length f < MAX_FRAME" "d_buf d @ us = framing_encode f" "us \<noteq> []"
  shows "next_frame d = (Inr None, d)"
proof (cases "length (d_buf d) < 4")
  case False
  have len: "length (d_buf d) < 4 + length f"
    using arg_cong [OF assms(2), of length] assms(3) by (cases us) (simp_all add: framing_encode_def)
  have "unat (word_of_nat (length f) :: u32) = length f" using assms(1) by (simp add: unat_of_nat)
  moreover have "d_buf d ! i = (d_buf d @ us) ! i" if "i < 4" for i using that False by (simp add: nth_append)
  then have "u32_from_be_bytes (d_buf d ! 0) (d_buf d ! 1) (d_buf d ! 2) (d_buf d ! 3) = word_of_nat (length f)"
    using u32_be_roundtrip [of "word_of_nat (length f)"] by (simp add: assms(2) framing_encode_def u32_to_be_bytes_def)
  ultimately show ?thesis using len False assms(1) by (simp add: next_frame_def Let_def)
qed (simp add: next_frame_def Let_def)

lemma next_frame_part:
  assumes "length f < MAX_FRAME" "d_buf d @ later = framing_encode f @ rest"
  shows "next_frame d = (Inr None, d) \<and> later \<noteq> [] \<or> next_frame d = (Inr (Some f), d\<lparr>d_buf := drop (4 + length f) (d_buf d)\<rparr>) \<and>
    drop (4 + length f) (d_buf d) @ later = rest"
proof -
  from assms(2) consider us where "d_buf d = framing_encode f @ us" "us @ later = rest"
    | us where "d_buf d @ us = framing_encode f" "us \<noteq> []" "later = us @ rest"
    unfolding append_eq_append_conv2 by (metis append_Nil append_Nil2)
  then show ?thesis
  proof cases
    case 1
    moreover have "drop (4 + length f) (framing_encode f @ us) = us" by (simp add: framing_encode_def)
    ultimately show ?thesis using next_frame_encode [OF assms(1) 1(1)] by simp
  next
    case 2
    with next_frame_short [OF assms(1) 2(1,2)] show ?thesis by simp
  qed
qed

lemma frames_next_encoded:
  assumes "steady (fr_stream fr)" "length x < MAX_FRAME" "d_buf (fr_decoder fr) @ src_data (fr_stream fr) = framing_encode x @ rest"
  shows "\<exists>fr'. frames_next fr = (Inr x, fr') \<and> steady (fr_stream fr') \<and> d_buf (fr_decoder fr') @ src_data (fr_stream fr') = rest"
  using assms
proof (induction fr rule: frames_next.induct)
  case (1 fr)
  let ?d = "fr_decoder fr"
  from next_frame_part [OF "1.prems"(2,3)] show ?case
  proof (elim disjE conjE)
    assume n: "next_frame ?d = (Inr None, ?d)" and later: "src_data (fr_stream fr) \<noteq> []"
    obtain res s where r: "src_read FRAMES_BUF (fr_stream fr) = (res, s)" by (cases "src_read FRAMES_BUF (fr_stream fr)")
    from steady_read [OF "1.prems"(1) r] later obtain b bs where b: "res = Inr (b # bs)" "steady s"
      "src_data (fr_stream fr) = (b # bs) @ src_data s" by (metis neq_Nil_conv zero_less_numeral src_data_simps(1))
    let ?fr = "\<lparr>fr_stream = s, fr_decoder = decoder_push (b # bs) ?d\<rparr>"
    have "d_buf (fr_decoder ?fr) @ src_data (fr_stream ?fr) = framing_encode x @ rest"
      using "1.prems"(3) b(3) by (simp add: decoder_push_def)
    with 1(1) [OF n [symmetric] refl refl r [symmetric] b(1) refl] b(2) "1.prems"(2)
    obtain fr' where "frames_next ?fr = (Inr x, fr')" "steady (fr_stream fr')"
      "d_buf (fr_decoder fr') @ src_data (fr_stream fr') = rest" by auto
    with n r b(1) show ?case by (subst frames_next.simps) simp
  next
    assume "next_frame ?d = (Inr (Some x), ?d\<lparr>d_buf := drop (4 + length x) (d_buf ?d)\<rparr>)"
      "drop (4 + length x) (d_buf ?d) @ src_data (fr_stream fr) = rest"
    with "1.prems"(1) show ?case by (subst frames_next.simps) simp
  qed
qed

text \<open>A run of calls: the frames in order, then the end of the stream.\<close>

fun frames_take :: "nat \<Rightarrow> frames \<Rightarrow> (io_error + bytes) list" where
  "frames_take 0 f = []"
| "frames_take (Suc n) f = (case frames_next f of (r, f') \<Rightarrow> r # frames_take n f')"

lemma frames_take_encoded:
  assumes "steady s" "\<forall>x \<in> set xs. length x < MAX_FRAME" "src_data s = concat (map framing_encode xs)"
  shows "frames_take (length xs) (frames_new s) = map Inr xs"
proof -
  have "frames_take (length xs) fr = map Inr xs"
    if "steady (fr_stream fr)" "\<forall>x \<in> set xs. length x < MAX_FRAME"
      "d_buf (fr_decoder fr) @ src_data (fr_stream fr) = concat (map framing_encode xs)" for fr
    using that
  proof (induction xs arbitrary: fr)
    case (Cons x xs)
    then obtain fr' where "frames_next fr = (Inr x, fr')" "steady (fr_stream fr')"
      "d_buf (fr_decoder fr') @ src_data (fr_stream fr') = concat (map framing_encode xs)"
      using frames_next_encoded [of fr x "concat (map framing_encode xs)"] by auto
    with Cons show ?case by simp
  qed simp
  from this [of "frames_new s"] assms show ?thesis by (simp add: frames_new_def decoder_new_def)
qed

end
