(* ===== verification/L2cap_Mux.thy ===== *)
theory L2cap_Mux
  imports Multiplex Stream_Frames
begin

text \<open>
  The socket layer over an L2CAP channel (\<open>sharingd/src/quickshare/mux.rs\<close>): opening the channel, the pump
  thread that reads packets, acknowledges data and queues the stream, the reader, and the writer that
  paces itself against the acknowledgements. The threads share the state behind a mutex, so what they do is a
  sequence of events, each one turn of one thread with the lock held; a wait on the condition variable is a
  turn that does nothing yet. The theorems: how far the writer gets ahead of the peer, and, for two endpoints
  connected by the channel, that no byte is lost, repeated or reordered, that the counts agree, and that a
  blocked writer is never stuck.
\<close>

section \<open>Packets\<close>

abbreviation (input) COMMAND_REQUEST_DATA_CONNECTION :: u8 where "COMMAND_REQUEST_DATA_CONNECTION \<equiv> 3"
abbreviation (input) COMMAND_RESPONSE_DATA_CONNECTION_READY :: u8 where "COMMAND_RESPONSE_DATA_CONNECTION_READY \<equiv> 23"
abbreviation (input) MAX_DATA_CONNECTION_RESPONSE :: nat where "MAX_DATA_CONNECTION_RESPONSE \<equiv> 64"
abbreviation (input) CONTROL_PREFIX :: bytes where "CONTROL_PREFIX \<equiv> [0 :: u8, 0, 0]"
abbreviation (input) SCF_TYPE :: u32 where "SCF_TYPE \<equiv> 1"
abbreviation (input) SCF_INTRODUCTION :: u32 where "SCF_INTRODUCTION \<equiv> 2"
abbreviation (input) SCF_PACKET_ACKNOWLEDGEMENT :: u32 where "SCF_PACKET_ACKNOWLEDGEMENT \<equiv> 4"
abbreviation (input) CONTROL_TYPE_INTRODUCTION :: u64 where "CONTROL_TYPE_INTRODUCTION \<equiv> 1"
abbreviation (input) CONTROL_TYPE_PACKET_ACKNOWLEDGEMENT :: u64 where "CONTROL_TYPE_PACKET_ACKNOWLEDGEMENT \<equiv> 3"
abbreviation (input) INTRO_SERVICE_ID_HASH :: u32 where "INTRO_SERVICE_ID_HASH \<equiv> 1"
abbreviation (input) INTRO_SOCKET_VERSION :: u32 where "INTRO_SOCKET_VERSION \<equiv> 2"
abbreviation (input) ACK_SERVICE_ID_HASH :: u32 where "ACK_SERVICE_ID_HASH \<equiv> 1"
abbreviation (input) ACK_RECEIVED_SIZE :: u32 where "ACK_RECEIVED_SIZE \<equiv> 2"
abbreviation (input) SOCKET_VERSION_V2 :: u64 where "SOCKET_VERSION_V2 \<equiv> 2"
abbreviation (input) MAX_PACKET_PAYLOAD :: nat where "MAX_PACKET_PAYLOAD \<equiv> 16384"
abbreviation (input) MAX_BYTES_IN_FLIGHT :: nat where "MAX_BYTES_IN_FLIGHT \<equiv> 65536"

definition packet_acknowledgement :: "'k primitives \<Rightarrow> nat \<Rightarrow> bytes" where
  "packet_acknowledgement p received =
     (let ack = write_msg [w_bytes ACK_SERVICE_ID_HASH (service_id_hash p), w_varint ACK_RECEIVED_SIZE (word_of_nat received)] in
      CONTROL_PREFIX @ write_msg [w_varint SCF_TYPE CONTROL_TYPE_PACKET_ACKNOWLEDGEMENT, w_bytes SCF_PACKET_ACKNOWLEDGEMENT ack])"

definition introduction_packet :: "'k primitives \<Rightarrow> bytes" where
  "introduction_packet p =
     (let intro = write_msg [w_bytes INTRO_SERVICE_ID_HASH (service_id_hash p), w_varint INTRO_SOCKET_VERSION SOCKET_VERSION_V2] in
      CONTROL_PREFIX @ write_msg [w_varint SCF_TYPE CONTROL_TYPE_INTRODUCTION, w_bytes SCF_INTRODUCTION intro])"

definition data_packet :: "'k primitives \<Rightarrow> bytes \<Rightarrow> bytes" where
  "data_packet p payload = service_id_hash p @ payload"

section \<open>The endpoint\<close>

text \<open>
  \<open>State\<close> with the writer's count and what the writer is doing: nothing, the pieces of a write still to go, or
  draining. \<open>mx_waits\<close> is whether the writer is inside \<open>wait_timeout\<close>. The counts are \<open>u64\<close>: \<open>mx_acked\<close> saturates, and a sum that does not fit \<open>mx_sent\<close> panics.
\<close>

datatype writer_at = W_Idle | W_Write "bytes list" nat | W_Drain

record mux =
  mx_acked :: nat
  mx_inbox :: bytes
  mx_closed :: bool
  mx_sent :: nat
  mx_writer :: writer_at
  mx_waits :: bool

definition mux_start :: mux where
  "mux_start = \<lparr>mx_acked = 0, mx_inbox = [], mx_closed = False, mx_sent = 0, mx_writer = W_Idle, mx_waits = False\<rparr>"

text \<open>What a turn puts on the channel or returns to a caller.\<close>

datatype mux_effect = Sends bytes | Acks bytes | Wrote nat | Drained | Write_Fails io_error | Reads bytes

text \<open>
  \<open>open\<close>: the request, the answer, the introduction. What it leaves is the stream of packets for the pump, the
  writer's sink and the state the threads share.
\<close>

definition mux_open :: "'k primitives \<Rightarrow> source \<Rightarrow> sink \<Rightarrow> (io_error + frames \<times> mux) \<times> sink" where
  "mux_open p src k =
     (case write_frame (COMMAND_REQUEST_DATA_CONNECTION # service_id_hash p) k of
        (Inl e, k1) \<Rightarrow> (Inl e, k1)
      | (Inr _, k1) \<Rightarrow>
        (case frames_next (frames_new src) of
           (Inl e, _) \<Rightarrow> (Inl e, k1)
         | (Inr ready, f) \<Rightarrow>
           if MAX_DATA_CONNECTION_RESPONSE < length ready then (Inl (bad 1), k1)
           else if ready = [] \<or> hd ready \<noteq> COMMAND_RESPONSE_DATA_CONNECTION_READY then (Inl (bad 2), k1)
           else
             (case write_frame (introduction_packet p) k1 of
                (Inl e, k2) \<Rightarrow> (Inl e, k2)
              | (Inr _, k2) \<Rightarrow> (Inr (f, mux_start), k2))))"

text \<open>One packet of the pump's loop.\<close>

definition pump_packet :: "'k primitives \<Rightarrow> bytes \<Rightarrow> mux \<Rightarrow> mux \<times> mux_effect list" where
  "pump_packet p packet m =
     (if length packet < SERVICE_ID_HASH_LEN then (m, [])
      else
        let prefix = take SERVICE_ID_HASH_LEN packet; payload = drop SERVICE_ID_HASH_LEN packet in
        if prefix = CONTROL_PREFIX then
          let kind = ok_flatten (first_varint payload SCF_TYPE) in
          if kind = Some CONTROL_TYPE_PACKET_ACKNOWLEDGEMENT then
            (case first_bytes payload SCF_PACKET_ACKNOWLEDGEMENT of
               Inr (Some a) \<Rightarrow>
                 (case first_varint a ACK_RECEIVED_SIZE of
                    Inr (Some n) \<Rightarrow> (m\<lparr>mx_acked := min (mx_acked m + unat n) 18446744073709551615\<rparr>, [])
                  | _ \<Rightarrow> (m, []))
             | _ \<Rightarrow> (m, []))
          else if kind = Some 2 then (m\<lparr>mx_closed := True\<rparr>, [])
          else (m, [])
        else if prefix \<noteq> service_id_hash p then (m, [])
        else (m\<lparr>mx_inbox := mx_inbox m @ payload\<rparr>, [Acks (packet_acknowledgement p (length payload))]))"

text \<open>\<open>read\<close> into a buffer of \<open>n\<close> bytes; no effect while it has to wait.\<close>

definition mux_read :: "nat \<Rightarrow> mux \<Rightarrow> mux \<times> mux_effect list" where
  "mux_read n m =
     (if mx_inbox m \<noteq> [] then (m\<lparr>mx_inbox := drop n (mx_inbox m)\<rparr>, [Reads (take n (mx_inbox m))])
      else if mx_closed m then (m, [Reads []])
      else (m, []))"

definition ready_within :: "mux \<Rightarrow> bool" where
  "ready_within m \<longleftrightarrow> mx_inbox m \<noteq> [] \<or> mx_closed m"

text \<open>The conditions \<open>wait_for_room\<close> and \<open>drain\<close> wait for; \<open>-\<close> is \<open>saturating_sub\<close>.\<close>

definition has_room :: "mux \<Rightarrow> bool" where
  "has_room m \<longleftrightarrow> mx_closed m \<or> mx_sent m - mx_acked m \<le> MAX_BYTES_IN_FLIGHT"

definition is_drained :: "mux \<Rightarrow> bool" where
  "is_drained m \<longleftrightarrow> mx_closed m \<or> mx_sent m \<le> mx_acked m"

text \<open>\<open>data.chunks(n)\<close>.\<close>

function chunks :: "nat \<Rightarrow> bytes \<Rightarrow> bytes list" where
  "chunks n bs = (if bs = [] \<or> n = 0 then [] else take n bs # chunks n (drop n bs))"
  by pat_completeness auto
termination
  by (relation "measure (\<lambda>(n, bs). length bs)") auto

declare chunks.simps [simp del]

text \<open>
  A turn of the thread that writes. \<open>fault\<close> is the failure the socket meets, if any; \<open>timed_out\<close> is true when a
  wait for acknowledgements that was going on has timed out, which is an error even if they have come by now.
\<close>

definition writer_turn :: "'k primitives \<Rightarrow> io_error option \<Rightarrow> bool \<Rightarrow> mux \<Rightarrow> mux \<times> mux_effect list" where
  "writer_turn p fault timed_out m =
     (case mx_writer m of
        W_Idle \<Rightarrow> (m, [])
      | W_Write [] n \<Rightarrow> (m\<lparr>mx_writer := W_Idle\<rparr>, [Wrote n])
      | W_Write (piece # pieces) n \<Rightarrow>
          if mx_waits m \<and> timed_out then (m\<lparr>mx_writer := W_Idle, mx_waits := False\<rparr>, [Write_Fails (bad 3)])
          else if has_room m then
            (case fault of
               Some e \<Rightarrow> (m\<lparr>mx_writer := W_Idle, mx_waits := False\<rparr>, [Write_Fails e])
             | None \<Rightarrow>
               if 18446744073709551615 < mx_sent m + length piece
               then (m\<lparr>mx_writer := W_Idle, mx_waits := False\<rparr>, [Sends (data_packet p piece), Write_Fails Io_Panic])
               else (m\<lparr>mx_sent := mx_sent m + length piece, mx_writer := W_Write pieces n, mx_waits := False\<rparr>,
                     [Sends (data_packet p piece)]))
          else (m\<lparr>mx_waits := True\<rparr>, [])
      | W_Drain \<Rightarrow>
          if mx_waits m \<and> timed_out then (m\<lparr>mx_writer := W_Idle, mx_waits := False\<rparr>, [Write_Fails (bad 4)])
          else if is_drained m then (m\<lparr>mx_writer := W_Idle, mx_waits := False\<rparr>, [Drained])
          else (m\<lparr>mx_waits := True\<rparr>, []))"

text \<open>
  The turns: a packet or the end of the packets for the pump, which does nothing more once it has closed
  the state, a call of \<open>write\<close> or \<open>drain\<close>, a turn of the call that is running, and a read.
\<close>

datatype mux_event = Packet bytes | Packets_End | Write bytes | Drain | Turn "io_error option" bool | Read nat

fun mux_on :: "'k primitives \<Rightarrow> mux \<Rightarrow> mux_event \<Rightarrow> mux \<times> mux_effect list" where
  "mux_on p m (Packet b) = (if mx_closed m then (m, []) else pump_packet p b m)"
| "mux_on p m Packets_End = (m\<lparr>mx_closed := True\<rparr>, [])"
| "mux_on p m (Write data) =
     (if mx_writer m = W_Idle then (m\<lparr>mx_writer := W_Write (chunks MAX_PACKET_PAYLOAD data) (length data)\<rparr>, []) else (m, []))"
| "mux_on p m Drain = (if mx_writer m = W_Idle then (m\<lparr>mx_writer := W_Drain\<rparr>, []) else (m, []))"
| "mux_on p m (Turn fault timed_out) = writer_turn p fault timed_out m"
| "mux_on p m (Read n) = mux_read n m"

section \<open>The window\<close>

lemma chunks_facts: "concat (chunks n bs) = (if n = 0 then [] else bs)" "\<forall>c \<in> set (chunks n bs). c \<noteq> [] \<and> length c \<le> n"
  by (induction n bs rule: chunks.induct) (subst chunks.simps, simp)+

text \<open>
  Until the channel is closed, the writer is at most the window and one packet ahead of what was confirmed.
\<close>

definition window_ok :: "mux \<Rightarrow> bool" where
  "window_ok m \<longleftrightarrow> (mx_closed m \<or> mx_sent m \<le> mx_acked m + MAX_BYTES_IN_FLIGHT + MAX_PACKET_PAYLOAD) \<and>
     mx_acked m \<le> 18446744073709551615 \<and>
     (case mx_writer m of W_Write ps n \<Rightarrow> \<forall>x \<in> set ps. length x \<le> MAX_PACKET_PAYLOAD | _ \<Rightarrow> True)"

lemma window_pump: "window_ok m \<Longrightarrow> window_ok (fst (pump_packet p b m))"
  by (auto simp: pump_packet_def Let_def window_ok_def split: sum.split option.split)

lemma window_turn: "window_ok m \<Longrightarrow> window_ok (fst (writer_turn p fault timed_out m))"
  by (cases "mx_writer m"; cases "mx_closed m")
    (auto simp: writer_turn_def window_ok_def has_room_def split: list.splits option.splits)

interpretation mux: invariant_machine "mux_on p" "\<lambda>_. True" window_ok for p
proof
  fix p :: "'k primitives" and m e
  assume w: "window_ok m"
  have "window_ok (fst (mux_on p m (Write data)))" "window_ok (fst (mux_on p m (Read n)))" "window_ok (fst (mux_on p m Drain))"
    "window_ok (fst (mux_on p m Packets_End))" for data n
    using w chunks_facts(2) [of MAX_PACKET_PAYLOAD data] by (auto simp: window_ok_def mux_read_def)
  then show "window_ok (fst (mux_on p m e))"
    using w by (cases e) (auto simp: window_pump window_turn)
qed

section \<open>Packets, read\<close>

text \<open>The hash of the service id: three bytes, and not those of the control channel.\<close>

definition hash_named :: "'k primitives \<Rightarrow> bool" where
  "hash_named p \<longleftrightarrow> length (service_id_hash p) = 3 \<and> service_id_hash p \<noteq> CONTROL_PREFIX"

lemma pump_data:
  "hash_named p \<Longrightarrow> pump_packet p (data_packet p x) m =
     (m\<lparr>mx_inbox := mx_inbox m @ x\<rparr>, [Acks (packet_acknowledgement p (length x))])"
  by (simp add: hash_named_def pump_packet_def data_packet_def Let_def)

lemma ack_writes:
  "writes [w_bytes ACK_SERVICE_ID_HASH h, w_varint ACK_RECEIVED_SIZE v] [Bytes ACK_SERVICE_ID_HASH h, Varint ACK_RECEIVED_SIZE v]"
  "writes [w_varint SCF_TYPE ty, w_bytes SCF_PACKET_ACKNOWLEDGEMENT b] [Varint SCF_TYPE ty, Bytes SCF_PACKET_ACKNOWLEDGEMENT b]"
  by (intro wire_simps)+

lemma pump_ack:
  assumes "hash_named p" "n < 18446744073709551616"
  shows "pump_packet p (packet_acknowledgement p n) m = (m\<lparr>mx_acked := min (mx_acked m + n) 18446744073709551615\<rparr>, [])"
proof -
  let ?ack = "write_msg [w_bytes ACK_SERVICE_ID_HASH (service_id_hash p), w_varint ACK_RECEIVED_SIZE (word_of_nat n)]"
  let ?frame = "write_msg [w_varint SCF_TYPE CONTROL_TYPE_PACKET_ACKNOWLEDGEMENT, w_bytes SCF_PACKET_ACKNOWLEDGEMENT ?ack]"
  have a: "length ?ack \<le> 43" using length_msg [OF ack_writes(1), of "service_id_hash p" "word_of_nat n"] assms(1) by (simp add: hash_named_def)
  have "length ?frame \<le> 83" using length_msg [OF ack_writes(2), of CONTROL_TYPE_PACKET_ACKNOWLEDGEMENT ?ack] a by simp
  then have f: "pb_fields ?frame = Inr [Varint SCF_TYPE CONTROL_TYPE_PACKET_ACKNOWLEDGEMENT, Bytes SCF_PACKET_ACKNOWLEDGEMENT ?ack]"
    by (intro read_msg [OF ack_writes(2)]) (simp add: fits_def)
  have g: "pb_fields ?ack = Inr [Bytes ACK_SERVICE_ID_HASH (service_id_hash p), Varint ACK_RECEIVED_SIZE (word_of_nat n)]"
    using a by (intro read_msg [OF ack_writes(1)]) (simp add: fits_def)
  have "unat (word_of_nat n :: u64) = n" using assms(2) by (simp add: unat_of_nat)
  then show ?thesis
    unfolding pump_packet_def packet_acknowledgement_def Let_def
    by (simp add: first_fields [OF f] first_fields [OF g])
qed

section \<open>Two endpoints\<close>

text \<open>
  A sender \<open>lk_a\<close> and a receiver \<open>lk_b\<close>, connected by a channel that keeps order and loses nothing, as L2CAP does:
  the packets under way in both directions. \<open>lk_read\<close> is what the receiver's reads have returned, \<open>lk_sent\<close> the
  payload of the packets sent, and \<open>lk_given\<close> ends with the data of the last call of \<open>write\<close>.
\<close>

record link =
  lk_a :: mux
  lk_b :: mux
  lk_ab :: "bytes list"
  lk_ba :: "bytes list"
  lk_read :: bytes
  lk_sent :: bytes
  lk_given :: bytes

definition link_start :: link where
  "link_start = \<lparr>lk_a = mux_start, lk_b = mux_start, lk_ab = [], lk_ba = [], lk_read = [], lk_sent = [], lk_given = []\<rparr>"

fun on_wire :: "mux_effect list \<Rightarrow> bytes list" where
  "on_wire [] = []"
| "on_wire (Sends b # fx) = b # on_wire fx"
| "on_wire (Acks b # fx) = b # on_wire fx"
| "on_wire (_ # fx) = on_wire fx"

fun got :: "mux_effect list \<Rightarrow> bytes" where
  "got [] = []"
| "got (Reads b # fx) = b @ got fx"
| "got (_ # fx) = got fx"

datatype link_event = L_Write bytes | L_Drain | L_Turn bool | L_To_B | L_To_A | L_Read nat

fun link_on :: "'k primitives \<Rightarrow> link \<Rightarrow> link_event \<Rightarrow> link \<times> mux_effect list" where
  "link_on p l (L_Write data) =
     (case mux_on p (lk_a l) (Write data) of (a, fx) \<Rightarrow>
        (l\<lparr>lk_a := a, lk_given := (if mx_writer (lk_a l) = W_Idle then lk_sent l @ data else lk_given l)\<rparr>, fx))"
| "link_on p l L_Drain = (case mux_on p (lk_a l) Drain of (a, fx) \<Rightarrow> (l\<lparr>lk_a := a\<rparr>, fx))"
| "link_on p l (L_Turn timed_out) =
     (case mux_on p (lk_a l) (Turn None timed_out) of (a, fx) \<Rightarrow>
        (l\<lparr>lk_a := a, lk_ab := lk_ab l @ on_wire fx, lk_sent := lk_sent l @ concat (map (drop SERVICE_ID_HASH_LEN) (on_wire fx))\<rparr>, fx))"
| "link_on p l L_To_B =
     (case lk_ab l of
        [] \<Rightarrow> (l, [])
      | x # xs \<Rightarrow> (case mux_on p (lk_b l) (Packet x) of (b, fx) \<Rightarrow> (l\<lparr>lk_b := b, lk_ab := xs, lk_ba := lk_ba l @ on_wire fx\<rparr>, fx)))"
| "link_on p l L_To_A =
     (case lk_ba l of
        [] \<Rightarrow> (l, [])
      | x # xs \<Rightarrow> (case mux_on p (lk_a l) (Packet x) of (a, fx) \<Rightarrow> (l\<lparr>lk_a := a, lk_ba := xs\<rparr>, fx)))"
| "link_on p l (L_Read n) =
     (case mux_on p (lk_b l) (Read n) of (b, fx) \<Rightarrow> (l\<lparr>lk_b := b, lk_read := lk_read l @ got fx\<rparr>, fx))"

text \<open>
  What is conserved: every byte sent is read, queued or under way, in order, and the sender's count is what was
  confirmed, what is being confirmed and what is under way.
\<close>

definition link_at :: "'k primitives \<Rightarrow> bytes list \<Rightarrow> nat list \<Rightarrow> link \<Rightarrow> bool" where
  "link_at p xs ns l \<longleftrightarrow>
     lk_ab l = map (data_packet p) xs \<and> lk_ba l = map (packet_acknowledgement p) ns \<and>
     lk_sent l = lk_read l @ mx_inbox (lk_b l) @ concat xs \<and> mx_sent (lk_a l) = length (lk_sent l) \<and>
     mx_acked (lk_a l) + sum_list ns + length (concat xs) = length (lk_sent l) \<and>
     \<not> mx_closed (lk_a l) \<and> \<not> mx_closed (lk_b l) \<and>
     (case mx_writer (lk_a l) of W_Write ps n \<Rightarrow> lk_given l = lk_sent l @ concat ps | _ \<Rightarrow> True)"

text \<open>It holds as long as the count fits its 64 bits.\<close>

definition link_inv :: "'k primitives \<Rightarrow> link \<Rightarrow> bool" where
  "link_inv p l \<longleftrightarrow> (length (lk_sent l) < 18446744073709551616 \<longrightarrow> (\<exists>xs ns. link_at p xs ns l))"

lemma link_to_b:
  assumes "hash_named p" "link_at p (x # xs) ns l"
  shows "link_at p xs (ns @ [length x]) (fst (link_on p l L_To_B))"
proof -
  from assms have "fst (link_on p l L_To_B) = l\<lparr>lk_b := (lk_b l)\<lparr>mx_inbox := mx_inbox (lk_b l) @ x\<rparr>,
      lk_ab := map (data_packet p) xs, lk_ba := map (packet_acknowledgement p) (ns @ [length x])\<rparr>"
    by (simp add: pump_data link_at_def)
  moreover from assms(2) have "link_at p xs (ns @ [length x]) (l\<lparr>lk_b := (lk_b l)\<lparr>mx_inbox := mx_inbox (lk_b l) @ x\<rparr>,
      lk_ab := map (data_packet p) xs, lk_ba := map (packet_acknowledgement p) (ns @ [length x])\<rparr>)"
    unfolding link_at_def by (auto split: writer_at.splits)
  ultimately show ?thesis by metis
qed

lemma link_to_a:
  assumes "hash_named p" "link_at p xs (n # ns) l" "length (lk_sent l) < 18446744073709551616"
  shows "link_at p xs ns (fst (link_on p l L_To_A))"
proof -
  from assms(2,3) have n: "mx_acked (lk_a l) + n < 18446744073709551616" by (auto simp: link_at_def)
  then have "n < 18446744073709551616" by simp
  from n assms pump_ack [OF assms(1) this] have "fst (link_on p l L_To_A) = l\<lparr>lk_a := (lk_a l)\<lparr>mx_acked := mx_acked (lk_a l) + n\<rparr>,
      lk_ba := map (packet_acknowledgement p) ns\<rparr>"
    by (simp add: link_at_def)
  moreover from assms(2) have "link_at p xs ns (l\<lparr>lk_a := (lk_a l)\<lparr>mx_acked := mx_acked (lk_a l) + n\<rparr>,
      lk_ba := map (packet_acknowledgement p) ns\<rparr>)"
    unfolding link_at_def by (auto split: writer_at.splits)
  ultimately show ?thesis by metis
qed

lemma link_nothing:
  "link_at p [] ns l \<Longrightarrow> fst (link_on p l L_To_B) = l" "link_at p xs [] l \<Longrightarrow> fst (link_on p l L_To_A) = l"
  by (simp_all add: link_at_def)

lemma turn_quiet:
  assumes "\<not> (\<exists>x ps n. mx_writer m = W_Write (x # ps) n \<and> has_room m \<and> \<not> (mx_waits m \<and> t))"
  shows "\<exists>w b fx. writer_turn p None t m = (m\<lparr>mx_writer := w, mx_waits := b\<rparr>, fx) \<and> on_wire fx = [] \<and> (w = mx_writer m \<or> w = W_Idle)"
proof -
  have same: "m = m\<lparr>mx_writer := mx_writer m, mx_waits := mx_waits m\<rparr>" "m\<lparr>mx_waits := b\<rparr> = m\<lparr>mx_writer := mx_writer m, mx_waits := b\<rparr>"
    "m\<lparr>mx_writer := w\<rparr> = m\<lparr>mx_writer := w, mx_waits := mx_waits m\<rparr>" for b w by simp_all
  show ?thesis
  proof (cases "mx_writer m")
    case W_Idle
    then have "writer_turn p None t m = (m, [])" by (simp add: writer_turn_def)
    with same(1) show ?thesis by (metis on_wire.simps(1))
  next
    case (W_Write ps n)
    show ?thesis
    proof (cases ps)
      case Nil
      with W_Write have "writer_turn p None t m = (m\<lparr>mx_writer := W_Idle\<rparr>, [Wrote n])" by (simp add: writer_turn_def)
      with same(3) show ?thesis by (metis on_wire.simps(1,4))
    next
      case (Cons x xs)
      with W_Write assms have "writer_turn p None t m = (m\<lparr>mx_writer := W_Idle, mx_waits := False\<rparr>, [Write_Fails (bad 3)]) \<or>
        writer_turn p None t m = (m\<lparr>mx_waits := True\<rparr>, [])" by (auto simp: writer_turn_def)
      with same(2) show ?thesis by (metis on_wire.simps(1,6))
    qed
  next
    case W_Drain
    then have "writer_turn p None t m = (m\<lparr>mx_writer := W_Idle, mx_waits := False\<rparr>, [Write_Fails (bad 4)]) \<or>
      writer_turn p None t m = (m\<lparr>mx_writer := W_Idle, mx_waits := False\<rparr>, [Drained]) \<or>
      writer_turn p None t m = (m\<lparr>mx_waits := True\<rparr>, [])" by (auto simp: writer_turn_def)
    with same(2) show ?thesis by (metis on_wire.simps(1,5,6))
  qed
qed

lemma link_turn:
  assumes "hash_named p" "link_at p xs ns l" "length (lk_sent (fst (link_on p l (L_Turn t)))) < 18446744073709551616"
  shows "\<exists>xs ns. link_at p xs ns (fst (link_on p l (L_Turn t)))"
proof (cases "\<exists>x ps n. mx_writer (lk_a l) = W_Write (x # ps) n \<and> has_room (lk_a l) \<and> \<not> (mx_waits (lk_a l) \<and> t)")
  case True
  then obtain x ps n where w: "mx_writer (lk_a l) = W_Write (x # ps) n" "has_room (lk_a l)" "\<not> (mx_waits (lk_a l) \<and> t)" by blast
  have d: "drop SERVICE_ID_HASH_LEN (data_packet p x) = x" using assms(1) by (simp add: data_packet_def hash_named_def)
  let ?a = "(lk_a l)\<lparr>mx_sent := mx_sent (lk_a l) + length x, mx_writer := W_Write ps n, mx_waits := False\<rparr>"
  have "\<not> 18446744073709551615 < mx_sent (lk_a l) + length x"
  proof
    assume "18446744073709551615 < mx_sent (lk_a l) + length x"
    then have "lk_sent (fst (link_on p l (L_Turn t))) = lk_sent l @ x" using w d by (auto simp: writer_turn_def)
    with assms(2,3) \<open>18446744073709551615 < mx_sent (lk_a l) + length x\<close> show False by (simp add: link_at_def)
  qed
  then have "fst (link_on p l (L_Turn t)) = l\<lparr>lk_a := ?a, lk_ab := lk_ab l @ [data_packet p x], lk_sent := lk_sent l @ x\<rparr>"
    using w d by (auto simp: writer_turn_def)
  moreover from assms(2) w(1) have "link_at p (xs @ [x]) ns (l\<lparr>lk_a := ?a, lk_ab := lk_ab l @ [data_packet p x], lk_sent := lk_sent l @ x\<rparr>)"
    unfolding link_at_def by (auto split: writer_at.splits)
  ultimately show ?thesis by metis
next
  case False
  from turn_quiet [OF this, of p] obtain w b fx where
    m: "writer_turn p None t (lk_a l) = ((lk_a l)\<lparr>mx_writer := w, mx_waits := b\<rparr>, fx)" "on_wire fx = []"
      "w = mx_writer (lk_a l) \<or> w = W_Idle" by blast
  have e: "fst (link_on p l (L_Turn t)) = l\<lparr>lk_a := (lk_a l)\<lparr>mx_writer := w, mx_waits := b\<rparr>\<rparr>" unfolding link_on.simps mux_on.simps m(1) using m(2) by simp
  have "link_at p xs ns (fst (link_on p l (L_Turn t)))" using assms(2) m(3) unfolding e by (auto simp: link_at_def split: writer_at.splits)
  then show ?thesis by blast
qed

lemma link_rest:
  assumes "link_at p xs ns l"
  shows "link_at p xs ns (fst (link_on p l (L_Write data)))" "link_at p xs ns (fst (link_on p l L_Drain))"
    "link_at p xs ns (fst (link_on p l (L_Read n)))"
  using assms chunks_facts(1) [of MAX_PACKET_PAYLOAD data] by (auto simp: link_at_def mux_read_def split: writer_at.splits)

lemma sent_grows: "length (lk_sent l) \<le> length (lk_sent (fst (link_on p l e)))"
  by (cases e) (auto split: prod.split list.split)

lemma sent_delivery [simp]: "lk_sent (fst (link_on p l L_To_A)) = lk_sent l" "lk_sent (fst (link_on p l L_To_B)) = lk_sent l"
  by (auto split: prod.split list.split)

lemma link_step:
  assumes "hash_named p" "link_inv p l"
  shows "link_inv p (fst (link_on p l e))"
  unfolding link_inv_def
proof
  assume s: "length (lk_sent (fst (link_on p l e))) < 18446744073709551616"
  then have s0: "length (lk_sent l) < 18446744073709551616" using sent_grows [of l p e] by simp
  with assms(2) obtain xs ns where l: "link_at p xs ns l" by (auto simp: link_inv_def)
  show "\<exists>xs ns. link_at p xs ns (fst (link_on p l e))"
  proof (cases e)
    case (L_Turn t)
    with link_turn [OF assms(1) l] s show ?thesis by blast
  next
    case L_To_B
    with l link_to_b [OF assms(1), of _ _ ns l] link_nothing(1) [of p ns l] show ?thesis by (cases xs) metis+
  next
    case L_To_A
    with l link_to_a [OF assms(1), of xs _ _ l] link_nothing(2) [of p xs l] s0 show ?thesis by (cases ns) metis+
  qed (use link_rest [OF l] in blast)+
qed

interpretation link: invariant_machine "link_on p" "\<lambda>_. True" "\<lambda>l. hash_named p \<longrightarrow> link_inv p l" for p
  by standard (use link_step in blast)

lemma link_reached:
  assumes "hash_named p" "l = fst (run (link_on p) link_start es)" "length (lk_sent l) < 18446744073709551616"
  obtains xs ns where "link_at p xs ns l"
proof -
  have "link_at p [] [] link_start" by (simp add: link_at_def link_start_def mux_start_def)
  then have "link_inv p link_start" by (auto simp: link_inv_def)
  with link.run_inv [of p link_start es] assms that show thesis by (auto simp: link_inv_def list_all_iff)
qed

text \<open>Delivering what is under way, and the acknowledgements of it.\<close>

definition deliver :: "link \<Rightarrow> link_event list" where
  "deliver l = replicate (length (lk_ab l)) L_To_B @ replicate (length (lk_ba l) + length (lk_ab l)) L_To_A"

lemma run_fst_Cons: "fst (run step s (e # es)) = fst (run step (fst (step s e)) es)"
  by (simp add: Let_def split: prod.split)

lemma run_fst_append: "fst (run step s (xs @ ys)) = fst (run step (fst (run step s xs)) ys)"
  by (simp add: run_append Let_def split: prod.split)

lemma deliver_b:
  "hash_named p \<Longrightarrow> link_at p xs ns l \<Longrightarrow>
   link_at p [] (ns @ map length xs) (fst (run (link_on p) l (replicate (length xs) L_To_B))) \<and>
   lk_sent (fst (run (link_on p) l (replicate (length xs) L_To_B))) = lk_sent l"
proof (induction xs arbitrary: ns l)
  case (Cons x xs)
  from Cons.IH [OF Cons.prems(1) link_to_b [OF Cons.prems]] show ?case
    unfolding length_Cons replicate_Suc run_fst_Cons by (simp del: link_on.simps)
qed simp

lemma deliver_a:
  "hash_named p \<Longrightarrow> link_at p xs ns l \<Longrightarrow> length (lk_sent l) < 18446744073709551616 \<Longrightarrow>
   link_at p xs [] (fst (run (link_on p) l (replicate (length ns) L_To_A))) \<and>
   lk_sent (fst (run (link_on p) l (replicate (length ns) L_To_A))) = lk_sent l"
proof (induction ns arbitrary: l)
  case (Cons n ns)
  from Cons.IH [OF Cons.prems(1) link_to_a [OF Cons.prems]] Cons.prems(3) show ?case
    unfolding length_Cons replicate_Suc run_fst_Cons by (simp del: link_on.simps)
qed simp

lemma delivered:
  assumes "hash_named p" "link_at p xs ns l" "length (lk_sent l) < 18446744073709551616"
  shows "link_at p [] [] (fst (run (link_on p) l (deliver l))) \<and> lk_sent (fst (run (link_on p) l (deliver l))) = lk_sent l"
proof -
  let ?l = "fst (run (link_on p) l (replicate (length xs) L_To_B))"
  note b = deliver_b [OF assms(1,2)]
  have "length (lk_ab l) = length xs" "length (lk_ba l) + length (lk_ab l) = length (ns @ map length xs)"
    using assms(2) by (simp_all add: link_at_def)
  then show ?thesis
    using deliver_a [OF assms(1) conjunct1 [OF b]] b assms(3) unfolding deliver_def run_fst_append by simp
qed

section \<open>Properties\<close>

text \<open>
  Whatever the peer sends and the socket does, until the channel is closed the writer is never more than
  64 KiB and one packet ahead of what the peer has confirmed.
\<close>

theorem mux_window:
  "mx_closed (fst (run (mux_on p) mux_start es)) \<or>
   mx_sent (fst (run (mux_on p) mux_start es)) \<le> mx_acked (fst (run (mux_on p) mux_start es)) + MAX_BYTES_IN_FLIGHT + MAX_PACKET_PAYLOAD"
proof -
  have "window_ok (fst (run (mux_on p) mux_start es))"
    by (rule mux.run_inv) (simp_all add: window_ok_def mux_start_def list_all_iff)
  then show ?thesis by (simp add: window_ok_def)
qed

text \<open>
  C15: between two endpoints no byte is lost, repeated or reordered, however writes, turns, deliveries and reads
  interleave: what was sent is what was read, what is queued and what is under way, in this order; the sender's
  count is what was confirmed, what is being confirmed and what is under way; and a write that returns has
  sent all of its data.
\<close>

theorem mux_lossless:
  assumes "hash_named p" "l = fst (run (link_on p) link_start es)" "length (lk_sent l) < 18446744073709551616"
  shows "\<exists>xs ns. lk_ab l = map (data_packet p) xs \<and> lk_ba l = map (packet_acknowledgement p) ns \<and>
    lk_sent l = lk_read l @ mx_inbox (lk_b l) @ concat xs \<and> mx_sent (lk_a l) = length (lk_sent l) \<and>
    mx_sent (lk_a l) = mx_acked (lk_a l) + sum_list ns + length (concat xs) \<and>
    (case mx_writer (lk_a l) of W_Write ps n \<Rightarrow> lk_given l = lk_sent l @ concat ps | _ \<Rightarrow> True)"
proof -
  obtain xs ns where "link_at p xs ns l" by (rule link_reached [OF assms])
  then show ?thesis unfolding link_at_def by metis
qed

lemma sample_hash: "hash_named sample_prims"
proof -
  have "service_id_hash sample_prims = take 3 (rev (str ''NearbySharing''))" by code_simp
  also have "\<dots> = [0x67, 0x6E, 0x69]" by code_simp
  finally show ?thesis by (simp add: hash_named_def)
qed

abbreviation (input) sample_turns :: "link_event list" where
  "sample_turns \<equiv> [L_Write [1, 2, 3], L_Turn False, L_To_B, L_Turn False, L_Write [4], L_Turn False, L_Read 2]"

lemma sample_link:
  "lk_sent (fst (run (link_on sample_prims) link_start sample_turns)) = [1, 2, 3, 4]"
  "lk_read (fst (run (link_on sample_prims) link_start sample_turns)) = [1, 2]"
proof -
  have c: "chunks MAX_PACKET_PAYLOAD [1, 2, 3] = [[1, 2, 3]]" "chunks MAX_PACKET_PAYLOAD [4] = [[4]]" by (simp_all add: chunks.simps)
  have d: "drop 3 (data_packet sample_prims x) = x" for x using sample_hash by (simp add: data_packet_def hash_named_def)
  show "lk_sent (fst (run (link_on sample_prims) link_start sample_turns)) = [1, 2, 3, 4]"
    "lk_read (fst (run (link_on sample_prims) link_start sample_turns)) = [1, 2]"
    by (simp_all add: link_start_def mux_start_def writer_turn_def has_room_def c d pump_data [OF sample_hash] mux_read_def)
qed

theorem mux_lossless_witness:
  "\<exists>(l :: link) xs. lk_read l = [1, 2] \<and> lk_sent l = [1, 2, 3, 4] \<and> lk_sent l = lk_read l @ mx_inbox (lk_b l) @ concat xs \<and>
    mx_sent (lk_a l) = 4"
proof -
  define l where "l = fst (run (link_on sample_prims) link_start sample_turns)"
  have s: "lk_sent l = [1, 2, 3, 4]" "lk_read l = [1, 2]" unfolding l_def by (rule sample_link)+
  then have "length (lk_sent l) < 18446744073709551616" by simp
  from mux_lossless [OF sample_hash l_def this] obtain xs where
    "lk_sent l = lk_read l @ mx_inbox (lk_b l) @ concat xs" "mx_sent (lk_a l) = length (lk_sent l)" by blast
  moreover from this(2) s(1) have "mx_sent (lk_a l) = 4" by simp
  ultimately show ?thesis using s by blast
qed

text \<open>
  C27: a writer that waits is never stuck. Whatever has happened, once the packets under way and their
  acknowledgements are delivered, the whole stream has arrived at the receiver, everything is confirmed, and
  both the next piece and the drain go ahead.
\<close>

theorem mux_never_stuck:
  assumes "hash_named p" "l = fst (run (link_on p) link_start es)" "length (lk_sent l) < 18446744073709551616"
    "l' = fst (run (link_on p) l (deliver l))"
  shows "lk_ab l' = [] \<and> lk_ba l' = [] \<and> lk_read l' @ mx_inbox (lk_b l') = lk_sent l \<and>
    mx_acked (lk_a l') = mx_sent (lk_a l') \<and> has_room (lk_a l') \<and> is_drained (lk_a l')"
proof -
  obtain xs ns where "link_at p xs ns l" by (rule link_reached [OF assms(1-3)])
  from delivered [OF assms(1) this assms(3)] have "link_at p [] [] l'" "lk_sent l' = lk_sent l" unfolding assms(4) by blast+
  then show ?thesis by (auto simp: link_at_def has_room_def is_drained_def)
qed

theorem mux_never_stuck_witness:
  "\<exists>l l'. lk_read l = [1, 2] \<and> l' = fst (run (link_on sample_prims) l (deliver l)) \<and>
    lk_read l' @ mx_inbox (lk_b l') = [1, 2, 3, 4] \<and> is_drained (lk_a l')"
proof -
  have "length (lk_sent (fst (run (link_on sample_prims) link_start sample_turns))) < 18446744073709551616"
    unfolding sample_link by simp
  from mux_never_stuck [OF sample_hash refl this refl] sample_link show ?thesis by metis
qed

text \<open>
  The drain does not wait for the peer once the channel is closed. Data the peer has not confirmed is
  reported as written and drained, without an error.
\<close>

theorem drain_unconfirmed:
  assumes "d \<noteq> []" "length d \<le> MAX_PACKET_PAYLOAD"
  shows "\<exists>m. run (mux_on p) mux_start [Write d, Turn None False, Turn None False, Packets_End, Drain, Turn None False] =
      (m, [Sends (data_packet p d), Wrote (length d), Drained]) \<and> mx_acked m = 0 \<and> mx_sent m = length d"
proof -
  have "chunks MAX_PACKET_PAYLOAD d = [d]" using assms by (simp add: chunks.simps)
  then show ?thesis using assms(2) by (simp add: mux_start_def writer_turn_def has_room_def is_drained_def)
qed

theorem drain_unconfirmed_witness:
  "\<exists>m. run (mux_on sample_prims) mux_start [Write [1, 2], Turn None False, Turn None False, Packets_End, Drain, Turn None False] =
      (m, [Sends (data_packet sample_prims [1, 2]), Wrote 2, Drained]) \<and> mx_acked m = 0 \<and> mx_sent m = 2"
  using drain_unconfirmed [of "[1, 2]" sample_prims] by (simp add: numeral_2_eq_2 del: run.simps)

section \<open>Opening\<close>

lemma write_frame_clean:
  "sk_faults k = [] \<Longrightarrow> write_frame b k = (Inr (), k\<lparr>sk_data := sk_data k @ framing_encode b\<rparr>)"
  by (simp add: write_frame_def sink_write_all_def sink_flush_def)

text \<open>
  The introduction is sent only to a peer that answered that it is ready, and the pump starts at the first byte after
  the answer.
\<close>

lemma mux_open_handshake:
  assumes "steady src" "src_data src = framing_encode ready @ rest" "length ready < MAX_FRAME" "sk_faults k = []"
  shows "if ready \<noteq> [] \<and> length ready \<le> MAX_DATA_CONNECTION_RESPONSE \<and> hd ready = COMMAND_RESPONSE_DATA_CONNECTION_READY
    then \<exists>f. mux_open p src k = (Inr (f, mux_start), k\<lparr>sk_data := sk_data k @
        framing_encode (COMMAND_REQUEST_DATA_CONNECTION # service_id_hash p) @ framing_encode (introduction_packet p)\<rparr>) \<and>
      d_buf (fr_decoder f) @ src_data (fr_stream f) = rest
    else \<exists>e. mux_open p src k = (Inl e, k\<lparr>sk_data := sk_data k @ framing_encode (COMMAND_REQUEST_DATA_CONNECTION # service_id_hash p)\<rparr>)"
proof -
  obtain f where f: "frames_next (frames_new src) = (Inr ready, f)" "d_buf (fr_decoder f) @ src_data (fr_stream f) = rest"
    using frames_next_encoded [of "frames_new src" ready rest] assms by (auto simp: frames_new_def decoder_new_def)
  then show ?thesis using assms(4) by (auto simp: mux_open_def write_frame_clean)
qed

end
