(* ===== verification/Transfers.thy ===== *)
theory Transfers
  imports Machines Rust_Std
begin

text \<open>
  The single transfer slot of the sharing daemon (\<open>TransferState\<close> of \<open>sharingd/src/main.rs\<close>): who may
  transfer, the cancel flag, the answers of a person and of a client, and the hold on the radio. The
  connection threads, the binder threads and the radio gate share it, so \<open>try_begin\<close> and \<open>finish\<close> are
  given twice: as the function the code writes, and as the atomic accesses it is made of, which the
  threads interleave in any order. Each cell is an atomic or sits behind its own mutex; no body of a
  lock panics, so a lock is never poisoned. An instant is a number of milliseconds. A socket or a file is
  its descriptor.
\<close>

section \<open>The state\<close>

abbreviation (input) STALE_TRANSFER :: nat where "STALE_TRANSFER \<equiv> 180000"
abbreviation (input) STATUS_OK :: int where "STATUS_OK \<equiv> 0"
abbreviation (input) STATUS_FAILED :: int where "STATUS_FAILED \<equiv> -1"
abbreviation (input) STATUS_DECLINED :: int where "STATUS_DECLINED \<equiv> -2"
abbreviation (input) STATUS_CANCELLED :: int where "STATUS_CANCELLED \<equiv> -3"

type_synonym fd = nat

record tarish_group =
  tg_ssid :: rstring
  tg_passphrase :: rstring
  tg_go_address :: rstring
  tg_frequency :: i32

record transfers =
  decision :: "(i64 \<times> bool) option"
  ts_current :: i64
  ts_cancelled :: i64
  abort :: "(i64 \<times> fd) option"
  ts_next :: i64
  ts_pin :: "(i64 \<times> rstring) option"
  pin_ok :: "i64 option"
  upgrade_socket :: "(i64 \<times> fd option) option"
  ts_group :: "(i64 \<times> tarish_group option) option"
  group_wanted :: i64
  needs_awdl :: bool
  wifi_direct_active :: bool
  airdrop_pending :: i64
  last_activity :: "nat option"

definition transfers_default :: transfers where
  "transfers_default = \<lparr> decision = None, ts_current = 0, ts_cancelled = 0, abort = None, ts_next = 0,
     ts_pin = None, pin_ok = None, upgrade_socket = None, ts_group = None, group_wanted = 0,
     needs_awdl = False, wifi_direct_active = False, airdrop_pending = 0, last_activity = None \<rparr>"

text \<open>Does an answer slot hold an answer for this transfer?\<close>

definition is_for :: "i64 \<Rightarrow> (i64 \<times> 'a) option \<Rightarrow> bool" where
  "is_for tid slot = (case slot of Some (i, _) \<Rightarrow> i = tid | None \<Rightarrow> False)"

section \<open>The operations\<close>

definition touch :: "nat \<Rightarrow> transfers \<Rightarrow> transfers" where
  "touch now ts = ts\<lparr>last_activity := Some now\<rparr>"

definition is_stale :: "nat \<Rightarrow> transfers \<Rightarrow> bool" where
  "is_stale now ts = (case last_activity ts of Some t \<Rightarrow> now - t > STALE_TRANSFER | None \<Rightarrow> False)"

definition current_needs_awdl :: "transfers \<Rightarrow> bool" where
  "current_needs_awdl ts \<longleftrightarrow> ts_current ts \<noteq> 0 \<and> needs_awdl ts"

definition airdrop_busy :: "transfers \<Rightarrow> bool" where
  "airdrop_busy ts \<longleftrightarrow> airdrop_pending ts \<noteq> 0"

definition clear_upgrade :: "i64 \<Rightarrow> transfers \<Rightarrow> transfers" where
  "clear_upgrade tid ts = (if is_for tid (upgrade_socket ts) then ts\<lparr>upgrade_socket := None\<rparr> else ts)"

text \<open>\<open>sock\<close> is the socket to publish with the outcome of cloning its descriptor.\<close>

definition arm_abort :: "i64 \<Rightarrow> fd option option \<Rightarrow> transfers \<Rightarrow> transfers" where
  "arm_abort tid sock ts = (case sock of
     Some clone \<Rightarrow> ts\<lparr>abort := map_option (Pair tid) clone\<rparr>
   | None \<Rightarrow> if is_for tid (abort ts) then ts\<lparr>abort := None\<rparr> else ts)"

definition cas_current :: "i64 \<Rightarrow> i64 \<Rightarrow> transfers \<Rightarrow> transfers" where
  "cas_current old new ts = (if ts_current ts = old then ts\<lparr>ts_current := new\<rparr> else ts)"

definition cas_pending :: "i64 \<Rightarrow> i64 \<Rightarrow> transfers \<Rightarrow> transfers" where
  "cas_pending old new ts = (if airdrop_pending ts = old then ts\<lparr>airdrop_pending := new\<rparr> else ts)"

text \<open>
  \<open>drain_armed\<close> only waits. It looks at the queue of the armed socket every 20 ms until the peer has
  acknowledged everything, the queue cannot be read, or the ten seconds have passed. \<open>looks\<close> lists what
  each look finds and whether the time is up then; the result is how often it slept.
\<close>

fun drain_wait :: "(u32 option \<times> bool) list \<Rightarrow> nat" where
  "drain_wait ((Some unacked, late) # looks) =
     (if unacked = 0 \<or> late then 0 else Suc (drain_wait looks))"
| "drain_wait _ = 0"

definition drain_armed :: "i64 \<Rightarrow> (u32 option \<times> bool) list \<Rightarrow> transfers \<Rightarrow> nat" where
  "drain_armed tid looks ts = (if is_for tid (abort ts) then drain_wait looks else 0)"

definition finish :: "i64 \<Rightarrow> transfers \<Rightarrow> transfers" where
  "finish tid ts =
     (let ts = cas_current tid 0 ts;
          ts = cas_pending tid 0 ts;
          ts = clear_upgrade tid ts;
          ts = ts\<lparr>wifi_direct_active := False\<rparr>;
          ts = arm_abort tid None ts
      in ts\<lparr>last_activity := None\<rparr>)"

definition slot_guard_drop :: "i64 \<Rightarrow> transfers \<Rightarrow> transfers" where
  "slot_guard_drop tid ts = finish tid ts"

definition try_begin :: "nat \<Rightarrow> bool \<Rightarrow> transfers \<Rightarrow> i64 option \<times> transfers" where
  "try_begin now needs ts =
     (let cur = ts_current ts in
      if cur \<noteq> 0 \<and> \<not> is_stale now ts then (None, ts)
      else
        let ts = (if cur \<noteq> 0 then finish cur ts else ts);
            tid = ts_next ts + 1;
            ts = ts\<lparr>ts_next := ts_next ts + 1\<rparr>
        in if ts_current ts \<noteq> 0 then (None, ts)
           else
             let ts = ts\<lparr>ts_current := tid\<rparr>;
                 ts = ts\<lparr>needs_awdl := needs\<rparr>;
                 ts = (if needs then ts\<lparr>airdrop_pending := tid\<rparr> else ts)
             in (Some tid, touch now ts))"

definition is_cancelled :: "i64 \<Rightarrow> transfers \<Rightarrow> bool" where
  "is_cancelled tid ts \<longleftrightarrow> tid \<noteq> 0 \<and> ts_cancelled ts = tid"

text \<open>
  \<open>cancel\<close> raises the flag and starts a thread that looks again after the grace period: then it takes the
  socket of a transfer that is still running and shuts it down.
\<close>

definition cancel :: "i64 \<Rightarrow> transfers \<Rightarrow> transfers" where
  "cancel tid ts = ts\<lparr>ts_cancelled := tid\<rparr>"

definition cancel_after_grace :: "i64 \<Rightarrow> transfers \<Rightarrow> transfers \<times> fd option" where
  "cancel_after_grace tid ts =
     (if ts_current ts \<noteq> tid then (ts, None)
      else if is_for tid (abort ts) then (ts\<lparr>abort := None\<rparr>, map_option snd (abort ts))
      else (ts, None))"

definition set_pin :: "i64 \<Rightarrow> rstring \<Rightarrow> transfers \<Rightarrow> transfers" where
  "set_pin tid pin ts = ts\<lparr>ts_pin := Some (tid, pin)\<rparr>"

definition ts_confirm_pin :: "i64 \<Rightarrow> rstring \<Rightarrow> transfers \<Rightarrow> bool \<times> transfers" where
  "ts_confirm_pin tid typed ts =
     (let matched = (case ts_pin ts of Some (parked, real) \<Rightarrow> parked = tid \<and> real = typed | None \<Rightarrow> False)
      in (matched, if matched then ts\<lparr>pin_ok := Some tid\<rparr> else ts))"

definition clear_pin :: "i64 \<Rightarrow> transfers \<Rightarrow> transfers" where
  "clear_pin tid ts =
     (let ts = (if is_for tid (ts_pin ts) then ts\<lparr>ts_pin := None\<rparr> else ts)
      in if pin_ok ts = Some tid then ts\<lparr>pin_ok := None\<rparr> else ts)"

definition provide_group :: "i64 \<Rightarrow> tarish_group option \<Rightarrow> transfers \<Rightarrow> transfers" where
  "provide_group tid g ts = (if group_wanted ts \<noteq> tid then ts else ts\<lparr>ts_group := Some (tid, g)\<rparr>)"

definition want_group :: "i64 \<Rightarrow> transfers \<Rightarrow> transfers" where
  "want_group tid ts = ts\<lparr>group_wanted := tid\<rparr>"

definition stop_wanting_group :: "transfers \<Rightarrow> transfers" where
  "stop_wanting_group ts = ts\<lparr>group_wanted := 0\<rparr>"

definition provide_upgrade :: "i64 \<Rightarrow> fd option \<Rightarrow> transfers \<Rightarrow> transfers" where
  "provide_upgrade tid sock ts = ts\<lparr>upgrade_socket := Some (tid, sock)\<rparr>"

definition answer :: "i64 \<Rightarrow> bool \<Rightarrow> transfers \<Rightarrow> transfers" where
  "answer tid accept ts = ts\<lparr>decision := Some (tid, accept)\<rparr>"

text \<open>
  The waits. A waiter holds the lock while it looks and gives it up while it sleeps, so a wait is one
  look per wake-up, with anything in between. The result of a look is \<open>Some\<close> when the wait ends, with what
  it returns; \<open>late\<close> says that the deadline has passed.
\<close>

definition await_pin_look :: "bool \<Rightarrow> i64 \<Rightarrow> transfers \<Rightarrow> bool option \<times> transfers" where
  "await_pin_look late tid ts =
     (if pin_ok ts = Some tid then (Some True, ts\<lparr>pin_ok := None\<rparr>)
      else if is_cancelled tid ts \<or> late then (Some False, ts) else (None, ts))"

definition await_group_look :: "bool \<Rightarrow> i64 \<Rightarrow> transfers \<Rightarrow> tarish_group option option \<times> transfers" where
  "await_group_look late tid ts =
     (if is_for tid (ts_group ts) then (Some (Option.bind (ts_group ts) snd), ts\<lparr>ts_group := None\<rparr>)
      else if is_cancelled tid ts \<or> late then (Some None, ts) else (None, ts))"

definition await_upgrade_look :: "bool \<Rightarrow> i64 \<Rightarrow> transfers \<Rightarrow> fd option option \<times> transfers" where
  "await_upgrade_look late tid ts =
     (if is_for tid (upgrade_socket ts)
      then (Some (Option.bind (upgrade_socket ts) snd), ts\<lparr>upgrade_socket := None\<rparr>)
      else if is_cancelled tid ts \<or> late then (Some None, ts) else (None, ts))"

definition await_answer_look :: "bool \<Rightarrow> i64 \<Rightarrow> transfers \<Rightarrow> bool option option \<times> transfers" where
  "await_answer_look late tid ts =
     (let ts' = ts\<lparr>decision := None\<rparr>
      in case decision ts of
           Some (answered, accept) \<Rightarrow>
             if answered = tid then (Some (Some accept), ts')
             else (if late then Some None else None, ts')
         | None \<Rightarrow> (if late then Some None else None, ts'))"

section \<open>The same, as atomic accesses\<close>

text \<open>
  A thread inside \<open>finish\<close> or \<open>try_begin\<close> is at one of these points; a step is one access to a shared cell.
\<close>

datatype fin_at = F_Current | F_Pending | F_Upgrade | F_Hold | F_Abort | F_Clock | F_End

fun finish_step :: "i64 \<Rightarrow> fin_at \<Rightarrow> transfers \<Rightarrow> transfers \<times> fin_at" where
  "finish_step tid F_Current ts = (cas_current tid 0 ts, F_Pending)"
| "finish_step tid F_Pending ts = (cas_pending tid 0 ts, F_Upgrade)"
| "finish_step tid F_Upgrade ts = (clear_upgrade tid ts, F_Hold)"
| "finish_step tid F_Hold ts = (ts\<lparr>wifi_direct_active := False\<rparr>, F_Abort)"
| "finish_step tid F_Abort ts = (arm_abort tid None ts, F_Clock)"
| "finish_step tid F_Clock ts = (ts\<lparr>last_activity := None\<rparr>, F_End)"
| "finish_step tid F_End ts = (ts, F_End)"

datatype begin_at = B_Load | B_Stale i64 | B_Finish i64 fin_at | B_Next | B_Claim i64 | B_Needs i64
  | B_Pending i64 | B_Touch i64 | B_End "i64 option"

fun begin_step :: "nat \<Rightarrow> bool \<Rightarrow> begin_at \<Rightarrow> transfers \<Rightarrow> transfers \<times> begin_at" where
  "begin_step now needs B_Load ts = (ts, if ts_current ts \<noteq> 0 then B_Stale (ts_current ts) else B_Next)"
| "begin_step now needs (B_Stale cur) ts =
     (ts, if is_stale now ts then B_Finish cur F_Current else B_End None)"
| "begin_step now needs (B_Finish cur at) ts =
     (let (ts, at) = finish_step cur at ts in (ts, if at = F_End then B_Next else B_Finish cur at))"
| "begin_step now needs B_Next ts = (ts\<lparr>ts_next := ts_next ts + 1\<rparr>, B_Claim (ts_next ts + 1))"
| "begin_step now needs (B_Claim tid) ts =
     (if ts_current ts \<noteq> 0 then (ts, B_End None) else (ts\<lparr>ts_current := tid\<rparr>, B_Needs tid))"
| "begin_step now needs (B_Needs tid) ts =
     (ts\<lparr>needs_awdl := needs\<rparr>, if needs then B_Pending tid else B_Touch tid)"
| "begin_step now needs (B_Pending tid) ts = (ts\<lparr>airdrop_pending := tid\<rparr>, B_Touch tid)"
| "begin_step now needs (B_Touch tid) ts = (touch now ts, B_End (Some tid))"
| "begin_step now needs (B_End r) ts = (ts, B_End r)"

fun begin_alone :: "nat \<Rightarrow> nat \<Rightarrow> bool \<Rightarrow> begin_at \<Rightarrow> transfers \<Rightarrow> transfers \<times> begin_at" where
  "begin_alone 0 now needs at ts = (ts, at)"
| "begin_alone (Suc n) now needs at ts =
     (let (ts, at) = begin_step now needs at ts in begin_alone n now needs at ts)"

lemma begin_alone_end [simp]: "begin_alone n now needs (B_End r) ts = (ts, B_End r)"
  by (induction n) auto

lemma begin_alone_numeral [simp]:
  "begin_alone (numeral k) now needs at ts =
     (let (ts, at) = begin_step now needs at ts in begin_alone (pred_numeral k) now needs at ts)"
  by (simp add: numeral_eq_Suc)

lemma begin_alone_is_try_begin:
  "begin_alone 13 now needs B_Load ts = (let (r, ts) = try_begin now needs ts in (ts, B_End r))"
  by (auto simp: try_begin_def finish_def Let_def split: prod.splits)

text \<open>
  \<open>arm_wifi_direct\<close>. \<open>late\<close> says that the fifteen seconds it gives AirDrop are over. Once it holds the radio
  it only waits for the interface to go, which changes nothing here.
\<close>

datatype arm_at = A_Load | A_Wait | A_Swap | A_Recheck | A_Undo | A_End bool

fun arm_step :: "bool \<Rightarrow> arm_at \<Rightarrow> transfers \<Rightarrow> transfers \<times> arm_at" where
  "arm_step late A_Load ts = (ts, if wifi_direct_active ts then A_End True else A_Wait)"
| "arm_step late A_Wait ts = (ts, if \<not> airdrop_busy ts then A_Swap else if late then A_End False else A_Wait)"
| "arm_step late A_Swap ts =
     (ts\<lparr>wifi_direct_active := True\<rparr>, if wifi_direct_active ts then A_End True else A_Recheck)"
| "arm_step late A_Recheck ts = (ts, if airdrop_busy ts then A_Undo else A_End True)"
| "arm_step late A_Undo ts = (ts\<lparr>wifi_direct_active := False\<rparr>, A_End False)"
| "arm_step late (A_End r) ts = (ts, A_End r)"

text \<open>The same with no other thread in between, which is also the end of the fifteen seconds.\<close>

definition arm_alone :: "transfers \<Rightarrow> arm_at \<times> transfers" where
  "arm_alone ts =
     (let (ts, at) = arm_step True A_Load ts; (ts, at) = arm_step True at ts;
          (ts, at) = arm_step True at ts; (ts, at) = arm_step True at ts
      in (at, ts))"

lemma arm_step_keeps:
  "ts_next (fst (arm_step late at ts)) = ts_next ts" "ts_current (fst (arm_step late at ts)) = ts_current ts"
  "decision (fst (arm_step late at ts)) = decision ts"
  by (cases at; simp)+

section \<open>The daemon's threads\<close>

text \<open>
  Any number of threads claim the slot, end a transfer or wait for an answer, one access at a time in any
  order, while clients touch single cells and time passes. A thread that has returned stays in the list.
  An effect records a change of the slot, an answer and what a waiter was told.
\<close>

datatype thread = T_Begin bool begin_at | T_Finish i64 fin_at | T_Arm arm_at | T_Ask i64 | T_Asked i64 "bool option"

datatype cell_op = Op_Touch | Op_Cancel i64 | Op_Grace i64 | Op_Arm i64 "fd option option" | Op_Answer i64 bool
  | Op_Provide_Group i64 "tarish_group option" | Op_Want_Group i64 | Op_Stop_Group
  | Op_Group_Look bool i64 | Op_Provide_Upgrade i64 "fd option" | Op_Upgrade_Look bool i64
  | Op_Clear_Upgrade i64

fun cell_do :: "nat \<Rightarrow> cell_op \<Rightarrow> transfers \<Rightarrow> transfers" where
  "cell_do now Op_Touch ts = touch now ts"
| "cell_do now (Op_Cancel t) ts = cancel t ts"
| "cell_do now (Op_Grace t) ts = fst (cancel_after_grace t ts)"
| "cell_do now (Op_Arm t sock) ts = arm_abort t sock ts"
| "cell_do now (Op_Answer t b) ts = answer t b ts"
| "cell_do now (Op_Provide_Group t g) ts = provide_group t g ts"
| "cell_do now (Op_Want_Group t) ts = want_group t ts"
| "cell_do now Op_Stop_Group ts = stop_wanting_group ts"
| "cell_do now (Op_Group_Look late t) ts = snd (await_group_look late t ts)"
| "cell_do now (Op_Provide_Upgrade t s) ts = provide_upgrade t s ts"
| "cell_do now (Op_Upgrade_Look late t) ts = snd (await_upgrade_look late t ts)"
| "cell_do now (Op_Clear_Upgrade t) ts = clear_upgrade t ts"

record slot_system =
  sy_ts :: transfers
  sy_threads :: "thread list"
  sy_now :: nat

definition slot_system_start :: slot_system where
  "slot_system_start = \<lparr> sy_ts = transfers_default, sy_threads = [], sy_now = 0 \<rparr>"

datatype slot_event = E_Begin bool | E_Finish i64 | E_Arm | E_Ask i64 | E_Step nat bool | E_Op cell_op | E_Time nat

datatype slot_effect = Claimed i64 | Released i64 | Answered i64 bool | Told i64 bool

text \<open>What a thread's next access does: the state, the thread after it, and the effects.\<close>

fun thread_step :: "nat \<Rightarrow> bool \<Rightarrow> thread \<Rightarrow> transfers \<Rightarrow> transfers \<times> thread \<times> slot_effect list" where
  "thread_step now late (T_Begin needs at) ts =
     (let (ts', at') = begin_step now needs at ts
      in (ts', T_Begin needs at',
          case at of
            B_Claim t \<Rightarrow> if ts_current ts = 0 then [Claimed t] else []
          | B_Finish t F_Current \<Rightarrow> if ts_current ts = t \<and> t \<noteq> 0 then [Released t] else []
          | _ \<Rightarrow> []))"
| "thread_step now late (T_Finish t at) ts =
     (let (ts', at') = finish_step t at ts
      in (ts', T_Finish t at', if at = F_Current \<and> ts_current ts = t \<and> t \<noteq> 0 then [Released t] else []))"
| "thread_step now late (T_Arm at) ts = (let (ts', at') = arm_step late at ts in (ts', T_Arm at', []))"
| "thread_step now late (T_Ask t) ts =
     (let (r, ts') = await_answer_look late t ts
      in (ts', case r of None \<Rightarrow> T_Ask t | Some r \<Rightarrow> T_Asked t r,
          case r of Some (Some b) \<Rightarrow> [Told t b] | _ \<Rightarrow> []))"
| "thread_step now late (T_Asked t r) ts = (ts, T_Asked t r, [])"

fun slot_on :: "slot_system \<Rightarrow> slot_event \<Rightarrow> slot_system \<times> slot_effect list" where
  "slot_on s (E_Begin needs) = (s\<lparr>sy_threads := sy_threads s @ [T_Begin needs B_Load]\<rparr>, [])"
| "slot_on s (E_Finish t) = (s\<lparr>sy_threads := sy_threads s @ [T_Finish t F_Current]\<rparr>, [])"
| "slot_on s E_Arm = (s\<lparr>sy_threads := sy_threads s @ [T_Arm A_Load]\<rparr>, [])"
| "slot_on s (E_Ask t) = (s\<lparr>sy_threads := sy_threads s @ [T_Ask t]\<rparr>, [])"
| "slot_on s (E_Step i late) =
     (if i < length (sy_threads s)
      then let (ts, th, out) = thread_step (sy_now s) late (sy_threads s ! i) (sy_ts s)
           in (s\<lparr>sy_ts := ts, sy_threads := (sy_threads s)[i := th]\<rparr>, out)
      else (s, []))"
| "slot_on s (E_Op f) =
     (s\<lparr>sy_ts := cell_do (sy_now s) f (sy_ts s)\<rparr>, case f of Op_Answer t b \<Rightarrow> [Answered t b] | _ \<Rightarrow> [])"
| "slot_on s (E_Time d) = (s\<lparr>sy_now := sy_now s + d\<rparr>, [])"

subsection \<open>The abstract slot\<close>

text \<open>
  What the slot promises: it is taken only when it is free and given up only by the transfer that has
  it. \<open>slot_replay\<close> runs a log against that.
\<close>

fun slot_replay :: "i64 \<Rightarrow> slot_effect list \<Rightarrow> i64 option" where
  "slot_replay cur [] = Some cur"
| "slot_replay cur (Claimed t # log) = (if cur = 0 \<and> t \<noteq> 0 then slot_replay t log else None)"
| "slot_replay cur (Released t # log) = (if cur = t \<and> t \<noteq> 0 then slot_replay 0 log else None)"
| "slot_replay cur (_ # log) = slot_replay cur log"

lemma slot_replay_append:
  "slot_replay cur (xs @ ys) = Option.bind (slot_replay cur xs) (\<lambda>c. slot_replay c ys)"
  by (induction cur xs rule: slot_replay.induct) auto

fun claims :: "slot_effect list \<Rightarrow> i64 list" where
  "claims [] = []"
| "claims (Claimed t # log) = t # claims log"
| "claims (_ # log) = claims log"

lemma claims_append [simp]: "claims (xs @ ys) = claims xs @ claims ys"
  by (induction xs rule: claims.induct) auto

subsection \<open>Why the threads keep to it\<close>

text \<open>
  An id is waiting while a thread has drawn it and not yet tried to claim with it. Ids are drawn from a
  counter that, with fewer threads than there are numbers, does not come round.
\<close>

fun drawn :: "thread \<Rightarrow> i64 option" where
  "drawn (T_Begin _ (B_Claim t)) = Some t"
| "drawn _ = None"

fun undrawn :: "thread \<Rightarrow> nat" where
  "undrawn (T_Begin _ B_Load) = 1"
| "undrawn (T_Begin _ (B_Stale _)) = 1"
| "undrawn (T_Begin _ (B_Finish _ _)) = 1"
| "undrawn (T_Begin _ B_Next) = 1"
| "undrawn _ = 0"

definition drawn_ok :: "i64 \<Rightarrow> i64 list \<Rightarrow> thread list \<Rightarrow> bool" where
  "drawn_ok n cs ths \<longleftrightarrow>
     (\<forall>i < length ths. \<forall>t. drawn (ths ! i) = Some t \<longrightarrow>
        0 < t \<and> t \<le> n \<and> t \<notin> set cs \<and> (\<forall>j < length ths. j \<noteq> i \<longrightarrow> drawn (ths ! j) \<noteq> Some t))"

definition claims_ok :: "i64 \<Rightarrow> i64 list \<Rightarrow> bool" where
  "claims_ok n cs \<longleftrightarrow> distinct cs \<and> (\<forall>t \<in> set cs. 0 < t \<and> t \<le> n)"

definition slot_ok :: "transfers \<Rightarrow> thread list \<Rightarrow> slot_effect list \<Rightarrow> bool" where
  "slot_ok ts ths log \<longleftrightarrow>
     slot_replay 0 log = Some (ts_current ts) \<and>
     unat (ts_next ts) + sum_list (map undrawn ths) \<le> length ths \<and>
     claims_ok (ts_next ts) (claims log) \<and> drawn_ok (ts_next ts) (claims log) ths"

definition slot_hist :: "slot_system \<Rightarrow> slot_effect list \<Rightarrow> bool" where
  "slot_hist s log \<longleftrightarrow>
     (length (sy_threads s) < 2 ^ 64 \<longrightarrow> slot_ok (sy_ts s) (sy_threads s) log)"

lemma finish_step_keeps:
  assumes "finish_step t at ts = (ts', at')"
  shows "ts_next ts' = ts_next ts" "decision ts' = decision ts"
    "ts_current ts' = (if at = F_Current \<and> ts_current ts = t then 0 else ts_current ts)"
  using assms
  by (cases at; auto simp: cas_current_def cas_pending_def clear_upgrade_def arm_abort_def)+

lemma cell_do_keeps [simp]:
  "ts_next (cell_do now f ts) = ts_next ts" "ts_current (cell_do now f ts) = ts_current ts"
  by (cases f; auto simp: touch_def cancel_def cancel_after_grace_def arm_abort_def answer_def provide_group_def
      want_group_def stop_wanting_group_def await_group_look_def provide_upgrade_def await_upgrade_look_def
      clear_upgrade_def split: option.splits)+

text \<open>A step either leaves the counter alone and draws nothing, or draws the next number.\<close>

lemma drawn_ok_settled:
  assumes "drawn_ok n cs ths" "i < length ths" "drawn th = None"
    and "ds = [] \<or> (\<exists>t. ds = [t] \<and> drawn (ths ! i) = Some t)"
  shows "drawn_ok n (cs @ ds) (ths[i := th])"
  unfolding drawn_ok_def
proof (intro allI impI)
  fix j t assume j: "j < length (ths[i := th])" "drawn (ths[i := th] ! j) = Some t"
  then have ij: "j \<noteq> i" "drawn (ths ! j) = Some t" "j < length ths"
    using assms(2,3) by (cases "j = i"; simp)+
  then have t: "0 < t" "t \<le> n" "t \<notin> set cs" "\<forall>k < length ths. k \<noteq> j \<longrightarrow> drawn (ths ! k) \<noteq> Some t"
    using assms(1) unfolding drawn_ok_def by blast+
  then have "t \<notin> set ds" using assms(2,4) ij by auto
  moreover have "drawn (ths[i := th] ! k) \<noteq> Some t" if "k < length ths" "k \<noteq> j" for k
    using t(4) that assms(3) by (cases "k = i") simp_all
  ultimately show "0 < t \<and> t \<le> n \<and> t \<notin> set (cs @ ds) \<and>
      (\<forall>k < length (ths[i := th]). k \<noteq> j \<longrightarrow> drawn (ths[i := th] ! k) \<noteq> Some t)"
    using t by simp
qed

lemma drawn_ok_fresh:
  assumes "drawn_ok n cs ths" "i < length ths" "drawn th = Some m" "0 < m" "n < m"
    and "\<forall>t \<in> set cs. t \<le> n"
  shows "drawn_ok m cs (ths[i := th])"
  unfolding drawn_ok_def
proof (intro allI impI)
  fix j t assume j: "j < length (ths[i := th])" "drawn (ths[i := th] ! j) = Some t"
  have old: "t' \<le> n" if "k < length ths" "drawn (ths ! k) = Some t'" for k t'
    using assms(1) that unfolding drawn_ok_def by blast
  show "0 < t \<and> t \<le> m \<and> t \<notin> set cs \<and>
      (\<forall>k < length (ths[i := th]). k \<noteq> j \<longrightarrow> drawn (ths[i := th] ! k) \<noteq> Some t)"
  proof (cases "j = i")
    case True
    with j assms(2,3) have "t = m" by simp
    moreover have "drawn (ths ! k) \<noteq> Some m" if "k < length ths" for k
      using old [OF that, of m] assms(5) by auto
    ultimately show ?thesis using True assms(4-6) by (auto simp: leD)
  next
    case False
    with j have "drawn (ths ! j) = Some t" "j < length ths" by simp_all
    with assms(1) have t: "0 < t" "t \<le> n" "t \<notin> set cs" "\<forall>k < length ths. k \<noteq> j \<longrightarrow> drawn (ths ! k) \<noteq> Some t"
      unfolding drawn_ok_def by blast+
    then have "drawn (ths[i := th] ! k) \<noteq> Some t" if "k < length ths" "k \<noteq> j" for k
      using that assms(3,5) by (cases "k = i") auto
    with t assms(5) show ?thesis by auto
  qed
qed

lemma sum_list_at:
  assumes "i < length xs"
  shows "sum_list (map f (xs[i := x])) + f (xs ! i) = sum_list (map f xs) + (f x :: nat)"
proof -
  have "f (xs ! i) \<le> sum_list (map f xs)" using assms by (intro member_le_sum_list) auto
  then show ?thesis using assms by (simp add: map_update sum_list_update)
qed

lemma slot_ok_no_draw:
  assumes ok: "slot_ok ts ths log" and i: "i < length ths"
    and keeps: "ts_next ts' = ts_next ts" and none: "drawn th = None" and less: "undrawn th \<le> undrawn (ths ! i)"
    and cur: "slot_replay (ts_current ts) out = Some (ts_current ts')"
    and new: "claims out = [] \<or> (\<exists>t. claims out = [t] \<and> drawn (ths ! i) = Some t)"
  shows "slot_ok ts' (ths[i := th]) (log @ out)"
proof -
  have "claims_ok (ts_next ts) (claims log @ claims out)"
    using ok new i unfolding slot_ok_def claims_ok_def drawn_ok_def by auto
  moreover have "drawn_ok (ts_next ts) (claims log @ claims out) (ths[i := th])"
    using ok i none new unfolding slot_ok_def by (intro drawn_ok_settled) simp_all
  ultimately show ?thesis
    using ok cur keeps less sum_list_at [OF i, of undrawn th] unfolding slot_ok_def
    by (simp add: slot_replay_append)
qed

lemma slot_ok_draw:
  assumes ok: "slot_ok ts ths log" and i: "i < length ths" and few: "length ths < 2 ^ 64"
    and undrawn: "undrawn (ths ! i) = 1" and th: "drawn th = Some (ts_next ts + 1)" "undrawn th = 0"
  shows "slot_ok (ts\<lparr>ts_next := ts_next ts + 1\<rparr>) (ths[i := th]) log"
proof -
  let ?n = "ts_next ts"
  note sum = sum_list_at [OF i, of undrawn th]
  have "unat ?n + 1 < 2 ^ 64" using ok few sum undrawn th unfolding slot_ok_def by linarith
  then have next_nat: "unat (?n + 1) = unat ?n + 1"
    by (simp add: unat_word_ariths)
  then have up: "0 < ?n + 1" "?n < ?n + 1" by (simp_all add: word_less_nat_alt)
  have "drawn_ok (?n + 1) (claims log) (ths[i := th])"
    using ok i th up unfolding slot_ok_def claims_ok_def by (intro drawn_ok_fresh [where n = ?n]) simp_all
  moreover have "claims_ok (?n + 1) (claims log)"
    using ok up unfolding slot_ok_def claims_ok_def by auto
  ultimately show ?thesis
    using ok sum undrawn th next_nat unfolding slot_ok_def by simp
qed

lemma finish_step_to: "snd (finish_step t at ts) \<noteq> F_Current"
  by (cases at) auto

lemma begin_thread_no_draw:
  assumes "thread_step now late (T_Begin needs at) ts = (ts', th, out)" "at \<noteq> B_Next"
  shows "ts_next ts' = ts_next ts" "drawn th = None" "undrawn th \<le> undrawn (T_Begin needs at)"
    "claims out = [] \<or> (\<exists>t. claims out = [t] \<and> drawn (T_Begin needs at) = Some t)"
    "(\<And>t. drawn (T_Begin needs at) = Some t \<Longrightarrow> t \<noteq> 0) \<Longrightarrow> slot_replay (ts_current ts) out = Some (ts_current ts')"
    "decision ts' = decision ts" "count_list out (Answered u b) = 0" "count_list out (Told u b) = 0"
    "th \<noteq> T_Asked u r"
  using assms
  by (cases at; force simp: touch_def finish_step_keeps split: prod.splits if_splits fin_at.splits)+

lemma finish_thread_no_draw:
  assumes "thread_step now late (T_Finish t at) ts = (ts', th, out)"
  shows "ts_next ts' = ts_next ts" "drawn th = None" "undrawn th = 0"
    "claims out = []" "slot_replay (ts_current ts) out = Some (ts_current ts')"
    "decision ts' = decision ts" "count_list out (Answered u b) = 0" "count_list out (Told u b) = 0"
    "th \<noteq> T_Asked u r"
  using assms by (auto simp: finish_step_keeps split: prod.splits if_splits)

lemma arm_thread_no_draw:
  assumes "thread_step now late (T_Arm at) ts = (ts', th, out)"
  shows "ts_next ts' = ts_next ts" "drawn th = None" "undrawn th = 0" "out = []"
    "ts_current ts' = ts_current ts" "decision ts' = decision ts" "th \<noteq> T_Asked u r"
  using assms arm_step_keeps [of late at ts] by (auto split: prod.splits)

lemma ask_thread_no_draw:
  assumes "thread_step now late (T_Ask t) ts = (ts', th, out)"
  shows "ts_next ts' = ts_next ts" "drawn th = None" "undrawn th = 0"
    "claims out = []" "slot_replay (ts_current ts) out = Some (ts_current ts')"
    "decision ts' = None" "count_list out (Answered u b) = 0"
    "count_list out (Told u b) \<le> (if decision ts = Some (u, b) then 1 else 0)"
    "th = T_Asked u (Some b) \<Longrightarrow> Told u b \<in> set out"
  using assms by (auto simp: await_answer_look_def Let_def split: prod.splits option.splits if_splits)

lemma thread_step_no_draw:
  assumes step: "thread_step now late old ts = (ts', th, out)" and "\<nexists>needs. old = T_Begin needs B_Next"
  shows "ts_next ts' = ts_next ts" "drawn th = None" "undrawn th \<le> undrawn old"
    "claims out = [] \<or> (\<exists>t. claims out = [t] \<and> drawn old = Some t)"
    "(\<And>t. drawn old = Some t \<Longrightarrow> t \<noteq> 0) \<Longrightarrow> slot_replay (ts_current ts) out = Some (ts_current ts')"
proof -
  have "ts_next ts' = ts_next ts \<and> drawn th = None \<and> undrawn th \<le> undrawn old \<and>
      (claims out = [] \<or> (\<exists>t. claims out = [t] \<and> drawn old = Some t)) \<and>
      ((\<forall>t. drawn old = Some t \<longrightarrow> t \<noteq> 0) \<longrightarrow> slot_replay (ts_current ts) out = Some (ts_current ts'))"
  proof (cases old)
    case (T_Begin needs at)
    with assms have "thread_step now late (T_Begin needs at) ts = (ts', th, out)" "at \<noteq> B_Next" by auto
    from begin_thread_no_draw(1-5) [OF this] T_Begin show ?thesis by blast
  next
    case (T_Finish t at)
    with finish_thread_no_draw(1-5) [OF step [unfolded T_Finish]] show ?thesis by simp
  next
    case (T_Arm at)
    with arm_thread_no_draw [OF step [unfolded T_Arm]] show ?thesis by simp
  next
    case (T_Ask t)
    with ask_thread_no_draw(1-5) [OF step [unfolded T_Ask]] show ?thesis by simp
  qed (use step in auto)
  then show "ts_next ts' = ts_next ts" "drawn th = None" "undrawn th \<le> undrawn old"
    "claims out = [] \<or> (\<exists>t. claims out = [t] \<and> drawn old = Some t)"
    "(\<And>t. drawn old = Some t \<Longrightarrow> t \<noteq> 0) \<Longrightarrow> slot_replay (ts_current ts) out = Some (ts_current ts')"
    by blast+
qed

lemma slot_ok_thread:
  assumes ok: "slot_ok ts ths log" and i: "i < length ths" and few: "length ths < 2 ^ 64"
    and step: "thread_step now late (ths ! i) ts = (ts', th, out)"
  shows "slot_ok ts' (ths[i := th]) (log @ out)"
proof (cases "\<exists>needs. ths ! i = T_Begin needs B_Next")
  case True
  then show ?thesis using step slot_ok_draw [OF ok i few, of th] by auto
next
  case False
  have "t \<noteq> 0" if "drawn (ths ! i) = Some t" for t
    using ok i that unfolding slot_ok_def drawn_ok_def by fastforce
  then show ?thesis
    by (intro slot_ok_no_draw [OF ok i] thread_step_no_draw [OF step False]) blast
qed

lemma slot_ok_spawn:
  assumes "slot_ok ts ths log" "drawn th = None" "undrawn th \<le> 1"
  shows "slot_ok ts (ths @ [th]) log"
  using assms unfolding slot_ok_def drawn_ok_def by (auto simp: nth_append less_Suc_eq split: if_splits)

lemma op_effects:
  "slot_replay c (case f of Op_Answer t b \<Rightarrow> [Answered t b] | _ \<Rightarrow> []) = Some c"
  "claims (case f of Op_Answer t b \<Rightarrow> [Answered t b] | _ \<Rightarrow> []) = []"
  by (cases f; simp)+

interpretation slot: history_machine slot_on slot_hist
proof unfold_locales
  fix s log e s' out assume *: "slot_hist s log" "slot_on s e = (s', out)"
  show "slot_hist s' (log @ out)"
  proof (cases e)
    case (E_Step i late)
    with * show ?thesis
      unfolding slot_hist_def by (auto simp: slot_ok_thread split: if_splits prod.splits)
  next
    case (E_Op f)
    with * show ?thesis
      unfolding slot_hist_def slot_ok_def by (auto simp: slot_replay_append op_effects)
  qed (use * in \<open>auto simp: slot_hist_def slot_ok_spawn\<close>)
qed

text \<open>An answer is parked once, and whoever looks next takes it.\<close>

definition told_hist :: "slot_system \<Rightarrow> slot_effect list \<Rightarrow> bool" where
  "told_hist s log \<longleftrightarrow>
     (\<forall>t b. count_list log (Told t b) + (if decision (sy_ts s) = Some (t, b) then 1 else 0)
         \<le> count_list log (Answered t b)) \<and>
     (\<forall>t b. T_Asked t (Some b) \<in> set (sy_threads s) \<longrightarrow> Told t b \<in> set log)"

lemma next_thread_told:
  assumes "thread_step now late (T_Begin needs B_Next) ts = (ts', th, out)"
  shows "decision ts' = decision ts \<and> out = [] \<and> th \<noteq> T_Asked u r"
  using assms by auto

lemma thread_step_told:
  assumes step: "thread_step now late old ts = (ts', th, out)"
  shows "count_list out (Answered t b) = 0 \<and>
    count_list out (Told t b) + (if decision ts' = Some (t, b) then 1 else 0)
       \<le> (if decision ts = Some (t, b) then 1 else (0 :: nat)) \<and>
    (th = T_Asked t (Some b) \<longrightarrow> old = T_Asked t (Some b) \<or> Told t b \<in> set out)"
proof (cases old)
  case (T_Begin needs at)
  show ?thesis
  proof (cases "at = B_Next")
    case True
    with next_thread_told step T_Begin show ?thesis by fastforce
  next
    case False
    with begin_thread_no_draw(6-9) [OF step [unfolded T_Begin]] show ?thesis by simp
  qed
next
  case (T_Finish u at)
  with finish_thread_no_draw(6-9) [OF step [unfolded T_Finish]] show ?thesis by simp
next
  case (T_Arm at)
  with arm_thread_no_draw [OF step [unfolded T_Arm]] show ?thesis by simp
next
  case (T_Ask u)
  with ask_thread_no_draw(6-9) [OF step [unfolded T_Ask]] show ?thesis by simp
qed (use step in auto)

lemma op_told:
  "decision (cell_do now f ts) = (case f of Op_Answer t b \<Rightarrow> Some (t, b) | _ \<Rightarrow> decision ts)"
  by (cases f; auto simp: touch_def cancel_def cancel_after_grace_def arm_abort_def answer_def provide_group_def
      want_group_def stop_wanting_group_def await_group_look_def provide_upgrade_def await_upgrade_look_def
      clear_upgrade_def split: option.splits)

interpretation told: history_machine slot_on told_hist
proof unfold_locales
  fix s log e s' out assume *: "told_hist s log" "slot_on s e = (s', out)"
  show "told_hist s' (log @ out)"
  proof (cases "\<exists>i late. e = E_Step i late \<and> i < length (sy_threads s)")
    case True
    then obtain i late where e: "e = E_Step i late" "i < length (sy_threads s)" by blast
    obtain ts th where step: "thread_step (sy_now s) late (sy_threads s ! i) (sy_ts s) = (ts, th, out)"
      and s': "s' = s\<lparr>sy_ts := ts, sy_threads := (sy_threads s)[i := th]\<rparr>"
      using * e by (auto split: prod.splits)
    have "count_list (log @ out) (Told t b) + (if decision ts = Some (t, b) then 1 else 0)
        \<le> count_list (log @ out) (Answered t b)" for t b
    proof -
      have "count_list log (Told t b) + (if decision (sy_ts s) = Some (t, b) then 1 else 0)
          \<le> count_list log (Answered t b)"
        using *(1) unfolding told_hist_def by blast
      with thread_step_told [OF step, of t b] show ?thesis by simp
    qed
    moreover have "Told t b \<in> set (log @ out)" if "T_Asked t (Some b) \<in> set ((sy_threads s)[i := th])" for t b
    proof -
      from that have "T_Asked t (Some b) \<in> set (sy_threads s) \<or> th = T_Asked t (Some b)"
        using set_update_subset_insert by fastforce
      with *(1) thread_step_told [OF step, of t b] e(2) show ?thesis
        unfolding told_hist_def by (auto dest: nth_mem)
    qed
    ultimately show ?thesis unfolding told_hist_def s' by simp
  next
    case False
    show ?thesis
    proof (cases "\<exists>t b. e = E_Op (Op_Answer t b)")
      case True
      then obtain u c where e: "e = E_Op (Op_Answer u c)" by blast
      have le: "count_list log (Told t b) \<le> count_list log (Answered t b)" for t b
        using *(1) unfolding told_hist_def by (metis add_leD1)
      from * e le show ?thesis unfolding told_hist_def by (auto simp: op_told answer_def)
    next
      case False2: False
      have "decision (sy_ts s') = decision (sy_ts s) \<and> out = [] \<and>
        (\<forall>t b. T_Asked t (Some b) \<in> set (sy_threads s') \<longrightarrow> T_Asked t (Some b) \<in> set (sy_threads s))"
      proof (cases e)
        case (E_Op f)
        with *(2) False2 show ?thesis by (cases f) (auto simp: op_told simp del: cell_do.simps)
      next
        case (E_Step i late)
        with *(2) False show ?thesis by auto
      qed (use *(2) in auto)
      with *(1) show ?thesis unfolding told_hist_def by simp
    qed
  qed
qed

section \<open>The operations on their own\<close>

lemma finish_effect [simp]:
  "ts_current (finish t ts) = (if ts_current ts = t then 0 else ts_current ts)"
  "ts_next (finish t ts) = ts_next ts" "wifi_direct_active (finish t ts) = False"
  "last_activity (finish t ts) = None" "decision (finish t ts) = decision ts"
  "airdrop_pending (finish t ts) = (if airdrop_pending ts = t then 0 else airdrop_pending ts)"
  by (auto simp: finish_def cas_current_def cas_pending_def clear_upgrade_def arm_abort_def Let_def)

lemma try_begin_takes:
  assumes "ts_current ts = 0 \<or> is_stale now ts" "try_begin now needs ts = (r, ts')"
  shows "r = Some (ts_next ts + 1)" "ts_current ts' = ts_next ts + 1" "ts_next ts' = ts_next ts + 1"
    "last_activity ts' = Some now"
  using assms by (auto simp: try_begin_def touch_def Let_def split: if_splits)

lemma try_begin_busy:
  "ts_current ts \<noteq> 0 \<Longrightarrow> \<not> is_stale now ts \<Longrightarrow> try_begin now needs ts = (None, ts)"
  by (simp add: try_begin_def)

lemma arm_alone_held:
  assumes "fst (arm_alone ts) = A_End True"
  shows "wifi_direct_active (snd (arm_alone ts))" "ts_current (snd (arm_alone ts)) = ts_current ts"
  using assms by (auto simp: arm_alone_def split: if_splits)

section \<open>Properties\<close>

text \<open>
  C4: one transfer at a time. However the accesses of the threads that begin, end and reclaim transfers
  interleave, the slot is taken only while it is free, by an id never used before, and given up only by
  the transfer that has it: the log of the daemon is one of the abstract slot, whose holder is the
  current transfer. The ids come from a 64-bit counter, so this is said of fewer than 2^64 threads.
\<close>

theorem one_transfer_at_a_time:
  assumes "run slot_on slot_system_start es = (s, log)" "length (sy_threads s) < 2 ^ 64"
  shows "slot_replay 0 log = Some (ts_current (sy_ts s)) \<and> distinct (claims log) \<and> 0 \<notin> set (claims log)"
proof -
  have "slot_hist slot_system_start []"
    by (simp add: slot_hist_def slot_ok_def claims_ok_def drawn_ok_def slot_system_start_def transfers_default_def)
  from slot.run_hist [OF this assms(1)] assms(2) show ?thesis
    by (auto simp: slot_hist_def slot_ok_def claims_ok_def)
qed

text \<open>
  C28: a wait for an answer ends in a yes only if someone said yes to that very offer, and no answer is
  used for two offers: among everything that has happened, the waits told \<open>b\<close> for a transfer are at most
  as many as the answers \<open>b\<close> given for it.
\<close>

theorem answers_not_misdirected:
  assumes "run slot_on slot_system_start es = (s, log)"
  shows "count_list log (Told t b) \<le> count_list log (Answered t b) \<and>
    (T_Asked t (Some b) \<in> set (sy_threads s) \<longrightarrow> Answered t b \<in> set log)"
proof -
  have "told_hist slot_system_start []"
    by (simp add: told_hist_def slot_system_start_def transfers_default_def)
  from told.run_hist [OF this assms] have told: "told_hist s log" .
  then have le: "count_list log (Told t b) \<le> count_list log (Answered t b)"
    unfolding told_hist_def by (metis add_leD1)
  moreover have "Answered t b \<in> set log" if "T_Asked t (Some b) \<in> set (sy_threads s)"
  proof -
    have "0 < count_list log (Told t b)"
      using told that unfolding told_hist_def by (metis count_list_0_iff gr0I)
    with le show ?thesis by (metis count_list_0_iff le_zero_eq less_irrefl)
  qed
  ultimately show ?thesis by blast
qed

text \<open>
  C40: the end of a transfer that no longer has the slot is not harmless. Transfer \<open>a\<close> goes quiet, is taken
  for dead after three minutes and its slot is given to transfer \<open>b\<close>, which takes the radio for its Wi-Fi
  Direct group. When the thread of \<open>a\<close> ends, its guard drops the hold of \<open>b\<close> and stops the clock of \<open>b\<close>, so
  that \<open>b\<close> is never again taken for dead: every later request is refused as busy.
\<close>

theorem late_finish_drops_hold:
  assumes "try_begin t1 n1 transfers_default = (Some a, ts1)" "t2 - t1 > STALE_TRANSFER"
    and "try_begin t2 n2 ts1 = (r, ts2)" "fst (arm_alone ts2) = A_End True"
  defines "ts3 \<equiv> slot_guard_drop a (snd (arm_alone ts2))"
  shows "\<exists>b. r = Some b \<and> b \<noteq> a \<and> wifi_direct_active (snd (arm_alone ts2)) \<and>
    ts_current ts3 = b \<and> \<not> wifi_direct_active ts3 \<and> fst (try_begin t3 n3 ts3) = None"
proof -
  have 1: "a = 1" "ts_current ts1 = 1" "ts_next ts1 = 1" "last_activity ts1 = Some t1"
    using assms(1) try_begin_takes [of transfers_default t1 n1] by (simp_all add: transfers_default_def)
  then have 2: "r = Some 2" "ts_current ts2 = 2"
    using assms(2,3) try_begin_takes [of ts1 t2 n2] by (simp_all add: is_stale_def)
  have 3: "wifi_direct_active (snd (arm_alone ts2))" "ts_current (snd (arm_alone ts2)) = 2"
    using arm_alone_held [OF assms(4)] 2 by simp_all
  then have "ts_current ts3 = 2" "\<not> wifi_direct_active ts3" "last_activity ts3 = None"
    using 1 by (simp_all add: ts3_def slot_guard_drop_def)
  then have "fst (try_begin t3 n3 ts3) = None" by (simp add: try_begin_def is_stale_def)
  with 1 2 3 \<open>ts_current ts3 = 2\<close> \<open>\<not> wifi_direct_active ts3\<close> show ?thesis by simp
qed

theorem late_finish_drops_hold_witness:
  "fst (try_begin 200001 False
     (slot_guard_drop 1 (snd (arm_alone (snd (try_begin 200000 False (snd (try_begin 0 False transfers_default)))))))) = None"
proof -
  let ?ts1 = "snd (try_begin 0 False transfers_default)"
  let ?b = "try_begin 200000 False ?ts1"
  have "try_begin 0 False transfers_default = (Some 1, ?ts1)"
    by (simp add: try_begin_def transfers_default_def)
  moreover have "fst (arm_alone (snd ?b)) = A_End True"
    by (simp add: try_begin_def transfers_default_def touch_def is_stale_def arm_alone_def airdrop_busy_def Let_def
        finish_def cas_current_def cas_pending_def clear_upgrade_def arm_abort_def is_for_def)
  ultimately show ?thesis
    using late_finish_drops_hold [of 0 False 1 ?ts1 200000 False "fst ?b" "snd ?b" 200001 False] by auto
qed

text \<open>The runs the other two properties are evaluated on.\<close>

abbreviation (input) sample_steps :: "nat \<Rightarrow> nat \<Rightarrow> slot_event list" where
  "sample_steps n i \<equiv> replicate n (E_Step i False)"

abbreviation (input) sample_contest :: "slot_event list" where
  "sample_contest \<equiv> [E_Begin True, E_Begin False] @ sample_steps 2 0 @ sample_steps 6 1 @ sample_steps 3 0 @
     [E_Ask 2, E_Op (Op_Answer 1 False)] @ sample_steps 1 2 @ [E_Op (Op_Answer 2 True)] @ sample_steps 1 2 @
     [E_Finish 2] @ sample_steps 1 3"

lemmas sample_simps = slot_system_start_def transfers_default_def numeral_eq_Suc touch_def answer_def
  await_answer_look_def cas_current_def

theorem one_transfer_at_a_time_witness:
  "let (s, log) = run slot_on slot_system_start sample_contest
   in slot_replay 0 log = Some (ts_current (sy_ts s)) \<and> claims log = [2] \<and> ts_current (sy_ts s) = 0"
proof -
  obtain s log where run: "run slot_on slot_system_start sample_contest = (s, log)" by fastforce
  then have "length (sy_threads s) = 4 \<and> claims log = [2] \<and> ts_current (sy_ts s) = 0"
    by (auto simp: sample_simps)
  then show ?thesis using one_transfer_at_a_time [OF run] unfolding run by simp
qed

theorem answers_not_misdirected_witness:
  "let (s, log) = run slot_on slot_system_start sample_contest
   in T_Asked 2 (Some True) \<in> set (sy_threads s) \<and> Answered 2 True \<in> set log"
proof -
  obtain s log where run: "run slot_on slot_system_start sample_contest = (s, log)" by fastforce
  then have "T_Asked 2 (Some True) \<in> set (sy_threads s)"
    by (auto simp: sample_simps)
  then show ?thesis using answers_not_misdirected [OF run, of 2 True] unfolding run by simp
qed

end
