(* ===== verification/Auth_Window.thy ===== *)
theory Auth_Window
  imports Machines Awdl_Daemon
begin

text \<open>
  The authenticated window of the sharing daemon (\<open>setAuthenticated\<close>, \<open>keepUnlocked\<close>, \<open>start_keepalive\<close>,
  \<open>shut\<close>, \<open>set_exempt\<close>, the death recipient of \<open>registerCallback\<close> in \<open>sharingd/src/main.rs\<close>). While it is open
  the property \<open>tarish.awdl.exempt\<close> is \<open>1\<close>, and the other daemon keeps its rule above the kill-switch of a
  VPN. A keepalive thread challenges the client and a timer ends the window; both run beside the calls of
  the client, one access to a shared cell at a time. Instants are milliseconds. The write of a property
  may fail.
\<close>

section \<open>The state\<close>

abbreviation (input) CHALLENGE_EVERY :: nat where "CHALLENGE_EVERY \<equiv> 5000"
abbreviation (input) CHALLENGE_DEADLINE :: nat where "CHALLENGE_DEADLINE \<equiv> 4000"
abbreviation (input) CHALLENGE_STRIKES :: u32 where "CHALLENGE_STRIKES \<equiv> 3"
abbreviation (input) MAX_WINDOW :: nat where "MAX_WINDOW \<equiv> 600"

text \<open>
  \<open>k_at\<close> is where a keepalive thread is: the start, the checks of the generation, the accesses of a
  round, a sleep, and the three accesses of \<open>shut\<close>. \<open>c_at\<close> is where a call of \<open>setAuthenticated\<close> is.
\<close>

datatype k_at = K_Start | K_Generation | K_Clear | K_Post | K_Targets i64 | K_No_Client | K_Sleep nat | K_Wait nat
  | K_Still | K_Look | K_Reset | K_Missed | K_Shut | K_Shut_Challenge | K_Shut_Property | K_End

datatype x_at = X_Sleep nat | X_Generation | X_Property | X_End

datatype c_at = C_Fetch bool i32 | C_Property bool u64 i32 | C_Keepalive u64 i32 | C_Timer u64 i32 | C_End

datatype wthread = Keepalive u64 k_at | Expiry u64 x_at | Call c_at

record auth =
  auth_generation :: u64
  challenge :: "(i64 \<times> nat) option"
  keepalive_strikes :: u32
  keepalive_ok :: bool
  exempt_prop :: bool
  callbacks :: "nat list"
  death :: "nat option"
  au_now :: nat
  au_threads :: "wthread list"

definition auth_start :: auth where
  "auth_start = \<lparr> auth_generation = 0, challenge = None, keepalive_strikes = 0, keepalive_ok = False,
     exempt_prop = False, callbacks = [], death = None, au_now = 0, au_threads = [] \<rparr>"

text \<open>
  What is recorded: a window with its time and its end, a challenge, a failed write of the property with the value, the
  number a call of \<open>setAuthenticated\<close> draws, and that one begins before another has ended.
\<close>

datatype auth_effect = Opened nat nat | Challenges "nat list" i64 | Write_Failed bool | Drew u64 | Overlaps

definition set_exempt :: "bool \<Rightarrow> bool \<Rightarrow> auth \<Rightarrow> auth \<times> auth_effect list" where
  "set_exempt ok on a = (if ok then (a\<lparr>exempt_prop := on\<rparr>, []) else (a, [Write_Failed on]))"

section \<open>The calls of the client\<close>

definition window_secs :: "i32 \<Rightarrow> nat" where
  "window_secs d = (let n = nat (max (sint d) 0) in max 1 (min n MAX_WINDOW))"

text \<open>The whole call, when no other thread runs between its accesses.\<close>

definition setAuthenticated :: "bool \<Rightarrow> bool \<Rightarrow> i32 \<Rightarrow> auth \<Rightarrow> auth \<times> auth_effect list" where
  "setAuthenticated ok authenticated duration a =
     (let gen = auth_generation a + 1;
          a = a\<lparr>auth_generation := gen\<rparr>
      in if authenticated then
           let secs = window_secs duration;
               (a, out) = set_exempt ok True a;
               until = au_now a + secs * 1000
           in (a\<lparr>au_threads := au_threads a @ [Keepalive gen K_Start, Expiry gen (X_Sleep until)]\<rparr>,
               Drew gen # out @ [Opened (au_now a) until])
         else let (a, out) = set_exempt ok False a in (a, Drew gen # out))"

definition keepUnlocked :: "i64 \<Rightarrow> auth \<Rightarrow> auth" where
  "keepUnlocked nonce a =
     (let a' = a\<lparr>challenge := None\<rparr>
      in case challenge a of
           Some (want, sent) \<Rightarrow>
             if want = nonce then
               let a' = a'\<lparr>keepalive_strikes := 0\<rparr>
               in if au_now a - sent > CHALLENGE_DEADLINE then a' else a'\<lparr>keepalive_ok := True\<rparr>
             else a'
         | None \<Rightarrow> a')"

definition registerCallback :: "bool \<Rightarrow> nat \<Rightarrow> auth \<Rightarrow> auth" where
  "registerCallback link_ok cb a =
     (let a = (if link_ok then a\<lparr>death := Some cb\<rparr> else a)
      in if cb \<in> set (callbacks a) then a else a\<lparr>callbacks := callbacks a @ [cb]\<rparr>)"

definition unregisterCallback :: "nat \<Rightarrow> auth \<Rightarrow> auth" where
  "unregisterCallback cb a = a\<lparr>callbacks := filter (\<lambda>c. c \<noteq> cb) (callbacks a)\<rparr>"

text \<open>The recipient held in the one slot is told when its client dies; one that was replaced is unlinked.\<close>

definition binder_died :: "bool \<Rightarrow> nat \<Rightarrow> auth \<Rightarrow> auth \<times> auth_effect list" where
  "binder_died ok cb a = (if death a = Some cb then set_exempt ok False a else (a, []))"

definition isLockdownActive :: "rstring option \<Rightarrow> bool" where
  "isLockdownActive prop =
     (if prop = Some [0x31] then True else if prop = Some [0x30] then False else True)"

section \<open>The threads\<close>

text \<open>
  One access of a keepalive thread. \<open>nonce\<close> is what \<open>random_i64\<close> gives, \<open>ok\<close> the outcome of a property write.
\<close>

fun keepalive_step :: "i64 \<Rightarrow> bool \<Rightarrow> u64 \<Rightarrow> k_at \<Rightarrow> auth \<Rightarrow> auth \<times> k_at \<times> auth_effect list" where
  "keepalive_step nonce ok gen K_Start a = (a\<lparr>keepalive_strikes := 0\<rparr>, K_Generation, [])"
| "keepalive_step nonce ok gen K_Generation a =
     (a, if auth_generation a \<noteq> gen then K_End else K_Clear, [])"
| "keepalive_step nonce ok gen K_Clear a = (a\<lparr>keepalive_ok := False\<rparr>, K_Post, [])"
| "keepalive_step nonce ok gen K_Post a = (a\<lparr>challenge := Some (nonce, au_now a)\<rparr>, K_Targets nonce, [])"
| "keepalive_step nonce ok gen (K_Targets sent) a =
     (if callbacks a = [] then (a, K_No_Client, [])
      else (a, K_Wait (au_now a + CHALLENGE_DEADLINE), [Challenges (callbacks a) sent]))"
| "keepalive_step nonce ok gen K_No_Client a =
     (let n = keepalive_strikes a + 1
      in (a\<lparr>keepalive_strikes := n\<rparr>,
          if n \<ge> CHALLENGE_STRIKES then K_Shut else K_Sleep (au_now a + CHALLENGE_EVERY), []))"
| "keepalive_step nonce ok gen (K_Sleep until) a =
     (a, if until \<le> au_now a then K_Generation else K_Sleep until, [])"
| "keepalive_step nonce ok gen (K_Wait until) a = (a, if until \<le> au_now a then K_Still else K_Wait until, [])"
| "keepalive_step nonce ok gen K_Still a = (a, if auth_generation a \<noteq> gen then K_End else K_Look, [])"
| "keepalive_step nonce ok gen K_Look a = (a, if keepalive_ok a then K_Reset else K_Missed, [])"
| "keepalive_step nonce ok gen K_Reset a =
     (a\<lparr>keepalive_strikes := 0\<rparr>, K_Sleep (au_now a + (CHALLENGE_EVERY - CHALLENGE_DEADLINE)), [])"
| "keepalive_step nonce ok gen K_Missed a =
     (let n = keepalive_strikes a + 1
      in (a\<lparr>keepalive_strikes := n\<rparr>,
          if n \<ge> CHALLENGE_STRIKES then K_Shut
          else K_Sleep (au_now a + (CHALLENGE_EVERY - CHALLENGE_DEADLINE)), []))"
| "keepalive_step nonce ok gen K_Shut a =
     (if auth_generation a = gen then a\<lparr>auth_generation := gen + 1\<rparr> else a, K_Shut_Challenge, [])"
| "keepalive_step nonce ok gen K_Shut_Challenge a = (a\<lparr>challenge := None\<rparr>, K_Shut_Property, [])"
| "keepalive_step nonce ok gen K_Shut_Property a = (let (a, out) = set_exempt ok False a in (a, K_End, out))"
| "keepalive_step nonce ok gen K_End a = (a, K_End, [])"

fun expiry_step :: "bool \<Rightarrow> u64 \<Rightarrow> x_at \<Rightarrow> auth \<Rightarrow> auth \<times> x_at \<times> auth_effect list" where
  "expiry_step ok gen (X_Sleep until) a = (a, if until \<le> au_now a then X_Generation else X_Sleep until, [])"
| "expiry_step ok gen X_Generation a = (a, if auth_generation a = gen then X_Property else X_End, [])"
| "expiry_step ok gen X_Property a = (let (a, out) = set_exempt ok False a in (a, X_End, out))"
| "expiry_step ok gen X_End a = (a, X_End, [])"

text \<open>The accesses of a call of \<open>setAuthenticated\<close>, with the threads it starts.\<close>

fun call_step :: "bool \<Rightarrow> c_at \<Rightarrow> auth \<Rightarrow> auth \<times> c_at \<times> wthread list \<times> auth_effect list" where
  "call_step ok (C_Fetch b d) a =
     (a\<lparr>auth_generation := auth_generation a + 1\<rparr>, C_Property b (auth_generation a + 1) d, [], [Drew (auth_generation a + 1)])"
| "call_step ok (C_Property b gen d) a =
     (let (a, out) = set_exempt ok b a in (a, if b then C_Keepalive gen d else C_End, [], out))"
| "call_step ok (C_Keepalive gen d) a = (a, C_Timer gen d, [Keepalive gen K_Start], [])"
| "call_step ok (C_Timer gen d) a =
     (let until = au_now a + window_secs d * 1000
      in (a, C_End, [Expiry gen (X_Sleep until)], [Opened (au_now a) until]))"
| "call_step ok C_End a = (a, C_End, [], [])"

fun wthread_step :: "i64 \<Rightarrow> bool \<Rightarrow> wthread \<Rightarrow> auth \<Rightarrow> auth \<times> wthread \<times> wthread list \<times> auth_effect list" where
  "wthread_step nonce ok (Keepalive gen at) a =
     (let (a, at, out) = keepalive_step nonce ok gen at a in (a, Keepalive gen at, [], out))"
| "wthread_step nonce ok (Expiry gen at) a =
     (let (a, at, out) = expiry_step ok gen at a in (a, Expiry gen at, [], out))"
| "wthread_step nonce ok (Call at) a =
     (let (a, at, new, out) = call_step ok at a in (a, Call at, new, out))"

text \<open>A call is under way until its last access.\<close>

fun under_way :: "wthread \<Rightarrow> bool" where
  "under_way (Call at) \<longleftrightarrow> at \<noteq> C_End"
| "under_way _ \<longleftrightarrow> False"

definition overlap :: "auth \<Rightarrow> auth_effect list" where
  "overlap a = (if list_ex under_way (au_threads a) then [Overlaps] else [])"

datatype auth_event = A_Set bool bool i32 | A_Call bool i32 | A_Keep i64 | A_Register bool nat | A_Unregister nat
  | A_Died bool nat | A_Step nat i64 bool | A_Time nat

fun auth_on :: "auth \<Rightarrow> auth_event \<Rightarrow> auth \<times> auth_effect list" where
  "auth_on a (A_Set ok b d) = (let (a', out) = setAuthenticated ok b d a in (a', overlap a @ out))"
| "auth_on a (A_Call b d) = (a\<lparr>au_threads := au_threads a @ [Call (C_Fetch b d)]\<rparr>, overlap a)"
| "auth_on a (A_Keep nonce) = (keepUnlocked nonce a, [])"
| "auth_on a (A_Register ok cb) = (registerCallback ok cb a, [])"
| "auth_on a (A_Unregister cb) = (unregisterCallback cb a, [])"
| "auth_on a (A_Died ok cb) = binder_died ok cb a"
| "auth_on a (A_Step i nonce ok) =
     (if i < length (au_threads a)
      then let (a', th, new, out) = wthread_step nonce ok (au_threads a ! i) a
           in (a'\<lparr>au_threads := (au_threads a)[i := th] @ new\<rparr>, out)
      else (a, []))"
| "auth_on a (A_Time d) = (a\<lparr>au_now := au_now a + d\<rparr>, [])"

text \<open>Is a thread asleep, or over? When all are, the daemon has done everything it was going to do so far.\<close>

fun at_rest :: "nat \<Rightarrow> wthread \<Rightarrow> bool" where
  "at_rest now (Keepalive _ (K_Sleep until)) \<longleftrightarrow> now < until"
| "at_rest now (Keepalive _ (K_Wait until)) \<longleftrightarrow> now < until"
| "at_rest now (Keepalive _ at) \<longleftrightarrow> at = K_End"
| "at_rest now (Expiry _ (X_Sleep until)) \<longleftrightarrow> now < until"
| "at_rest now (Expiry _ at) \<longleftrightarrow> at = X_End"
| "at_rest now (Call at) \<longleftrightarrow> at = C_End"

definition quiescent :: "auth \<Rightarrow> bool" where
  "quiescent a \<longleftrightarrow> list_all (at_rest (au_now a)) (au_threads a)"

section \<open>What will close the window\<close>

fun closes :: "auth \<Rightarrow> auth_effect list \<Rightarrow> wthread \<Rightarrow> bool" where
  "closes a log (Expiry g (X_Sleep u)) \<longleftrightarrow> g = auth_generation a \<and> (\<exists>t. Opened t u \<in> set log)"
| "closes a log (Expiry g X_Generation) \<longleftrightarrow> g = auth_generation a"
| "closes a log (Expiry g X_Property) \<longleftrightarrow> True"
| "closes a log (Keepalive g K_Shut_Challenge) \<longleftrightarrow> True"
| "closes a log (Keepalive g K_Shut_Property) \<longleftrightarrow> True"
| "closes a log (Call (C_Property b g d)) \<longleftrightarrow> b \<longrightarrow> g = auth_generation a"
| "closes a log (Call (C_Keepalive g d)) \<longleftrightarrow> g = auth_generation a"
| "closes a log (Call (C_Timer g d)) \<longleftrightarrow> g = auth_generation a"
| "closes a log _ \<longleftrightarrow> False"

definition opened_ok :: "auth \<Rightarrow> auth_effect list \<Rightarrow> bool" where
  "opened_ok a log \<longleftrightarrow>
     (\<forall>t u. Opened t u \<in> set log \<longrightarrow> t \<le> au_now a \<and> u \<le> t + MAX_WINDOW * 1000)"

fun draws :: "auth_effect list \<Rightarrow> u64 list" where
  "draws [] = []"
| "draws (Drew g # log) = g # draws log"
| "draws (_ # log) = draws log"

lemma draws_append [simp]: "draws (log @ log') = draws log @ draws log'"
  by (induction log rule: draws.induct) simp_all

text \<open>
  The ways past the window: a write that clears the property has failed, two calls have overlapped, or a number
  has come up twice, after \<open>2 ^ 64\<close> of them.
\<close>

definition astray :: "auth_effect list \<Rightarrow> bool" where
  "astray log \<longleftrightarrow> Write_Failed False \<in> set log \<or> Overlaps \<in> set log \<or> \<not> distinct (draws log)"

lemma astray_append: "astray log \<Longrightarrow> astray (log @ out)"
  by (auto simp: astray_def)

text \<open>The number an opening call holds until it has started its keepalive.\<close>

fun holds :: "u64 \<Rightarrow> wthread \<Rightarrow> bool" where
  "holds g (Call (C_Property b g' d)) \<longleftrightarrow> b \<and> g' = g"
| "holds g (Call (C_Keepalive g' d)) \<longleftrightarrow> g' = g"
| "holds g _ \<longleftrightarrow> False"

lemma holds_under_way: "holds g th \<Longrightarrow> under_way th"
  by (induction g th rule: holds.induct) simp_all

definition orderly :: "auth \<Rightarrow> auth_effect list \<Rightarrow> bool" where
  "orderly a log \<longleftrightarrow>
     (\<forall>g at. Keepalive g at \<in> set (au_threads a) \<longrightarrow> g \<in> set (draws log)) \<and>
     (\<forall>i j. i < length (au_threads a) \<and> j < length (au_threads a) \<and> under_way (au_threads a ! i) \<and> under_way (au_threads a ! j) \<longrightarrow> i = j) \<and>
     (\<forall>g th. th \<in> set (au_threads a) \<and> holds g th \<longrightarrow>
        g = auth_generation a \<and> g \<in> set (draws log) \<and> (\<forall>at. Keepalive g at \<notin> set (au_threads a)))"

definition auth_hist :: "auth \<Rightarrow> auth_effect list \<Rightarrow> bool" where
  "auth_hist a log \<longleftrightarrow> opened_ok a log \<and>
     (astray log \<or> orderly a log \<and>
      (exempt_prop a \<longrightarrow> (\<exists>i < length (au_threads a). closes a log (au_threads a ! i))))"

lemma window_secs_range: "1 \<le> window_secs d" "window_secs d \<le> 600"
  by (simp_all add: window_secs_def Let_def)

lemma closes_mono: "closes a log th \<Longrightarrow> auth_generation a' = auth_generation a \<Longrightarrow> closes a' (log @ out) th"
  by (induction a log th rule: closes.induct) auto

lemma closes_threads [simp]: "closes (a\<lparr>au_threads := ts\<rparr>) log th = closes a log th"
  by (induction a log th rule: closes.induct) simp_all

lemma opened_ok_step:
  assumes "opened_ok a log" "au_now a \<le> au_now a'"
    "\<And>t u. Opened t u \<in> set out \<Longrightarrow> t \<le> au_now a' \<and> u \<le> t + 600000"
  shows "opened_ok a' (log @ out)"
  unfolding opened_ok_def
proof (intro allI impI)
  fix t u assume "Opened t u \<in> set (log @ out)"
  then consider "Opened t u \<in> set log" | "Opened t u \<in> set out" by auto
  then show "t \<le> au_now a' \<and> u \<le> t + MAX_WINDOW * 1000"
    using assms unfolding opened_ok_def by cases (force intro: order_trans)+
qed

text \<open>
  What one access of a keepalive, a timer or a call can do to the window: it stays as it is, and whoever was going to
  close it still is; or it is closed; or the thread that did it, or one it has started, will close it.
\<close>

lemma keepalive_step_kind:
  assumes "keepalive_step nonce ok g at a = (a', at', out)"
  shows "au_now a' = au_now a \<and> au_threads a' = au_threads a \<and> (\<forall>t u. Opened t u \<notin> set out) \<and> draws out = [] \<and>
    (auth_generation a' = auth_generation a \<or> auth_generation a = g) \<and>
    (Write_Failed False \<in> set out \<or> (exempt_prop a' \<longrightarrow> exempt_prop a \<and>
       (closes a' (log @ out) (Keepalive g at') \<or>
        auth_generation a' = auth_generation a \<and> \<not> closes a log (Keepalive g at))))"
  using assms by (cases at) (auto simp: set_exempt_def Let_def split: if_splits)

lemma expiry_step_kind:
  assumes "expiry_step ok g at a = (a', at', out)"
  shows "au_now a' = au_now a \<and> au_threads a' = au_threads a \<and> auth_generation a' = auth_generation a \<and>
    (\<forall>t u. Opened t u \<notin> set out) \<and> draws out = [] \<and>
    (Write_Failed False \<in> set out \<or> (exempt_prop a' \<longrightarrow> exempt_prop a \<and>
       (closes a' (log @ out) (Expiry g at') \<or> \<not> closes a log (Expiry g at))))"
  using assms by (cases at) (auto simp: set_exempt_def split: if_splits)

lemma call_step_kind:
  assumes "call_step ok c a = (a', c', new, out)" "\<And>g. holds g (Call c) \<Longrightarrow> g = auth_generation a"
  shows "au_now a' = au_now a \<and> au_threads a' = au_threads a \<and>
    (\<forall>t u. Opened t u \<in> set out \<longrightarrow> t = au_now a \<and> u \<le> t + 600000) \<and>
    (Write_Failed False \<in> set out \<or> (exempt_prop a' \<longrightarrow>
       (\<exists>th \<in> insert (Call c') (set new). closes a' (log @ out) th) \<or>
       exempt_prop a \<and> auth_generation a' = auth_generation a \<and> \<not> closes a log (Call c)))"
  using assms window_secs_range by (cases c) (auto simp: set_exempt_def Let_def split: if_splits)

lemma call_step_now: "call_step ok c a = (a', c', new, out) \<Longrightarrow> au_now a' = au_now a"
  "call_step ok c a = (a', c', new, out) \<Longrightarrow> Opened t u \<in> set out \<Longrightarrow> t = au_now a \<and> u \<le> t + 600000"
  using window_secs_range by (cases c; auto simp: set_exempt_def Let_def split: if_splits)+

subsection \<open>Order among the threads\<close>

lemma set_update_append: "x \<in> set (xs[i := y] @ zs) \<Longrightarrow> x \<in> set xs \<or> x = y \<or> x \<in> set zs"
  using set_update_subset_insert [of xs i y] by auto

lemma orderly_step:
  assumes o: "orderly a log" and i: "i < length (au_threads a)"
    and keep: "\<And>g at. Keepalive g at \<in> insert th (set new) \<Longrightarrow>
      g \<in> set (draws (log @ out)) \<and> ((\<exists>at. Keepalive g at \<in> set (au_threads a)) \<or> holds g (au_threads a ! i))"
    and way: "under_way th \<Longrightarrow> under_way (au_threads a ! i)" "\<And>x. x \<in> set new \<Longrightarrow> \<not> under_way x"
    and held: "\<And>g. holds g th \<Longrightarrow> g = auth_generation a' \<and> g \<in> set (draws (log @ out)) \<and>
      (\<forall>at. Keepalive g at \<notin> set (au_threads a) \<and> Keepalive g at \<notin> set new)"
    and gen: "auth_generation a' = auth_generation a \<or> (\<exists>g at. au_threads a ! i = Keepalive g at \<and> auth_generation a = g) \<or>
      under_way (au_threads a ! i)"
  shows "orderly (a'\<lparr>au_threads := (au_threads a)[i := th] @ new\<rparr>) (log @ out)"
proof -
  let ?ts = "au_threads a" let ?us = "?ts[i := th] @ new"
  have K: "Keepalive g at \<in> set ?ts \<Longrightarrow> g \<in> set (draws log)"
    and U: "j < length ?ts \<Longrightarrow> k < length ?ts \<Longrightarrow> under_way (?ts ! j) \<Longrightarrow> under_way (?ts ! k) \<Longrightarrow> j = k"
    and H: "x \<in> set ?ts \<Longrightarrow> holds g x \<Longrightarrow> g = auth_generation a \<and> g \<in> set (draws log) \<and> (\<forall>at. Keepalive g at \<notin> set ?ts)"
    for g at j k x
    using o unfolding orderly_def by blast+
  have kept: "g \<in> set (draws (log @ out)) \<and> ((\<exists>at. Keepalive g at \<in> set ?ts) \<or> holds g (?ts ! i))"
    if "Keepalive g at \<in> set ?us" for g at
    using set_update_append [OF that]
  proof (elim disjE)
    assume "Keepalive g at \<in> set ?ts"
    with K show ?thesis by auto
  next
    assume "Keepalive g at = th"
    with keep [of g at] show ?thesis by simp
  next
    assume "Keepalive g at \<in> set new"
    with keep [of g at] show ?thesis by simp
  qed
  have way': "k < length ?ts \<and> under_way (?ts ! k)" if "k < length ?us" "under_way (?us ! k)" for k
    using that way i by (auto simp: nth_append nth_list_update split: if_splits)
  have other: "g = auth_generation a' \<and> g \<in> set (draws (log @ out)) \<and> (\<forall>at. Keepalive g at \<notin> set ?us)"
    if x: "x = ?ts ! j" "j < length ?ts" "j \<noteq> i" "holds g x" for x g j
  proof -
    have nu: "\<not> under_way (?ts ! i)" using U [OF x(2) i] holds_under_way [OF x(4)] x(1,3) by blast
    then have nh: "\<not> holds g' (?ts ! i)" for g' using holds_under_way by blast
    note h = H [of x g] x
    have "auth_generation a' = auth_generation a"
      using gen nu h i by (metis nth_mem)
    with h nh show ?thesis using kept by (metis nth_mem UnCI draws_append set_append)
  qed
  have eq: "au_threads (a'\<lparr>au_threads := ?us\<rparr>) = ?us" "auth_generation (a'\<lparr>au_threads := ?us\<rparr>) = auth_generation a'"
    by simp_all
  show ?thesis
    unfolding orderly_def eq
  proof (intro conjI allI impI)
    fix g at assume "Keepalive g at \<in> set ?us"
    then show "g \<in> set (draws (log @ out))" using kept by blast
  next
    fix j k assume "j < length ?us \<and> k < length ?us \<and> under_way (?us ! j) \<and> under_way (?us ! k)"
    with way' U show "j = k" by blast
  next
    fix g x assume x: "x \<in> set ?us \<and> holds g x"
    then have "x \<notin> set new" using way(2) holds_under_way by blast
    with x obtain j where "j < length ?ts" "x = ?ts[i := th] ! j" by (auto simp: in_set_conv_nth)
    then consider "x = th" | j where "x = ?ts ! j" "j < length ?ts" "j \<noteq> i"
      by (cases "j = i") auto
    then have "g = auth_generation a' \<and> g \<in> set (draws (log @ out)) \<and> (\<forall>at. Keepalive g at \<notin> set ?us)"
    proof cases
      case 1
      with x held have "g = auth_generation a'" "g \<in> set (draws (log @ out))"
        "\<And>at. Keepalive g at \<notin> set ?ts" "\<And>at. Keepalive g at \<notin> set new" "\<And>at. th \<noteq> Keepalive g at" by auto
      then show ?thesis using set_update_append by fastforce
    next
      case (2 j)
      with x other show ?thesis by blast
    qed
    then show "g = auth_generation a'" "g \<in> set (draws (log @ out))" "Keepalive g at \<notin> set ?us" for at by blast+
  qed
qed

subsection \<open>The history\<close>

lemma wthread_step_now:
  assumes "wthread_step nonce ok x a = (a1, th, new, out)"
  shows "au_now a1 = au_now a \<and> (\<forall>t u. Opened t u \<in> set out \<longrightarrow> t = au_now a \<and> u \<le> t + 600000)"
proof (cases x)
  case (Keepalive g at)
  then obtain at1 where "keepalive_step nonce ok g at a = (a1, at1, out)" using assms by (auto split: prod.splits)
  from keepalive_step_kind [OF this, of "[]"] show ?thesis by auto
next
  case (Expiry g at)
  then obtain at1 where "expiry_step ok g at a = (a1, at1, out)" using assms by (auto split: prod.splits)
  from expiry_step_kind [OF this, of "[]"] show ?thesis by auto
next
  case (Call c)
  then obtain c1 where "call_step ok c a = (a1, c1, new, out)" using assms by (auto split: prod.splits)
  from call_step_now [OF this] show ?thesis by auto
qed

lemma wthread_step_kind:
  assumes "wthread_step nonce ok x a = (a1, th, new, out)" "\<And>g. holds g x \<Longrightarrow> g = auth_generation a"
  shows "Write_Failed False \<in> set out \<or> (exempt_prop a1 \<longrightarrow>
       (\<exists>y \<in> insert th (set new). closes a1 (log @ out) y) \<or>
       exempt_prop a \<and> auth_generation a1 = auth_generation a \<and> \<not> closes a log x)"
proof (cases x)
  case (Keepalive g at)
  then obtain at1 where "keepalive_step nonce ok g at a = (a1, at1, out)" "th = Keepalive g at1" "new = []"
    using assms(1) by (auto split: prod.splits)
  with keepalive_step_kind [of nonce ok g at a a1 at1 out log] Keepalive show ?thesis by auto
next
  case (Expiry g at)
  then obtain at1 where "expiry_step ok g at a = (a1, at1, out)" "th = Expiry g at1" "new = []"
    using assms(1) by (auto split: prod.splits)
  with expiry_step_kind [of ok g at a a1 at1 out log] Expiry show ?thesis by auto
next
  case (Call c)
  then obtain c1 where "call_step ok c a = (a1, c1, new, out)" "th = Call c1"
    using assms(1) by (auto split: prod.splits)
  with call_step_kind [of ok c a a1 c1 new out log] assms(2) Call show ?thesis by auto
qed

lemma thread_orderly:
  assumes o: "orderly a log" and i: "i < length (au_threads a)" and d: "distinct (draws (log @ out))"
    and step: "wthread_step nonce ok (au_threads a ! i) a = (a1, th, new, out)"
  shows "orderly (a1\<lparr>au_threads := (au_threads a)[i := th] @ new\<rparr>) (log @ out)"
proof -
  have mem: "au_threads a ! i \<in> set (au_threads a)" using i by simp
  have K: "Keepalive g at \<in> set (au_threads a) \<Longrightarrow> g \<in> set (draws log)"
    and H: "holds g (au_threads a ! i) \<Longrightarrow> g = auth_generation a \<and> g \<in> set (draws log) \<and> (\<forall>at. Keepalive g at \<notin> set (au_threads a))" for g at
    using o mem unfolding orderly_def by blast+
  show ?thesis
  proof (cases "au_threads a ! i")
    case (Keepalive g at)
    then obtain at1 where s: "keepalive_step nonce ok g at a = (a1, at1, out)" "th = Keepalive g at1" "new = []"
      using step by (auto split: prod.splits)
    have "\<exists>at. Keepalive g at \<in> set (au_threads a)" using Keepalive mem by metis
    then show ?thesis
      using Keepalive keepalive_step_kind [OF s(1), of log] s(2,3) K by (intro orderly_step [OF o i]) auto
  next
    case (Expiry g at)
    then obtain at1 where s: "expiry_step ok g at a = (a1, at1, out)" "th = Expiry g at1" "new = []"
      using step by (auto split: prod.splits)
    then show ?thesis
      using expiry_step_kind [OF s(1), of log] by (intro orderly_step [OF o i]) auto
  next
    case (Call c)
    then obtain c1 where s: "call_step ok c a = (a1, c1, new, out)" "th = Call c1"
      using step by (auto split: prod.splits)
    show ?thesis
    proof (cases c)
      case (C_Fetch b d')
      with s have x: "a1 = a\<lparr>auth_generation := auth_generation a + 1\<rparr>" "c1 = C_Property b (auth_generation a + 1) d'" "new = []"
        "out = [Drew (auth_generation a + 1)]" by auto
      then have "auth_generation a + 1 \<notin> set (draws log)" using d by auto
      then have "Keepalive (auth_generation a + 1) at \<notin> set (au_threads a)" for at using K by blast
      then show ?thesis using x s(2) Call C_Fetch by (intro orderly_step [OF o i]) auto
    next
      case (C_Property b g d')
      with s have x: "auth_generation a1 = auth_generation a" "c1 = (if b then C_Keepalive g d' else C_End)" "new = []" "draws out = []"
        by (auto simp: set_exempt_def split: if_splits)
      then show ?thesis using s(2) Call C_Property H by (intro orderly_step [OF o i]) (auto split: if_splits)
    next
      case (C_Keepalive g d')
      with s have "a1 = a" "c1 = C_Timer g d'" "new = [Keepalive g K_Start]" "out = []" by auto
      then show ?thesis using s(2) Call C_Keepalive H [of g] by (intro orderly_step [OF o i]) auto
    next
      case (C_Timer g d')
      with s have "auth_generation a1 = auth_generation a" "c1 = C_End" "draws out = []" "\<exists>u. new = [Expiry g (X_Sleep u)]"
        by (auto simp: Let_def)
      then show ?thesis using s(2) by (intro orderly_step [OF o i]) auto
    next
      case C_End
      with s have "a1 = a" "c1 = C_End" "new = []" "out = []" by auto
      then show ?thesis using s(2) by (intro orderly_step [OF o i]) auto
    qed
  qed
qed

lemma hist_thread:
  assumes hist: "auth_hist a log" and i: "i < length (au_threads a)"
    and step: "wthread_step nonce ok (au_threads a ! i) a = (a1, th, new, out)"
  shows "auth_hist (a1\<lparr>au_threads := (au_threads a)[i := th] @ new\<rparr>) (log @ out)"
proof -
  let ?b = "a1\<lparr>au_threads := (au_threads a)[i := th] @ new\<rparr>"
  note now = wthread_step_now [OF step]
  have opened: "opened_ok ?b (log @ out)"
    using hist now unfolding auth_hist_def by (intro opened_ok_step [of a]) auto
  show ?thesis
  proof (cases "astray (log @ out)")
    case False
    then have "\<not> astray log" and d: "distinct (draws (log @ out))" and nf: "Write_Failed False \<notin> set out"
      using astray_append by (auto simp: astray_def)
    with hist have o: "orderly a log" and c: "exempt_prop a \<longrightarrow> (\<exists>j < length (au_threads a). closes a log (au_threads a ! j))"
      by (auto simp: auth_hist_def)
    have held: "g = auth_generation a" if "holds g (au_threads a ! i)" for g
      using o i that unfolding orderly_def by (meson nth_mem)
    have "\<exists>k < length (au_threads ?b). closes ?b (log @ out) (au_threads ?b ! k)" if "exempt_prop ?b"
    proof -
      from wthread_step_kind [OF step held, of log] nf that consider
        "closes a1 (log @ out) th" | y where "y \<in> set new" "closes a1 (log @ out) y"
        | "exempt_prop a" "auth_generation a1 = auth_generation a" "\<not> closes a log (au_threads a ! i)" by auto
      then show ?thesis
      proof cases
        case 1
        with i show ?thesis by (intro exI [of _ i]) (simp add: nth_append)
      next
        case (2 y)
        then obtain k where "k < length new" "y = new ! k" by (auto simp: in_set_conv_nth)
        with 2 show ?thesis by (intro exI [of _ "length (au_threads a) + k"]) (simp add: nth_append)
      next
        case 3
        with c obtain j where j: "j < length (au_threads a)" "closes a log (au_threads a ! j)" by blast
        with 3 have "j \<noteq> i" by auto
        with j 3(2) show ?thesis by (intro exI [of _ j]) (simp add: nth_append closes_mono)
      qed
    qed
    with opened thread_orderly [OF o i d step] show ?thesis unfolding auth_hist_def by blast
  qed (use opened in \<open>simp add: auth_hist_def\<close>)
qed

lemma orderly_more:
  assumes "orderly a log" "au_threads a' = au_threads a @ new" "auth_generation a' = auth_generation a \<or> \<not> list_ex under_way (au_threads a)"
    "\<forall>x \<in> set new. (\<forall>g. \<not> holds g x) \<and> (under_way x \<longrightarrow> new = [x] \<and> \<not> list_ex under_way (au_threads a))"
    "\<And>g at. Keepalive g at \<in> set new \<Longrightarrow> g \<in> set (draws (log @ out)) \<and> \<not> list_ex under_way (au_threads a)"
  shows "orderly a' (log @ out)"
proof -
  let ?ts = "au_threads a"
  have K: "Keepalive g at \<in> set ?ts \<Longrightarrow> g \<in> set (draws log)"
    and U: "j < length ?ts \<Longrightarrow> k < length ?ts \<Longrightarrow> under_way (?ts ! j) \<Longrightarrow> under_way (?ts ! k) \<Longrightarrow> j = k"
    and H: "x \<in> set ?ts \<Longrightarrow> holds g x \<Longrightarrow> g = auth_generation a \<and> g \<in> set (draws log) \<and> (\<forall>at. Keepalive g at \<notin> set ?ts)"
    for g at j k x
    using assms(1) unfolding orderly_def by blast+
  have idle: "\<not> under_way (?ts ! j)" if "\<not> list_ex under_way ?ts" "j < length ?ts" for j
    using that by (auto simp: list_ex_iff)
  show ?thesis
    unfolding orderly_def assms(2)
  proof (intro conjI allI impI)
    fix g at assume "Keepalive g at \<in> set (?ts @ new)"
    then show "g \<in> set (draws (log @ out))" using K assms(5) by auto
  next
    fix j k
    assume jk: "j < length (?ts @ new) \<and> k < length (?ts @ new) \<and> under_way ((?ts @ new) ! j) \<and> under_way ((?ts @ new) ! k)"
    have place: "m < length ?ts \<and> under_way (?ts ! m) \<or> m = length ?ts \<and> \<not> list_ex under_way ?ts"
      if m: "m < length (?ts @ new)" "under_way ((?ts @ new) ! m)" for m
    proof (cases "m < length ?ts")
      case True
      then show ?thesis using m(2) by (simp add: nth_append)
    next
      case False
      then have "(?ts @ new) ! m \<in> set new" using m(1) by (simp add: nth_append)
      with assms(4) m(2) have e: "new = [(?ts @ new) ! m]" "\<not> list_ex under_way ?ts" by blast+
      have "length new = 1" by (subst e(1)) simp
      with e(2) False m(1) show ?thesis by simp
    qed
    from jk have "j < length (?ts @ new)" "under_way ((?ts @ new) ! j)" "k < length (?ts @ new)" "under_way ((?ts @ new) ! k)"
      by blast+
    with place [of j] place [of k] idle U show "j = k" by blast
  next
    fix g x assume x: "x \<in> set (?ts @ new) \<and> holds g x"
    with assms(4) have x': "x \<in> set ?ts" by auto
    then have "list_ex under_way ?ts" using x holds_under_way by (auto simp: list_ex_iff)
    then have "auth_generation a' = auth_generation a" "\<And>at. Keepalive g at \<notin> set new" using assms(3,5) by blast+
    with H x x' show "g = auth_generation a'" "g \<in> set (draws (log @ out))" "Keepalive g at \<notin> set (?ts @ new)" for at by auto
  qed
qed

lemma hist_other:
  assumes "auth_hist a log" "au_threads a' = au_threads a @ new" "au_now a \<le> au_now a'"
    "\<forall>t u. Opened t u \<in> set out \<longrightarrow> t \<le> au_now a' \<and> u \<le> t + 600000"
    "\<not> astray (log @ out) \<Longrightarrow> orderly a log \<Longrightarrow> orderly a' (log @ out)"
    "Write_Failed False \<in> set out \<or> (exempt_prop a' \<longrightarrow>
       exempt_prop a \<and> auth_generation a' = auth_generation a \<or> (\<exists>x \<in> set new. closes a' (log @ out) x))"
  shows "auth_hist a' (log @ out)"
proof -
  have o: "opened_ok a' (log @ out)"
    using assms(1,3,4) unfolding auth_hist_def by (intro opened_ok_step [of a]) auto
  have early: "\<exists>i < length (au_threads a'). closes a' (log @ out) (au_threads a' ! i)"
    if "i < length (au_threads a)" "closes a log (au_threads a ! i)" "auth_generation a' = auth_generation a" for i
    using that assms(2) closes_mono by (intro exI [of _ i]) (simp add: nth_append)
  have late: "\<exists>i < length (au_threads a'). closes a' (log @ out) (au_threads a' ! i)"
    if "x \<in> set new" "closes a' (log @ out) x" for x
  proof -
    from that(1) obtain k where "k < length new" "x = new ! k" by (auto simp: in_set_conv_nth)
    with that(2) assms(2) show ?thesis by (intro exI [of _ "length (au_threads a) + k"]) (simp add: nth_append)
  qed
  show ?thesis
  proof (cases "astray (log @ out)")
    case False
    then have "\<not> astray log" "Write_Failed False \<notin> set out" using astray_append by (auto simp: astray_def)
    then show ?thesis using assms(1,5,6) False o early late unfolding auth_hist_def by blast
  qed (use o in \<open>simp add: auth_hist_def\<close>)
qed

lemma hist_set:
  assumes hist: "auth_hist a log" and step: "auth_on a (A_Set ok b d) = (a', out)"
  shows "auth_hist a' (log @ out)"
proof -
  obtain new where a': "au_threads a' = au_threads a @ new" "au_now a' = au_now a" and
    new: "new = (if b then [Keepalive (auth_generation a + 1) K_Start, Expiry (auth_generation a + 1) (X_Sleep (au_now a + window_secs d * 1000))] else [])"
    and gen: "auth_generation a' = auth_generation a + 1"
    and out: "Drew (auth_generation a + 1) \<in> set out" "Overlaps \<in> set out \<longleftrightarrow> list_ex under_way (au_threads a)"
    using step by (auto simp: setAuthenticated_def set_exempt_def overlap_def Let_def split: if_splits)
  have drew: "Drew g \<in> set l \<Longrightarrow> g \<in> set (draws l)" for g l by (induction l rule: draws.induct) auto
  show ?thesis
  proof (rule hist_other [OF hist a'(1)])
    show "\<forall>t u. Opened t u \<in> set out \<longrightarrow> t \<le> au_now a' \<and> u \<le> t + 600000"
      using step window_secs_range(2) [of d]
      by (auto simp: setAuthenticated_def set_exempt_def overlap_def Let_def split: if_splits)
    show "Write_Failed False \<in> set out \<or> (exempt_prop a' \<longrightarrow>
       exempt_prop a \<and> auth_generation a' = auth_generation a \<or> (\<exists>x \<in> set new. closes a' (log @ out) x))"
    proof (cases b)
      case True
      then have "Opened (au_now a) (au_now a + window_secs d * 1000) \<in> set out"
        using step by (auto simp: setAuthenticated_def set_exempt_def Let_def split: if_splits)
      then have "closes a' (log @ out) (Expiry (auth_generation a + 1) (X_Sleep (au_now a + window_secs d * 1000)))"
        using gen by auto
      then show ?thesis using new True by auto
    next
      case False
      then show ?thesis using step by (auto simp: setAuthenticated_def set_exempt_def Let_def split: if_splits)
    qed
  next
    assume "\<not> astray (log @ out)" "orderly a log"
    moreover from this(1) have "\<not> list_ex under_way (au_threads a)" using out(2) by (auto simp: astray_def)
    ultimately show "orderly a' (log @ out)"
      using drew [OF out(1)] new by (intro orderly_more [OF _ a'(1)]) (auto split: if_splits)
  qed (simp add: a')
qed

lemma other_event:
  assumes "auth_on a e = (a', out)" "\<nexists>ok b d. e = A_Set ok b d" "\<nexists>i nonce ok. e = A_Step i nonce ok"
  shows "\<exists>new. au_threads a' = au_threads a @ new \<and> auth_generation a' = auth_generation a \<and> draws out = [] \<and>
    (new = [] \<or> (\<exists>b d. new = [Call (C_Fetch b d)]) \<and> (Overlaps \<in> set out \<longleftrightarrow> list_ex under_way (au_threads a))) \<and>
    (exempt_prop a' \<longrightarrow> exempt_prop a \<or> Write_Failed False \<in> set out) \<and> au_now a \<le> au_now a' \<and>
    (\<forall>t u. Opened t u \<notin> set out)"
  using assms
  by (cases e) (auto simp: keepUnlocked_def registerCallback_def unregisterCallback_def binder_died_def
    set_exempt_def overlap_def Let_def split: option.splits if_splits)

interpretation auth: history_machine auth_on auth_hist
proof unfold_locales
  fix a log e a' out assume hist: "auth_hist a log" and step: "auth_on a e = (a', out)"
  consider (set) ok b d where "e = A_Set ok b d" | (thread) i nonce ok where "e = A_Step i nonce ok"
    | (other) "\<nexists>ok b d. e = A_Set ok b d" "\<nexists>i nonce ok. e = A_Step i nonce ok" by blast
  then show "auth_hist a' (log @ out)"
  proof cases
    case set
    with hist step show ?thesis by (intro hist_set) auto
  next
    case (thread i nonce ok)
    with hist step show ?thesis by (auto simp: hist_thread split: if_splits prod.splits)
  next
    case other
    from other_event [OF step other] obtain new where n: "au_threads a' = au_threads a @ new" "auth_generation a' = auth_generation a"
      "draws out = []" "new = [] \<or> (\<exists>b d. new = [Call (C_Fetch b d)]) \<and> (Overlaps \<in> set out \<longleftrightarrow> list_ex under_way (au_threads a))"
      "exempt_prop a' \<longrightarrow> exempt_prop a \<or> Write_Failed False \<in> set out" "au_now a \<le> au_now a'" "\<forall>t u. Opened t u \<notin> set out" by blast
    show ?thesis
    proof (rule hist_other [OF hist n(1)])
      assume "\<not> astray (log @ out)" "orderly a log"
      with n show "orderly a' (log @ out)" by (intro orderly_more [OF _ n(1)]) (auto simp: astray_def)
    qed (use n in auto)
  qed
qed

section \<open>Properties\<close>


lemmas auth_simps = auth_start_def setAuthenticated_def set_exempt_def keepUnlocked_def
  registerCallback_def binder_died_def quiescent_def

lemma sample_secs: "window_secs 20 = 20" "window_secs 600 = 600"
  by code_simp+


text \<open>The thread by itself, the clock moving to the end of each of its sleeps.\<close>

fun keepalive_alone :: "nat \<Rightarrow> i64 \<Rightarrow> u64 \<Rightarrow> k_at \<Rightarrow> auth \<Rightarrow> auth \<times> k_at" where
  "keepalive_alone 0 nonce gen at a = (a, at)"
| "keepalive_alone (Suc n) nonce gen at a =
     (let a = (case at of K_Sleep until \<Rightarrow> a\<lparr>au_now := max (au_now a) until\<rparr>
                 | K_Wait until \<Rightarrow> a\<lparr>au_now := max (au_now a) until\<rparr> | _ \<Rightarrow> a);
          (a, at, _) = keepalive_step nonce True gen at a
      in keepalive_alone n nonce gen at a)"

lemma keepalive_alone_end: "keepalive_alone n nonce gen K_End a = (a, K_End)"
  by (induction n) auto

lemma not_three: "\<not> (3 :: u32) \<le> 1"
  by code_simp

text \<open>
  C29: a client that falls silent loses the window. Left alone with a client that answers no challenge,
  the keepalive thread of the current window ends it at its third missed round: 14 seconds after it
  began, or 10 when no client is registered.
\<close>

theorem silent_client_loses_window:
  assumes "auth_generation a = gen"
  shows "\<exists>a'. keepalive_alone 31 nonce gen K_Start a = (a', K_End) \<and> \<not> exempt_prop a' \<and>
    au_now a' = au_now a + (if callbacks a = [] then 10000 else 14000)"
proof -
  have 31: "(31 :: nat) = Suc (Suc (Suc (Suc (Suc (Suc (Suc (Suc (Suc (Suc (Suc (Suc (Suc (Suc (Suc (Suc (Suc (Suc
     (Suc (Suc (Suc (Suc (Suc (Suc (Suc (Suc (Suc (Suc (Suc (Suc (Suc 0))))))))))))))))))))))))))))))"
    by simp
  show ?thesis
    using assms unfolding 31 by (cases "callbacks a") (simp_all add: set_exempt_def keepalive_alone_end max_def not_three)
qed

theorem silent_client_loses_window_witness:
  "\<exists>a'. keepalive_alone 31 5 0 K_Start (auth_start\<lparr>exempt_prop := True, callbacks := [1]\<rparr>) = (a', K_End) \<and>
     \<not> exempt_prop a' \<and> au_now a' = 14000"
  using silent_client_loses_window [of "auth_start\<lparr>exempt_prop := True, callbacks := [1]\<rparr>" 0 5]
  by (simp add: auth_start_def)

text \<open>
  Two overlapping calls can leave the exemption in place with nothing to end it. The client opens a
  window and closes it again; the opening call has drawn its generation but not yet written the property
  when the closing call runs. Its write comes last, its keepalive and its timer find themselves
  superseded, and after any length of time everything is at rest with the property still \<open>1\<close>.
\<close>

theorem overlapping_calls_leave_open:
  "let (a, log) = run auth_on auth_start
       ([A_Call True 600, A_Call False 0, A_Step 0 0 True, A_Step 1 0 True, A_Step 1 0 True,
         A_Step 0 0 True, A_Step 0 0 True, A_Step 0 0 True, A_Step 2 0 True, A_Step 2 0 True,
         A_Time 600000, A_Step 3 0 True, A_Step 3 0 True, A_Time d])
   in exempt_prop a \<and> quiescent a \<and> Write_Failed False \<notin> set log \<and> distinct (draws log)"
  by (simp add: auth_simps overlap_def sample_secs numeral_2_eq_2 numeral_3_eq_3)

definition late_round :: "i64 \<Rightarrow> auth_event list" where
  "late_round nonce = [A_Step 0 nonce True, A_Step 0 nonce True, A_Step 0 nonce True, A_Step 0 nonce True, A_Time 4000,
     A_Step 0 nonce True, A_Step 0 nonce True, A_Step 0 nonce True, A_Step 0 nonce True, A_Time 500, A_Keep nonce, A_Time 500,
     A_Step 0 nonce True]"

definition late_state :: "nat \<Rightarrow> auth" where
  "late_state n = \<lparr> auth_generation = 1, challenge = None, keepalive_strikes = 0, keepalive_ok = False,
     exempt_prop = True, callbacks = [7], death = Some 7, au_now = n,
     au_threads = [Keepalive 1 K_Generation, Expiry 1 (X_Sleep 600000)] \<rparr>"

lemma late_round_state:
  "run auth_on (late_state n) (late_round nonce) = (late_state (n + 5000), [Challenges [7] nonce])"
  by (simp add: late_state_def late_round_def keepUnlocked_def not_three)

text \<open>
  A client that answers every challenge too late keeps its window. The answer misses its round, which
  counts a strike, and then clears the strikes, so the third is never reached: after any number of
  rounds no answer has come in time and the keepalive thread goes on.
\<close>

theorem late_answers_keep_window:
  "let (a, log) = run auth_on auth_start
       ([A_Register True 7, A_Set True True 600, A_Step 0 0 True] @ concat (map late_round nonces))
   in exempt_prop a \<and> \<not> keepalive_ok a \<and> keepalive_strikes a = 0 \<and> au_now a = 5000 * length nonces \<and>
      au_threads a ! 0 = Keepalive 1 K_Generation"
proof -
  have rounds: "fst (run auth_on (late_state n) (concat (map late_round nonces))) = late_state (n + 5000 * length nonces)" for n
  proof (induction nonces arbitrary: n)
    case (Cons x xs)
    show ?case
      using Cons.IH [of "n + 5000"] late_round_state [of n x]
      by (auto simp: run_append algebra_simps split: prod.splits)
  qed simp
  have "fst (run auth_on auth_start [A_Register True 7, A_Set True True 600, A_Step 0 0 True]) = late_state 0"
    by (simp add: auth_simps overlap_def sample_secs late_state_def)
  with rounds [of 0] show ?thesis
    by (auto simp: run_append late_state_def Let_def split: prod.splits)
qed

text \<open>
  Only the client that registered last is watched. The daemon keeps one death recipient, and keeping
  a second one drops the first, so the death of the client that opened the window leaves it open.
\<close>

theorem first_client_unwatched:
  assumes "c \<noteq> c'"
  shows "exempt_prop (fst (run auth_on auth_start
    [A_Register True c, A_Register True c', A_Set True True 600, A_Died True c]))"
  using assms by (auto simp: auth_simps overlap_def Let_def)

theorem first_client_unwatched_witness:
  "exempt_prop (fst (run auth_on auth_start
    [A_Register True 1, A_Register True 2, A_Set True True 600, A_Died True 1]))"
  by (rule first_client_unwatched) simp

end
