(* ===== verification/Radio_Gate.thy ===== *)
theory Radio_Gate
  imports Transfers Awdl_Daemon
begin

text \<open>
  The radio gate (\<open>start_radio_gate\<close> of \<open>sharingd/src/main.rs\<close>): the thread that turns what the sharing
  daemon wants into the property the other daemon polls. A pass of its loop is \<open>gate_pass\<close>. What it reads
  on the way, the clock included, and whether the write of the property succeeds come from outside.
\<close>

section \<open>The loop\<close>

abbreviation (input) WANT_PROP :: string where "WANT_PROP \<equiv> ''tarish.awdl.wanted''"
abbreviation (input) GATE_LINGER :: nat where "GATE_LINGER \<equiv> 30000"

record gate =
  g_applied :: "bool option"
  idle_since :: "nat option"
  ever_busy :: bool
  next_try :: "nat option"
  g_warned :: bool
  failures :: u32
  permitted_last :: "bool option"

definition gate_start :: gate where
  "gate_start = \<lparr> g_applied = None, idle_since = None, ever_busy = False, next_try = None, g_warned = False,
     failures = 0, permitted_last = None \<rparr>"

text \<open>What a pass finds: \<open>gi_clock n\<close> is the n-th reading of the clock in it.\<close>

record gate_input =
  gi_airdrop :: i32
  gi_active :: bool
  gi_transfers :: transfers
  gi_discoverable :: bool
  gi_live :: "rstring option"
  gi_clock :: "nat \<Rightarrow> nat"
  gi_write_ok :: bool

abbreviation (input) MODE_OFF :: i32 where "MODE_OFF \<equiv> 0"
abbreviation (input) MODE_RECEIVE :: i32 where "MODE_RECEIVE \<equiv> 1"
abbreviation (input) MODE_SEND :: i32 where "MODE_SEND \<equiv> 2"
abbreviation (input) MODE_BOTH :: i32 where "MODE_BOTH \<equiv> 3"

definition gate_busy :: "gate_input \<Rightarrow> bool" where
  "gate_busy i \<longleftrightarrow> gi_active i \<or> current_needs_awdl (gi_transfers i) \<or> airdrop_busy (gi_transfers i) \<or>
     gi_discoverable i"

definition want_by_activity :: "gate_input \<Rightarrow> gate \<Rightarrow> bool \<times> gate" where
  "want_by_activity i g =
     (if gate_busy i then (True, g\<lparr>ever_busy := True, idle_since := None\<rparr>)
      else if \<not> ever_busy g then (False, g)
      else let since = (case idle_since g of Some t \<Rightarrow> t | None \<Rightarrow> gi_clock i 0)
           in (gi_clock i 1 - since < GATE_LINGER, g\<lparr>idle_since := Some since\<rparr>))"

definition saturating_add :: "u32 \<Rightarrow> u32 \<Rightarrow> u32" where
  "saturating_add a b = (if unat a + unat b < 2 ^ 32 then a + b else - 1)"

definition want_text :: "bool \<Rightarrow> rstring" where
  "want_text want = (if want then [0x31] else [0x30])"

text \<open>The result of a pass is the gate after it and what it wrote, if a write succeeded.\<close>

definition gate_pass :: "gate_input \<Rightarrow> gate \<Rightarrow> gate \<times> rstring option" where
  "gate_pass i g =
     (let permitted = (gi_airdrop i \<noteq> MODE_OFF);
          g = (if permitted_last g \<noteq> Some permitted then g\<lparr>permitted_last := Some permitted\<rparr> else g);
          (active, g) = want_by_activity i g;
          yielded = wifi_direct_active (gi_transfers i);
          want = (permitted \<and> active \<and> \<not> yielded);
          live = map_option (\<lambda>v. str_trim v \<noteq> [0x30]) (gi_live i);
          needs_write = (live \<noteq> Some want \<or> g_applied g \<noteq> Some want)
      in if needs_write \<and> (case next_try g of None \<Rightarrow> True | Some t \<Rightarrow> t \<le> gi_clock i 2) then
           if gi_write_ok i then
             (g\<lparr>g_applied := Some want, next_try := None, g_warned := False, failures := 0\<rparr>, Some (want_text want))
           else
             let g = g\<lparr>g_warned := True\<rparr>;
                 g = g\<lparr>failures := saturating_add (failures g) 1\<rparr>;
                 wait = min (10 * unat (failures g)) 60
             in (g\<lparr>next_try := Some (gi_clock i 3 + wait * 1000)\<rparr>, None)
         else (g, None))"

section \<open>The property\<close>

text \<open>The loop with the property it writes. Nobody else writes it; what a pass reads is what it holds.\<close>

fun gate_run :: "gate_input list \<Rightarrow> gate \<times> rstring option \<Rightarrow> gate \<times> rstring option" where
  "gate_run [] s = s"
| "gate_run (i # ins) (g, pv) =
     (let (g', w) = gate_pass (i\<lparr>gi_live := pv\<rparr>) g
      in gate_run ins (g', if w = None then pv else w))"

definition gate_want :: "gate_input \<Rightarrow> gate \<Rightarrow> bool" where
  "gate_want i g \<longleftrightarrow> gi_airdrop i \<noteq> MODE_OFF \<and> fst (want_by_activity i g) \<and> \<not> wifi_direct_active (gi_transfers i)"

text \<open>The invariant of the loop: a back-off of at most a minute is pending only after a failure.\<close>

definition gate_inv :: "nat \<Rightarrow> gate \<Rightarrow> bool" where
  "gate_inv now g \<longleftrightarrow> (case next_try g of None \<Rightarrow> True | Some t \<Rightarrow> t \<le> now + 60000)"

lemma want_by_activity_cells:
  "fst (want_by_activity i (g\<lparr>permitted_last := p\<rparr>)) = fst (want_by_activity i g)"
  "g_applied (snd (want_by_activity i g)) = g_applied g" "next_try (snd (want_by_activity i g)) = next_try g"
  "failures (snd (want_by_activity i g)) = failures g"
  by (auto simp: want_by_activity_def Let_def)

lemma gate_want_live: "gate_want (i\<lparr>gi_live := l\<rparr>) g = gate_want i g"
  by (cases "idle_since g") (simp_all add: gate_want_def want_by_activity_def gate_busy_def Let_def)

definition attempts :: "gate_input \<Rightarrow> gate \<Rightarrow> bool" where
  "attempts i g \<longleftrightarrow>
     (map_option (\<lambda>v. str_trim v \<noteq> [0x30]) (gi_live i) \<noteq> Some (gate_want i g) \<or> g_applied g \<noteq> Some (gate_want i g)) \<and>
     (case next_try g of None \<Rightarrow> True | Some t \<Rightarrow> t \<le> gi_clock i 2)"

lemma gate_pass_cells:
  "snd (gate_pass i g) = (if attempts i g \<and> gi_write_ok i then Some (want_text (gate_want i g)) else None)"
  "g_applied (fst (gate_pass i g)) = (if attempts i g \<and> gi_write_ok i then Some (gate_want i g) else g_applied g)"
  "next_try (fst (gate_pass i g)) =
     (if attempts i g then
        if gi_write_ok i then None
        else Some (gi_clock i 3 + min (10 * unat (saturating_add (failures g) 1)) 60 * 1000)
      else next_try g)"
proof -
  let ?p = "gi_airdrop i \<noteq> MODE_OFF"
  let ?g = "if permitted_last g \<noteq> Some ?p then g\<lparr>permitted_last := Some ?p\<rparr> else g"
  obtain active g1 where w: "want_by_activity i ?g = (active, g1)" by fastforce
  have "active = fst (want_by_activity i g)" "g_applied g1 = g_applied g" "next_try g1 = next_try g" "failures g1 = failures g"
    using w want_by_activity_cells(2-4) [where i = i and g = ?g] want_by_activity_cells(1) [where i = i and g = g and p = "Some ?p"] by (auto split: if_splits)
  moreover from this have "(gi_airdrop i \<noteq> MODE_OFF \<and> active \<and> \<not> wifi_direct_active (gi_transfers i)) = gate_want i g"
    by (simp add: gate_want_def)
  ultimately show "snd (gate_pass i g) = (if attempts i g \<and> gi_write_ok i then Some (want_text (gate_want i g)) else None)"
    "g_applied (fst (gate_pass i g)) = (if attempts i g \<and> gi_write_ok i then Some (gate_want i g) else g_applied g)"
    "next_try (fst (gate_pass i g)) =
     (if attempts i g then
        if gi_write_ok i then None
        else Some (gi_clock i 3 + min (10 * unat (saturating_add (failures g) 1)) 60 * 1000)
      else next_try g)"
    unfolding gate_pass_def by (cases "gi_live i"; auto simp: Let_def w attempts_def)+
qed

lemma gate_pass_inv:
  assumes "gate_inv now g" "gi_clock i 3 \<le> now"
  shows "gate_inv now (fst (gate_pass i g))"
  using assms by (auto simp: gate_inv_def gate_pass_cells split: option.splits)

lemma gate_run_inv:
  "gate_inv now g \<Longrightarrow> list_all (\<lambda>i. gi_clock i 3 \<le> now) ins \<Longrightarrow> gate_inv now (fst (gate_run ins (g, pv)))"
proof (induction ins arbitrary: g pv)
  case (Cons i ins)
  then have "gate_inv now (fst (gate_pass (i\<lparr>gi_live := pv\<rparr>) g))" by (intro gate_pass_inv) simp_all
  with Cons show ?case by (auto simp: Let_def split: prod.splits)
qed simp

lemma str_trim_digit: "str_trim [0x30] = [0x30]" "str_trim [0x31] = [0x31]"
  by (rule str_trim_graphic; code_simp)+

text \<open>A pass whose write goes through leaves the property at what was wanted.\<close>

lemma gate_pass_settles:
  assumes "gi_write_ok i" "case next_try g of None \<Rightarrow> True | Some t \<Rightarrow> t \<le> gi_clock i 2"
    and "gate_run [i] (g, pv) = (g', pv')"
  shows "map_option (\<lambda>v. str_trim v \<noteq> [0x30]) pv' = Some (gate_want i g)" "next_try g' = None \<or> next_try g' = next_try g"
proof -
  let ?i = "i\<lparr>gi_live := pv\<rparr>"
  have "pv' = (if attempts ?i g then Some (want_text (gate_want i g)) else pv)"
    "next_try g' = (if attempts ?i g then None else next_try g)"
    using assms(1,3) gate_pass_cells [of ?i g] by (auto simp: Let_def gate_want_live split: prod.splits)
  moreover have "map_option (\<lambda>v. str_trim v \<noteq> [0x30]) pv = Some (gate_want i g)" if "\<not> attempts ?i g"
    using that assms(2) by (cases "next_try g") (auto simp: attempts_def gate_want_live)
  ultimately show "map_option (\<lambda>v. str_trim v \<noteq> [0x30]) pv' = Some (gate_want i g)"
    "next_try g' = None \<or> next_try g' = next_try g"
    by (auto simp: want_text_def str_trim_digit split: if_splits)
qed

section \<open>Properties\<close>

text \<open>
  C30: a Wi-Fi Direct transfer gets the radio. When the hold is up and no failed write is being waited
  out, one pass of the gate and one round of the other daemon that reads the property take the AWDL link
  down, whatever else asks for it.
\<close>

theorem hold_takes_link_down:
  assumes "wifi_direct_active (gi_transfers i)" "gi_write_ok i"
    and "case next_try g of None \<Rightarrow> True | Some t \<Rightarrow> t \<le> gi_clock i 2"
    and "gate_run [i] (g, pv) = (g', pv')"
    and "read_property w WANT_PROP = pv'" "\<not> d_panicked d"
  shows "\<not> d_link (tick pf w d)"
proof -
  have "\<not> gate_want i g" using assms(1) by (simp add: gate_want_def)
  then have "\<not> wants_radio w"
    using gate_pass_settles(1) [OF assms(2-4)] assms(5) by (auto simp: wants_radio_def)
  then show ?thesis
    using assms(6) by (auto simp: tick_def tick_link_def Let_def)
qed

text \<open>
  A failed write is made good. After any history of passes and failures, a pass a minute or more
  after the last one whose write succeeds leaves the property at what is wanted then.
\<close>

theorem gate_recovers:
  assumes "list_all (\<lambda>i. gi_clock i 3 \<le> now) ins" "now + 60000 \<le> gi_clock i 2" "gi_write_ok i"
    and "gate_run ins (gate_start, pv) = (g, pv1)" "gate_run [i] (g, pv1) = (g2, pv2)"
  shows "map_option (\<lambda>v. str_trim v \<noteq> [0x30]) pv2 = Some (gate_want i g)"
proof -
  have "gate_inv now gate_start" by (simp add: gate_inv_def gate_start_def)
  from gate_run_inv [OF this assms(1), of pv] assms(2,4)
  have "case next_try g of None \<Rightarrow> True | Some t \<Rightarrow> t \<le> gi_clock i 2"
    by (auto simp: gate_inv_def split: option.splits)
  then show ?thesis by (rule gate_pass_settles(1) [OF assms(3) _ assms(5)])
qed

text \<open>A pass of a foreground app at a given time, and one with a Wi-Fi Direct hold besides.\<close>

definition sample_input :: "nat \<Rightarrow> bool \<Rightarrow> bool \<Rightarrow> gate_input" where
  "sample_input now held ok = \<lparr> gi_airdrop = MODE_BOTH, gi_active = True,
     gi_transfers = transfers_default\<lparr>wifi_direct_active := held\<rparr>, gi_discoverable = False, gi_live = None,
     gi_clock = (\<lambda>_. now), gi_write_ok = ok \<rparr>"

lemma gate_step_eq:
  "gate_run [i] (g, pv) =
     (fst (gate_pass (i\<lparr>gi_live := pv\<rparr>) g),
      if snd (gate_pass (i\<lparr>gi_live := pv\<rparr>) g) = None then pv else snd (gate_pass (i\<lparr>gi_live := pv\<rparr>) g))"
  by (simp add: Let_def split: prod.splits)

theorem gate_recovers_witness:
  "map_option (\<lambda>v. str_trim v \<noteq> [0x30])
     (snd (gate_run [sample_input 90000 False True] (gate_run [sample_input 0 False False] (gate_start, Some [0x30])))) = Some True"
proof -
  obtain g pv1 where 1: "gate_run [sample_input 0 False False] (gate_start, Some [0x30]) = (g, pv1)" by fastforce
  obtain g2 pv2 where 2: "gate_run [sample_input 90000 False True] (g, pv1) = (g2, pv2)" by fastforce
  have "gate_want (sample_input 90000 False True) g"
    by (simp add: gate_want_def sample_input_def want_by_activity_def gate_busy_def transfers_default_def)
  with gate_recovers [OF _ _ _ 1 2, of 0] 1 2 show ?thesis by (simp add: sample_input_def)
qed

theorem hold_takes_link_down_witness:
  "\<not> d_link (tick (undefined :: unit platform)
      \<lparr> w_props = (\<lambda>_. [0x30]), w_later = (\<lambda>_. [0x30]), w_file = (\<lambda>_. None), w_exists = (\<lambda>_. False), w_clock = (\<lambda>_. 0),
        w_start = (\<lambda>_ _ _ _. False), w_blind = None, w_upper = (\<lambda>s. s), w_set = True, w_kernel = (\<lambda>k. k) \<rparr>
      ((daemon_start () 0)\<lparr>d_link := True\<rparr>))"
proof -
  let ?i = "sample_input 0 True True"
  have "gate_run [?i] (gate_start, None) = (fst (gate_run [?i] (gate_start, None)), Some [0x30])"
    by (auto simp: gate_step_eq gate_pass_def sample_input_def gate_start_def want_by_activity_def gate_busy_def want_text_def Let_def)
  moreover have "utf8_valid [0x30]" by code_simp
  ultimately show ?thesis
    by (intro hold_takes_link_down [where i = ?i and g = gate_start and pv = None and pv' = "Some [0x30]"])
      (auto simp: sample_input_def gate_start_def read_property_def from_utf8_def daemon_start_def transfers_default_def)
qed

end
