(* ===== verification/Inbox.thy ===== *)
theory Inbox
  imports Rust_Text Rust_Io "HOL-Library.List_Lexorder"
begin

text \<open>
  The inbox of the AirDrop server and the names in it (\<open>safe_leaf\<close>, \<open>display_safe\<close>, \<open>non_clobbering\<close>,
  \<open>create_unique\<close>, \<open>inbox_path\<close>, \<open>received_files\<close>, \<open>open_received\<close>, \<open>delete_received\<close> of
  \<open>sharingd/src/httpd.rs\<close>). A name inside an archive, in an offer or from a client is not to be trusted; the
  lemmas show that it never leads out of the inbox and never replaces a file. The file system is the map
  from paths to contents.
\<close>

section \<open>Text\<close>

definition is_control :: "nat \<Rightarrow> bool" where
  "is_control c \<longleftrightarrow> c < 0x20 \<or> 0x7F \<le> c \<and> c \<le> 0x9F"

definition is_directional :: "nat \<Rightarrow> bool" where
  "is_directional c \<longleftrightarrow> 0x202A \<le> c \<and> c \<le> 0x202E \<or> 0x2066 \<le> c \<and> c \<le> 0x2069 \<or> c = 0x200E \<or> c = 0x200F \<or>
     c = 0x061C"

definition display_safe :: "rstring \<Rightarrow> bool" where
  "display_safe s \<longleftrightarrow> \<not> list_ex (\<lambda>c. c = 0 \<or> is_control c \<or> is_directional c) (chars s)"

text \<open>\<open>rsplit\<close> at any of the given characters, its first piece; \<open>rsplit_once\<close>; \<open>ends_with\<close>; \<open>format!("{n}")\<close>.\<close>

definition last_piece :: "u8 list \<Rightarrow> rstring \<Rightarrow> rstring" where
  "last_piece ds s = rev (takeWhile (\<lambda>b. b \<notin> set ds) (rev s))"

definition rsplit_once :: "u8 \<Rightarrow> rstring \<Rightarrow> (rstring \<times> rstring) option" where
  "rsplit_once d s =
     (if d \<in> set s then Some (take (length s - length (last_piece [d] s) - 1) s, last_piece [d] s) else None)"

definition ends_with :: "rstring \<Rightarrow> rstring \<Rightarrow> bool" where
  "ends_with s t \<longleftrightarrow> length t \<le> length s \<and> drop (length s - length t) s = t"

fun nat_str :: "nat \<Rightarrow> rstring" where
  "nat_str n = (if n < 10 then [word_of_nat (0x30 + n)] else nat_str (n div 10) @ [word_of_nat (0x30 + n mod 10)])"

declare nat_str.simps [simp del]

section \<open>Names\<close>

abbreviation (input) SLASH :: u8 where "SLASH \<equiv> 0x2F"
abbreviation (input) BACKSLASH :: u8 where "BACKSLASH \<equiv> 0x5C"

definition safe_leaf :: "rstring \<Rightarrow> rstring option" where
  "safe_leaf entry =
     (let leaf = str_trim (last_piece [SLASH, BACKSLASH] entry)
      in if leaf = [] \<or> leaf = str ''.'' \<or> leaf = str ''..'' then None
         else if \<not> display_safe leaf then None
         else Some leaf)"

definition INBOX :: rstring where
  "INBOX = str ''/data/misc/tarish/inbox''"

definition inbox_path :: "rstring \<Rightarrow> io_error + rstring" where
  "inbox_path name =
     (case safe_leaf name of
        Some leaf \<Rightarrow> if ends_with leaf (str ''.cpio'') then Inl Io_InvalidInput else Inr (INBOX @ [SLASH] @ leaf)
      | None \<Rightarrow> Inl Io_InvalidInput)"

function clobber_loop :: "(rstring \<Rightarrow> bool) \<Rightarrow> rstring \<Rightarrow> rstring \<Rightarrow> rstring \<Rightarrow> rstring \<Rightarrow> nat \<Rightarrow> rstring" where
  "clobber_loop present dir stem ext candidate n =
     (if present candidate then
        let candidate = dir @ [SLASH] @ stem @ str '' ('' @ nat_str n @ str '')'' @ ext;
            n = n + 1
        in if n > 9999 then candidate else clobber_loop present dir stem ext candidate n
      else candidate)"
  by pat_completeness auto
termination
  by (relation "measure (\<lambda>(_, _, _, _, _, n). 10000 - n)") auto

declare clobber_loop.simps [simp del]

definition non_clobbering :: "(rstring \<Rightarrow> bool) \<Rightarrow> rstring \<Rightarrow> rstring \<Rightarrow> rstring" where
  "non_clobbering present dir leaf =
     (let (stem, ext) = (case rsplit_once 0x2E leaf of
            Some (s, e) \<Rightarrow> if s \<noteq> [] then (s, 0x2E # e) else (leaf, [])
          | None \<Rightarrow> (leaf, []))
      in clobber_loop present dir stem ext (dir @ [SLASH] @ leaf) 1)"

section \<open>Files\<close>

type_synonym files = "rstring \<rightharpoonup> bytes"

text \<open>\<open>create_new\<close>: an existing file is an error. \<open>fault\<close> is the error of the open itself, if there is one.\<close>

definition create_new :: "nat option \<Rightarrow> rstring \<Rightarrow> files \<Rightarrow> (io_error + unit) \<times> files" where
  "create_new fault path fs =
     (case fault of
        Some e \<Rightarrow> (Inl (Io_Other e), fs)
      | None \<Rightarrow> if fs path \<noteq> None then (Inl Io_AlreadyExists, fs) else (Inr (), fs(path \<mapsto> [])))"

text \<open>\<open>draw\<close> is what \<open>getrandom\<close> gives: eight bytes, or nothing.\<close>

definition random_hex :: "bytes option \<Rightarrow> rstring" where
  "random_hex draw = (case draw of Some b \<Rightarrow> concat (map hex_lower b) | None \<Rightarrow> str ''getrandom-failed'')"

fun unique_loop :: "(bytes option \<times> nat option) list \<Rightarrow> rstring \<Rightarrow> rstring \<Rightarrow> files \<Rightarrow> (io_error + rstring) \<times> files" where
  "unique_loop [] dir ext fs = (Inl Io_AlreadyExists, fs)"
| "unique_loop ((draw, fault) # draws) dir ext fs =
     (let path = dir @ [SLASH] @ random_hex draw @ [0x2E] @ ext
      in case create_new fault path fs of
           (Inr (), fs') \<Rightarrow> (Inr path, fs')
         | (Inl e, fs') \<Rightarrow> if e = Io_AlreadyExists then unique_loop draws dir ext fs' else (Inl e, fs'))"

definition create_unique :: "(bytes option \<times> nat option) list \<Rightarrow> rstring \<Rightarrow> rstring \<Rightarrow> files \<Rightarrow> (io_error + rstring) \<times> files" where
  "create_unique draws dir ext fs = unique_loop (take 8 draws) dir ext fs"

text \<open>
  \<open>entries\<close> is what the directory listing yields: each name as the raw bytes of an entry, or an error,
  which \<open>flatten\<close> skips. The listing itself may fail.
\<close>

definition received_files :: "(nat + (nat + bytes) list) \<Rightarrow> rstring list" where
  "received_files listing =
     (case listing of
        Inl _ \<Rightarrow> []
      | Inr entries \<Rightarrow>
          sort
            (filter (\<lambda>n. \<not> ends_with n (str ''.cpio''))
              (map from_utf8_lossy (concat (map (\<lambda>e. case e of Inr b \<Rightarrow> [b] | Inl _ \<Rightarrow> []) entries)))))"

definition open_received :: "rstring \<Rightarrow> files \<Rightarrow> io_error + bytes" where
  "open_received name fs =
     (case inbox_path name of
        Inl e \<Rightarrow> Inl e
      | Inr path \<Rightarrow> case fs path of Some b \<Rightarrow> Inr b | None \<Rightarrow> Inl (Io_Other 2))"

definition delete_received :: "rstring \<Rightarrow> files \<Rightarrow> (io_error + unit) \<times> files" where
  "delete_received name fs =
     (case inbox_path name of
        Inl e \<Rightarrow> (Inl e, fs)
      | Inr path \<Rightarrow> if fs path = None then (Inl (Io_Other 2), fs) else (Inr (), fs(path := None)))"

section \<open>What a leaf is\<close>

text \<open>A name that stays where it is put, and reads as what it is.\<close>

definition plain_leaf :: "rstring \<Rightarrow> bool" where
  "plain_leaf leaf \<longleftrightarrow> leaf \<noteq> [] \<and> SLASH \<notin> set leaf \<and> leaf \<noteq> str ''.'' \<and> leaf \<noteq> str ''..''"

lemma last_piece_free: "d \<in> set ds \<Longrightarrow> d \<notin> set (last_piece ds s)"
  by (auto simp: last_piece_def dest: set_takeWhileD)

lemma last_piece_suffix: "\<exists>pre. s = pre @ last_piece ds s \<and> (pre \<noteq> [] \<longrightarrow> last pre \<in> set ds)"
proof (intro exI conjI impI)
  let ?p = "\<lambda>b. b \<notin> set ds"
  let ?pre = "rev (dropWhile ?p (rev s))"
  have "rev (takeWhile ?p (rev s) @ dropWhile ?p (rev s)) = s" by (simp only: takeWhile_dropWhile_id rev_rev_ident)
  then show "s = ?pre @ last_piece ds s" by (simp only: last_piece_def rev_append)
  assume "?pre \<noteq> []"
  then show "last ?pre \<in> set ds" using hd_dropWhile [of ?p "rev s"] by (simp add: last_rev)
qed

lemma last_piece_valid:
  assumes "utf8_valid s" "list_all (\<lambda>d. d < 0x80) ds"
  shows "utf8_valid (last_piece ds s)"
proof -
  obtain pre where s: "s = pre @ last_piece ds s" and pre: "pre \<noteq> [] \<longrightarrow> last pre \<in> set ds"
    using last_piece_suffix by blast
  show ?thesis
  proof (cases "pre = []")
    case False
    with pre assms(2) have d: "last pre < 0x80" by (auto simp: list_all_iff)
    then have "\<not> is_cont (last pre)" by (auto simp: is_cont_def word_le_nat_alt word_less_nat_alt)
    moreover have s2: "s = butlast pre @ (last pre # last_piece ds s)" using False s by (metis append.assoc append_Cons append_Nil append_butlast_last_id)
    ultimately have v: "utf8_valid (last pre # last_piece ds s)"
      using utf8_valid_split [of "butlast pre" "last pre # last_piece ds s"] assms(1) by auto
    have "utf8_char (last pre # last_piece ds s) = (True, 1)" using d by (simp add: utf8_char_def byte_at_def)
    with v show ?thesis by (subst (asm) utf8_valid.simps) simp
  qed (use s assms in auto)
qed

lemma str_trim_subset:
  assumes "utf8_valid s"
  shows "set (str_trim s) \<subseteq> set s"
proof -
  have "set (rev (dropWhile is_whitespace (rev (dropWhile is_whitespace (chars s))))) \<subseteq> set (chars s)"
    by (metis (no_types, lifting) order_trans set_dropWhileD set_rev subsetI)
  then have "set (str_trim s) \<subseteq> set (concat (map utf8_encode (chars s)))"
    unfolding str_trim_def by fastforce
  with chars_valid [OF assms] show ?thesis by simp
qed

lemma safe_leaf_plain:
  assumes "utf8_valid name" "safe_leaf name = Some leaf"
  shows "plain_leaf leaf" "BACKSLASH \<notin> set leaf" "display_safe leaf"
proof -
  let ?p = "last_piece [SLASH, BACKSLASH] name"
  have leaf: "leaf = str_trim ?p" and rest: "leaf \<noteq> []" "leaf \<noteq> str ''.''" "leaf \<noteq> str ''..''" "display_safe leaf"
    using assms(2) by (auto simp: safe_leaf_def Let_def split: if_splits)
  have "utf8_valid ?p" using assms(1) by (rule last_piece_valid) (simp add: word_less_nat_alt)
  then have sub: "set leaf \<subseteq> set ?p" unfolding leaf by (rule str_trim_subset)
  with rest show "plain_leaf leaf" "BACKSLASH \<notin> set leaf" "display_safe leaf"
    unfolding plain_leaf_def using last_piece_free [of _ "[SLASH, BACKSLASH]" name] by auto
qed

lemma nat_str_digits: "b \<in> set (nat_str n) \<Longrightarrow> 0x30 \<le> unat b \<and> unat b \<le> 0x39"
proof (induction n rule: nat_str.induct)
  case (1 n)
  have d: "unat (word_of_nat (0x30 + k) :: u8) = 0x30 + k" if "k < 10" for k
    using that by (simp only: unat_of_nat) simp
  from 1 show ?case by (subst (asm) nat_str.simps) (auto simp: d simp del: of_nat_add of_nat_numeral split: if_splits)
qed

lemma nat_str_no_slash: "SLASH \<notin> set (nat_str n)"
  using nat_str_digits [of SLASH n] by auto

text \<open>What the loop of \<open>non_clobbering\<close> ends with.\<close>

definition clobber_name :: "rstring \<Rightarrow> rstring \<Rightarrow> rstring \<Rightarrow> nat \<Rightarrow> rstring" where
  "clobber_name dir stem ext n = dir @ [SLASH] @ stem @ str '' ('' @ nat_str n @ str '')'' @ ext"

lemma clobber_loop_result:
  assumes "n \<le> 9999" "clobber_loop present dir stem ext candidate n = r"
  shows "(r = candidate \<or> (\<exists>k. r = clobber_name dir stem ext k)) \<and>
    (present r \<longrightarrow> present candidate \<and> (\<forall>k. n \<le> k \<and> k < 9999 \<longrightarrow> present (clobber_name dir stem ext k)))"
  using assms
proof (induction present dir stem ext candidate n rule: clobber_loop.induct)
  case (1 present dir stem ext candidate n)
  let ?c = "clobber_name dir stem ext n"
  show ?case
  proof (cases "present candidate \<and> n + 1 \<le> 9999")
    case True
    with 1 have IH: "(r = ?c \<or> (\<exists>k. r = clobber_name dir stem ext k)) \<and>
      (present r \<longrightarrow> present ?c \<and> (\<forall>k. n + 1 \<le> k \<and> k < 9999 \<longrightarrow> present (clobber_name dir stem ext k)))"
      by (subst (asm) (2) clobber_loop.simps) (auto simp: clobber_name_def Let_def)
    moreover have "k = n \<or> n + 1 \<le> k" if "n \<le> k" for k using that by auto
    ultimately show ?thesis using True by blast
  next
    case False
    with "1.prems" show ?thesis
      by (subst (asm) clobber_loop.simps) (auto simp: clobber_name_def Let_def split: if_splits)
  qed
qed

lemma stem_ext_subset:
  assumes "rsplit_once d s = Some (a, b)"
  shows "set a \<subseteq> set s" "set b \<subseteq> set s"
  using assms last_piece_suffix [of s "[d]"]
  by (auto simp: rsplit_once_def split: if_splits dest: in_set_takeD)

lemma non_clobbering_plain:
  assumes "plain_leaf leaf"
  shows "\<exists>leaf'. non_clobbering present dir leaf = dir @ [SLASH] @ leaf' \<and> plain_leaf leaf'"
proof -
  obtain stem ext where se: "(case rsplit_once 0x2E leaf of
      Some (s, e) \<Rightarrow> if s \<noteq> [] then (s, 0x2E # e) else (leaf, []) | None \<Rightarrow> (leaf, [])) = (stem, ext)"
    by fastforce
  have free: "SLASH \<notin> set stem" "SLASH \<notin> set ext"
    using se assms stem_ext_subset [of "0x2E" leaf] unfolding plain_leaf_def
    by (auto split: option.splits prod.splits if_splits)
  have "plain_leaf (stem @ str '' ('' @ nat_str k @ str '')'' @ ext)" for k
  proof -
    have "(0x20 :: u8) \<in> set (stem @ str '' ('' @ nat_str k @ str '')'' @ ext)" by (simp add: str_def)
    moreover have "(0x20 :: u8) \<notin> set (str ''.'')" "(0x20 :: u8) \<notin> set (str ''..'')" by (simp_all add: str_def)
    ultimately show ?thesis
      using free nat_str_no_slash unfolding plain_leaf_def by (auto simp: str_def)
  qed
  then show ?thesis
    using clobber_loop_result [of 1 present dir stem ext "dir @ [SLASH] @ leaf"] assms
    by (auto simp: non_clobbering_def se clobber_name_def)
qed

section \<open>Properties\<close>

text \<open>
  C31: no name leads out of the inbox. Whatever name a client asks for, the path it becomes is one entry
  directly in the inbox: no separator, not the directory itself or its parent, no control character and
  no character that changes the direction of text, and not an archive being received.
\<close>

theorem inbox_never_left:
  assumes "utf8_valid name" "inbox_path name = Inr p"
  shows "\<exists>leaf. p = INBOX @ [SLASH] @ leaf \<and> plain_leaf leaf \<and> display_safe leaf \<and>
    \<not> ends_with leaf (str ''.cpio'')"
  using assms safe_leaf_plain [of name] by (auto simp: inbox_path_def split: option.splits if_splits)

theorem inbox_never_left_witness:
  "\<exists>p leaf. inbox_path (str ''../../a.jpg'') = Inr p \<and> p = INBOX @ [SLASH] @ leaf \<and> plain_leaf leaf"
proof -
  let ?n = "str ''../../a.jpg''"
  have leaf: "last_piece [SLASH, BACKSLASH] ?n = str ''a.jpg''" "list_all is_ascii_graphic (str ''a.jpg'')"
    "\<not> ends_with (str ''a.jpg'') (str ''.cpio'')" "utf8_valid ?n" "list_all (\<lambda>b. b < 0x80) (str ''a.jpg'')"
    by code_simp+
  then have "display_safe (str ''a.jpg'')"
    by (simp add: display_safe_def chars_ascii) (simp add: str_def is_control_def is_directional_def)
  with leaf have "inbox_path ?n = Inr (INBOX @ [SLASH] @ str ''a.jpg'')"
    by (simp add: inbox_path_def safe_leaf_def str_trim_graphic) (simp add: str_def)
  with leaf inbox_never_left [of ?n] show ?thesis by blast
qed

text \<open>
  C32: a received file never takes the place of another. The name it gets is one entry of the directory,
  it is created only where there is no file, and it exists already only if ten thousand names of that
  form do, in which case the creation fails.
\<close>

theorem received_never_overwrites:
  assumes "plain_leaf leaf" "non_clobbering (\<lambda>p. fs p \<noteq> None) dir leaf = p" "create_new fault p fs = (r, fs')"
  shows "(\<exists>leaf'. p = dir @ [SLASH] @ leaf' \<and> plain_leaf leaf') \<and> fs \<subseteq>\<^sub>m fs' \<and>
    (r = Inl Io_AlreadyExists \<longrightarrow> fs (dir @ [SLASH] @ leaf) \<noteq> None \<and>
       (\<exists>stem ext. \<forall>k. 1 \<le> k \<and> k < 9999 \<longrightarrow> fs (clobber_name dir stem ext k) \<noteq> None))"
proof -
  let ?x = "\<lambda>p. fs p \<noteq> None"
  obtain stem ext where p: "clobber_loop ?x dir stem ext (dir @ [SLASH] @ leaf) 1 = p"
    using assms(2) unfolding non_clobbering_def by (auto split: prod.splits)
  have "fs \<subseteq>\<^sub>m fs'" using assms(3) by (auto simp: create_new_def map_le_def split: option.splits if_splits)
  moreover have "?x p" if "r = Inl Io_AlreadyExists"
    using assms(3) that by (auto simp: create_new_def split: option.splits if_splits)
  ultimately show ?thesis
    using clobber_loop_result [OF _ p] non_clobbering_plain [OF assms(1), of ?x dir] assms(2) by auto
qed

theorem received_never_overwrites_witness:
  "\<exists>leaf'. non_clobbering (\<lambda>p. [INBOX \<mapsto> [1 :: u8]] p \<noteq> None) INBOX (str ''a.jpg'') =
     INBOX @ [SLASH] @ leaf' \<and> plain_leaf leaf'"
proof -
  let ?fs = "[INBOX \<mapsto> [1 :: u8]]"
  have leaf: "plain_leaf (str ''a.jpg'')" by code_simp
  obtain r fs' where new: "create_new None (non_clobbering (\<lambda>p. ?fs p \<noteq> None) INBOX (str ''a.jpg'')) ?fs = (r, fs')"
    by fastforce
  show ?thesis by (rule received_never_overwrites [OF leaf refl new, THEN conjunct1])
qed

end
