(* ===== verification/Http.thy ===== *)
theory Http
  imports Inbox
begin

text \<open>
  The HTTP of the AirDrop server (\<open>read_head\<close>, \<open>header\<close>, \<open>read_body\<close>, \<open>read_chunked\<close>, \<open>read_line\<close>,
  \<open>stream_chunked\<close>, \<open>stream_exact\<close>, \<open>respond\<close>, \<open>drain\<close> of \<open>sharingd/src/httpd.rs\<close>): everything here reads what any
  device on the link sends. A connection is a source that delivers in pieces and may fail. The addition
  of two lengths panics when it leaves the range of \<open>usize\<close>.
\<close>

section \<open>Text\<close>

abbreviation (input) LF :: u8 where "LF \<equiv> 0x0A"
abbreviation (input) CR :: u8 where "CR \<equiv> 0x0D"

text \<open>\<open>str::lines\<close>: a line feed ends a line, a carriage return before it is dropped with it.\<close>

fun lines_from :: "rstring \<Rightarrow> rstring \<Rightarrow> rstring list" where
  "lines_from acc [] = (if acc = [] then [] else [acc])"
| "lines_from acc (b # bs) =
     (if b = LF then (if acc \<noteq> [] \<and> last acc = CR then butlast acc else acc) # lines_from [] bs
      else lines_from (acc @ [b]) bs)"

definition str_lines :: "rstring \<Rightarrow> rstring list" where
  "str_lines s = lines_from [] s"

definition split_once :: "u8 \<Rightarrow> rstring \<Rightarrow> (rstring \<times> rstring) option" where
  "split_once d s =
     (if d \<in> set s then Some (takeWhile (\<lambda>b. b \<noteq> d) s, tl (dropWhile (\<lambda>b. b \<noteq> d) s)) else None)"

definition ascii_lower :: "u8 \<Rightarrow> u8" where
  "ascii_lower b = (if 0x41 \<le> b \<and> b \<le> 0x5A then b + 0x20 else b)"

definition eq_ignore_ascii_case :: "rstring \<Rightarrow> rstring \<Rightarrow> bool" where
  "eq_ignore_ascii_case a b \<longleftrightarrow> map ascii_lower a = map ascii_lower b"

fun str_contains :: "rstring \<Rightarrow> rstring \<Rightarrow> bool" where
  "str_contains s [] = True"
| "str_contains [] (_ # _) = False"
| "str_contains (b # s) t = (take (length t) (b # s) = t \<or> str_contains s t)"

definition http_header :: "rstring \<Rightarrow> rstring \<Rightarrow> rstring option" where
  "http_header head name =
     (case filter (\<lambda>l. case split_once 0x3A l of
                     Some (k, _) \<Rightarrow> eq_ignore_ascii_case (str_trim k) name | None \<Rightarrow> False) (str_lines head) of
        [] \<Rightarrow> None
      | l # _ \<Rightarrow> map_option (\<lambda>(_, v). str_trim v) (split_once 0x3A l))"

text \<open>\<open>usize::from_str_radix(s, 16)\<close>: a sign, then digits; nothing at all and a value out of range are errors.\<close>

definition hex_val :: "u8 \<Rightarrow> nat option" where
  "hex_val b =
     (if is_digit b then Some (unat b - 0x30)
      else if 0x61 \<le> b \<and> b \<le> 0x66 then Some (unat b - 0x61 + 10)
      else if 0x41 \<le> b \<and> b \<le> 0x46 then Some (unat b - 0x41 + 10)
      else None)"

fun hex_digits :: "nat \<Rightarrow> rstring \<Rightarrow> nat option" where
  "hex_digits n [] = Some n"
| "hex_digits n (b # bs) =
     (case hex_val b of
        Some v \<Rightarrow> if 16 * n + v < 2 ^ 64 then hex_digits (16 * n + v) bs else None
      | None \<Rightarrow> None)"

definition from_hex :: "rstring \<Rightarrow> nat option" where
  "from_hex s =
     (case s of
        [] \<Rightarrow> None
      | b # bs \<Rightarrow> if b = 0x2B then (if bs = [] then None else hex_digits 0 bs) else hex_digits 0 s)"

section \<open>Reading\<close>

abbreviation (input) MAX_HEAD :: nat where "MAX_HEAD \<equiv> 16384"
abbreviation (input) MAX_BODY :: nat where "MAX_BODY \<equiv> 8388608"
abbreviation (input) MAX_UPLOAD_BYTES :: nat where "MAX_UPLOAD_BYTES \<equiv> 8589934592"

function head_loop :: "bytes \<Rightarrow> source \<Rightarrow> (io_error + rstring) \<times> source" where
  "head_loop buf s =
     (if length buf < MAX_HEAD then
        (case src_read 1 s of
           (Inl e, s) \<Rightarrow> (Inl e, s)
         | (Inr [], s) \<Rightarrow> (Inl (Io_InvalidData 0), s)
         | (Inr (b # _), s) \<Rightarrow>
             if ends_with (buf @ [b]) [CR, LF, CR, LF] then (Inr (from_utf8_lossy (buf @ [b])), s)
             else head_loop (buf @ [b]) s)
      else (Inl (Io_InvalidData 0), s))"
  by pat_completeness auto
termination
  by (relation "measure (\<lambda>(buf, _). MAX_HEAD - length buf)") auto

declare head_loop.simps [simp del]

definition read_head :: "source \<Rightarrow> (io_error + rstring) \<times> source" where
  "read_head s = head_loop [] s"

definition pop_cr :: "bytes \<Rightarrow> bytes" where
  "pop_cr buf = rev (dropWhile (\<lambda>b. b = CR) (rev buf))"

function line_loop :: "bytes \<Rightarrow> source \<Rightarrow> rstring option \<times> source" where
  "line_loop buf s =
     (if length buf < 256 then
        (case src_read 1 s of
           (Inl e, s) \<Rightarrow> (None, s)
         | (Inr [], s) \<Rightarrow> (None, s)
         | (Inr (b # _), s) \<Rightarrow>
             if b = LF then (Some (from_utf8_lossy (pop_cr buf)), s) else line_loop (buf @ [b]) s)
      else (None, s))"
  by pat_completeness auto
termination
  by (relation "measure (\<lambda>(buf, _). 256 - length buf)") auto

declare line_loop.simps [simp del]

definition read_line :: "source \<Rightarrow> rstring option \<times> source" where
  "read_line s = line_loop [] s"

function exact_loop :: "nat \<Rightarrow> bytes \<Rightarrow> source \<Rightarrow> bytes \<times> source" where
  "exact_loop len got s =
     (if length got < len then
        (case src_read (len - length got) s of
           (Inl e, s) \<Rightarrow> (got, s)
         | (Inr [], s) \<Rightarrow> (got, s)
         | (Inr (b # bs), s) \<Rightarrow> exact_loop len (got @ b # bs) s)
      else (got, s))"
  by pat_completeness auto
termination
  by (relation "measure (\<lambda>(len, got, _). len - length got)") auto

declare exact_loop.simps [simp del]

definition read_exact_bounded :: "nat \<Rightarrow> source \<Rightarrow> bytes \<times> source" where
  "read_exact_bounded len s = (if len = 0 then ([], s) else exact_loop len [] s)"

lemma line_loop_size: "line_loop buf s = (res, s') \<Longrightarrow> src_size s' \<le> src_size s \<and> (res \<noteq> None \<longrightarrow> src_size s' < src_size s)"
proof (induction buf s rule: line_loop.induct)
  case (1 buf s)
  show ?case
  proof (cases "length buf < 256")
    case True
    obtain r s1 where r: "src_read 1 s = (r, s1)" by fastforce
    show ?thesis
    proof (cases r)
      case (Inr bs)
      show ?thesis
      proof (cases bs)
        case (Cons b cs)
        from r Inr Cons src_read_size [OF r] have less: "src_size s1 < src_size s" by (cases s) auto
        show ?thesis
        proof (cases "b = LF")
          case False
          from "1.IH" [OF True r [symmetric] Inr Cons False] "1.prems" True r Inr Cons False less show ?thesis
            by (subst (asm) (2) line_loop.simps) auto
        qed (use "1.prems" True r Inr Cons less in \<open>subst (asm) line_loop.simps, auto\<close>)
      qed (use "1.prems" True r Inr src_read_size_le [OF r] in \<open>subst (asm) line_loop.simps, auto\<close>)
    qed (use "1.prems" True r src_read_size_le [OF r] in \<open>subst (asm) line_loop.simps, auto\<close>)
  qed (use "1.prems" in \<open>subst (asm) line_loop.simps, auto\<close>)
qed

lemma read_line_size: "read_line s = (res, s') \<Longrightarrow> src_size s' \<le> src_size s" "read_line s = (Some l, s') \<Longrightarrow> src_size s' < src_size s"
  using line_loop_size [of "[]" s] by (auto simp: read_line_def)

lemma exact_loop_size: "exact_loop len got s = (res, s') \<Longrightarrow> src_size s' \<le> src_size s"
proof (induction len got s rule: exact_loop.induct)
  case (1 len got s)
  obtain r s1 where r: "src_read (len - length got) s = (r, s1)" by fastforce
  note le = src_read_size_le [OF r]
  from 1 r le show ?case
    by (subst (asm) (2) exact_loop.simps) (auto split: if_splits sum.splits list.splits dest: order_trans)
qed

lemma read_exact_size: "read_exact_bounded len s = (res, s') \<Longrightarrow> src_size s' \<le> src_size s"
  by (auto simp: read_exact_bounded_def exact_loop_size split: if_splits)

function skip_trailers :: "source \<Rightarrow> source" where
  "skip_trailers s = (case read_line s of (Some l, s') \<Rightarrow> if l = [] then s' else skip_trailers s' | (None, s') \<Rightarrow> s')"
  by pat_completeness auto
termination
  by (relation "measure src_size") (auto dest: read_line_size(2) [OF sym])

declare skip_trailers.simps [simp del]

definition chunk_size :: "rstring \<Rightarrow> nat option" where
  "chunk_size line = from_hex (str_trim (hd (split_on 0x3B line)))"

lemma chunk_step_size:
  assumes "read_line s = (Some l, s1)" "read_exact_bounded n s1 = (c, s2)"
  shows "src_size (snd (read_line s2)) < src_size s"
  using read_line_size(2) [OF assms(1)] read_exact_size [OF assms(2)]
    read_line_size(1) [of s2 "fst (read_line s2)" "snd (read_line s2)"] by simp

text \<open>The result is the body with whether unread bytes are left behind.\<close>

function chunked_loop :: "bytes \<Rightarrow> source \<Rightarrow> (io_error + bytes \<times> bool) \<times> source" where
  "chunked_loop out s =
     (case read_line s of
        (None, s) \<Rightarrow> (Inr (out, False), s)
      | (Some line, s) \<Rightarrow>
          (case chunk_size line of
             None \<Rightarrow> (Inr (out, False), s)
           | Some len \<Rightarrow>
               if len = 0 then (Inr (out, False), skip_trailers s)
               else if length out + len \<ge> 2 ^ 64 then (Inl Io_Panic, s)
               else if length out + len > MAX_BODY then (Inr (out, True), s)
               else
                 (case read_exact_bounded len s of
                    (chunk, s) \<Rightarrow>
                      if length chunk < len then (Inr (out @ chunk, False), s)
                      else chunked_loop (out @ chunk) (snd (read_line s)))))"
  by pat_completeness auto
termination
  by (relation "measure (src_size \<circ> snd)") (auto intro: chunk_step_size [OF sym sym])

declare chunked_loop.simps [simp del]

definition read_chunked :: "source \<Rightarrow> (io_error + bytes \<times> bool) \<times> source" where
  "read_chunked s = chunked_loop [] s"

definition is_chunked :: "rstring \<Rightarrow> bool" where
  "is_chunked head =
     (case http_header head (str ''transfer-encoding'') of
        Some v \<Rightarrow> str_contains (map ascii_lower v) (str ''chunked'')
      | None \<Rightarrow> False)"

definition read_body :: "rstring \<Rightarrow> source \<Rightarrow> (io_error + bytes \<times> bool) \<times> source" where
  "read_body head s =
     (if is_chunked head then read_chunked s
      else
        let declared = (case Option.bind (http_header head (str ''content-length'')) (parse_unsigned (2 ^ 64 - 1)) of
              Some n \<Rightarrow> n | None \<Rightarrow> 0)
        in if declared > MAX_BODY then (Inr ([], True), s)
           else (case read_exact_bounded declared s of (b, s) \<Rightarrow> (Inr (b, False), s)))"

fun drain_loop :: "nat \<Rightarrow> source \<Rightarrow> source" where
  "drain_loop 0 s = s"
| "drain_loop (Suc n) s = (case src_read 2048 s of (Inr (_ # _), s) \<Rightarrow> drain_loop n s | (_, s) \<Rightarrow> s)"

definition http_drain :: "source \<Rightarrow> source" where
  "http_drain s = drain_loop 8 s"

section \<open>Streaming an upload\<close>

text \<open>
  The file being written, the first bytes kept for sniffing, the bytes so far and where progress was
  reported. \<open>cancelled n\<close> says whether the person has cancelled by the time \<open>n\<close> bytes are written.
\<close>

record upload =
  up_out :: sink
  up_sniff :: bytes
  up_total :: nat
  up_marks :: "nat list"

definition upload_start :: "sink \<Rightarrow> upload" where
  "upload_start out = \<lparr> up_out = out, up_sniff = [], up_total = 0, up_marks = [] \<rparr>"

text \<open>What both streams do with a piece they have read.\<close>

definition take_piece :: "bytes \<Rightarrow> upload \<Rightarrow> (io_error + unit) \<times> upload" where
  "take_piece buf u =
     (let u = (if length (up_sniff u) < 16
               then u\<lparr>up_sniff := up_sniff u @ take (min (length buf) (16 - length (up_sniff u))) buf\<rparr> else u)
      in case sink_write_all buf (up_out u) of
           (Inl e, out) \<Rightarrow> (Inl e, u\<lparr>up_out := out\<rparr>)
         | (Inr _, out) \<Rightarrow> (Inr (), u\<lparr>up_out := out, up_total := up_total u + length buf\<rparr>))"

definition up_mark :: "upload \<Rightarrow> upload" where
  "up_mark u = u\<lparr>up_marks := up_marks u @ [up_total u]\<rparr>"

text \<open>The inner loop of \<open>stream_chunked\<close>: \<open>Inr True\<close> when the person cancelled.\<close>

function chunk_loop :: "(nat \<Rightarrow> bool) \<Rightarrow> nat \<Rightarrow> source \<Rightarrow> upload \<Rightarrow> (io_error + bool) \<times> source \<times> upload" where
  "chunk_loop cancelled left s u =
     (if 0 < left then
        (case src_read (min left 8192) s of
           (Inl e, s) \<Rightarrow> (Inl e, s, u)
         | (Inr [], s) \<Rightarrow> (Inl Io_ConnectionAborted, s, u)
         | (Inr (b # bs), s) \<Rightarrow>
             (case take_piece (b # bs) u of
                (Inl e, u) \<Rightarrow> (Inl e, s, u)
              | (Inr _, u) \<Rightarrow>
                  if up_total u > MAX_UPLOAD_BYTES then (Inl (Io_InvalidData 0), s, u)
                  else
                    let u = up_mark u
                    in if cancelled (up_total u) then (Inr True, s, u)
                       else chunk_loop cancelled (left - length (b # bs)) s u))
      else (Inr False, s, u))"
  by pat_completeness auto
termination
  by (relation "measure (\<lambda>(_, left, _, _). left)") auto

declare chunk_loop.simps [simp del]

lemma chunk_loop_size: "chunk_loop c left s u = (res, s', u') \<Longrightarrow> src_size s' \<le> src_size s"
proof (induction c left s u rule: chunk_loop.induct)
  case (1 c left s u)
  show ?case
  proof (cases "0 < left")
    case True
    obtain r s1 where r: "src_read (min left 8192) s = (r, s1)" by fastforce
    note le = src_read_size_le [OF r]
    show ?thesis
    proof (cases "\<exists>b bs u1. r = Inr (b # bs) \<and> take_piece (b # bs) u = (Inr (), u1) \<and> \<not> MAX_UPLOAD_BYTES < up_total u1 \<and>
        \<not> c (up_total u1)")
      case go: True
      then obtain b bs u1 where g: "r = Inr (b # bs)" "take_piece (b # bs) u = (Inr (), u1)"
        "\<not> MAX_UPLOAD_BYTES < up_total u1" "\<not> c (up_total u1)" by blast
      have m: "up_total (up_mark u1) = up_total u1" by (simp add: up_mark_def)
      have eq: "chunk_loop c left s u = chunk_loop c (left - length (b # bs)) s1 (up_mark u1)"
        using True r g m by (subst chunk_loop.simps) (simp add: Let_def)
      from "1.IH" [OF True r [symmetric] g(1) refl g(2) [symmetric] refl g(3) refl] g(4) m "1.prems" le
      show ?thesis unfolding eq by simp
    next
      case False
      have m: "up_total (up_mark v) = up_total v" for v by (simp add: up_mark_def)
      from False "1.prems" True r le show ?thesis
        by (subst (asm) chunk_loop.simps) (auto simp: Let_def m split: if_splits sum.splits list.splits prod.splits)
    qed
  qed (use "1.prems" in \<open>subst (asm) chunk_loop.simps, auto\<close>)
qed

lemma stream_step_size:
  assumes "read_line s = (Some l, s1)" "chunk_loop c n s1 u = (r, s2, u2)"
  shows "src_size (snd (read_line s2)) < src_size s"
  using read_line_size(2) [OF assms(1)] chunk_loop_size [OF assms(2)]
    read_line_size(1) [of s2 "fst (read_line s2)" "snd (read_line s2)"] by simp

function stream_chunked_loop :: "(nat \<Rightarrow> bool) \<Rightarrow> source \<Rightarrow> upload \<Rightarrow> (io_error + nat) \<times> source \<times> upload" where
  "stream_chunked_loop cancelled s u =
     (let finished = (\<lambda>s. case sink_flush (up_out u) of
            (Inl e, out) \<Rightarrow> (Inl e, s, u\<lparr>up_out := out\<rparr>)
          | (Inr _, out) \<Rightarrow> (Inr (up_total u), s, u\<lparr>up_out := out\<rparr>))
      in case read_line s of
        (None, s) \<Rightarrow> finished s
      | (Some line, s) \<Rightarrow>
          (case chunk_size line of
             None \<Rightarrow> finished s
           | Some len \<Rightarrow>
               if len = 0 then finished (skip_trailers s)
               else
                 (case chunk_loop cancelled len s u of
                    (Inl e, s, u) \<Rightarrow> (Inl e, s, u)
                  | (Inr True, s, u) \<Rightarrow> (Inr (up_total u), s, u)
                  | (Inr False, s, u) \<Rightarrow> stream_chunked_loop cancelled (snd (read_line s)) u)))"
  by pat_completeness auto
termination
  by (relation "measure (\<lambda>(_, s, _). src_size s)") (auto intro: stream_step_size [OF sym sym])

declare stream_chunked_loop.simps [simp del]

definition stream_chunked :: "(nat \<Rightarrow> bool) \<Rightarrow> source \<Rightarrow> sink \<Rightarrow> (io_error + nat) \<times> source \<times> upload" where
  "stream_chunked cancelled s out = stream_chunked_loop cancelled s (upload_start out)"

function stream_exact_loop :: "(nat \<Rightarrow> bool) \<Rightarrow> nat \<Rightarrow> source \<Rightarrow> upload \<Rightarrow> (io_error + nat) \<times> source \<times> upload" where
  "stream_exact_loop cancelled len s u =
     (if up_total u < len then
        (case src_read (min (len - up_total u) 8192) s of
           (Inl e, s) \<Rightarrow> (Inl e, s, u)
         | (Inr [], s) \<Rightarrow> (Inl Io_ConnectionAborted, s, u)
         | (Inr (b # bs), s) \<Rightarrow>
             (case take_piece (b # bs) u of
                (Inl e, u) \<Rightarrow> (Inl e, s, u)
              | (Inr _, u) \<Rightarrow>
                  let u = up_mark u
                  in if cancelled (up_total u) then (Inr (up_total u), s, u)
                     else stream_exact_loop cancelled len s u))
      else
        (case sink_flush (up_out u) of
           (Inl e, out) \<Rightarrow> (Inl e, s, u\<lparr>up_out := out\<rparr>)
         | (Inr _, out) \<Rightarrow> (Inr (up_total u), s, u\<lparr>up_out := out\<rparr>)))"
  by pat_completeness auto
termination
proof (relation "measure (\<lambda>(_, len, _, u). len - up_total u)")
  fix cancelled len s u x y b x21 x22 xa ya ba xb
  assume "up_total u < len" "(xa, ya) = take_piece (x21 # x22) u" "xa = Inr ba" "xb = up_mark ya"
  moreover from this have "up_total xb = up_total u + Suc (length x22)"
    by (auto simp: take_piece_def up_mark_def Let_def split: prod.splits sum.splits)
  ultimately show "((cancelled, len, y, xb), cancelled, len, s, u) \<in> measure (\<lambda>(_, len, _, u). len - up_total u)"
    by simp
qed simp

declare stream_exact_loop.simps [simp del]

definition stream_exact :: "(nat \<Rightarrow> bool) \<Rightarrow> nat \<Rightarrow> source \<Rightarrow> sink \<Rightarrow> (io_error + nat) \<times> source \<times> upload" where
  "stream_exact cancelled len s out = stream_exact_loop cancelled len s (upload_start out)"

section \<open>Answering\<close>

definition crlf :: rstring where
  "crlf = [CR, LF]"

definition response_head :: "nat \<Rightarrow> bytes \<Rightarrow> bool \<Rightarrow> rstring" where
  "response_head status body keep_alive =
     str ''HTTP/1.1 '' @ nat_str status @ [0x20] @
     (if status = 200 then str ''OK'' else if status = 413 then str ''Payload Too Large'' else str ''Unauthorized'') @ crlf @
     str ''Connection: '' @ (if keep_alive then str ''keep-alive'' else str ''close'') @ crlf @
     str ''Content-Length: '' @ nat_str (length body) @ crlf @
     (if body \<noteq> [] then str ''Content-Type: application/octet-stream'' @ crlf else []) @ crlf"

definition http_respond :: "nat \<Rightarrow> bytes option \<Rightarrow> bool \<Rightarrow> sink \<Rightarrow> (io_error + unit) \<times> sink" where
  "http_respond status body keep_alive k =
     (let body = (case body of Some b \<Rightarrow> b | None \<Rightarrow> [])
      in case sink_write_all (response_head status body keep_alive) k of
           (Inl e, k) \<Rightarrow> (Inl e, k)
         | (Inr _, k) \<Rightarrow>
             if body \<noteq> [] then
               (case sink_write_all body k of (Inl e, k) \<Rightarrow> (Inl e, k) | (Inr _, k) \<Rightarrow> sink_flush k)
             else sink_flush k)"

section \<open>What is kept in memory and on disk\<close>

lemma src_read_length: "src_read n s = (Inr b, s') \<Longrightarrow> length b \<le> n"
  by (cases "(n, s)" rule: src_read.cases) auto

lemma exact_loop_length: "exact_loop len got s = (b, s') \<Longrightarrow> length got \<le> len \<Longrightarrow> length b \<le> len"
proof (induction len got s rule: exact_loop.induct)
  case (1 len got s)
  show ?case
  proof (cases "\<exists>c cs s1. length got < len \<and> src_read (len - length got) s = (Inr (c # cs), s1)")
    case True
    then obtain c cs s1 where r: "length got < len" "src_read (len - length got) s = (Inr (c # cs), s1)" by blast
    then have "length (c # cs) \<le> len - length got" by (intro src_read_length)
    moreover have "exact_loop len got s = exact_loop len (got @ c # cs) s1"
      using r by (subst exact_loop.simps) simp
    ultimately show ?thesis
      using "1.IH" [OF r(1) r(2) [symmetric] refl refl] "1.prems" r(1) by simp
  next
    case False
    with "1.prems" show ?thesis
      by (subst (asm) exact_loop.simps) (auto split: if_splits sum.splits list.splits prod.splits)
  qed
qed

lemma read_exact_length: "read_exact_bounded len s = (b, s') \<Longrightarrow> length b \<le> len"
  by (auto simp: read_exact_bounded_def split: if_splits dest: exact_loop_length)

lemma chunked_loop_length:
  "chunked_loop out s = (Inr (b, d), s') \<Longrightarrow> length out \<le> MAX_BODY \<Longrightarrow> length b \<le> MAX_BODY"
proof (induction out s rule: chunked_loop.induct)
  case (1 out s)
  show ?case
  proof (cases "\<exists>l s1 n c s2. read_line s = (Some l, s1) \<and> chunk_size l = Some n \<and> n \<noteq> 0 \<and> \<not> MAX_BODY < length out + n \<and>
      read_exact_bounded n s1 = (c, s2)")
    case True
    then obtain l s1 n c s2 where g: "read_line s = (Some l, s1)" "chunk_size l = Some n" "n \<noteq> 0"
      "\<not> MAX_BODY < length out + n" "read_exact_bounded n s1 = (c, s2)" by blast
    have fit: "length (out @ c) \<le> MAX_BODY" using read_exact_length [OF g(5)] g(4) by simp
    have small: "\<not> 2 ^ 64 \<le> length out + n" using g(4) by simp
    show ?thesis
    proof (cases "length c < n")
      case True
      with "1.prems" g small fit show ?thesis by (subst (asm) chunked_loop.simps) simp
    next
      case False
      then have eq: "chunked_loop out s = chunked_loop (out @ c) (snd (read_line s2))"
        using g small by (subst chunked_loop.simps) simp
      from "1.IH" [OF g(1) [symmetric] refl g(2,3) small g(4) g(5) [symmetric] False] fit "1.prems" show ?thesis
        unfolding eq by simp
    qed
  next
    case False
    with "1.prems" show ?thesis
      by (subst (asm) chunked_loop.simps) (auto split: if_splits option.splits prod.splits)
  qed
qed

text \<open>What a stream has written to the file, when the file takes everything.\<close>

lemma take_piece_total:
  assumes "take_piece b u = (r, u')"
  shows "length (sk_data (up_out u')) \<le> length (sk_data (up_out u)) + length b"
    "r = Inr () \<Longrightarrow> up_total u' = up_total u + length b"
    "r = Inr () \<Longrightarrow> length (sk_data (up_out u')) = length (sk_data (up_out u)) + length b"
  using assms
  by (auto simp: take_piece_def sink_write_all_def Let_def split: prod.splits sum.splits list.splits option.splits if_splits)

definition on_disk :: "nat \<Rightarrow> upload \<Rightarrow> bool" where
  "on_disk base u \<longleftrightarrow> length (sk_data (up_out u)) \<le> base + up_total u \<and> up_total u \<le> MAX_UPLOAD_BYTES"

lemma up_mark_cells [simp]: "up_total (up_mark u) = up_total u" "up_out (up_mark u) = up_out u"
  by (simp_all add: up_mark_def)

lemma chunk_loop_step:
  assumes "0 < left" "src_read (min left 8192) s = (Inr (b # bs), s1)" "take_piece (b # bs) u = (Inr (), u1)"
    "\<not> MAX_UPLOAD_BYTES < up_total u1" "\<not> c (up_total u1)"
  shows "chunk_loop c left s u = chunk_loop c (left - length (b # bs)) s1 (up_mark u1)"
  using assms by (subst chunk_loop.simps) (simp add: Let_def)

lemma chunk_loop_disk:
  "chunk_loop c left s u = (r, s', u') \<Longrightarrow> on_disk base u \<Longrightarrow>
     length (sk_data (up_out u')) \<le> base + MAX_UPLOAD_BYTES + 8192 \<and> (\<forall>x. r = Inr x \<longrightarrow> on_disk base u')"
proof (induction c left s u rule: chunk_loop.induct)
  case (1 c left s u)
  show ?case
  proof (cases "0 < left")
    case True
    obtain x s1 where r: "src_read (min left 8192) s = (x, s1)" by fastforce
    show ?thesis
    proof (cases "\<exists>b bs. x = Inr (b # bs)")
      case piece: True
      then obtain b bs where x: "x = Inr (b # bs)" by blast
      obtain y u1 where p: "take_piece (b # bs) u = (y, u1)" by fastforce
      have len: "length (b # bs) \<le> 8192" using src_read_length r unfolding x by fastforce
      have base: "length (sk_data (up_out u1)) \<le> base + MAX_UPLOAD_BYTES + 8192"
        using take_piece_total(1) [OF p] len "1.prems"(2) by (simp add: on_disk_def)
      show ?thesis
      proof (cases "y = Inr () \<and> \<not> MAX_UPLOAD_BYTES < up_total u1")
        case ok: True
        then have d: "on_disk base (up_mark u1)"
          using take_piece_total [OF p] "1.prems"(2) by (simp add: on_disk_def)
        show ?thesis
        proof (cases "c (up_total u1)")
          case stop: True
          with "1.prems"(1) True r x p ok d base show ?thesis by (subst (asm) chunk_loop.simps) (auto simp: Let_def)
        next
          case False
          from ok have o: "y = Inr ()" "\<not> MAX_UPLOAD_BYTES < up_total u1" by auto
          have eq: "chunk_loop c left s u = chunk_loop c (left - length (b # bs)) s1 (up_mark u1)"
            using chunk_loop_step [of left s b bs s1 u u1 c] True r x p o False by simp
          have "\<not> c (up_total (up_mark u1))" using False by simp
          from "1.IH" [OF True r [symmetric] x refl p [symmetric] o(1,2) refl this] "1.prems"(1) d show ?thesis
            unfolding eq by simp
        qed
      next
        case False
        with "1.prems"(1) True r x p base show ?thesis
          by (subst (asm) chunk_loop.simps) (auto simp: Let_def split: sum.splits if_splits)
      qed
    next
      case False
      with "1.prems" True r show ?thesis
        by (subst (asm) chunk_loop.simps) (auto simp: on_disk_def split: sum.splits list.splits)
    qed
  qed (use "1.prems" in \<open>subst (asm) chunk_loop.simps, auto simp: on_disk_def\<close>)
qed

lemma sink_flush_data: "sink_flush k = (r, k') \<Longrightarrow> sk_data k' = sk_data k"
  by (auto simp: sink_flush_def split: list.splits option.splits)

lemma stream_loop_disk:
  "stream_chunked_loop c s u = (r, s', u') \<Longrightarrow> on_disk base u \<Longrightarrow>
     length (sk_data (up_out u')) \<le> base + MAX_UPLOAD_BYTES + 8192"
proof (induction c s u rule: stream_chunked_loop.induct)
  case (1 c s u)
  show ?case
  proof (cases "\<exists>l s1 n x s2 u2. read_line s = (Some l, s1) \<and> chunk_size l = Some n \<and> n \<noteq> 0 \<and> chunk_loop c n s1 u = (x, s2, u2)")
    case True
    then obtain l s1 n x s2 u2 where g: "read_line s = (Some l, s1)" "chunk_size l = Some n" "n \<noteq> 0"
      "chunk_loop c n s1 u = (x, s2, u2)" by blast
    note d = chunk_loop_disk [OF g(4) "1.prems"(2)]
    show ?thesis
    proof (cases "x = Inr False")
      case go: True
      have eq: "stream_chunked_loop c s u = stream_chunked_loop c (snd (read_line s2)) u2"
        using g go by (subst stream_chunked_loop.simps) (simp add: Let_def)
      from "1.IH" [OF refl g(1) [symmetric] refl g(2,3) g(4) [symmetric] go] "1.prems"(1) d go show ?thesis
        unfolding eq by blast
    next
      case False
      with "1.prems"(1) g d show ?thesis
        by (subst (asm) stream_chunked_loop.simps) (auto simp: Let_def split: sum.splits bool.splits)
    qed
  next
    case False
    with "1.prems" show ?thesis
      by (subst (asm) stream_chunked_loop.simps)
        (auto simp: Let_def on_disk_def split: option.splits prod.splits if_splits sum.splits dest!: sink_flush_data)
  qed
qed

section \<open>Chunked bodies\<close>

text \<open>\<open>format!("{:x}")\<close>.\<close>

fun nat_hex :: "nat \<Rightarrow> rstring" where
  "nat_hex n = (if n < 16 then [hex_digit 0x61 (word_of_nat n)] else nat_hex (n div 16) @ [hex_digit 0x61 (word_of_nat (n mod 16))])"

declare nat_hex.simps [simp del]

lemma hex_digit_val:
  assumes "n < 16"
  shows "hex_val (hex_digit 0x61 (word_of_nat n)) = Some n" "is_ascii_graphic (hex_digit 0x61 (word_of_nat n))"
    "hex_digit 0x61 (word_of_nat n) \<noteq> 0x2B" "hex_digit 0x61 (word_of_nat n) \<noteq> 0x3B" "hex_digit 0x61 (word_of_nat n) \<noteq> LF"
    "hex_digit 0x61 (word_of_nat n) \<noteq> CR"
proof -
  have "[0..<16] = [0, 1, 2, 3, 4, 5, 6, 7, 8, 9, 10, 11, 12, 13, 14, 15 :: nat]" by (simp add: upt_rec)
  then have "n \<in> {0, 1, 2, 3, 4, 5, 6, 7, 8, 9, 10, 11, 12, 13, 14, 15}"
    using assms by (metis atLeastLessThan_iff list.set set_upt zero_le)
  then show "hex_val (hex_digit 0x61 (word_of_nat n)) = Some n" "is_ascii_graphic (hex_digit 0x61 (word_of_nat n))"
    "hex_digit 0x61 (word_of_nat n) \<noteq> 0x2B" "hex_digit 0x61 (word_of_nat n) \<noteq> 0x3B" "hex_digit 0x61 (word_of_nat n) \<noteq> LF"
    "hex_digit 0x61 (word_of_nat n) \<noteq> CR"
    by (elim insertE emptyE; simp add: hex_digit_def hex_val_def is_digit_def is_ascii_graphic_def word_le_nat_alt word_less_nat_alt)+
qed

lemma nat_hex_chars:
  "b \<in> set (nat_hex n) \<Longrightarrow> \<exists>k < 16. b = hex_digit 0x61 (word_of_nat k)"
proof (induction n rule: nat_hex.induct)
  case (1 n)
  have "n mod 16 < 16" by simp
  with 1 consider "b = hex_digit 0x61 (word_of_nat n)" "n < 16" | "\<not> n < 16" "b \<in> set (nat_hex (n div 16))"
    | "b = hex_digit 0x61 (word_of_nat (n mod 16))" by (subst (asm) (2) nat_hex.simps) (auto split: if_splits)
  then show ?case using 1(1) \<open>n mod 16 < 16\<close> by cases blast+
qed

lemma hex_digits_append:
  "hex_digits n (xs @ ys) = Option.bind (hex_digits n xs) (\<lambda>m. hex_digits m ys)"
  by (induction n xs rule: hex_digits.induct) (auto split: option.splits)

lemma hex_digits_nat_hex: "n < 2 ^ 64 \<Longrightarrow> hex_digits 0 (nat_hex n) = Some n"
proof (induction n rule: nat_hex.induct)
  case (1 n)
  show ?case
  proof (cases "n < 16")
    case True
    then show ?thesis by (subst nat_hex.simps) (simp add: hex_digit_val)
  next
    case False
    then have "hex_digits 0 (nat_hex (n div 16)) = Some (n div 16)" using 1 by simp
    moreover have "16 * (n div 16) + n mod 16 = n" by simp
    ultimately show ?thesis using False 1(2) by (subst nat_hex.simps) (simp add: hex_digits_append hex_digit_val)
  qed
qed

lemma nat_hex_ne: "nat_hex n \<noteq> []"
  by (subst nat_hex.simps) simp

lemma split_on_none: "d \<notin> set s \<Longrightarrow> split_on d s = [s]"
  by (induction s) auto

lemma chunk_size_nat_hex:
  assumes "n < 2 ^ 64"
  shows "chunk_size (nat_hex n) = Some n"
proof -
  have "0x3B \<notin> set (nat_hex n)" using nat_hex_chars hex_digit_val(4) by metis
  moreover have "list_all is_ascii_graphic (nat_hex n)"
    using nat_hex_chars hex_digit_val(2) by (metis list_all_iff)
  moreover have "hd (nat_hex n) \<noteq> 0x2B" using nat_hex_chars hex_digit_val(3) hd_in_set nat_hex_ne by metis
  ultimately show ?thesis
    using hex_digits_nat_hex [OF assms] nat_hex_ne [of n]
    by (cases "nat_hex n") (auto simp: chunk_size_def split_on_none str_trim_graphic from_hex_def simp del: split_on.simps)
qed

lemma line_loop_steady:
  assumes "steady s" "src_data s = l @ LF # rest" "LF \<notin> set l" "length buf + length l < 256"
  shows "\<exists>s'. line_loop buf s = (Some (from_utf8_lossy (pop_cr (buf @ l))), s') \<and> steady s' \<and> src_data s' = rest"
  using assms
proof (induction l arbitrary: buf s)
  case Nil
  obtain r s1 where r: "src_read 1 s = (r, s1)" by fastforce
  from steady_read [OF Nil(1) r] Nil(2) src_read_length [of 1 s] r obtain b where
    "r = Inr [b]" "steady s1" "src_data s = b # src_data s1" by (cases r; fastforce simp: le_Suc_eq length_Suc_conv)
  with Nil r show ?case by (subst line_loop.simps) auto
next
  case (Cons x l)
  obtain r s1 where r: "src_read 1 s = (r, s1)" by fastforce
  from steady_read [OF Cons.prems(1) r] Cons.prems(2) src_read_length [of 1 s] r obtain b where
    b: "r = Inr [b]" "steady s1" "src_data s = b # src_data s1" by (cases r; fastforce simp: le_Suc_eq length_Suc_conv)
  with Cons.prems(2) have "b = x" "src_data s1 = l @ LF # rest" by auto
  with Cons.IH [of s1 "buf @ [x]"] Cons.prems b r show ?case by (subst line_loop.simps) auto
qed

lemma read_line_steady:
  assumes "steady s" "src_data s = l @ CR # LF # rest" "LF \<notin> set l" "CR \<notin> set l" "length l < 255" "utf8_valid l"
  shows "\<exists>s'. read_line s = (Some l, s') \<and> steady s' \<and> src_data s' = rest"
proof -
  have "pop_cr (l @ [CR]) = l"
  proof -
    have "dropWhile (\<lambda>b. b = CR) (rev l) = rev l" using assms(4) by (cases "rev l") (auto simp: rev_eq_Cons_iff)
    then show ?thesis by (simp add: pop_cr_def)
  qed
  with line_loop_steady [OF assms(1), of "l @ [CR]" rest "[]"] assms show ?thesis
    by (simp add: read_line_def)
qed

lemma exact_loop_steady:
  assumes "steady s" "src_data s = d @ rest"
  shows "\<exists>s'. exact_loop (length got + length d) got s = (got @ d, s') \<and> steady s' \<and> src_data s' = rest"
  using assms
proof (induction "length d" arbitrary: d got s rule: less_induct)
  case less
  show ?case
  proof (cases "d = []")
    case False
    obtain r s1 where r: "src_read (length d) s = (r, s1)" by fastforce
    from steady_read [OF less.prems(1) r] False less.prems(2) obtain b bs where
      b: "r = Inr (b # bs)" "steady s1" "src_data s = (b # bs) @ src_data s1" by (cases r) (auto simp: neq_Nil_conv)
    have len: "length (b # bs) \<le> length d" using src_read_length r b(1) by blast
    define d1 where "d1 = drop (length (b # bs)) d"
    have e: "d @ rest = (b # bs) @ src_data s1" using b(3) less.prems(2) by simp
    have "take (length (b # bs)) d = b # bs" using arg_cong [OF e, of "take (length (b # bs))"] len by simp
    moreover have "src_data s1 = d1 @ rest"
      unfolding d1_def using arg_cong [OF e, of "drop (length (b # bs))"] len by simp
    ultimately have d1: "d = (b # bs) @ d1" "src_data s1 = d1 @ rest"
      unfolding d1_def by (metis append_take_drop_id)+
    have "\<exists>s'. exact_loop (length (got @ b # bs) + length d1) (got @ b # bs) s1 = ((got @ b # bs) @ d1, s') \<and> steady s' \<and> src_data s' = rest"
      by (intro less.hyps b(2) d1(2)) (simp add: d1(1))
    with r b d1 False show ?thesis by (subst exact_loop.simps) (simp add: add.assoc)
  qed (use less in \<open>simp add: exact_loop.simps\<close>)
qed

text \<open>A body as a sequence of chunks and the end mark, as \<open>ChunkedWriter\<close> writes it.\<close>

definition chunk_text :: "bytes \<Rightarrow> bytes" where
  "chunk_text d = nat_hex (length d) @ crlf @ d @ crlf"

definition body_text :: "bytes list \<Rightarrow> bytes" where
  "body_text cs = concat (map chunk_text cs) @ [0x30] @ crlf @ crlf"

lemma nat_hex_line: "LF \<notin> set (nat_hex n)" "CR \<notin> set (nat_hex n)" "utf8_valid (nat_hex n)"
proof -
  show "LF \<notin> set (nat_hex n)"
  proof
    assume "LF \<in> set (nat_hex n)"
    then obtain k where "k < 16" "LF = hex_digit 0x61 (word_of_nat k)" using nat_hex_chars by blast
    then show False using hex_digit_val(5) [of k] by simp
  qed
  show "CR \<notin> set (nat_hex n)"
  proof
    assume "CR \<in> set (nat_hex n)"
    then obtain k where "k < 16" "CR = hex_digit 0x61 (word_of_nat k)" using nat_hex_chars by blast
    then show False using hex_digit_val(6) [of k] by simp
  qed
  show "utf8_valid (nat_hex n)"
    by (rule graphic_valid) (metis nat_hex_chars hex_digit_val(2) list_all_iff)
qed

lemma nat_hex_length: "n < 16 ^ Suc k \<Longrightarrow> length (nat_hex n) \<le> Suc k"
proof (induction k arbitrary: n)
  case (Suc k)
  have "n div 16 < 16 ^ Suc k" using Suc.prems by (simp add: less_mult_imp_div_less mult.commute)
  with Suc.IH [of "n div 16"] show ?case by (cases "n < 16") (subst nat_hex.simps; simp)+
qed (subst nat_hex.simps, simp)

lemma chunk_header_line:
  assumes "steady s" "src_data s = nat_hex n @ crlf @ rest" "n < 2 ^ 64"
  shows "\<exists>s'. read_line s = (Some (nat_hex n), s') \<and> steady s' \<and> src_data s' = rest"
  using read_line_steady [of s "nat_hex n" rest] assms nat_hex_line nat_hex_length [of n 15]
  by (simp add: crlf_def)

lemma skip_end:
  assumes "steady s" "src_data s = crlf @ rest"
  shows "steady (skip_trailers s) \<and> src_data (skip_trailers s) = rest"
  using read_line_steady [of s "[]" rest] assms by (subst (1 2) skip_trailers.simps) (auto simp: crlf_def)

lemma chunked_loop_text:
  assumes "steady s" "src_data s = body_text cs @ rest" "list_all (\<lambda>c. c \<noteq> []) cs"
    "length out + length (concat cs) \<le> MAX_BODY"
  shows "\<exists>s'. chunked_loop out s = (Inr (out @ concat cs, False), s') \<and> steady s' \<and> src_data s' = rest"
  using assms
proof (induction cs arbitrary: out s)
  case Nil
  have h: "nat_hex 0 = [0x30]" by (simp add: nat_hex.simps hex_digit_def)
  then obtain s1 where 1: "read_line s = (Some (nat_hex 0), s1)" "steady s1" "src_data s1 = crlf @ rest"
    using chunk_header_line [OF Nil(1), of 0 "crlf @ rest"] Nil(2) by (auto simp: body_text_def)
  then show ?case
    using skip_end [OF 1(2,3)] chunk_size_nat_hex [of 0] by (subst chunked_loop.simps) simp
next
  case (Cons c cs)
  have small: "length c < 2 ^ 64" "\<not> 2 ^ 64 \<le> length out + length c" "\<not> MAX_BODY < length out + length c" "length c \<noteq> 0"
    using Cons.prems(3,4) by simp_all
  have "src_data s = nat_hex (length c) @ crlf @ (c @ crlf @ body_text cs @ rest)"
    using Cons.prems(2) by (simp add: body_text_def chunk_text_def)
  from chunk_header_line [OF Cons.prems(1) this small(1)] obtain s1 where
    1: "read_line s = (Some (nat_hex (length c)), s1)" "steady s1" "src_data s1 = c @ crlf @ body_text cs @ rest" by blast
  from exact_loop_steady [OF 1(2,3), of "[]"] small(4) obtain s2 where
    2: "read_exact_bounded (length c) s1 = (c, s2)" "steady s2" "src_data s2 = crlf @ body_text cs @ rest"
    by (auto simp: read_exact_bounded_def)
  from read_line_steady [of s2 "[]" "body_text cs @ rest"] 2 obtain s3 where
    3: "read_line s2 = (Some [], s3)" "steady s3" "src_data s3 = body_text cs @ rest" by (auto simp: crlf_def)
  from Cons.IH [OF 3(2,3), of "out @ c"] Cons.prems(3,4) obtain s' where
    "chunked_loop (out @ c) s3 = (Inr ((out @ c) @ concat cs, False), s')" "steady s'" "src_data s' = rest" by auto
  with 1 2 3 small chunk_size_nat_hex [OF small(1)] show ?case by (subst chunked_loop.simps) simp
qed

lemma take_piece_clean:
  assumes "sk_faults (up_out u) = []"
  shows "\<exists>u1. take_piece b u = (Inr (), u1) \<and> up_out u1 = (up_out u)\<lparr>sk_data := sk_data (up_out u) @ b\<rparr> \<and>
    up_total u1 = up_total u + length b"
  using assms by (cases "length (up_sniff u) < 16") (simp_all add: take_piece_def sink_write_all_def Let_def)

lemma chunk_loop_steady:
  assumes "steady s" "src_data s = d @ rest" "sk_faults (up_out u) = []" "up_total u + length d \<le> MAX_UPLOAD_BYTES" "\<And>n. \<not> c n"
  shows "\<exists>s' u'. chunk_loop c (length d) s u = (Inr False, s', u') \<and> steady s' \<and> src_data s' = rest \<and>
    up_out u' = (up_out u)\<lparr>sk_data := sk_data (up_out u) @ d\<rparr> \<and> up_total u' = up_total u + length d"
  using assms(1-4)
proof (induction "length d" arbitrary: d u s rule: less_induct)
  case less
  show ?case
  proof (cases "d = []")
    case False
    then have "0 < min (length d) 8192" by simp
    obtain r s1 where r: "src_read (min (length d) 8192) s = (r, s1)" by fastforce
    from steady_read [OF less.prems(1) r] False less.prems(2) obtain b bs where
      b: "r = Inr (b # bs)" "steady s1" "src_data s = (b # bs) @ src_data s1" by (cases r) (auto simp: neq_Nil_conv)
    have len: "length (b # bs) \<le> length d" using src_read_length [of "min (length d) 8192" s "b # bs"] r b(1) by simp
    define d1 where "d1 = drop (length (b # bs)) d"
    have e: "d @ rest = (b # bs) @ src_data s1" using b(3) less.prems(2) by simp
    have "take (length (b # bs)) d = b # bs" using arg_cong [OF e, of "take (length (b # bs))"] len by simp
    moreover have "src_data s1 = d1 @ rest"
      unfolding d1_def using arg_cong [OF e, of "drop (length (b # bs))"] len by simp
    ultimately have d1: "d = (b # bs) @ d1" "src_data s1 = d1 @ rest"
      unfolding d1_def by (metis append_take_drop_id)+
    obtain u1 where u1: "take_piece (b # bs) u = (Inr (), u1)"
      "up_out u1 = (up_out u)\<lparr>sk_data := sk_data (up_out u) @ b # bs\<rparr>" "up_total u1 = up_total u + length (b # bs)"
      using take_piece_clean [OF less.prems(3)] by blast
    have "\<not> MAX_UPLOAD_BYTES < up_total u1" using less.prems(4) len u1(3) by simp
    from chunk_loop_step [OF _ r [unfolded b(1)] u1(1) this, of c] assms(5) False
    have "chunk_loop c (length d) s u = chunk_loop c (length d1) s1 (up_mark u1)" by (simp add: d1_def)
    moreover have "\<exists>s' u'. chunk_loop c (length d1) s1 (up_mark u1) = (Inr False, s', u') \<and> steady s' \<and> src_data s' = rest \<and>
        up_out u' = (up_out (up_mark u1))\<lparr>sk_data := sk_data (up_out (up_mark u1)) @ d1\<rparr> \<and>
        up_total u' = up_total (up_mark u1) + length d1"
      using less.prems(3,4) u1 d1 by (intro less.hyps b(2) d1(2)) simp_all
    ultimately show ?thesis using u1 d1(1) by (auto simp: add.assoc)
  qed (use less in \<open>simp add: chunk_loop.simps\<close>)
qed

lemma stream_loop_chunks:
  assumes "steady s" "src_data s = concat (map chunk_text cs) @ rest" "list_all (\<lambda>c. c \<noteq> []) cs" "sk_faults (up_out u) = []"
    "up_total u + length (concat cs) \<le> MAX_UPLOAD_BYTES" "\<And>n. \<not> c n"
  shows "\<exists>s' u'. stream_chunked_loop c s u = stream_chunked_loop c s' u' \<and> steady s' \<and> src_data s' = rest \<and>
    up_out u' = (up_out u)\<lparr>sk_data := sk_data (up_out u) @ concat cs\<rparr> \<and> up_total u' = up_total u + length (concat cs)"
  using assms(1-5)
proof (induction cs arbitrary: u s)
  case Nil
  then show ?case by auto
next
  case (Cons x cs)
  have small: "length x < 2 ^ 64" "length x \<noteq> 0" using Cons.prems(3,5) by simp_all
  have "src_data s = nat_hex (length x) @ crlf @ (x @ crlf @ concat (map chunk_text cs) @ rest)"
    using Cons.prems(2) by (simp add: chunk_text_def [of x])
  from chunk_header_line [OF Cons.prems(1) this small(1)] obtain s1 where
    1: "read_line s = (Some (nat_hex (length x)), s1)" "steady s1" "src_data s1 = x @ crlf @ concat (map chunk_text cs) @ rest" by blast
  from chunk_loop_steady [where c = c, OF 1(2,3) Cons.prems(4) _ assms(6)] Cons.prems(5) obtain s2 u2 where
    2: "chunk_loop c (length x) s1 u = (Inr False, s2, u2)" "steady s2" "src_data s2 = crlf @ concat (map chunk_text cs) @ rest"
      "up_out u2 = (up_out u)\<lparr>sk_data := sk_data (up_out u) @ x\<rparr>" "up_total u2 = up_total u + length x" by auto
  from read_line_steady [of s2 "[]" "concat (map chunk_text cs) @ rest"] 2 obtain s3 where
    3: "read_line s2 = (Some [], s3)" "steady s3" "src_data s3 = concat (map chunk_text cs) @ rest" by (auto simp: crlf_def)
  have "stream_chunked_loop c s u = stream_chunked_loop c s3 u2"
    using 1 2 3 small chunk_size_nat_hex [OF small(1)] by (subst stream_chunked_loop.simps) simp
  moreover from Cons.IH [OF 3(2,3), of u2] Cons.prems(3-5) 2(4,5) obtain s' u' where
    "stream_chunked_loop c s3 u2 = stream_chunked_loop c s' u'" "steady s'" "src_data s' = rest"
    "up_out u' = (up_out u2)\<lparr>sk_data := sk_data (up_out u2) @ concat cs\<rparr>" "up_total u' = up_total u2 + length (concat cs)" by auto
  ultimately show ?case using 2(4,5)
    by (intro exI [of _ s'] exI [of _ u']) (simp add: add.assoc)
qed

lemma stream_loop_text:
  assumes "steady s" "src_data s = body_text cs @ rest" "list_all (\<lambda>c. c \<noteq> []) cs" "sk_faults (up_out u) = []"
    "up_total u + length (concat cs) \<le> MAX_UPLOAD_BYTES" "\<And>n. \<not> c n"
  shows "\<exists>s' u'. stream_chunked_loop c s u = (Inr (up_total u + length (concat cs)), s', u') \<and> src_data s' = rest \<and>
    sk_data (up_out u') = sk_data (up_out u) @ concat cs"
proof -
  have "src_data s = concat (map chunk_text cs) @ ([0x30] @ crlf @ crlf @ rest)" using assms(2) by (simp add: body_text_def)
  from stream_loop_chunks [where c = c, OF assms(1) this assms(3-6)] obtain s1 u1 where
    1: "stream_chunked_loop c s u = stream_chunked_loop c s1 u1" "steady s1" "src_data s1 = [0x30] @ crlf @ crlf @ rest"
      "up_out u1 = (up_out u)\<lparr>sk_data := sk_data (up_out u) @ concat cs\<rparr>" "up_total u1 = up_total u + length (concat cs)"
    by blast
  have h: "nat_hex 0 = [0x30]" by (simp add: nat_hex.simps hex_digit_def)
  then obtain s2 where 2: "read_line s1 = (Some (nat_hex 0), s2)" "steady s2" "src_data s2 = crlf @ rest"
    using chunk_header_line [OF 1(2), of 0 "crlf @ rest"] 1(3) by auto
  have "stream_chunked_loop c s1 u1 = (Inr (up_total u1), skip_trailers s2, u1)"
    using 2(1) chunk_size_nat_hex [of 0] 1(4) assms(4) by (subst stream_chunked_loop.simps) (simp add: sink_flush_def)
  with 1 skip_end [OF 2(2,3)] show ?thesis by auto
qed

section \<open>Properties\<close>

text \<open>
  What a stranger makes the server hold is bounded. Whatever a peer declares and sends, a body read
  into memory has at most 8 MiB and a chunked upload puts at most 8 GiB and one buffer on the disk.
\<close>

theorem request_bounded:
  assumes "read_body head s = (Inr (b, d), s')" "stream_chunked c s2 out = (r, s3, u)"
  shows "length b \<le> MAX_BODY \<and> length (sk_data (up_out u)) \<le> length (sk_data out) + MAX_UPLOAD_BYTES + 8192"
proof -
  have "on_disk (length (sk_data out)) (upload_start out)" by (simp add: on_disk_def upload_start_def)
  then have "length (sk_data (up_out u)) \<le> length (sk_data out) + MAX_UPLOAD_BYTES + 8192"
    using stream_loop_disk assms(2) unfolding stream_chunked_def by blast
  moreover have "length b \<le> MAX_BODY"
    using assms(1) chunked_loop_length [of "[]" s]
    by (auto simp: read_body_def read_chunked_def Let_def split: if_splits prod.splits dest!: read_exact_length)
  ultimately show ?thesis by blast
qed

theorem request_bounded_witness:
  "\<exists>b d s' r s3 u. read_body [] [] = (Inr (b, d), s') \<and>
     stream_chunked (\<lambda>_. False) [Rd_Bytes (body_text [[0x41]])] \<lparr> sk_data = [], sk_faults = [] \<rparr> = (r, s3, u) \<and>
     sk_data (up_out u) = [0x41] \<and> length b \<le> MAX_BODY \<and> length (sk_data (up_out u)) \<le> MAX_UPLOAD_BYTES + 8192"
proof -
  let ?out = "\<lparr> sk_data = [], sk_faults = [] \<rparr>" and ?s = "[Rd_Bytes (body_text [[0x41]])]"
  have "http_header [] n = None" for n by (simp add: http_header_def str_lines_def)
  then have 1: "read_body [] [] = (Inr ([], False), [])"
    by (simp add: read_body_def is_chunked_def read_exact_bounded_def)
  have "body_text [[0x41]] \<noteq> []" by (simp add: body_text_def chunk_text_def crlf_def)
  then obtain s3 u where
    "stream_chunked_loop (\<lambda>_. False) ?s (upload_start ?out) = (Inr 1, s3, u)" "sk_data (up_out u) = [0x41]"
    using stream_loop_text [of ?s "[[0x41]]" "[]" "upload_start ?out" "\<lambda>_. False"]
    by (auto simp: src_data_def upload_start_def)
  then have 2: "stream_chunked (\<lambda>_. False) ?s ?out = (Inr 1, s3, u)" "sk_data (up_out u) = [0x41]"
    by (simp_all add: stream_chunked_def)
  from request_bounded [OF 1 2(1)] 1 2 show ?thesis by fastforce
qed

text \<open>
  C39: an upload that is cut off can pass for a complete one. A sender that breaks off inside a chunk is
  noticed. One that goes away between two chunks, without the chunk of length zero that ends a body, is
  not: the result is the one the whole body would have had if it ended there.
\<close>

theorem cut_upload_accepted:
  assumes "steady s" "src_data s = concat (map chunk_text cs)" "steady s2" "src_data s2 = body_text cs"
    "list_all (\<lambda>c. c \<noteq> []) cs" "length (concat cs) \<le> MAX_UPLOAD_BYTES" "sk_faults out = []"
  shows "\<exists>s' u s2' u2. stream_chunked (\<lambda>_. False) s out = (Inr (length (concat cs)), s', u) \<and>
    stream_chunked (\<lambda>_. False) s2 out = (Inr (length (concat cs)), s2', u2) \<and>
    sk_data (up_out u) = sk_data out @ concat cs \<and> sk_data (up_out u2) = sk_data out @ concat cs"
proof -
  from stream_loop_chunks [OF assms(1), of cs "[]" "upload_start out" "\<lambda>_. False"] assms(2,5-7) obtain s1 u1 where
    1: "stream_chunked_loop (\<lambda>_. False) s (upload_start out) = stream_chunked_loop (\<lambda>_. False) s1 u1" "steady s1" "src_data s1 = []"
      "up_out u1 = out\<lparr>sk_data := sk_data out @ concat cs\<rparr>" "up_total u1 = length (concat cs)"
    by (auto simp: upload_start_def)
  have "s1 = []"
  proof (cases s1)
    case (Cons x r)
    with 1(2,3) show ?thesis by (cases x) auto
  qed
  then have "read_line s1 = (None, [])" by (simp add: read_line_def line_loop.simps)
  then have "stream_chunked_loop (\<lambda>_. False) s1 u1 = (Inr (length (concat cs)), [], u1)"
    using 1(4,5) assms(7) by (subst stream_chunked_loop.simps) (simp add: sink_flush_def)
  moreover from stream_loop_text [OF assms(3), of cs "[]" "upload_start out" "\<lambda>_. False"] assms(4-7) obtain s2' u2 where
    "stream_chunked_loop (\<lambda>_. False) s2 (upload_start out) = (Inr (length (concat cs)), s2', u2)"
    "sk_data (up_out u2) = sk_data out @ concat cs"
    by (auto simp: upload_start_def)
  ultimately show ?thesis using 1 by (auto simp: stream_chunked_def)
qed

theorem cut_upload_accepted_witness:
  "\<exists>s' u. stream_chunked (\<lambda>_. False) [Rd_Bytes (chunk_text [0x41])] \<lparr> sk_data = [], sk_faults = [] \<rparr> = (Inr 1, s', u) \<and>
     sk_data (up_out u) = [0x41]"
proof -
  have "chunk_text [0x41] \<noteq> []" "body_text [[0x41]] \<noteq> []" by (simp_all add: chunk_text_def body_text_def crlf_def)
  with cut_upload_accepted [of "[Rd_Bytes (chunk_text [0x41])]" "[[0x41]]" "[Rd_Bytes (body_text [[0x41]])]"
      "\<lparr> sk_data = [], sk_faults = [] \<rparr>"] show ?thesis by auto
qed

end
