(* ===== verification/Airdrop_Send.thy ===== *)
theory Airdrop_Send
  imports Http Plist
begin

text \<open>
  Sending to an Apple device (\<open>sharingd/src/send.rs\<close>): the requests, the reading of the peer's answers, the
  wait for the person at the other end, and the archive that streams through the compressor into an HTTP
  body of chunks. A connection is a source and a sink. The archive format (\<open>cpio_archive\<close>, vendored under
  \<open>third_party\<close>) and the compressor (\<open>flate2\<close>) are arguments: what they write, piece by piece. \<open>io_copy\<close> is \<open>std::io::copy\<close>, the loop inside
  \<open>append_header_with_reader\<close>; it may run forever, which is the value \<open>None\<close>.
\<close>

section \<open>Writing\<close>

text \<open>A sequence of \<open>write_all\<close>, each followed by \<open>?\<close>.\<close>

fun put_all :: "bytes list \<Rightarrow> sink \<Rightarrow> (io_error + unit) \<times> sink" where
  "put_all [] k = (Inr (), k)"
| "put_all (b # bs) k = (case sink_write_all b k of (Inl e, k) \<Rightarrow> (Inl e, k) | (Inr _, k) \<Rightarrow> put_all bs k)"

definition chunk_write :: "bytes \<Rightarrow> sink \<Rightarrow> (io_error + nat) \<times> sink" where
  "chunk_write d k =
     (if d = [] then (Inr 0, k)
      else case put_all [nat_hex (length d) @ crlf, d, crlf] k of
             (Inl e, k) \<Rightarrow> (Inl e, k)
           | (Inr _, k) \<Rightarrow> (Inr (length d), k))"

definition chunk_end :: "sink \<Rightarrow> (io_error + unit) \<times> sink" where
  "chunk_end k = (case sink_write_all ([0x30] @ crlf @ crlf) k of (Inl e, k) \<Rightarrow> (Inl e, k) | (Inr _, k) \<Rightarrow> sink_flush k)"

definition request_head :: "rstring \<Rightarrow> bytes \<Rightarrow> bool \<Rightarrow> rstring" where
  "request_head path body keep_alive =
     str ''POST '' @ path @ str '' HTTP/1.1'' @ crlf @
     str ''Connection: '' @ (if keep_alive then str ''keep-alive'' else str ''close'') @ crlf @
     str ''Content-Type: application/octet-stream'' @ crlf @
     str ''Accept: */*'' @ crlf @
     str ''User-Agent: AirDrop/1.0'' @ crlf @
     str ''Accept-Language: en-us'' @ crlf @
     str ''Accept-Encoding: br, gzip, deflate'' @ crlf @
     str ''Content-Length: '' @ nat_str (length body) @ crlf @ crlf"

definition http_request :: "rstring \<Rightarrow> bytes \<Rightarrow> bool \<Rightarrow> sink \<Rightarrow> (io_error + unit) \<times> sink" where
  "http_request path body keep_alive k =
     (case put_all [request_head path body keep_alive, body] k of
        (Inl e, k) \<Rightarrow> (Inl e, k)
      | (Inr _, k) \<Rightarrow> sink_flush k)"

section \<open>Reading an answer\<close>

abbreviation (input) MAX_RESPONSE :: nat where "MAX_RESPONSE \<equiv> 262144"

function response_loop :: "bytes \<Rightarrow> source \<Rightarrow> (io_error + bytes) \<times> source" where
  "response_loop head s =
     (if length head < 16384 then
        (case src_read 1 s of
           (Inl e, s) \<Rightarrow> (Inl e, s)
         | (Inr [], s) \<Rightarrow> (Inr head, s)
         | (Inr (b # _), s) \<Rightarrow>
             if ends_with (head @ [b]) [CR, LF, CR, LF] then (Inr (head @ [b]), s) else response_loop (head @ [b]) s)
      else (Inr head, s))"
  by pat_completeness auto
termination
  by (relation "measure (\<lambda>(head, _). 16384 - length head)") auto

declare response_loop.simps [simp del]

text \<open>\<open>str::split_whitespace\<close>, on characters.\<close>

fun words_from :: "nat list \<Rightarrow> nat list \<Rightarrow> nat list list" where
  "words_from acc [] = (if acc = [] then [] else [acc])"
| "words_from acc (c # cs) =
     (if is_whitespace c then (if acc = [] then [] else [acc]) @ words_from [] cs else words_from (acc @ [c]) cs)"

definition split_whitespace :: "rstring \<Rightarrow> rstring list" where
  "split_whitespace s = map (\<lambda>w. concat (map utf8_encode w)) (words_from [] (chars s))"

definition response_status :: "rstring \<Rightarrow> nat" where
  "response_status text =
     (case split_whitespace text of
        _ # w # _ \<Rightarrow> (case parse_unsigned (2 ^ 16 - 1) w of Some n \<Rightarrow> n | None \<Rightarrow> 0)
      | _ \<Rightarrow> 0)"

definition response_chunked :: "rstring \<Rightarrow> bool" where
  "response_chunked text =
     list_ex (\<lambda>l. case split_once 0x3A l of
         Some (k, v) \<Rightarrow>
           eq_ignore_ascii_case (str_trim k) (str ''transfer-encoding'') \<and> str_contains (map ascii_lower v) (str ''chunked'')
       | None \<Rightarrow> False) (str_lines text)"

definition response_length :: "rstring \<Rightarrow> nat" where
  "response_length text =
     (let declared = (case Option.bind (http_header text (str ''content-length'')) (parse_unsigned (2 ^ 64 - 1)) of
            Some n \<Rightarrow> n | None \<Rightarrow> 0)
      in min declared MAX_RESPONSE)"

definition read_crlf_line :: "source \<Rightarrow> rstring option \<times> source" where
  "read_crlf_line s = line_loop [] s"

function response_chunks :: "nat \<Rightarrow> bytes \<Rightarrow> source \<Rightarrow> (io_error + bytes) \<times> source" where
  "response_chunks most out s =
     (case read_crlf_line s of
        (None, s) \<Rightarrow> (Inr out, s)
      | (Some line, s) \<Rightarrow>
          (case chunk_size line of
             None \<Rightarrow> (Inr out, s)
           | Some len \<Rightarrow>
               if len = 0 then (Inr out, skip_trailers s)
               else if length out + len \<ge> 2 ^ 64 then (Inl Io_Panic, s)
               else if length out + len > most then (Inl (Io_InvalidData 0), s)
               else
                 (case exact_loop len [] s of
                    (chunk, s) \<Rightarrow>
                      if length chunk < len then (Inr (out @ chunk), s)
                      else response_chunks most (out @ chunk) (snd (read_crlf_line s)))))"
  by pat_completeness auto
termination
proof (relation "measure (\<lambda>(_, _, s). src_size s)")
  fix most out s x y line len u v
  assume a: "(x, y) = read_crlf_line s" "x = Some line" "len \<noteq> 0" "(u, v) = exact_loop len [] y"
  then have "read_line s = (Some line, y)" "read_exact_bounded len y = (u, v)"
    by (simp_all add: read_crlf_line_def read_line_def read_exact_bounded_def)
  from chunk_step_size [OF this]
  show "((most, out @ u, snd (read_crlf_line v)), most, out, s) \<in> measure (\<lambda>(_, _, s). src_size s)"
    by (simp add: read_crlf_line_def read_line_def)
qed simp

declare response_chunks.simps [simp del]

definition read_chunked_body :: "nat \<Rightarrow> source \<Rightarrow> (io_error + bytes) \<times> source" where
  "read_chunked_body most s = response_chunks most [] s"

definition read_response :: "source \<Rightarrow> (io_error + nat \<times> bytes) \<times> source" where
  "read_response s =
     (case response_loop [] s of
        (Inl e, s) \<Rightarrow> (Inl e, s)
      | (Inr head, s) \<Rightarrow>
          (let text = from_utf8_lossy head
           in if response_chunked text then
                (case read_chunked_body MAX_RESPONSE s of
                   (Inl e, s) \<Rightarrow> (Inl e, s)
                 | (Inr body, s) \<Rightarrow> (Inr (response_status text, body), s))
              else
                (case exact_loop (response_length text) [] s of
                   (body, s) \<Rightarrow> (Inr (response_status text, body), s))))"


section \<open>The offer\<close>

record item =
  it_file :: source
  it_name :: rstring
  it_size :: nat

definition uti_for :: "rstring \<Rightarrow> rstring" where
  "uti_for name =
     (let e = (case rsplit_once 0x2E name of Some (_, e) \<Rightarrow> map ascii_lower e | None \<Rightarrow> [])
      in if e = str ''jpg'' \<or> e = str ''jpeg'' then str ''public.jpeg''
       else if e = str ''png'' then str ''public.png''
       else if e = str ''gif'' then str ''com.compuserve.gif''
       else if e = str ''heic'' then str ''public.heic''
       else if e = str ''heif'' then str ''public.heif''
       else if e = str ''webp'' then str ''org.webmproject.webp''
       else if e = str ''tiff'' \<or> e = str ''tif'' then str ''public.tiff''
       else if e = str ''mov'' then str ''com.apple.quicktime-movie''
       else if e = str ''mp4'' \<or> e = str ''m4v'' then str ''public.mpeg-4''
       else if e = str ''pdf'' then str ''com.adobe.pdf''
       else if e = str ''txt'' then str ''public.plain-text''
       else if e = str ''zip'' then str ''public.zip-archive''
       else if e = str ''mp3'' then str ''public.mp3''
       else if e = str ''m4a'' then str ''com.apple.m4a-audio''
       else str ''public.data'')"

text \<open>The eight bytes \<open>getrandom\<close> delivers, or nothing when it fails.\<close>

definition sender_id :: "bytes option \<Rightarrow> rstring" where
  "sender_id rnd = (case rnd of Some b \<Rightarrow> concat (map hex_upper b) | None \<Rightarrow> str ''0000000000000000'')"

definition file_entry :: "item \<Rightarrow> plist_value" where
  "file_entry i =
     V_Dict
       [(str ''FileName'', V_Str (it_name i)),
        (str ''FileType'', V_Str (uti_for (it_name i))),
        (str ''FileBomPath'', V_Str (str ''./'' @ it_name i)),
        (str ''FileIsDirectory'', V_Bool False),
        (str ''ConvertMediaFormats'', V_Bool False)]"

definition ask_value :: "bytes option \<Rightarrow> item list \<Rightarrow> rstring \<Rightarrow> rstring \<Rightarrow> plist_value" where
  "ask_value rnd items sender_name sender_model =
     V_Dict
       [(str ''SenderComputerName'', V_Str sender_name),
        (str ''SenderID'', V_Str (sender_id rnd)),
        (str ''SenderModelName'', V_Str sender_model),
        (str ''BundleID'', V_Str (str ''com.apple.finder'')),
        (str ''ConvertMediaFormats'', V_Bool False),
        (str ''Files'', V_Array (map file_entry items))]"

definition ask_body :: "bytes option \<Rightarrow> item list \<Rightarrow> rstring \<Rightarrow> rstring \<Rightarrow> bytes" where
  "ask_body rnd items sender_name sender_model = plist_encode (ask_value rnd items sender_name sender_model)"

text \<open>
  The connection, and what one turn of the wait for the answer meets: whether there is something to read,
  whether the person has cancelled, whether the deadline has passed. The value \<open>None\<close>: still waiting.
\<close>

record airdrop =
  ad_in :: source
  ad_out :: sink

record ask_turn =
  at_ready :: "io_error + bool"
  at_cancelled :: bool
  at_late :: bool

fun ask_wait :: "ask_turn list \<Rightarrow> (io_error + unit) option" where
  "ask_wait [] = None"
| "ask_wait (t # ts) =
     (case at_ready t of
        Inl e \<Rightarrow> Some (Inl e)
      | Inr True \<Rightarrow> Some (Inr ())
      | Inr False \<Rightarrow>
          if at_cancelled t then Some (Inl Io_Interrupted)
          else if at_late t then Some (Inl Io_TimedOut)
          else ask_wait ts)"

definition total_size :: "item list \<Rightarrow> (io_error + nat)" where
  "total_size items =
     (let whole = sum_list (map it_size items) in if whole < 2 ^ 64 then Inr whole else Inl Io_Panic)"

text \<open>\<open>discover\<close>, and \<open>send\<close> up to the person's answer, over a connection that may not come about.\<close>

definition discover :: "(io_error + airdrop) \<Rightarrow> (io_error + rstring option) \<times> airdrop option" where
  "discover connected =
     (case connected of
        Inl e \<Rightarrow> (Inl e, None)
      | Inr a \<Rightarrow>
          (case http_request (str ''/Discover'') (plist_dict []) False (ad_out a) of
             (Inl e, k) \<Rightarrow> (Inl e, Some (a\<lparr>ad_out := k\<rparr>))
           | (Inr _, k) \<Rightarrow>
               (case read_response (ad_in a) of
                  (Inl e, s) \<Rightarrow> (Inl e, Some (a\<lparr>ad_out := k, ad_in := s\<rparr>))
                | (Inr (status, reply), s) \<Rightarrow>
                    (if status \<noteq> 200 then Inr None
                     else case plist_parse reply of
                            P_Panic \<Rightarrow> Inl Io_Panic
                          | P_None \<Rightarrow> Inr None
                          | P_Some v \<Rightarrow> Inr (Option.bind (val_get v (str ''ReceiverComputerName'')) val_as_str),
                     Some (a\<lparr>ad_out := k, ad_in := s\<rparr>)))))"

definition send_offer ::
    "bytes option \<Rightarrow> item list \<Rightarrow> rstring \<Rightarrow> rstring \<Rightarrow> ask_turn list \<Rightarrow> airdrop \<Rightarrow> ((io_error + unit) \<times> airdrop) option" where
  "send_offer rnd items sender_name sender_model turns a =
     (case http_request (str ''/Ask'') (ask_body rnd items sender_name sender_model) True (ad_out a) of
        (Inl e, k) \<Rightarrow> Some (Inl e, a\<lparr>ad_out := k\<rparr>)
      | (Inr _, k) \<Rightarrow>
          (case ask_wait turns of
             None \<Rightarrow> None
           | Some (Inl e) \<Rightarrow> Some (Inl e, a\<lparr>ad_out := k\<rparr>)
           | Some (Inr _) \<Rightarrow>
               (case read_response (ad_in a) of
                  (Inl e, s) \<Rightarrow> Some (Inl e, a\<lparr>ad_out := k, ad_in := s\<rparr>)
                | (Inr (status, _), s) \<Rightarrow>
                    Some (if status = 0 then Inl Io_ConnectionAborted
                          else if status \<noteq> 200 then Inl Io_PermissionDenied
                          else Inr (), a\<lparr>ad_out := k, ad_in := s\<rparr>))))"

section \<open>The archive\<close>

record counting =
  ct_inner :: source
  ct_seen :: nat
  ct_base :: nat
  ct_total :: nat
  ct_last :: nat
  ct_step :: nat
  ct_reports :: "(nat \<times> nat) list"

definition counting_read :: "bool \<Rightarrow> nat \<Rightarrow> counting \<Rightarrow> (io_error + bytes) \<times> counting" where
  "counting_read cancelled n c =
     (if cancelled then (Inl Io_Interrupted, c)
      else case src_read n (ct_inner c) of
             (Inl e, s) \<Rightarrow> (Inl e, c\<lparr>ct_inner := s\<rparr>)
           | (Inr b, s) \<Rightarrow>
               let c = c\<lparr>ct_inner := s, ct_seen := ct_seen c + length b\<rparr>;
                   done = ct_base c + ct_seen c
               in (Inr b, if ct_last c + ct_step c \<le> done
                          then c\<lparr>ct_last := done, ct_reports := ct_reports c @ [(done, ct_total c)]\<rparr> else c))"

text \<open>
  What other crates write: the archive's header for an entry (its number, name and size; nothing when
  the size does not fit the format) and its trailer, as the pieces written, and the compressor, which
  writes some pieces for each piece it is given, some at the end, and some when it is dropped unfinished.
\<close>

record 'g archiver =
  ar_header :: "nat \<Rightarrow> rstring \<Rightarrow> nat \<Rightarrow> bytes list option"
  ar_trailer :: "nat \<Rightarrow> bytes list"
  ar_start :: 'g
  ar_write :: "'g \<Rightarrow> bytes \<Rightarrow> bytes list \<times> 'g"
  ar_finish :: "'g \<Rightarrow> bytes list"
  ar_drop :: "'g \<Rightarrow> bytes list"

fun chunk_writes :: "bytes list \<Rightarrow> sink \<Rightarrow> (io_error + unit) \<times> sink" where
  "chunk_writes [] k = (Inr (), k)"
| "chunk_writes (d # ds) k = (case chunk_write d k of (Inl e, k) \<Rightarrow> (Inl e, k) | (Inr _, k) \<Rightarrow> chunk_writes ds k)"

definition gz_write :: "'g archiver \<Rightarrow> bytes \<Rightarrow> 'g \<times> sink \<Rightarrow> (io_error + unit) \<times> 'g \<times> sink" where
  "gz_write A d w =
     (case ar_write A (fst w) d of
        (ds, g) \<Rightarrow> (case chunk_writes ds (snd w) of (r, k) \<Rightarrow> (r, g, k)))"

fun gz_writes :: "'g archiver \<Rightarrow> bytes list \<Rightarrow> 'g \<times> sink \<Rightarrow> (io_error + unit) \<times> 'g \<times> sink" where
  "gz_writes A [] w = (Inr (), w)"
| "gz_writes A (d # ds) w = (case gz_write A d w of (Inl e, w) \<Rightarrow> (Inl e, w) | (Inr _, w) \<Rightarrow> gz_writes A ds w)"

text \<open>
  \<open>std::io::copy\<close>: reads of at most 8 KiB, an interrupted read made again. \<open>cancelled n\<close> is what the \<open>n\<close>th
  look at the cancel flag finds; the index of the next look is part of the result.
\<close>

partial_function (option) io_copy ::
    "'g archiver \<Rightarrow> (nat \<Rightarrow> bool) \<Rightarrow> nat \<Rightarrow> nat \<Rightarrow> counting \<Rightarrow> 'g \<times> sink \<Rightarrow>
     ((io_error + nat) \<times> nat \<times> counting \<times> 'g \<times> sink) option" where
  "io_copy A cancelled i copied c w =
     (case counting_read (cancelled i) 8192 c of
        (Inl e, c) \<Rightarrow>
          if e = Io_Interrupted then io_copy A cancelled (Suc i) copied c w else Some (Inl e, Suc i, c, w)
      | (Inr b, c) \<Rightarrow>
          if b = [] then Some (Inr copied, Suc i, c, w)
          else (case gz_write A b w of
                  (Inl e, w) \<Rightarrow> Some (Inl e, Suc i, c, w)
                | (Inr _, w) \<Rightarrow> io_copy A cancelled (Suc i) (copied + length b) c w))"

definition counting_start :: "item \<Rightarrow> nat \<Rightarrow> nat \<Rightarrow> counting" where
  "counting_start it done whole =
     \<lparr> ct_inner = it_file it, ct_seen = 0, ct_base = done, ct_total = whole, ct_last = done,
       ct_step = max (whole div 100) (64 * 1024), ct_reports = [] \<rparr>"

text \<open>\<open>append_header_with_reader\<close>, its error turned into one of the other kind; the result is what was read.\<close>

definition append_item ::
    "'g archiver \<Rightarrow> (nat \<Rightarrow> bool) \<Rightarrow> nat \<Rightarrow> nat \<Rightarrow> nat \<Rightarrow> nat \<Rightarrow> item \<Rightarrow> 'g \<times> sink \<Rightarrow>
     ((io_error + nat) \<times> nat \<times> 'g \<times> sink) option" where
  "append_item A cancelled i n done whole it w =
     (case ar_header A n (str ''./'' @ it_name it) (it_size it) of
        None \<Rightarrow> Some (Inl (Io_Other 0), i, w)
      | Some hs \<Rightarrow>
          (case gz_writes A hs w of
             (Inl e, w) \<Rightarrow> Some (Inl (Io_Other 0), i, w)
           | (Inr _, w) \<Rightarrow>
               (case io_copy A cancelled i 0 (counting_start it done whole) w of
                  None \<Rightarrow> None
                | Some (Inl e, i, c, w) \<Rightarrow> Some (Inl (Io_Other 0), i, w)
                | Some (Inr copied, i, c, w) \<Rightarrow>
                    Some (if copied \<noteq> it_size it then Inl (Io_Other 0) else Inr (ct_seen c), i, w))))"

fun send_items ::
    "'g archiver \<Rightarrow> (nat \<Rightarrow> bool) \<Rightarrow> nat \<Rightarrow> nat \<Rightarrow> nat \<Rightarrow> nat \<Rightarrow> item list \<Rightarrow> 'g \<times> sink \<Rightarrow>
     ((io_error + nat) \<times> nat \<times> 'g \<times> sink) option" where
  "send_items A cancelled i n done whole [] w =
     (case gz_writes A (ar_trailer A n) w of
        (Inl e, w) \<Rightarrow> Some (Inl (Io_Other 0), i, w)
      | (Inr _, w) \<Rightarrow> Some (Inr done, i, w))"
| "send_items A cancelled i n done whole (it # its) w =
     (if cancelled i then Some (Inl Io_Interrupted, Suc i, w)
      else case append_item A cancelled (Suc i) n done whole it w of
             None \<Rightarrow> None
           | Some (Inl e, i, w) \<Rightarrow> Some (Inl e, i, w)
           | Some (Inr seen, i, w) \<Rightarrow> send_items A cancelled i (Suc n) (done + seen) whole its w)"

definition upload_head :: "nat \<Rightarrow> rstring" where
  "upload_head whole =
     str ''POST /Upload HTTP/1.1'' @ crlf @
     str ''Connection: close'' @ crlf @
     str ''Content-Type: application/x-cpio'' @ crlf @
     str ''Accept: */*'' @ crlf @
     str ''User-Agent: AirDrop/1.0'' @ crlf @
     str ''Accept-Language: en-us'' @ crlf @
     str ''TotalBytes: '' @ nat_str whole @ crlf @
     str ''Transfer-Encoding: chunked'' @ crlf @ crlf"

text \<open>The part of \<open>send\<close> that follows an acceptance; an unfinished compressor is dropped on the way out.\<close>

definition send_upload ::
    "'g archiver \<Rightarrow> (nat \<Rightarrow> bool) \<Rightarrow> nat \<Rightarrow> item list \<Rightarrow> airdrop \<Rightarrow> ((io_error + unit) \<times> airdrop) option" where
  "send_upload A cancelled whole items a =
     (case sink_write_all (upload_head whole) (ad_out a) of
        (Inl e, k) \<Rightarrow> Some (Inl e, a\<lparr>ad_out := k\<rparr>)
      | (Inr _, k) \<Rightarrow>
          (case send_items A cancelled 0 0 0 whole items (ar_start A, k) of
             None \<Rightarrow> None
           | Some (Inl e, _, g, k) \<Rightarrow> Some (Inl e, a\<lparr>ad_out := snd (chunk_writes (ar_drop A g) k)\<rparr>)
           | Some (Inr sent, _, g, k) \<Rightarrow>
               (case chunk_writes (ar_finish A g) k of
                  (Inl e, k) \<Rightarrow> Some (Inl e, a\<lparr>ad_out := k\<rparr>)
                | (Inr _, k) \<Rightarrow>
                    (case chunk_end k of
                       (Inl e, k) \<Rightarrow> Some (Inl e, a\<lparr>ad_out := k\<rparr>)
                     | (Inr _, k) \<Rightarrow>
                         (case read_response (ad_in a) of
                            (Inl e, s) \<Rightarrow> Some (Inl e, a\<lparr>ad_out := k, ad_in := s\<rparr>)
                          | (Inr (status, _), s) \<Rightarrow>
                              Some (if status \<noteq> 200 then Inl (Io_Other 0) else Inr (), a\<lparr>ad_out := k, ad_in := s\<rparr>))))))"

definition airdrop_send ::
    "'g archiver \<Rightarrow> (nat \<Rightarrow> bool) \<Rightarrow> bytes option \<Rightarrow> item list \<Rightarrow> rstring \<Rightarrow> rstring \<Rightarrow> ask_turn list \<Rightarrow> (io_error + airdrop) \<Rightarrow>
     ((io_error + unit) \<times> airdrop option) option" where
  "airdrop_send A cancelled rnd items sender_name sender_model turns connected =
     (if items = [] then Some (Inl Io_InvalidInput, None)
      else case total_size items of
             Inl e \<Rightarrow> Some (Inl e, None)
           | Inr whole \<Rightarrow>
               (case connected of
                  Inl e \<Rightarrow> Some (Inl e, None)
                | Inr a \<Rightarrow>
                    (case send_offer rnd items sender_name sender_model turns a of
                       None \<Rightarrow> None
                     | Some (Inl e, a) \<Rightarrow> Some (Inl e, Some a)
                     | Some (Inr _, a) \<Rightarrow> map_option (\<lambda>(r, a). (r, Some a)) (send_upload A cancelled whole items a))))"


section \<open>What a finished upload has put on the wire\<close>

lemma put_all_clean: "sk_faults k = [] \<Longrightarrow> put_all bs k = (Inr (), k\<lparr>sk_data := sk_data k @ concat bs\<rparr>)"
  by (induction bs arbitrary: k) (simp_all add: sink_write_all_def)

abbreviation (input) on_wire :: "sink \<Rightarrow> bytes list \<Rightarrow> sink" where
  "on_wire k ds \<equiv> k\<lparr>sk_data := sk_data k @ concat (map chunk_text (filter (\<lambda>d. d \<noteq> []) ds))\<rparr>"

lemma chunk_writes_clean: "sk_faults k = [] \<Longrightarrow> chunk_writes ds k = (Inr (), on_wire k ds)"
proof (induction ds arbitrary: k)
  case (Cons d ds)
  show ?case
    using Cons.prems Cons.IH [of k] Cons.IH [of "k\<lparr>sk_data := sk_data k @ chunk_text d\<rparr>"]
    by (simp add: chunk_write_def put_all_clean chunk_text_def del: put_all.simps)
qed simp

text \<open>What the compressor emits for a sequence of pieces, and the state it is in after them.\<close>

fun gz_feed :: "'g archiver \<Rightarrow> 'g \<Rightarrow> bytes list \<Rightarrow> bytes list \<times> 'g" where
  "gz_feed A g [] = ([], g)"
| "gz_feed A g (d # ds) =
     (case ar_write A g d of (ps, g) \<Rightarrow> (case gz_feed A g ds of (qs, g) \<Rightarrow> (ps @ qs, g)))"

lemma gz_feed_append:
  "gz_feed A g (ds @ es) = (fst (gz_feed A g ds) @ fst (gz_feed A (snd (gz_feed A g ds)) es), snd (gz_feed A (snd (gz_feed A g ds)) es))"
  by (induction ds arbitrary: g) (simp_all split: prod.split)

definition carried :: "'g archiver \<Rightarrow> 'g \<times> sink \<Rightarrow> bytes \<Rightarrow> 'g \<times> sink \<Rightarrow> bool" where
  "carried A w d w' \<longleftrightarrow> (\<exists>ds. concat ds = d \<and> w' = (snd (gz_feed A (fst w) ds), on_wire (snd w) (fst (gz_feed A (fst w) ds))))"

lemma carried_refl [simp]: "carried A w [] w"
  unfolding carried_def by (rule exI [of _ "[]"]) simp

lemma carried_trans: "carried A w d w' \<Longrightarrow> carried A w' e w'' \<Longrightarrow> carried A w (d @ e) w''"
  unfolding carried_def
  by (elim exE conjE, rule_tac x = "ds @ dsa" in exI) (simp add: gz_feed_append)

lemma carried_faults: "carried A w d w' \<Longrightarrow> sk_faults (snd w') = sk_faults (snd w)"
  by (auto simp: carried_def)

lemma gz_write_clean: "sk_faults (snd w) = [] \<Longrightarrow> \<exists>w'. gz_write A d w = (Inr (), w') \<and> carried A w d w'"
  by (auto simp: gz_write_def carried_def chunk_writes_clean split: prod.split intro!: exI [of _ "[d]"])

lemma gz_writes_clean: "sk_faults (snd w) = [] \<Longrightarrow> \<exists>w'. gz_writes A ds w = (Inr (), w') \<and> carried A w (concat ds) w'"
proof (induction ds arbitrary: w)
  case (Cons d ds)
  from gz_write_clean [OF Cons.prems] obtain w1 where 1: "gz_write A d w = (Inr (), w1)" "carried A w d w1" by blast
  with Cons.IH [of w1] Cons.prems obtain w2 where "gz_writes A ds w1 = (Inr (), w2)" "carried A w1 (concat ds) w2"
    by (auto simp: carried_faults)
  with 1 carried_trans [OF 1(2)] show ?case by auto
qed auto

lemma counting_read_inner:
  "counting_read False n c = (r, c') \<Longrightarrow> \<exists>s'. src_read n (ct_inner c) = (r, s') \<and> ct_inner c' = s'"
  "counting_read b n c = (Inr d, c') \<Longrightarrow> \<not> b \<and> ct_seen c' = ct_seen c + length d"
  by (auto simp: counting_read_def Let_def split: if_splits prod.splits sum.splits)

lemma io_copy_delivers:
  assumes "io_copy A cancelled i copied c w = Some r" "clean (ct_inner c)" "sk_faults (snd w) = []"
  shows "fst r = Inr n \<longrightarrow> n = copied + length (src_data (ct_inner c)) \<and>
    carried A w (src_data (ct_inner c)) (snd (snd (snd r)))"
  using assms
proof (induction rule: io_copy.raw_induct [rotated, consumes 1, case_names step])
  case (step f A cancelled i copied c w r)
  obtain x c1 where x: "counting_read (cancelled i) 8192 c = (x, c1)" by fastforce
  show ?case
  proof (cases "cancelled i")
    case True
    then have "x = Inl Io_Interrupted" "c1 = c" using x by (simp_all add: counting_read_def)
    with step x show ?thesis by simp
  next
    case False
    then obtain s1 where s: "src_read 8192 (ct_inner c) = (x, s1)" "ct_inner c1 = s1"
      using counting_read_inner(1) x by fastforce
    from src_read_clean [OF step.prems(1) _ s(1)] have cl: "clean (ct_inner c1)" and
      alt: "x = Inl Io_Interrupted \<and> src_data s1 = src_data (ct_inner c) \<or>
        (\<exists>bs. x = Inr bs \<and> src_data (ct_inner c) = bs @ src_data s1 \<and> (bs = [] \<longrightarrow> ct_inner c = []))"
      using s(2) by auto
    from alt show ?thesis
    proof (elim disjE exE conjE)
      fix bs assume b: "x = Inr bs" "src_data (ct_inner c) = bs @ src_data s1" "bs = [] \<longrightarrow> ct_inner c = []"
      show ?thesis
      proof (cases "bs = []")
        case True
        with b step.hyps x show ?thesis by auto
      next
        case ne: False
        from gz_write_clean [OF step.prems(2)] obtain w1 where
          w1: "gz_write A bs w = (Inr (), w1)" "carried A w bs w1" by blast
        with step.hyps x b ne have "f A cancelled (Suc i) (copied + length bs) c1 w1 = Some r" by simp
        from step.IH [OF this cl] w1 step.prems(2) carried_trans [OF w1(2)] b s(2) show ?thesis
          by (auto simp: carried_faults)
      qed
    next
      assume b: "x = Inl Io_Interrupted" "src_data s1 = src_data (ct_inner c)"
      with step.hyps x have "f A cancelled (Suc i) copied c1 w = Some r" by simp
      from step.IH [OF this cl step.prems(2)] b(2) s(2) show ?thesis by simp
    qed
  qed
qed

text \<open>The archive of some files, numbered from \<open>n\<close>, when the format can hold them.\<close>

fun archive_of :: "'g archiver \<Rightarrow> nat \<Rightarrow> item list \<Rightarrow> bytes option" where
  "archive_of A n [] = Some (concat (ar_trailer A n))"
| "archive_of A n (it # its) =
     (case (ar_header A n (str ''./'' @ it_name it) (it_size it), archive_of A (Suc n) its) of
        (Some hs, Some rest) \<Rightarrow> Some (concat hs @ src_data (it_file it) @ rest)
      | _ \<Rightarrow> None)"

lemma append_item_delivers:
  assumes "append_item A cancelled i n done whole it w = Some (Inr seen, i', w')" "clean (it_file it)" "sk_faults (snd w) = []"
  shows "\<exists>hs. ar_header A n (str ''./'' @ it_name it) (it_size it) = Some hs \<and> it_size it = length (src_data (it_file it)) \<and>
    carried A w (concat hs @ src_data (it_file it)) w'"
proof -
  from assms(1) obtain hs where h: "ar_header A n (str ''./'' @ it_name it) (it_size it) = Some hs"
    by (auto simp: append_item_def split: option.splits)
  from gz_writes_clean [OF assms(3)] obtain w1 where w1: "gz_writes A hs w = (Inr (), w1)" "carried A w (concat hs) w1" by blast
  with assms(1) h obtain copied c where c: "io_copy A cancelled i 0 (counting_start it done whole) w1 = Some (Inr copied, i', c, w')"
    "copied = it_size it"
    by (auto simp: append_item_def split: option.splits prod.splits sum.splits if_splits)
  from io_copy_delivers [OF c(1), of copied] assms(2,3) w1(2)
  have "copied = length (src_data (it_file it))" "carried A w1 (src_data (it_file it)) w'"
    by (auto simp: counting_start_def carried_faults)
  with h c(2) carried_trans [OF w1(2)] show ?thesis by blast
qed

lemma send_items_delivers:
  assumes "send_items A cancelled i n done whole its w = Some (Inr s, i', w')" "\<forall>it\<in>set its. clean (it_file it)" "sk_faults (snd w) = []"
  shows "\<exists>d. archive_of A n its = Some d \<and> carried A w d w'"
  using assms
proof (induction its arbitrary: i n "done" w)
  case Nil
  from gz_writes_clean [OF Nil(3), of A "ar_trailer A n"] Nil(1) show ?case by auto
next
  case (Cons it its)
  from Cons.prems(1) obtain seen i1 w1 where 1: "append_item A cancelled (Suc i) n done whole it w = Some (Inr seen, i1, w1)"
    "send_items A cancelled i1 (Suc n) (done + seen) whole its w1 = Some (Inr s, i', w')"
    by (auto split: if_splits option.splits prod.splits sum.splits)
  from append_item_delivers [OF 1(1)] Cons.prems(2,3) obtain hs where
    h: "ar_header A n (str ''./'' @ it_name it) (it_size it) = Some hs" "carried A w (concat hs @ src_data (it_file it)) w1"
    by auto
  from Cons.IH [OF 1(2)] Cons.prems(2,3) h(2) obtain d where "archive_of A (Suc n) its = Some d" "carried A w1 d w'"
    by (auto simp: carried_faults)
  with h(1) carried_trans [OF h(2)] show ?case by auto
qed

text \<open>Once the flag is set, a copy that has not ended never ends.\<close>

lemma io_copy_cancelled:
  assumes "io_copy A cancelled i copied c w = Some r" "\<forall>n\<ge>j. cancelled n"
  shows "i < j \<and> fst (snd r) \<le> j"
  using assms
proof (induction rule: io_copy.raw_induct [rotated, consumes 1, case_names step])
  case (step f A cancelled i copied c w r)
  obtain x c1 where x: "counting_read (cancelled i) 8192 c = (x, c1)" by fastforce
  show ?case
  proof (cases "cancelled i")
    case True
    then have "x = Inl Io_Interrupted" "c1 = c" using x by (simp_all add: counting_read_def)
    with step.hyps x have f: "f A cancelled (Suc i) copied c w = Some r" by simp
    from step.IH [OF f step.prems] show ?thesis by simp
  next
    case False
    then have lt: "i < j" using step.prems not_le by blast
    have "r = (fst r, Suc i, snd (snd r)) \<or> (\<exists>a b g k. f A cancelled (Suc i) a b (g, k) = Some r)"
      using step.hyps x by (cases w) (auto split: sum.splits prod.splits if_splits)
    then show ?thesis
    proof
      assume "r = (fst r, Suc i, snd (snd r))"
      then have "fst (snd r) = Suc i" by (metis fst_conv snd_conv)
      with lt show ?thesis by simp
    qed (use step.IH step.prems lt in blast)
  qed
qed

lemma io_copy_reads:
  assumes "io_copy A cancelled i copied c w = Some r" "clean (ct_inner c)" "sk_faults (snd w) = []"
  shows "i < fst (snd r) \<and> length (src_data (ct_inner c)) \<le> 8192 * (fst (snd r) - Suc i) \<and> (\<exists>n. fst r = Inr n)"
  using assms
proof (induction rule: io_copy.raw_induct [rotated, consumes 1, case_names step])
  case (step f A cancelled i copied c w r)
  obtain x c1 where x: "counting_read (cancelled i) 8192 c = (x, c1)" by fastforce
  show ?case
  proof (cases "cancelled i")
    case True
    then have "x = Inl Io_Interrupted" "c1 = c" using x by (simp_all add: counting_read_def)
    with step.hyps x have "f A cancelled (Suc i) copied c w = Some r" by simp
    from step.IH [OF this step.prems] show ?thesis by auto
  next
    case False
    then obtain s1 where s: "src_read 8192 (ct_inner c) = (x, s1)" "ct_inner c1 = s1"
      using counting_read_inner(1) x by fastforce
    from src_read_clean [OF step.prems(1) _ s(1)] have cl: "clean (ct_inner c1)" and
      alt: "x = Inl Io_Interrupted \<and> src_data s1 = src_data (ct_inner c) \<or>
        (\<exists>bs. x = Inr bs \<and> length bs \<le> 8192 \<and> src_data (ct_inner c) = bs @ src_data s1 \<and> (bs = [] \<longrightarrow> ct_inner c = []))"
      using s(2) by auto
    from alt show ?thesis
    proof (elim disjE exE conjE)
      fix bs assume b: "x = Inr bs" "length bs \<le> 8192" "src_data (ct_inner c) = bs @ src_data s1" "bs = [] \<longrightarrow> ct_inner c = []"
      show ?thesis
      proof (cases "bs = []")
        case True
        with b step.hyps x show ?thesis by auto
      next
        case ne: False
        from gz_write_clean [OF step.prems(2)] obtain w1 where
          w1: "gz_write A bs w = (Inr (), w1)" "carried A w bs w1" by blast
        with step.hyps x b ne have "f A cancelled (Suc i) (copied + length bs) c1 w1 = Some r" by simp
        from step.IH [OF this cl] w1 step.prems(2) b s(2) show ?thesis by (auto simp: carried_faults)
      qed
    next
      assume b: "x = Inl Io_Interrupted" "src_data s1 = src_data (ct_inner c)"
      with step.hyps x have "f A cancelled (Suc i) copied c1 w = Some r" by simp
      from step.IH [OF this cl step.prems(2)] b(2) s(2) show ?thesis by auto
    qed
  qed
qed

lemma put_all_prefix: "put_all bs k = (r, k') \<Longrightarrow> \<exists>m. sk_data k' = sk_data k @ take m (concat bs)"
proof (induction bs arbitrary: k)
  case Nil
  then show ?case by auto
next
  case (Cons b bs)
  obtain x k1 where x: "sink_write_all b k = (x, k1)" by fastforce
  show ?case
  proof (cases x)
    case (Inl e)
    with x Cons.prems have "k' = k1" by simp
    moreover have "\<exists>m\<le>length b. sk_data k1 = sk_data k @ take m b"
      using x by (auto simp: sink_write_all_def split: list.splits option.splits intro: exI [of _ "min (length b) _"])
        (metis min.cobounded1 take_all_iff nat_le_linear le_refl)+
    ultimately show ?thesis by (metis append_Nil2 concat.simps(2) diff_is_0_eq' take0 take_append)
  next
    case (Inr u)
    with x have k1: "sk_data k1 = sk_data k @ b"
      by (auto simp: sink_write_all_def split: list.splits option.splits)
    from Inr x Cons.prems have "put_all bs k1 = (r, k')" by simp
    from Cons.IH [OF this] k1 obtain m where "sk_data k' = sk_data k @ b @ take m (concat bs)" by auto
    then have "sk_data k' = sk_data k @ take (length b + m) (concat (b # bs))" by simp
    then show ?thesis by blast
  qed
qed

lemma put_all_faults: "put_all bs k = (r, k') \<Longrightarrow> sk_faults k = [] \<Longrightarrow> sk_faults k' = []"
  by (simp add: put_all_clean) (metis sink.select_convs(2) sink.surjective sink.update_convs(1))

section \<open>Properties\<close>

text \<open>
  What is relied on of the compressor: whatever pieces it is given, all it emits decompresses to them.
\<close>

definition gzip_ok :: "'g archiver \<Rightarrow> (bytes \<Rightarrow> bytes) \<Rightarrow> bool" where
  "gzip_ok A gunzip \<longleftrightarrow>
     (\<forall>ds. gunzip (concat (fst (gz_feed A (ar_start A) ds) @ ar_finish A (snd (gz_feed A (ar_start A) ds)))) = concat ds)"

lemma send_upload_wire:
  assumes "send_upload A cancelled whole items a = Some (Inr (), a')" "\<forall>it\<in>set items. clean (it_file it)"
    "sk_faults (ad_out a) = []" "gzip_ok A gunzip"
  shows "\<exists>d ps. archive_of A 0 items = Some d \<and> gunzip (concat ps) = d \<and> list_all (\<lambda>c. c \<noteq> []) ps \<and>
    sk_data (ad_out a') = sk_data (ad_out a) @ upload_head whole @ body_text ps"
proof -
  define k where "k = (ad_out a)\<lparr>sk_data := sk_data (ad_out a) @ upload_head whole\<rparr>"
  have k: "sink_write_all (upload_head whole) (ad_out a) = (Inr (), k)" "sk_faults k = []"
    using assms(3) by (simp_all add: k_def sink_write_all_def)
  from assms(1) k(1) obtain s i g k1 where
    1: "send_items A cancelled 0 0 0 whole items (ar_start A, k) = Some (Inr s, i, g, k1)"
    by (auto simp: send_upload_def split: option.splits sum.splits prod.splits)
  from send_items_delivers [OF 1 assms(2)] k(2) obtain d where d: "archive_of A 0 items = Some d" "carried A (ar_start A, k) d (g, k1)"
    by auto
  from d(2) obtain ds where ds: "concat ds = d" "g = snd (gz_feed A (ar_start A) ds)" "k1 = on_wire k (fst (gz_feed A (ar_start A) ds))"
    by (auto simp: carried_def)
  have f1: "sk_faults k1 = []" using ds(3) k(2) by simp
  define qs where "qs = fst (gz_feed A (ar_start A) ds) @ ar_finish A g"
  define ps where "ps = filter (\<lambda>d. d \<noteq> []) qs"
  have "chunk_writes (ar_finish A g) k1 = (Inr (), on_wire k qs)"
    using chunk_writes_clean [OF f1] ds(3) by (simp add: qs_def)
  with assms(1) k 1 have "sk_data (ad_out a') = sk_data (on_wire k qs) @ [0x30] @ crlf @ crlf"
    by (auto simp: send_upload_def chunk_end_def sink_write_all_def sink_flush_def split: option.splits sum.splits prod.splits if_splits)
  moreover have "concat ps = concat qs" unfolding ps_def by (induction qs) auto
  with assms(4) ds(1,2) have "gunzip (concat ps) = d" by (simp add: gzip_ok_def qs_def)
  moreover have "list_all (\<lambda>c. c \<noteq> []) ps" by (simp add: ps_def list_all_iff)
  ultimately show ?thesis using d(1) by (auto simp: k_def body_text_def ps_def)
qed

definition plain_archiver :: "unit archiver" where
  "plain_archiver =
     \<lparr> ar_header = \<lambda>n name len. Some [name], ar_trailer = \<lambda>n. [], ar_start = (), ar_write = \<lambda>g d. ([d], g),
       ar_finish = \<lambda>g. [], ar_drop = \<lambda>g. [] \<rparr>"

abbreviation (input) free_sink :: sink where "free_sink \<equiv> \<lparr> sk_data = [], sk_faults = [] \<rparr>"

text \<open>
  C8: a send that reports success has delivered. The peer that reads the body of the request as this
  program's own server reads it, in whatever pieces the link brings it, holds bytes that decompress to
  the archive of every file in full, and nothing is left over.
\<close>

theorem archive_delivered:
  assumes "gzip_ok A gunzip" "send_upload A cancelled whole items a = Some (Inr (), a')"
    "\<forall>it\<in>set items. clean (it_file it)" "sk_faults (ad_out a) = []"
    "sk_data (ad_out a') = sk_data (ad_out a) @ upload_head whole @ src_data s" "steady s"
    "length (src_data s) \<le> MAX_UPLOAD_BYTES" "sk_faults out = []"
  shows "\<exists>d z s' u. archive_of A 0 items = Some d \<and>
    stream_chunked (\<lambda>_. False) s out = (Inr (length z), s', u) \<and> src_data s' = [] \<and>
    sk_data (up_out u) = sk_data out @ z \<and> gunzip z = d"
proof -
  from send_upload_wire [OF assms(2-4,1)] assms(5) obtain d ps where
    w: "archive_of A 0 items = Some d" "gunzip (concat ps) = d" "list_all (\<lambda>c. c \<noteq> []) ps" "src_data s = body_text ps @ []"
    by auto
  have "length (concat ps) \<le> length (body_text ps)"
    unfolding body_text_def by (induction ps) (auto simp: chunk_text_def)
  with w(4) assms(7) have "length (concat ps) \<le> MAX_UPLOAD_BYTES" by simp
  with stream_loop_text [OF assms(6) w(4,3), of "upload_start out" "\<lambda>_. False"] assms(8) w(1,2) show ?thesis
    by (auto simp: stream_chunked_def upload_start_def)
qed

theorem archive_delivered_witness:
  "\<exists>d z s' u. archive_of plain_archiver 0 [\<lparr> it_file = [Rd_Bytes [0x41]], it_name = [0x61], it_size = 1 \<rparr>] = Some d \<and>
    stream_chunked (\<lambda>_. False) [Rd_Bytes (body_text [str ''./a'', [0x41]])] free_sink = (Inr (length z), s', u) \<and>
    sk_data (up_out u) = z \<and> z = d"
proof -
  let ?it = "\<lparr> it_file = [Rd_Bytes [0x41]], it_name = [0x61], it_size = 1 \<rparr>"
  let ?ps = "[str ''./a'', [0x41]]"
  let ?text = "str ''H 200'' @ crlf @ crlf"
  let ?a = "\<lparr> ad_in = [Rd_Bytes ?text], ad_out = free_sink \<rparr>"
  have feed: "gz_feed plain_archiver g ds = (ds, g)" for g ds
    by (induction ds) (simp_all add: plain_archiver_def)
  have ok: "gzip_ok plain_archiver (\<lambda>z. z)" by (simp add: gzip_ok_def feed) (simp add: plain_archiver_def)
  have l: "response_loop [] [Rd_Bytes ?text] = (Inr ?text, [])"
    by (simp add: response_loop.simps str_def crlf_def ends_with_def)
  have asc: "list_all (\<lambda>b. b < 0x80) ?text" by (simp add: str_def crlf_def)
  have val: "from_utf8_lossy ?text = ?text" using asc by (intro from_utf8_lossy_valid ascii_utf8_valid) (simp add: list_all_iff)
  have st: "response_status ?text = 200"
    using chars_ascii [OF asc]
    by (simp add: response_status_def split_whitespace_def str_def crlf_def is_whitespace_def utf8_encode_def
      parse_unsigned_def decimal_def is_digit_def)
  have lines: "str_lines ?text = [str ''H 200'', []]" by (simp add: str_lines_def str_def crlf_def)
  have resp: "read_response [Rd_Bytes ?text] = (Inr (200, []), [])"
    using l val st lines
    by (simp add: read_response_def Let_def response_chunked_def response_length_def http_header_def split_once_def str_def exact_loop.simps)
  have cw: "chunk_write d k = (Inr (length d), on_wire k [d])" if "d \<noteq> []" "sk_faults k = []" for d k
    using that by (simp add: chunk_write_def put_all_clean chunk_text_def del: put_all.simps)
  have gz: "gz_write plain_archiver d ((), k) = (Inr (), (), on_wire k [d])" if "d \<noteq> []" "sk_faults k = []" for d k
    using that by (simp add: gz_write_def plain_archiver_def cw)
  have "\<exists>c. io_copy plain_archiver (\<lambda>_. False) (Suc 0) 0 (counting_start ?it 0 1) ((), k) = Some (Inr 1, 3, c, (), on_wire k [[0x41]])"
    if "sk_faults k = []" for k
    using that by (subst io_copy.simps) (simp add: counting_read_def counting_start_def gz io_copy.simps)
  note copy = this
  have sel: "ar_header plain_archiver n name len = Some [name]" "ar_trailer plain_archiver n = []"
    "ar_start plain_archiver = ()" "ar_finish plain_archiver g = []" for n name len g
    by (simp_all add: plain_archiver_def)
  have name: "str ''./'' @ [0x61] = str ''./a''" "str ''./a'' \<noteq> []" by (simp_all add: str_def)
  define k where "k = \<lparr> sk_data = upload_head 1, sk_faults = [] \<rparr>"
  from copy [of "on_wire k [str ''./a'']"] obtain c where
    "io_copy plain_archiver (\<lambda>_. False) (Suc 0) 0 (counting_start ?it 0 1) ((), on_wire k [str ''./a'']) =
      Some (Inr 1, 3, c, (), on_wire k ?ps)" using name(2) by (auto simp: k_def)
  then obtain s where items: "send_items plain_archiver (\<lambda>_. False) 0 0 0 1 [?it] ((), k) = Some (Inr s, 3, (), on_wire k ?ps)"
    using gz [OF name(2), of k] name(1) by (auto simp: append_item_def sel k_def)
  obtain a' where a': "send_upload plain_archiver (\<lambda>_. False) 1 [?it] ?a = Some (Inr (), a')"
    "sk_data (ad_out a') = upload_head 1 @ body_text ?ps"
    using resp items name(2)
    by (simp add: send_upload_def sel sink_write_all_def k_def chunk_end_def sink_flush_def body_text_def)
  have "length (body_text ?ps) < 100"
    by (simp add: body_text_def chunk_text_def str_def crlf_def nat_hex.simps)
  moreover have "body_text ?ps \<noteq> []" by (simp add: body_text_def crlf_def)
  ultimately show ?thesis using archive_delivered [OF ok a'(1), of "[Rd_Bytes (body_text ?ps)]" free_sink] a'(2) by auto
qed

text \<open>
  C38: a cancelled send does not stop. The reader that feeds a file into the archive reports a cancel as
  an interrupted read, and \<open>std::io::copy\<close> makes an interrupted read again. So a cancel that comes at any
  time before a file has been read to its end leaves the thread in that loop for ever.
\<close>

theorem cancel_spins:
  assumes "\<forall>n\<ge>j. cancelled n" "\<not> cancelled 0" "1 \<le> j" "clean (it_file it)" "8192 * j < length (src_data (it_file it))"
    "ar_header A 0 (str ''./'' @ it_name it) (it_size it) = Some hs" "sk_faults (ad_out a) = []"
  shows "send_upload A cancelled whole (it # its) a = None"
proof -
  define k where "k = (ad_out a)\<lparr>sk_data := sk_data (ad_out a) @ upload_head whole\<rparr>"
  have k: "sink_write_all (upload_head whole) (ad_out a) = (Inr (), k)" "sk_faults k = []"
    using assms(7) by (simp_all add: k_def sink_write_all_def)
  from gz_writes_clean [of "(ar_start A, k)" A hs] k(2) obtain w where
    w: "gz_writes A hs (ar_start A, k) = (Inr (), w)" "sk_faults (snd w) = []" by (auto dest: carried_faults)
  have "io_copy A cancelled (Suc 0) 0 (counting_start it 0 whole) w = None"
  proof (rule ccontr)
    assume "io_copy A cancelled (Suc 0) 0 (counting_start it 0 whole) w \<noteq> None"
    then obtain r where r: "io_copy A cancelled (Suc 0) 0 (counting_start it 0 whole) w = Some r" by blast
    have "length (src_data (it_file it)) \<le> 8192 * (fst (snd r) - Suc (Suc 0))"
      using io_copy_reads [OF r] assms(4) w(2) by (simp add: counting_start_def)
    moreover have "fst (snd r) \<le> j" using io_copy_cancelled [OF r assms(1)] by simp
    ultimately show False using assms(5) by simp
  qed
  then show ?thesis using assms(2,6) k(1) w(1) by (simp add: send_upload_def append_item_def)
qed

theorem cancel_spins_witness:
  "send_upload plain_archiver (\<lambda>n. 1 \<le> n) 9000
     [\<lparr> it_file = [Rd_Bytes (replicate 9000 0)], it_name = [0x61], it_size = 9000 \<rparr>]
     \<lparr> ad_in = [], ad_out = free_sink \<rparr> = None"
proof (rule cancel_spins [where j = 1])
  show "clean (it_file \<lparr> it_file = [Rd_Bytes (replicate 9000 0)], it_name = [0x61], it_size = 9000 \<rparr>)"
    using length_replicate [of 9000 "0::u8"] by auto
qed (simp_all add: plain_archiver_def)

text \<open>
  C7: nothing of a file leaves before the other person has agreed. Unless the peer's answer to the offer
  carries the status 200, all that a send puts on the wire is the offer, or as much of it as the link
  took, and the send does not report success.
\<close>

theorem nothing_before_yes:
  assumes "airdrop_send A cancelled rnd items name model turns (Inr a) = Some (r, Some a')"
    "\<And>b. fst (read_response (ad_in a)) \<noteq> Inr (200, b)"
  shows "r \<noteq> Inr () \<and> (\<exists>m. sk_data (ad_out a') = sk_data (ad_out a) @
    take m (request_head (str ''/Ask'') (ask_body rnd items name model) True @ ask_body rnd items name model))"
proof -
  let ?b = "ask_body rnd items name model" and ?h = "request_head (str ''/Ask'') (ask_body rnd items name model) True"
  have sent: "\<exists>m. sk_data k = sk_data (ad_out a) @ take m (?h @ ?b)"
    if "http_request (str ''/Ask'') ?b True (ad_out a) = (x, k)" for x k
  proof -
    obtain y k1 where y: "put_all [?h, ?b] (ad_out a) = (y, k1)" by fastforce
    with that have "sk_data k = sk_data k1"
      by (auto simp: http_request_def sink_flush_def simp del: put_all.simps split: sum.splits list.splits option.splits)
    with put_all_prefix [OF y] show ?thesis by auto
  qed
  have refused: "r' \<noteq> Inr () \<and> (\<exists>m. sk_data (ad_out a1) = sk_data (ad_out a) @ take m (?h @ ?b))"
    if "send_offer rnd items name model turns a = Some (r', a1)" for r' a1
    using that assms(2) sent
    by (auto simp: send_offer_def split: sum.splits prod.splits option.splits if_splits)
  from assms(1) obtain r' a1 where "send_offer rnd items name model turns a = Some (r', a1)" "r' = Inl e \<Longrightarrow> r = Inl e \<and> a' = a1" for e
    by (auto simp: airdrop_send_def split: if_splits sum.splits option.splits prod.splits)
  with refused show ?thesis by (cases r') auto
qed

theorem nothing_before_yes_witness:
  "\<exists>a' m. airdrop_send plain_archiver (\<lambda>_. False) None [\<lparr> it_file = [], it_name = [0x61], it_size = 0 \<rparr>] [] []
      [\<lparr> at_ready = Inr True, at_cancelled = False, at_late = False \<rparr>] (Inr \<lparr> ad_in = [], ad_out = free_sink \<rparr>) =
      Some (Inl Io_ConnectionAborted, Some a') \<and>
    sk_data (ad_out a') = take m (request_head (str ''/Ask'') (ask_body None [\<lparr> it_file = [], it_name = [0x61], it_size = 0 \<rparr>] [] []) True @
      ask_body None [\<lparr> it_file = [], it_name = [0x61], it_size = 0 \<rparr>] [] [])"
proof -
  let ?i = "[\<lparr> it_file = [], it_name = [0x61], it_size = 0 \<rparr>]"
  let ?a = "\<lparr> ad_in = [], ad_out = free_sink \<rparr>"
  let ?b = "ask_body None ?i [] []"
  have 1: "read_response [] = (Inr (0, []), [])"
    by (simp add: read_response_def response_loop.simps from_utf8_lossy.simps response_chunked_def str_lines_def Let_def
      response_length_def http_header_def exact_loop.simps response_status_def split_whitespace_def chars.simps)
  have "put_all [h, b] free_sink = (Inr (), free_sink\<lparr>sk_data := h @ b\<rparr>)" for h b
    by (simp add: put_all_clean del: put_all.simps)
  then obtain k where k: "http_request (str ''/Ask'') ?b True free_sink = (Inr (), k)"
    by (simp add: http_request_def sink_flush_def del: put_all.simps)
  obtain a' where a': "airdrop_send plain_archiver (\<lambda>_. False) None ?i [] []
      [\<lparr> at_ready = Inr True, at_cancelled = False, at_late = False \<rparr>] (Inr ?a) = Some (Inl Io_ConnectionAborted, Some a')"
    using 1 k by (simp add: airdrop_send_def total_size_def send_offer_def)
  from nothing_before_yes [OF this] 1 show ?thesis using a' by auto
qed

end
