(* ===== verification/Airdrop_Server.thy ===== *)
theory Airdrop_Server
  imports Airdrop_Send Transfers
begin

text \<open>
  The AirDrop server of \<open>sharingd/src/httpd.rs\<close>: what one connection is answered, the offer a person is
  asked about, and the way of an upload to the inbox. Each connection has a thread of its own and all of
  them share the transfer slot, so \<open>handle\<close> is given in the parts between which other threads may act:
  up to the wait for the person, one turn of that wait, what follows the answer, and what follows an
  upload. TLS and the decompressor with the archive reader behind it (\<open>flate2\<close>, \<open>cpio_archive\<close>) are arguments.
\<close>

section \<open>The offer\<close>

text \<open>The name of a file in an offer; \<open>None\<close> is a name that must not be shown.\<close>

definition offered_name :: "plist_val \<Rightarrow> rstring" where
  "offered_name it =
     (let n = (case Option.bind (val_get it (str ''FileName'')) val_as_str of
                 Some s \<Rightarrow> s
               | None \<Rightarrow> (case Option.bind (val_get it (str ''FileBomPath'')) val_as_str of Some s \<Rightarrow> s | None \<Rightarrow> []))
      in last_piece [SLASH] n)"

fun offered_names :: "plist_val list \<Rightarrow> rstring list option" where
  "offered_names [] = Some []"
| "offered_names (it # its) =
     (let leaf = offered_name it
      in if leaf = [] then offered_names its
         else if \<not> display_safe leaf then None
         else map_option (\<lambda>ns. leaf # ns) (offered_names its))"

definition describe_offer :: "bytes \<Rightarrow> (rstring \<times> rstring list) option plist_res" where
  "describe_offer body =
     (case plist_parse body of
        P_Panic \<Rightarrow> P_Panic
      | P_None \<Rightarrow> P_Some (Some ([], []))
      | P_Some v \<Rightarrow>
          (let from_name = (case Option.bind (val_get v (str ''SenderComputerName'')) val_as_str of Some s \<Rightarrow> s | None \<Rightarrow> [])
           in case offered_names (case val_get v (str ''Files'') of Some (Val_Array items) \<Rightarrow> items | _ \<Rightarrow> []) of
                None \<Rightarrow> P_Some None
              | Some names \<Rightarrow> P_Some (if display_safe from_name then Some (from_name, names) else None)))"

section \<open>Clients\<close>

text \<open>
  \<open>each_callback\<close>: the calls are made under the lock, which is given up and taken again before the dead
  are removed, by their positions, the last one first.
\<close>

datatype call_result = Call_Ok | Call_Dead | Call_Failed

definition find_dead :: "('c \<Rightarrow> call_result) \<Rightarrow> 'c list \<Rightarrow> nat list" where
  "find_dead f cbs = filter (\<lambda>i. f (cbs ! i) = Call_Dead) [0..<length cbs]"

definition remove_at :: "nat \<Rightarrow> 'c list \<Rightarrow> 'c list" where
  "remove_at i cbs = (if i < length cbs then take i cbs @ drop (Suc i) cbs else cbs)"

definition drop_dead :: "nat list \<Rightarrow> 'c list \<Rightarrow> 'c list" where
  "drop_dead dead cbs = foldr remove_at dead cbs"

datatype callback = Cb_Offered i64 rstring "rstring list" | Cb_Progress i64 nat nat | Cb_Finished i64 int

section \<open>Answering requests\<close>

abbreviation (input) FAILED_ARCHIVE_KEEP_MAX :: nat where "FAILED_ARCHIVE_KEEP_MAX \<equiv> 67108864"
abbreviation (input) PROGRESS_STEP :: nat where "PROGRESS_STEP \<equiv> 262144"
abbreviation (input) MAX_MEMBERS :: nat where "MAX_MEMBERS \<equiv> 1024"
abbreviation (input) MAX_EXTRACTED_BYTES :: nat where "MAX_EXTRACTED_BYTES \<equiv> 8589934592"

text \<open>What the connections share, with the calls made to clients so far. \<open>hs_name\<close> is the name of the device.\<close>

record httpd =
  hs_transfers :: transfers
  hs_visible :: bool
  hs_auto :: bool
  hs_name :: rstring
  hs_model :: rstring
  hs_calls :: "callback list"

datatype disposition = KeepAlive | Close

text \<open>Where \<open>handle\<close> has got to: done, failed, waiting for a person, or reading an upload.\<close>

datatype handled = H_Done disposition | H_Failed io_error | H_Wait i64 bool | H_Upload i64 rstring

text \<open>\<open>respond(..)?\<close> and then a result.\<close>

definition reply :: "nat \<Rightarrow> bytes option \<Rightarrow> bool \<Rightarrow> disposition \<Rightarrow> airdrop \<Rightarrow> handled \<times> airdrop" where
  "reply status body keep_alive d c =
     (case http_respond status body keep_alive (ad_out c) of
        (Inl e, k) \<Rightarrow> (H_Failed e, c\<lparr>ad_out := k\<rparr>)
      | (Inr _, k) \<Rightarrow> (H_Done d, c\<lparr>ad_out := k\<rparr>))"

definition request_line :: "rstring \<Rightarrow> rstring \<times> rstring" where
  "request_line head =
     (case split_whitespace head of [] \<Rightarrow> ([], []) | [m] \<Rightarrow> (m, []) | m # p # _ \<Rightarrow> (m, p))"

definition media_capabilities :: rstring where
  "media_capabilities =
     str ''{\"Version\":3,'' @
     str ''\"Codecs\":{\"hvc1\":{\"Profiles\":{'' @
     str ''\"VTSupportedProfiles\":[1,2],'' @
     str ''\"VTPerProfileSupport\":{'' @
     str ''\"1\":{\"VTMaxPlaybackLevel\":186,\"VTIsHardwareAccelerated\":true,\"VTMaxDecodeLevel\":186},'' @
     str ''\"2\":{\"VTMaxPlaybackLevel\":186,\"VTIsHardwareAccelerated\":true,\"VTMaxDecodeLevel\":186}'' @
     str ''}}}},'' @
     str ''\"CodecSupport\":{\"VTCodecSupportDict\":{\"hvc1\":{'' @
     str ''\"VTSupportedProfiles\":[1,2],'' @
     str ''\"VTPerProfileSupport\":{'' @
     str ''\"1\":{\"VTMaxPlaybackLevel\":186,\"VTIsHardwareAccelerated\":true,\"VTMaxDecodeLevel\":186},'' @
     str ''\"2\":{\"VTMaxPlaybackLevel\":186,\"VTIsHardwareAccelerated\":true,\"VTMaxDecodeLevel\":186}'' @
     str ''}}}}}''"

definition discover_body :: "httpd \<Rightarrow> bytes" where
  "discover_body h =
     plist_dict
       [(str ''ReceiverComputerName'', V_Str (hs_name h)),
        (str ''ReceiverModelName'', V_Str (hs_model h)),
        (str ''IsAirDropable'', V_Bool True),
        (str ''ReceiverMediaCapabilities'', V_Data media_capabilities)]"

definition ask_reply :: "httpd \<Rightarrow> bytes" where
  "ask_reply h =
     plist_dict [(str ''ReceiverModelName'', V_Str (hs_model h)), (str ''ReceiverComputerName'', V_Str (hs_name h))]"

definition each_callback :: "callback \<Rightarrow> httpd \<Rightarrow> httpd" where
  "each_callback cb h = h\<lparr>hs_calls := hs_calls h @ [cb]\<rparr>"

definition hs_finish :: "i64 \<Rightarrow> httpd \<Rightarrow> httpd" where
  "hs_finish tid h = h\<lparr>hs_transfers := finish tid (hs_transfers h)\<rparr>"

text \<open>The arm for an offer, up to the wait; with the prompt turned off it does not wait.\<close>

datatype ask_outcome = Accept | Decline | Cancelled | Timeout

definition ask_end :: "ask_outcome \<Rightarrow> i64 \<Rightarrow> bool \<Rightarrow> airdrop \<Rightarrow> httpd \<Rightarrow> handled \<times> airdrop \<times> httpd" where
  "ask_end outcome tid keep_alive c h =
     (case outcome of
        Accept \<Rightarrow>
          (case reply 200 (Some (ask_reply h)) keep_alive (if keep_alive then KeepAlive else Close) c of (r, c) \<Rightarrow> (r, c, h))
      | Decline \<Rightarrow> (case reply 401 None False Close c of (r, c) \<Rightarrow> (r, c, hs_finish tid h))
      | Cancelled \<Rightarrow> (H_Done Close, c, hs_finish tid (each_callback (Cb_Finished tid STATUS_CANCELLED) h))
      | Timeout \<Rightarrow> (case reply 401 None False Close c of (r, c) \<Rightarrow> (r, c, hs_finish tid h)))"

definition ask_begin :: "nat \<Rightarrow> bytes \<Rightarrow> bool \<Rightarrow> airdrop \<Rightarrow> httpd \<Rightarrow> handled \<times> airdrop \<times> httpd" where
  "ask_begin now body keep_alive c h =
     (case try_begin now True (hs_transfers h) of
        (None, ts) \<Rightarrow> (case reply 401 None False Close c of (r, c) \<Rightarrow> (r, c, h\<lparr>hs_transfers := ts\<rparr>))
      | (Some tid, ts) \<Rightarrow>
          (let h = h\<lparr>hs_transfers := ts\<rparr>
           in case describe_offer body of
                P_Panic \<Rightarrow> (H_Failed Io_Panic, c, h)
              | P_Some (Some (from_name, names)) \<Rightarrow>
                  if hs_auto h
                  then ask_end Accept tid keep_alive c (h\<lparr>hs_transfers := answer tid True (hs_transfers h)\<rparr>)
                  else (H_Wait tid keep_alive, c, each_callback (Cb_Offered tid from_name names) h)
              | _ \<Rightarrow> (case reply 401 None False Close c of (r, c) \<Rightarrow> (r, c, hs_finish tid h))))"

text \<open>
  One turn of the wait: what \<open>await_answer\<close> returned, whether the deadline has passed and whether the
  sender has closed its end. \<open>None\<close>: another turn.
\<close>

definition peer_hung_up :: "bool \<Rightarrow> (io_error + nat) \<Rightarrow> bool" where
  "peer_hung_up nonblocking peeked \<longleftrightarrow> nonblocking \<and> peeked = Inr 0"

definition watch_turn :: "bool option \<Rightarrow> bool \<Rightarrow> bool option \<Rightarrow> ask_outcome option" where
  "watch_turn answered late hung_up =
     (case answered of
        Some True \<Rightarrow> Some Accept
      | Some False \<Rightarrow> Some Decline
      | None \<Rightarrow> if late then Some Timeout else if hung_up = Some True then Some Cancelled else None)"

definition route :: "nat \<Rightarrow> rstring \<Rightarrow> bytes \<Rightarrow> airdrop \<Rightarrow> httpd \<Rightarrow> handled \<times> airdrop \<times> httpd" where
  "route now head body c h =
     (let (m, p) = request_line head;
          keep_alive = (case http_header head (str ''connection'') of
              Some v \<Rightarrow> eq_ignore_ascii_case v (str ''keep-alive'') | None \<Rightarrow> False);
          after = (if keep_alive then KeepAlive else Close);
          say = (\<lambda>(r, c). (r, c, h))
      in if m = str ''HEAD'' \<and> p = str ''/'' \<and> \<not> hs_visible h then say (reply 401 None False Close c)
         else if m = str ''POST'' \<and> p = str ''/Discover'' \<and> \<not> hs_visible h then say (reply 401 None False Close c)
         else if m = str ''HEAD'' \<and> p = str ''/'' then say (reply 200 None keep_alive after c)
         else if m = str ''POST'' \<and> p = str ''/Discover'' then say (reply 200 (Some (discover_body h)) keep_alive after c)
         else if m = str ''POST'' \<and> p = str ''/Ask'' \<and> \<not> hs_visible h then say (reply 401 None False Close c)
         else if m = str ''POST'' \<and> p = str ''/Ask'' then ask_begin now body keep_alive c h
         else if m = str ''POST'' \<and> p = str ''/Upload'' \<and> ts_current (hs_transfers h) = 0 then say (reply 401 None False Close c)
         else if m = str ''POST'' \<and> p = str ''/Upload'' then (H_Upload (ts_current (hs_transfers h)) head, c, h)
         else say (reply 401 None keep_alive after c))"

definition handle :: "nat \<Rightarrow> airdrop \<Rightarrow> httpd \<Rightarrow> handled \<times> airdrop \<times> httpd" where
  "handle now c h =
     (case read_head (ad_in c) of
        (Inl e, s) \<Rightarrow> (H_Failed e, c\<lparr>ad_in := s\<rparr>, h)
      | (Inr head, s) \<Rightarrow>
          (let c = c\<lparr>ad_in := s\<rparr>
           in if snd (request_line head) = str ''/Upload'' then route now head [] c h
              else
                (case read_body head s of
                   (Inl e, s) \<Rightarrow> (H_Failed e, c\<lparr>ad_in := s\<rparr>, h)
                 | (Inr (body, desynced), s) \<Rightarrow>
                     (let c = c\<lparr>ad_in := s\<rparr>
                      in if desynced then (case reply 413 None False Close c of (r, c) \<Rightarrow> (r, c, h))
                         else route now head body c h))))"

section \<open>Uploads\<close>

text \<open>
  What the archive reader meets next: an entry, or an error. For an entry: what \<open>finish\<close> says when it is
  skipped or done with, the error of opening its file, and what \<open>io::copy\<close> takes from a reader limited to the
  declared size, with the error that ends it. The end of the list is the end of the archive.
\<close>

record member =
  mb_name :: rstring
  mb_size :: nat
  mb_dir :: bool
  mb_open :: "nat option"
  mb_data :: bytes
  mb_fail :: "io_error option"
  mb_finish :: bool

datatype cpio_step = Cpio_Member member | Cpio_Error

definition skipped :: "member \<Rightarrow> rstring option \<Rightarrow> bool" where
  "skipped m leaf =
     (case leaf of
        None \<Rightarrow> True
      | Some l \<Rightarrow> take 2 l = str ''._'' \<or> mb_dir m \<or> mb_size m = 0)"

fun extract_loop ::
    "cpio_step list \<Rightarrow> rstring list \<Rightarrow> nat \<Rightarrow> nat \<Rightarrow> files \<Rightarrow> (io_error + rstring list) \<times> files" where
  "extract_loop [] names extracted members fs = (Inr names, fs)"
| "extract_loop (Cpio_Error # steps) names extracted members fs = (Inl (Io_InvalidData 0), fs)"
| "extract_loop (Cpio_Member m # steps) names extracted members fs =
     (let leaf = safe_leaf (mb_name m)
      in if skipped m leaf then
           (if mb_finish m then extract_loop steps names extracted members fs else (Inl (Io_InvalidData 0), fs))
         else if members + 1 > MAX_MEMBERS then (Inl (Io_InvalidData 0), fs)
         else if mb_size m > MAX_EXTRACTED_BYTES - extracted then (Inl (Io_InvalidData 0), fs)
         else
           let dest = non_clobbering (\<lambda>p. fs p \<noteq> None) INBOX (the leaf)
           in case create_new (mb_open m) dest fs of
                (Inl e, fs) \<Rightarrow> (Inl e, fs)
              | (Inr _, fs) \<Rightarrow>
                  (let data = take (mb_size m) (mb_data m); copied = length data; fs = fs(dest \<mapsto> data)
                   in case mb_fail m of
                        Some e \<Rightarrow> (Inl e, fs)
                      | None \<Rightarrow>
                          if copied \<noteq> mb_size m then (Inl Io_UnexpectedEof, fs(dest := None))
                          else if mb_finish m
                          then extract_loop steps (names @ [last_piece [SLASH] dest]) (extracted + copied) (members + 1) fs
                          else (Inl (Io_InvalidData 0), fs)))"

text \<open>\<open>unpack gzipped\<close> is what the archive reader delivers from the archive, through one decompressor or the other.\<close>

definition extract_archive :: "(bool \<Rightarrow> bytes \<Rightarrow> cpio_step list) \<Rightarrow> rstring \<Rightarrow> files \<Rightarrow> (io_error + rstring list) \<times> files" where
  "extract_archive unpack archive fs =
     (case fs archive of
        None \<Rightarrow> (Inl (Io_Other 2), fs)
      | Some b \<Rightarrow> extract_loop (unpack (take 2 b = [0x1F, 0x8B]) b) [] 0 0 fs)"

fun progress_marks :: "nat \<Rightarrow> nat \<Rightarrow> nat list \<Rightarrow> nat list" where
  "progress_marks whole reported [] = []"
| "progress_marks whole reported (done # marks) =
     (if whole > 0 \<and> done - reported \<ge> PROGRESS_STEP then done # progress_marks whole done marks
      else progress_marks whole reported marks)"

definition declared :: "rstring \<Rightarrow> rstring \<Rightarrow> nat option" where
  "declared head name = Option.bind (http_header head name) (\<lambda>v. parse_unsigned (2 ^ 64 - 1) (str_trim v))"

text \<open>
  \<open>receive_upload\<close>, with the random names it draws, what the disk does to its writes, the cancel flag as
  it finds it by the bytes received and once more at the end. The last part of the result are the calls.
\<close>

definition store_upload ::
    "(bool \<Rightarrow> bytes \<Rightarrow> cpio_step list) \<Rightarrow> rstring \<Rightarrow> i64 \<Rightarrow> files \<Rightarrow> (io_error + rstring) \<times> files \<times> callback list" where
  "store_upload unpack path tid fs =
     (case extract_archive unpack path fs of
        (Inr names, fs) \<Rightarrow> (Inr path, fs(path := None), [Cb_Finished tid (sint (word_of_nat (length names) :: i32))])
      | (Inl e, fs) \<Rightarrow>
          (Inl e,
           if (case fs path of Some b \<Rightarrow> length b > FAILED_ARCHIVE_KEEP_MAX | None \<Rightarrow> False) then fs(path := None) else fs,
           []))"

definition receive_upload ::
    "(bool \<Rightarrow> bytes \<Rightarrow> cpio_step list) \<Rightarrow> (bytes option \<times> nat option) list \<Rightarrow> nat option list \<Rightarrow> (nat \<Rightarrow> bool) \<Rightarrow> bool \<Rightarrow>
     rstring \<Rightarrow> i64 \<Rightarrow> source \<Rightarrow> files \<Rightarrow> (io_error + rstring) \<times> source \<times> files \<times> callback list" where
  "receive_upload unpack draws disk cancelled stopped head tid s fs =
     (case create_unique draws INBOX (str ''cpio'') fs of
        (Inl e, fs) \<Rightarrow> (Inl e, s, fs, [])
      | (Inr path, fs) \<Rightarrow>
          (let whole = (case declared head (str ''totalbytes'') of Some n \<Rightarrow> n | None \<Rightarrow> 0);
               len = (case declared head (str ''content-length'') of Some n \<Rightarrow> n | None \<Rightarrow> 0);
               out = \<lparr> sk_data = [], sk_faults = disk \<rparr>
           in if whole > MAX_UPLOAD_BYTES \<or> len > MAX_UPLOAD_BYTES then (Inl (Io_InvalidData 0), s, fs, [])
              else
                (case (if is_chunked head then stream_chunked cancelled s out
                       else stream_exact cancelled
                              (case Option.bind (http_header head (str ''content-length'')) (parse_unsigned (2 ^ 64 - 1)) of
                                 Some n \<Rightarrow> n | None \<Rightarrow> whole) s out) of
                   (r, s, u) \<Rightarrow>
                     let fs = fs(path \<mapsto> sk_data (up_out u));
                         calls = map (\<lambda>n. Cb_Progress tid n whole) (progress_marks whole 0 (up_marks u))
                     in case r of
                          Inl e \<Rightarrow> (Inl e, s, fs, calls)
                        | Inr written \<Rightarrow>
                            if stopped then (Inl Io_Interrupted, s, fs(path := None), calls)
                            else (case store_upload unpack path tid fs of
                                    (r, fs, cs) \<Rightarrow>
                                      (r, s, fs, calls @ [Cb_Progress tid written (if whole > 0 then whole else written)] @ cs)))))"

text \<open>What follows it.\<close>

definition upload_end :: "i64 \<Rightarrow> (io_error + rstring) \<Rightarrow> airdrop \<Rightarrow> httpd \<Rightarrow> handled \<times> airdrop \<times> httpd" where
  "upload_end tid r c h =
     (case r of
        Inr path \<Rightarrow> (case reply 200 None False Close c of (d, c) \<Rightarrow> (d, c, hs_finish tid h))
      | Inl e \<Rightarrow>
          (let h = each_callback (Cb_Finished tid (if e = Io_ConnectionAborted then STATUS_CANCELLED else STATUS_FAILED)) h
           in case reply 500 None False Close c of (d, c) \<Rightarrow> (d, c, hs_finish tid h)))"

section \<open>The door\<close>

text \<open>A peer's address as its first segment and the whole; what is not an IPv6 address is let through.\<close>

definition admitted :: "bytes \<Rightarrow> (u16 \<times> bytes) option \<Rightarrow> bool" where
  "admitted own peer =
     (case peer of
        Some (seg, ip) \<Rightarrow> ip \<noteq> own \<and> seg AND 0xFFC0 = 0xFE80
      | None \<Rightarrow> True)"

definition iface_changed :: "bytes \<Rightarrow> nat \<Rightarrow> bytes option \<Rightarrow> (nat + nat) \<Rightarrow> bool" where
  "iface_changed addr scope addr_now scope_now =
     (case (addr_now, scope_now) of (Some a, Inr i) \<Rightarrow> a \<noteq> addr \<or> i \<noteq> scope | _ \<Rightarrow> True)"

section \<open>What an archive can do\<close>

definition in_inbox :: "rstring \<Rightarrow> bool" where
  "in_inbox p \<longleftrightarrow> (\<exists>leaf. p = INBOX @ [SLASH] @ leaf \<and> plain_leaf leaf)"

text \<open>Files were added, each a new entry of the inbox, at most so many with at most so many bytes; the rest is as it was.\<close>

definition added :: "nat \<Rightarrow> nat \<Rightarrow> files \<Rightarrow> files \<Rightarrow> bool" where
  "added most room fs fs' \<longleftrightarrow>
     (\<exists>new. distinct new \<and> length new \<le> most \<and> sum_list (map (\<lambda>p. length (the (fs' p))) new) \<le> room \<and>
        (\<forall>p\<in>set new. fs p = None \<and> in_inbox p) \<and> (\<forall>p. p \<notin> set new \<longrightarrow> fs' p = fs p))"

lemma added_none: "added most room fs fs"
  unfolding added_def by (rule exI [of _ "[]"]) simp

lemma added_one:
  assumes "fs p = None" "in_inbox p" "1 \<le> most" "length d \<le> room"
  shows "added most room fs (fs(p \<mapsto> d))"
  unfolding added_def using assms by (intro exI [of _ "[p]"]) simp

lemma added_step:
  assumes "added most room (fs(p \<mapsto> d)) fs'" "fs p = None" "in_inbox p"
  shows "added (Suc most) (length d + room) fs fs'"
proof -
  from assms(1) obtain new where new: "distinct new" "length new \<le> most" "sum_list (map (\<lambda>p. length (the (fs' p))) new) \<le> room"
    "\<forall>q\<in>set new. (fs(p \<mapsto> d)) q = None \<and> in_inbox q" "\<forall>q. q \<notin> set new \<longrightarrow> fs' q = (fs(p \<mapsto> d)) q"
    unfolding added_def by blast
  then have "p \<notin> set new" by auto
  with new assms(2,3) show ?thesis
    unfolding added_def by (intro exI [of _ "p # new"]) (auto split: if_splits)
qed

lemma extract_loop_added:
  assumes "extract_loop steps names extracted members fs = (r, fs')"
    "\<forall>m. Cpio_Member m \<in> set steps \<longrightarrow> utf8_valid (mb_name m)" "extracted \<le> MAX_EXTRACTED_BYTES" "members \<le> MAX_MEMBERS"
  shows "added (MAX_MEMBERS - members) (MAX_EXTRACTED_BYTES - extracted) fs fs'"
  using assms
proof (induction steps arbitrary: names extracted members fs)
  case Nil
  then show ?case by (simp add: added_none)
next
  case (Cons s steps)
  show ?case
  proof (cases s)
    case (Cpio_Member m)
    define leaf where "leaf = safe_leaf (mb_name m)"
    define dest where "dest = non_clobbering (\<lambda>p. fs p \<noteq> None) INBOX (the leaf)"
    define d where "d = take (mb_size m) (mb_data m)"
    let ?fs = "fs(dest \<mapsto> d)"
    have eq: "extract_loop (s # steps) names extracted members fs =
      (if skipped m leaf then
         (if mb_finish m then extract_loop steps names extracted members fs else (Inl (Io_InvalidData 0), fs))
       else if members + 1 > MAX_MEMBERS then (Inl (Io_InvalidData 0), fs)
       else if mb_size m > MAX_EXTRACTED_BYTES - extracted then (Inl (Io_InvalidData 0), fs)
       else case create_new (mb_open m) dest fs of
              (Inl e, fs) \<Rightarrow> (Inl e, fs)
            | (Inr _, fs) \<Rightarrow>
                (case mb_fail m of
                   Some e \<Rightarrow> (Inl e, fs(dest \<mapsto> d))
                 | None \<Rightarrow>
                     if length d \<noteq> mb_size m then (Inl Io_UnexpectedEof, (fs(dest \<mapsto> d))(dest := None))
                     else if mb_finish m
                     then extract_loop steps (names @ [last_piece [SLASH] dest]) (extracted + length d) (members + 1) (fs(dest \<mapsto> d))
                     else (Inl (Io_InvalidData 0), fs(dest \<mapsto> d))))"
      unfolding Cpio_Member extract_loop.simps Let_def leaf_def dest_def d_def by (rule refl)
    note run = Cons.prems(1) [unfolded eq]
    consider (skip) "skipped m leaf" | (refuse) "\<not> skipped m leaf" "members + 1 > MAX_MEMBERS \<or> mb_size m > MAX_EXTRACTED_BYTES - extracted \<or>
        (\<exists>e. create_new (mb_open m) dest fs = (Inl e, fs))"
      | (go) "\<not> skipped m leaf" "members + 1 \<le> MAX_MEMBERS" "mb_size m \<le> MAX_EXTRACTED_BYTES - extracted"
        "create_new (mb_open m) dest fs = (Inr (), fs(dest \<mapsto> []))" "fs dest = None"
      unfolding create_new_def by (cases "mb_open m") (force split: if_splits)+
    then show ?thesis
    proof cases
      case skip
      with run Cons.IH [of names extracted members fs] Cons.prems(2-4) show ?thesis
        by (cases "mb_finish m") (auto simp: added_none)
    next
      case refuse
      with run have "fs' = fs" by (auto split: if_splits)
      then show ?thesis by (simp add: added_none)
    next
      case go
      obtain l where l: "leaf = Some l" using go(1) by (cases leaf) (auto simp: skipped_def)
      have "utf8_valid (mb_name m)" using Cons.prems(2) Cpio_Member by simp
      with l have "plain_leaf l" unfolding leaf_def using safe_leaf_plain(1) by blast
      from non_clobbering_plain [OF this] have inb: "in_inbox dest" unfolding dest_def in_inbox_def l by simp
      have len: "length d \<le> MAX_EXTRACTED_BYTES - extracted" using go(3) by (simp add: d_def)
      have one: "added (MAX_MEMBERS - members) (MAX_EXTRACTED_BYTES - extracted) fs ?fs"
        using go(2) len by (intro added_one go(5) inb) simp_all
      from run go have
        "fs' = ?fs \<or> fs' = ?fs(dest := None) \<or>
         extract_loop steps (names @ [last_piece [SLASH] dest]) (extracted + length d) (members + 1) ?fs = (r, fs')"
        by (auto split: if_splits option.splits)
      then show ?thesis
      proof (elim disjE)
        assume "fs' = ?fs(dest := None)"
        then have "fs' = fs" using go(5) by auto
        then show ?thesis by (simp add: added_none)
      next
        assume e: "extract_loop steps (names @ [last_piece [SLASH] dest]) (extracted + length d) (members + 1) ?fs = (r, fs')"
        have "added (MAX_MEMBERS - (members + 1)) (MAX_EXTRACTED_BYTES - (extracted + length d)) ?fs fs'"
          using Cons.prems(2,3) len go(2) by (intro Cons.IH [OF e]) auto
        from added_step [OF this go(5) inb]
        have "added (Suc (MAX_MEMBERS - (members + 1))) (length d + (MAX_EXTRACTED_BYTES - (extracted + length d))) fs fs'" .
        moreover have "Suc (MAX_MEMBERS - (members + 1)) = MAX_MEMBERS - members"
          "length d + (MAX_EXTRACTED_BYTES - (extracted + length d)) = MAX_EXTRACTED_BYTES - extracted"
          using len go(2) Cons.prems(3) by linarith+
        ultimately show ?thesis by (simp only:)
      next
        assume "fs' = ?fs"
        with one show ?thesis by (simp only:)
      qed
    qed
  qed (use Cons.prems(1) in \<open>simp add: added_none\<close>)
qed

section \<open>Lemmas for the properties\<close>

lemma reply_none:
  assumes "reply status None keep_alive d c = (r, c')"
  shows "\<exists>m. sk_data (ad_out c') = sk_data (ad_out c) @ take m (response_head status [] keep_alive)"
proof -
  obtain x k where x: "sink_write_all (response_head status [] keep_alive) (ad_out c) = (x, k)" by fastforce
  with put_all_prefix [of "[response_head status [] keep_alive]" "ad_out c" x k] obtain m where
    m: "sk_data k = sk_data (ad_out c) @ take m (response_head status [] keep_alive)"
    by (cases x) auto
  have "sk_data (ad_out c') = sk_data k"
    using assms x by (cases x) (auto simp: reply_def http_respond_def sink_flush_def split: list.splits option.splits)
  with m show ?thesis by auto
qed

lemma remove_at_tail: "i \<le> length cbs \<Longrightarrow> remove_at i (take i cbs @ c # ds) = take i cbs @ ds"
  by (simp add: remove_at_def)

lemma drop_dead_alone: "drop_dead (find_dead f cbs) cbs = filter (\<lambda>c. f c \<noteq> Call_Dead) cbs"
proof -
  have "foldr remove_at (filter (\<lambda>i. f (cbs ! i) = Call_Dead) [n..<length cbs]) cbs =
      take n cbs @ filter (\<lambda>c. f c \<noteq> Call_Dead) (drop n cbs)" if "n \<le> length cbs" for n
    using that
  proof (induction "length cbs - n" arbitrary: n)
    case (Suc k)
    then have lt: "n < length cbs" and "Suc n \<le> length cbs" "k = length cbs - Suc n" by auto
    with Suc.hyps(1) have IH: "foldr remove_at (filter (\<lambda>i. f (cbs ! i) = Call_Dead) [Suc n..<length cbs]) cbs =
      take (Suc n) cbs @ filter (\<lambda>c. f c \<noteq> Call_Dead) (drop (Suc n) cbs)" by blast
    have "take (Suc n) cbs = take n cbs @ [cbs ! n]" using lt by (rule take_Suc_conv_app_nth)
    moreover have "drop n cbs = cbs ! n # drop (Suc n) cbs" using lt by (simp add: Cons_nth_drop_Suc)
    ultimately show ?case using IH lt by (simp add: upt_conv_Cons remove_at_tail)
  qed simp
  from this [of 0] show ?thesis by (simp add: drop_dead_def find_dead_def)
qed

lemma try_begin_slot: "try_begin now needs ts = (Some tid, ts') \<Longrightarrow> ts_current ts' = tid \<and> tid = ts_next ts + 1 \<and> decision ts' = decision ts"
  by (auto simp: try_begin_def finish_def cas_current_def cas_pending_def clear_upgrade_def arm_abort_def touch_def Let_def
    split: if_splits)

lemma reply_answers: "reply status body ka d c = (r, c') \<Longrightarrow> (\<exists>e. r = H_Failed e) \<or> r = H_Done d"
  by (auto simp: reply_def split: prod.splits sum.splits)

lemma ask_waits:
  assumes "ask_begin now body ka c h = (H_Wait tid ka', c', h')"
  shows "ts_current (hs_transfers h') = tid \<and> tid = ts_next (hs_transfers h) + 1 \<and>
    decision (hs_transfers h') = decision (hs_transfers h)"
  using assms try_begin_slot [of now True "hs_transfers h"]
  by (auto simp: ask_begin_def ask_end_def each_callback_def Let_def dest!: reply_answers
      split: option.splits prod.splits plist_res.splits if_splits)

text \<open>What \<open>route\<close> can do: answer, with a refusal while invisible; take an offer; let an upload in.\<close>

definition routed :: "nat \<Rightarrow> rstring \<Rightarrow> bytes \<Rightarrow> airdrop \<Rightarrow> httpd \<Rightarrow> handled \<times> airdrop \<times> httpd \<Rightarrow> bool" where
  "routed now head body c h x \<longleftrightarrow>
     (\<exists>st b k d r c'. reply st b k d c = (r, c') \<and> x = (r, c', h) \<and> (hs_visible h \<or> st = 401 \<and> b = None)) \<or>
     (hs_visible h \<and> (\<exists>k. x = ask_begin now body k c h)) \<or>
     request_line head = (str ''POST'', str ''/Upload'') \<and> ts_current (hs_transfers h) \<noteq> 0 \<and>
       x = (H_Upload (ts_current (hs_transfers h)) head, c, h)"

lemma routed_if:
  "(b \<Longrightarrow> routed now head body c h x) \<Longrightarrow> (\<not> b \<Longrightarrow> routed now head body c h y) \<Longrightarrow>
    routed now head body c h (if b then x else y)"
  by simp

lemma routed_reply:
  "hs_visible h \<or> st = 401 \<and> b = None \<Longrightarrow> routed now head body c h ((\<lambda>(r, c'). (r, c', h)) (reply st b k d c))"
  by (cases "reply st b k d c", unfold routed_def, rule disjI1, simp only: prod.case) blast

lemma routed_other:
  "hs_visible h \<Longrightarrow> routed now head body c h (ask_begin now body k c h)"
  "request_line head = (str ''POST'', str ''/Upload'') \<Longrightarrow> ts_current (hs_transfers h) \<noteq> 0 \<Longrightarrow>
     routed now head body c h (H_Upload (ts_current (hs_transfers h)) head, c, h)"
  by (auto simp: routed_def)

lemma route_routed: "routed now head body c h (route now head body c h)"
proof -
  obtain m p where mp: "request_line head = (m, p)" by fastforce
  show ?thesis
    unfolding route_def mp Let_def prod.case
    by (intro routed_if; ((rule routed_other(2); simp add: mp) | (rule routed_reply routed_other(1), blast)))
qed

lemma handle_waits:
  assumes "handle now c h = (H_Wait tid ka, c', h')"
  shows "ts_current (hs_transfers h') = tid \<and> tid = ts_next (hs_transfers h) + 1 \<and>
    decision (hs_transfers h') = decision (hs_transfers h)"
proof -
  have "ts_current (hs_transfers h') = tid \<and> tid = ts_next (hs_transfers h) + 1 \<and>
      decision (hs_transfers h') = decision (hs_transfers h)"
    if "route now head body d h = (H_Wait tid ka, c', h')" for head body d
    using route_routed [of now head body d h] that
    by (auto simp: routed_def dest!: reply_answers dest: ask_waits [OF sym])
  with assms show ?thesis
    by (auto simp: handle_def Let_def dest!: reply_answers split: prod.splits sum.splits if_splits)
qed

abbreviation (input) sample_httpd :: "bool \<Rightarrow> httpd" where
  "sample_httpd seen \<equiv>
     \<lparr> hs_transfers = transfers_default, hs_visible = seen, hs_auto = False, hs_name = str ''Pixel'',
       hs_model = str ''Pixel'', hs_calls = [] \<rparr>"

abbreviation (input) asks :: "rstring \<Rightarrow> airdrop" where
  "asks line \<equiv> \<lparr> ad_in = [Rd_Bytes (line @ crlf @ crlf)], ad_out = free_sink \<rparr>"

lemma sample_requests:
  "read_head [Rd_Bytes (str ''POST /Ask'' @ crlf @ crlf)] = (Inr (str ''POST /Ask'' @ crlf @ crlf), [])"
  "read_head [Rd_Bytes (str ''POST /Upload'' @ crlf @ crlf)] = (Inr (str ''POST /Upload'' @ crlf @ crlf), [])"
  "request_line (str ''POST /Ask'' @ crlf @ crlf) = (str ''POST'', str ''/Ask'')"
  "request_line (str ''POST /Upload'' @ crlf @ crlf) = (str ''POST'', str ''/Upload'')"
  "http_header (str ''POST /Ask'' @ crlf @ crlf) name = None"
proof -
  have asc: "list_all (\<lambda>b. b < 0x80) (str ''POST /Ask'' @ crlf @ crlf)" "list_all (\<lambda>b. b < 0x80) (str ''POST /Upload'' @ crlf @ crlf)"
    by (simp_all add: str_def crlf_def)
  then have "from_utf8_lossy (str ''POST /Ask'' @ crlf @ crlf) = str ''POST /Ask'' @ crlf @ crlf"
    "from_utf8_lossy (str ''POST /Upload'' @ crlf @ crlf) = str ''POST /Upload'' @ crlf @ crlf"
    by (intro from_utf8_lossy_valid ascii_utf8_valid; simp add: list_all_iff)+
  then show "read_head [Rd_Bytes (str ''POST /Ask'' @ crlf @ crlf)] = (Inr (str ''POST /Ask'' @ crlf @ crlf), [])"
    "read_head [Rd_Bytes (str ''POST /Upload'' @ crlf @ crlf)] = (Inr (str ''POST /Upload'' @ crlf @ crlf), [])"
    by (simp_all add: read_head_def head_loop.simps str_def crlf_def ends_with_def)
  from chars_ascii [OF asc(1)] chars_ascii [OF asc(2)]
  show "request_line (str ''POST /Ask'' @ crlf @ crlf) = (str ''POST'', str ''/Ask'')"
    "request_line (str ''POST /Upload'' @ crlf @ crlf) = (str ''POST'', str ''/Upload'')"
    by (simp_all add: request_line_def split_whitespace_def str_def crlf_def is_whitespace_def utf8_encode_def)
  show "http_header (str ''POST /Ask'' @ crlf @ crlf) name = None"
    by (simp add: http_header_def str_lines_def str_def crlf_def split_once_def)
qed

lemma hex_digit_graphic:
  assumes "x < 16"
  shows "is_ascii_graphic (hex_digit 0x41 x)"
proof -
  have "[0..<16] = [0, 1, 2, 3, 4, 5, 6, 7, 8, 9, 10, 11, 12, 13, 14, 15 :: nat]" by (simp add: upt_rec)
  moreover have "unat x < 16" using assms by (simp add: word_less_nat_alt)
  ultimately have "unat x \<in> {0, 1, 2, 3, 4, 5, 6, 7, 8, 9, 10, 11, 12, 13, 14, 15}"
    by (metis atLeastLessThan_iff list.set set_upt zero_le)
  moreover have "x = word_of_nat (unat x)" by simp
  ultimately have "x \<in> word_of_nat ` {0, 1, 2, 3, 4, 5, 6, 7, 8, 9, 10, 11, 12, 13, 14, 15}" by blast
  then show ?thesis by (auto simp: hex_digit_def is_ascii_graphic_def)
qed

lemma hex_upper_valid: "utf8_valid (concat (map hex_upper b))" "length (hex_upper x) = 2"
proof -
  have "drop_bit 4 x < 16" "x AND 0x0F < 16" for x :: u8
  proof -
    have "unat x < 2 ^ 8" using unsigned_less [of x, where ?'a = nat] by simp
    then have "unat (drop_bit 4 x) < 16" unfolding unsigned_drop_bit_eq by (simp add: drop_bit_eq_div take_bit_eq_mod)
    then show "drop_bit 4 x < 16" by (simp add: word_less_nat_alt)
    have "x AND 0x0F = take_bit 4 x" by (simp add: take_bit_eq_mask mask_eq_exp_minus_1)
    moreover have "unat (take_bit 4 x) < 16" unfolding unsigned_take_bit_eq by (simp add: take_bit_eq_mod)
    ultimately show "x AND 0x0F < 16" by (simp add: word_less_nat_alt)
  qed
  then have "list_all is_ascii_graphic (hex_upper x)" for x
    by (simp add: hex_upper_def hex_digit_graphic)
  then have "list_all is_ascii_graphic (concat (map hex_upper b))" by (induction b) simp_all
  then show "utf8_valid (concat (map hex_upper b))" by (rule graphic_valid)
qed (simp add: hex_upper_def)

definition short :: "rstring \<Rightarrow> bool" where
  "short k \<longleftrightarrow> list_all is_ascii_graphic k \<and> length k < 100"

lemma short_ok: "short k \<Longrightarrow> utf8_valid k \<and> length k < 2 ^ 32"
  by (auto simp: short_def intro: graphic_valid)

lemma uti_for_short: "short (uti_for name)"
proof -
  have "uti_for name \<in> set [str ''public.jpeg'', str ''public.png'', str ''com.compuserve.gif'', str ''public.heic'', str ''public.heif'', str ''org.webmproject.webp'', str ''public.tiff'', str ''com.apple.quicktime-movie'', str ''public.mpeg-4'', str ''com.adobe.pdf'', str ''public.plain-text'', str ''public.zip-archive'', str ''public.mp3'', str ''com.apple.m4a-audio'', str ''public.data'']"
    by (simp add: uti_for_def Let_def)
  moreover have "list_all short [str ''public.jpeg'', str ''public.png'', str ''com.compuserve.gif'', str ''public.heic'', str ''public.heif'', str ''org.webmproject.webp'', str ''public.tiff'', str ''com.apple.quicktime-movie'', str ''public.mpeg-4'', str ''com.adobe.pdf'', str ''public.plain-text'', str ''public.zip-archive'', str ''public.mp3'', str ''com.apple.m4a-audio'', str ''public.data'']"
    by code_simp
  ultimately show ?thesis unfolding list_all_iff by blast
qed

lemma keys_short: "list_all short
    [str ''FileName'', str ''FileType'', str ''FileBomPath'', str ''FileIsDirectory'', str ''ConvertMediaFormats'',
     str ''SenderComputerName'', str ''SenderID'', str ''SenderModelName'', str ''BundleID'', str ''Files'', str ''com.apple.finder'',
     str ''0000000000000000'', str ''./'']"
  by code_simp

text \<open>What a person must be able to read: a name that says what it is, and is one.\<close>

definition nameable :: "item \<Rightarrow> bool" where
  "nameable it \<longleftrightarrow> utf8_valid (it_name it) \<and> length (it_name it) < 2 ^ 16 \<and> last_piece [SLASH] (it_name it) \<noteq> [] \<and>
     display_safe (last_piece [SLASH] (it_name it))"

lemma file_entry_ok:
  assumes "nameable it"
  shows "plist_ok (file_entry it)" "val_height (val_of (file_entry it)) = 2" "val_nodes (val_of (file_entry it)) = 11"
proof -
  have "utf8_valid (str ''./'' @ it_name it)"
    using assms keys_short short_ok by (intro utf8_valid_append) (auto simp: nameable_def)
  with assms keys_short short_ok uti_for_short [of "it_name it"] show "plist_ok (file_entry it)"
    by (auto simp: file_entry_def nameable_def str_def)
qed (simp_all add: file_entry_def)

lemma ask_value_ok:
  assumes "list_all nameable items" "utf8_valid name" "length name < 2 ^ 32" "utf8_valid model" "length model < 2 ^ 32"
    "rnd = None \<or> (\<exists>b. rnd = Some b \<and> length b = 8)" "length items \<le> 370"
  shows "plist_ok (ask_value rnd items name model)" "val_height (val_of (ask_value rnd items name model)) \<le> MAX_DEPTH + 1"
    "val_nodes (val_of (ask_value rnd items name model)) \<le> MAX_ELEMENTS"
proof -
  have "length (concat (map hex_upper b)) = 2 * length b" for b by (induction b) (simp_all add: hex_upper_valid(2))
  then have "utf8_valid (sender_id rnd) \<and> length (sender_id rnd) < 2 ^ 32"
    using assms(6) keys_short short_ok by (auto simp: sender_id_def hex_upper_valid)
  moreover have "list_all plist_ok (map file_entry items)" using assms(1) by (induction items) (simp_all add: file_entry_ok)
  ultimately show "plist_ok (ask_value rnd items name model)"
    using assms(2-5) keys_short short_ok by (auto simp: ask_value_def)
  have "sum_list (map (val_nodes \<circ> (val_of \<circ> file_entry)) items) = 11 * length items"
    using assms(1) by (induction items) (simp_all add: file_entry_ok)
  then show "val_nodes (val_of (ask_value rnd items name model)) \<le> MAX_ELEMENTS"
    using assms(7) by (simp add: ask_value_def comp_assoc)
  have "foldr max (map (val_height \<circ> (val_of \<circ> file_entry)) items) 0 \<le> 2"
    using assms(1) by (induction items) (simp_all add: file_entry_ok)
  then show "val_height (val_of (ask_value rnd items name model)) \<le> MAX_DEPTH + 1"
    by (simp add: ask_value_def comp_assoc)
qed

lemma offered_names_entries:
  assumes "list_all nameable items"
  shows "offered_names (map (val_of \<circ> file_entry) items) = Some (map (\<lambda>it. last_piece [SLASH] (it_name it)) items)"
proof -
  have "offered_name (val_of (file_entry it)) = last_piece [SLASH] (it_name it)" for it
    by (simp add: offered_name_def file_entry_def)
  with assms show ?thesis by (induction items) (simp_all add: Let_def nameable_def)
qed

section \<open>Properties\<close>

text \<open>
  C6: a stranger's archive stays where it belongs. Whatever it holds, unpacking it, to its end or to the
  error that stops it, only adds files, each a new entry directly in the inbox, at most 1024 of them and
  at most 8 GiB together; no file that was there is touched.
\<close>

theorem extraction_contained:
  assumes "extract_archive unpack archive fs = (r, fs')"
    "\<forall>g b m. Cpio_Member m \<in> set (unpack g b) \<longrightarrow> utf8_valid (mb_name m)"
  shows "added MAX_MEMBERS MAX_EXTRACTED_BYTES fs fs'"
proof (cases "fs archive")
  case None
  with assms(1) show ?thesis by (simp add: extract_archive_def added_none)
next
  case (Some b)
  with assms(1) have "extract_loop (unpack (take 2 b = [0x1F, 0x8B]) b) [] 0 0 fs = (r, fs')"
    by (simp add: extract_archive_def)
  from extract_loop_added [OF this] assms(2) show ?thesis by simp
qed

theorem extraction_contained_witness:
  "let m = \<lparr> mb_name = str ''a'', mb_size = 1, mb_dir = False, mb_open = None, mb_data = [0x41], mb_fail = None, mb_finish = True \<rparr>
   in added MAX_MEMBERS MAX_EXTRACTED_BYTES [[0x62] \<mapsto> []]
        (snd (extract_archive (\<lambda>g b. [Cpio_Member m]) [0x62] [[0x62] \<mapsto> []]))"
proof -
  have "utf8_valid (str ''a'')" by code_simp
  then show ?thesis
    unfolding Let_def by (intro extraction_contained [OF prod.collapse [symmetric]]) simp
qed

text \<open>
  C33: a device that is not discoverable says nothing of itself and asks nobody. Whatever it is sent, all that a
  connection gets back for a request, up to where the link breaks, is a refusal that is the same for every device; no
  transfer is begun, no one is asked and no client hears of it. The one thing let in is a \<open>POST\<close> of an
  \<open>/Upload\<close> while a transfer holds the slot, which is gated on the transfer and not on visibility: it is passed on under the
  id of that transfer, with nothing said so far. While the slot is free there is none.
\<close>

theorem invisible_says_nothing:
  assumes "\<not> hs_visible h" "handle now c h = (r, c', h')"
  shows "h' = h \<and> (\<exists>status ka m. (status = 401 \<or> status = 413) \<and>
      sk_data (ad_out c') = sk_data (ad_out c) @ take m (response_head status [] ka)) \<and>
    (\<forall>tid ka. r \<noteq> H_Wait tid ka) \<and>
    (\<forall>tid head. r = H_Upload tid head \<longrightarrow> tid = ts_current (hs_transfers h) \<and> tid \<noteq> 0 \<and>
      request_line head = (str ''POST'', str ''/Upload'') \<and> sk_data (ad_out c') = sk_data (ad_out c))"
proof -
  define says where "says d \<longleftrightarrow> h' = h \<and> (\<exists>status ka m. (status = 401 \<or> status = 413) \<and>
      sk_data (ad_out c') = sk_data (ad_out d) @ take m (response_head status [] ka)) \<and>
    (\<forall>tid ka. r \<noteq> H_Wait tid ka) \<and>
    (\<forall>tid head. r = H_Upload tid head \<longrightarrow> tid = ts_current (hs_transfers h) \<and> tid \<noteq> 0 \<and>
      request_line head = (str ''POST'', str ''/Upload'') \<and> sk_data (ad_out c') = sk_data (ad_out d))" for d :: airdrop
  have quiet: "\<exists>status ka m. (status = 401 \<or> status = 413) \<and> x = x @ take m (response_head status [] ka)" for x
    by (rule exI [of _ 401], rule exI, rule exI [of _ 0]) simp
  have refuse: "says d" if "reply st None k e d = (r, c')" "st = 401 \<or> st = 413" "h' = h" for st k e d
    using reply_none [OF that(1)] reply_answers [OF that(1)] that(2,3) unfolding says_def by auto
  have failed: "says d" if "r = H_Failed e" "sk_data (ad_out c') = sk_data (ad_out d)" "h' = h" for e d
    using that quiet unfolding says_def by auto
  have step: "says d" if "route now head body d h = (r, c', h')" for head body d
  proof -
    from route_routed [of now head body d h] that assms(1) consider
      k e where "reply 401 None k e d = (r, c')" "h' = h"
      | "request_line head = (str ''POST'', str ''/Upload'')" "ts_current (hs_transfers h) \<noteq> 0" "c' = d" "h' = h"
        "r = H_Upload (ts_current (hs_transfers h)) head"
      unfolding routed_def by auto
    then show ?thesis
    proof cases
      case 1
      then show ?thesis by (intro refuse) auto
    next
      case 2
      then show ?thesis unfolding says_def using quiet by auto
    qed
  qed
  obtain x s where x: "read_head (ad_in c) = (x, s)" by fastforce
  have "says c"
  proof (cases x)
    case (Inl e)
    with x assms(2) show ?thesis by (intro failed) (auto simp: handle_def)
  next
    case (Inr head)
    obtain y s1 where y: "read_body head s = (y, s1)" by fastforce
    show ?thesis
    proof (cases "snd (request_line head) = str ''/Upload''")
      case True
      with x Inr assms(2) have "route now head [] (c\<lparr>ad_in := s\<rparr>) h = (r, c', h')"
        by (simp add: handle_def Let_def)
      from step [OF this] show ?thesis by (simp add: says_def)
    next
      case False
      note run = assms(2) [unfolded handle_def x Inr Let_def sum.case prod.case if_not_P [OF False] y]
      show ?thesis
      proof (cases y)
        case (Inl e)
        with run show ?thesis by (intro failed) auto
      next
        case (Inr z)
        obtain body d where z: "z = (body, d)" by fastforce
        show ?thesis
        proof (cases d)
          case True
          from run have "reply 413 None False Close (c\<lparr>ad_in := s1\<rparr>) = (r, c')" "h' = h"
            by (auto simp: Inr z True split: prod.splits)
          from refuse [OF this(1) _ this(2)] show ?thesis by (simp add: says_def)
        next
          case False
          from run have "route now head body (c\<lparr>ad_in := s1\<rparr>) h = (r, c', h')"
            by (simp add: Inr z False)
          from step [OF this] show ?thesis by (simp add: says_def)
        qed
      qed
    qed
  qed
  then show ?thesis unfolding says_def .
qed

theorem invisible_says_nothing_witness:
  "(\<exists>status ka m. (status = 401 \<or> status = 413) \<and>
     sk_data (ad_out (fst (snd (handle 0 (asks (str ''HEAD /'')) (sample_httpd False))))) = take m (response_head status [] ka)) \<and>
   (\<forall>tid head. fst (handle 0 (asks (str ''POST /Upload'')) (sample_httpd False)) \<noteq> H_Upload tid head)"
proof -
  have free: "ts_current (hs_transfers (sample_httpd False)) = 0" "\<not> hs_visible (sample_httpd False)"
    by (simp_all add: transfers_default_def)
  have "\<forall>tid head. fst (handle 0 (asks (str ''POST /Upload'')) (sample_httpd False)) \<noteq> H_Upload tid head"
    using invisible_says_nothing [OF free(2), of 0 "asks (str ''POST /Upload'')"] free(1) by (metis prod.collapse)
  moreover have "\<exists>status ka m. (status = 401 \<or> status = 413) \<and>
     sk_data (ad_out (fst (snd (handle 0 (asks (str ''HEAD /'')) (sample_httpd False))))) = take m (response_head status [] ka)"
    using invisible_says_nothing [OF free(2), of 0 "asks (str ''HEAD /'')"]
    by (metis (no_types, lifting) airdrop.select_convs(2) append_Nil prod.collapse sink.select_convs(1))
  ultimately show ?thesis by blast
qed

text \<open>
  C37: an upload needs no one's consent while an offer waits. The slot is taken when an offer arrives, so
  while one is on the screen, unanswered, any other connection may post an upload: it is taken in under
  the id of the offer, and nothing asks whether anybody said yes.
\<close>

theorem upload_without_consent:
  assumes "handle now a h = (H_Wait tid ka, a', h1)" "ts_next (hs_transfers h) \<noteq> -1"
    "read_head (ad_in b) = (Inr head, s)" "request_line head = (str ''POST'', str ''/Upload'')"
  shows "handle now' b h1 = (H_Upload tid head, b\<lparr>ad_in := s\<rparr>, h1) \<and>
    decision (hs_transfers h1) = decision (hs_transfers h)"
proof -
  from handle_waits [OF assms(1)] assms(2) have "ts_current (hs_transfers h1) = tid" "tid \<noteq> 0"
    "decision (hs_transfers h1) = decision (hs_transfers h)"
    by (auto simp: add_eq_0_iff2)
  moreover have "str ''POST'' \<noteq> str ''HEAD''" "str ''/Upload'' \<noteq> str ''/Discover''" "str ''/Upload'' \<noteq> str ''/Ask''"
    by (simp_all add: str_def)
  ultimately show ?thesis using assms(3,4) by (simp add: handle_def route_def)
qed

theorem upload_without_consent_witness:
  "\<exists>a' h1. handle 0 (asks (str ''POST /Ask'')) (sample_httpd True) = (H_Wait 1 False, a', h1) \<and>
     handle 0 (asks (str ''POST /Upload'')) h1 =
       (H_Upload 1 (str ''POST /Upload'' @ crlf @ crlf), \<lparr> ad_in = [], ad_out = free_sink \<rparr>, h1) \<and>
     decision (hs_transfers h1) = None"
proof -
  have "plist_parse [] = P_None" by (simp add: plist_parse_def)
  then have "\<exists>a' h1. ask_begin 0 [] False c (sample_httpd True) = (H_Wait 1 False, a', h1)" for c
    by (simp add: ask_begin_def try_begin_def transfers_default_def describe_offer_def each_callback_def touch_def)
  then obtain a' h1 where ask: "ask_begin 0 [] False \<lparr> ad_in = [], ad_out = free_sink \<rparr> (sample_httpd True) = (H_Wait 1 False, a', h1)"
    by blast
  have "str ''POST'' \<noteq> str ''HEAD''" "str ''/Ask'' \<noteq> str ''/Discover''" "str ''/Ask'' \<noteq> str ''/Upload''"
    by (simp_all add: str_def)
  with ask sample_requests have "handle 0 (asks (str ''POST /Ask'')) (sample_httpd True) = (H_Wait 1 False, a', h1)"
    by (simp add: handle_def route_def read_body_def is_chunked_def read_exact_bounded_def)
  with upload_without_consent [OF this _ , of "asks (str ''POST /Upload'')"] sample_requests show ?thesis
    by (auto simp: transfers_default_def)
qed

text \<open>
  Removing the clients that have died. With nothing in between, exactly the dead are removed. When
  two threads have both found the same dead client, the second removes the one after it.
\<close>

theorem dead_clients_removed:
  "drop_dead (find_dead f cbs) cbs = filter (\<lambda>c. f c \<noteq> Call_Dead) cbs \<and>
   drop_dead (find_dead (\<lambda>c. if c then Call_Ok else Call_Dead) [False, True])
     (drop_dead (find_dead (\<lambda>c. if c then Call_Ok else Call_Dead) [False, True]) [False, True]) = []"
  by (simp add: drop_dead_alone) (simp add: drop_dead_def find_dead_def remove_at_def upt_rec)

lemma offered_names_plain:
  "offered_names its = Some names \<Longrightarrow> list_all (\<lambda>n. n \<noteq> [] \<and> SLASH \<notin> set n \<and> display_safe n) names"
  by (induction its arbitrary: names) (auto simp: offered_name_def Let_def last_piece_free split: if_splits)

text \<open>
  C34: what a person is asked. For an offer made by this program's own sender, with at most 370 files that have names and
  a sender whose name can be displayed, the prompt of the receiving side names the sender, and every file, as the sender
  named them, in order. Whoever sends the offer and whatever its bytes, the names in the prompt are free of
  control and directional characters, and those of the files are single path components. (The
  reader's limit of 4096 objects leaves room for 370 files.)
\<close>

theorem offer_described:
  assumes "list_all nameable items" "utf8_valid name" "length name < 2 ^ 32" "display_safe name"
    "utf8_valid model" "length model < 2 ^ 32" "rnd = None \<or> (\<exists>b. rnd = Some b \<and> length b = 8)" "length items \<le> 370"
    "fits (ask_body rnd items name model)"
  shows "describe_offer (ask_body rnd items name model) =
      P_Some (Some (name, map (\<lambda>it. last_piece [SLASH] (it_name it)) items)) \<and>
    (\<forall>body from_name names. describe_offer body = P_Some (Some (from_name, names)) \<longrightarrow>
      display_safe from_name \<and> list_all (\<lambda>n. n \<noteq> [] \<and> SLASH \<notin> set n \<and> display_safe n) names)"
proof (intro conjI allI impI)
  note ok = ask_value_ok [OF assms(1-3,5-8)]
  have "plist_parse (ask_body rnd items name model) = P_Some (val_of (ask_value rnd items name model))"
    using plist_roundtrip_aux [OF ok] assms(9) by (simp add: ask_body_def)
  moreover have "val_get (val_of (ask_value rnd items name model)) (str ''SenderComputerName'') = Some (Val_Str name)"
    "val_get (val_of (ask_value rnd items name model)) (str ''Files'') = Some (Val_Array (map (val_of \<circ> file_entry) items))"
    by (simp_all add: ask_value_def str_def)
  ultimately show "describe_offer (ask_body rnd items name model) =
      P_Some (Some (name, map (\<lambda>it. last_piece [SLASH] (it_name it)) items))"
    using assms(4) offered_names_entries [OF assms(1)] by (simp add: describe_offer_def Let_def)
next
  fix body from_name names
  assume d: "describe_offer body = P_Some (Some (from_name, names))"
  have "display_safe []" by (simp add: display_safe_def chars_ascii)
  with d show "display_safe from_name" "list_all (\<lambda>n. n \<noteq> [] \<and> SLASH \<notin> set n \<and> display_safe n) names"
    by (auto simp: describe_offer_def Let_def dest: offered_names_plain split: plist_res.splits option.splits if_splits)
qed

theorem offer_described_witness:
  "describe_offer (ask_body None [\<lparr> it_file = [], it_name = str ''a.jpg'', it_size = 0 \<rparr>] (str ''Pixel'') (str ''Pixel'')) =
     P_Some (Some (str ''Pixel'', [str ''a.jpg'']))"
proof -
  let ?i = "\<lparr> it_file = [], it_name = str ''a.jpg'', it_size = 0 \<rparr>"
  have leaf: "last_piece [SLASH] (str ''a.jpg'') = str ''a.jpg''" by (simp add: last_piece_def str_def)
  have safe: "display_safe (str ''a.jpg'')" "display_safe (str ''Pixel'')"
    by (simp_all add: display_safe_def chars_ascii str_def is_control_def is_directional_def)
  have valid: "utf8_valid (str ''a.jpg'')" "utf8_valid (str ''Pixel'')" by code_simp+
  have "nameable ?i" using leaf safe valid by (simp add: nameable_def) (simp add: str_def)
  moreover have "uti_for (str ''a.jpg'') = str ''public.jpeg''"
    by (simp add: uti_for_def rsplit_once_def last_piece_def str_def ascii_lower_def)
  then have "length (ask_body None [?i] (str ''Pixel'') (str ''Pixel'')) < 2000"
    by (simp add: ask_body_def ask_value_def file_entry_def sender_id_def plist_encode_def Let_def byte_width_def write_marker_def
      write_refs_def write_string_def is_ascii_def write_uint_def write_int_object_def str_def)
  then have "fits (ask_body None [?i] (str ''Pixel'') (str ''Pixel''))" by (simp add: fits_def)
  ultimately show ?thesis using offer_described [of "[?i]" "str ''Pixel''" "str ''Pixel''" None] safe valid leaf
    by (simp add: str_def)
qed

end
