(* ===== verification/Mdns.thy ===== *)
theory Mdns
  imports Http Dns Endpoint_Id Machines
begin

text \<open>
  The AirDrop browser and responder (\<open>sharingd/src/mdns.rs\<close>): the table of peers with its clocks, the rules
  by which a peer is dropped, what is queried, probed, announced and answered, and the name this device
  goes by. The socket is the datagrams a poll receives and the packets sent; the address of the interface,
  the contents of files and random bytes are arguments. A time is a number of milliseconds; the clock does
  not move within one record.
\<close>

section \<open>The table\<close>

definition AIRDROP_SERVICE :: rstring where
  "AIRDROP_SERVICE = str ''_airdrop._tcp.local''"

definition SERVICE_ENUM :: rstring where
  "SERVICE_ENUM = str ''_services._dns-sd._udp.local''"

definition AIRDROP_FLAGS :: rstring where
  "AIRDROP_FLAGS = str ''flags=489''"

abbreviation (input) AIRDROP_PORT :: u16 where "AIRDROP_PORT \<equiv> 8770"
abbreviation (input) MDNS_TTL :: u32 where "MDNS_TTL \<equiv> 120"
abbreviation (input) LOST_UNANSWERED :: nat where "LOST_UNANSWERED \<equiv> 3"
abbreviation (input) LOST_AFTER :: nat where "LOST_AFTER \<equiv> 60000"

record ad_peer =
  ap_instance :: rstring
  ap_host :: rstring
  ap_port :: u16
  ap_addr :: "bytes option"
  ap_last_seen :: nat
  ap_expires_at :: nat
  ap_unanswered :: nat
  ap_unreceptive_since :: "nat option"
  ap_withdrawn :: bool

type_synonym ad_table = "(rstring, ad_peer) hashmap"

record browser =
  br_peers :: ad_table
  br_instance :: rstring
  br_advertising :: bool
  br_queries_sent :: nat
  br_can_respond :: bool
  br_probe_eviction :: bool
  br_eviction_since :: "nat option"

definition browser_new :: "nat \<Rightarrow> bool \<Rightarrow> rstring \<Rightarrow> browser" where
  "browser_new now can_respond inst =
     \<lparr> br_peers = [], br_instance = inst, br_advertising = False, br_queries_sent = 0, br_can_respond = can_respond,
       br_probe_eviction = True, br_eviction_since = Some now \<rparr>"

definition short_id :: "rstring \<Rightarrow> rstring" where
  "short_id inst = hd (split_on 0x2E inst)"

definition ttl_of :: "dns_rr \<Rightarrow> nat" where
  "ttl_of rr = (if rr_ttl rr = 0 then 1000 else max 30 (min (unat (rr_ttl rr)) 300) * 1000)"

text \<open>What hearing a record does to the clocks of a peer: \<open>max\<close>, except that a withdrawal shortens.\<close>

definition heard :: "nat \<Rightarrow> dns_rr \<Rightarrow> ad_peer \<Rightarrow> ad_peer" where
  "heard now rr p =
     (let t = now + ttl_of rr
      in p\<lparr>ap_last_seen := now, ap_unanswered := 0,
           ap_expires_at := if rr_ttl rr = 0 then t else max (ap_expires_at p) t\<rparr>)"

definition full_instance :: "rstring \<Rightarrow> rstring" where
  "full_instance inst = inst @ [0x2E] @ AIRDROP_SERVICE"

text \<open>\<open>own\<close> is what \<open>stable_instance\<close> returns at the time, \<open>me\<close> the address of the interface.\<close>

definition is_self_instance :: "rstring \<Rightarrow> browser \<Rightarrow> rstring \<Rightarrow> bool" where
  "is_self_instance own b inst \<longleftrightarrow> inst = full_instance (br_instance b) \<or> inst = full_instance own"

definition found :: "nat \<Rightarrow> dns_rr \<Rightarrow> rstring \<Rightarrow> ad_peer" where
  "found now rr inst =
     \<lparr> ap_instance = inst, ap_host = [], ap_port = 0, ap_addr = None, ap_last_seen = now,
       ap_expires_at = now + ttl_of rr, ap_unanswered = 0, ap_unreceptive_since = None, ap_withdrawn = False \<rparr>"

definition absorb_record :: "bytes option \<Rightarrow> rstring \<Rightarrow> bytes \<Rightarrow> nat \<Rightarrow> dns_rr \<Rightarrow> browser \<Rightarrow> browser" where
  "absorb_record me own packet now rr b =
     (let peers = br_peers b in
      if rr_type rr = TYPE_PTR \<and> rr_name rr = AIRDROP_SERVICE then
        (case fst (dns_name \<lparr>dr_buf = packet, dr_pos = rr_rdata_at rr\<rparr>) of
           None \<Rightarrow> b
         | Some inst \<Rightarrow>
             if is_self_instance own b inst then b
             else
               let p = (case hm_get peers inst of Some p \<Rightarrow> p | None \<Rightarrow> found now rr inst);
                   p = p\<lparr>ap_last_seen := now, ap_unanswered := 0, ap_expires_at := now + ttl_of rr\<rparr>;
                   p = (if rr_ttl rr = 0 then p\<lparr>ap_withdrawn := True\<rparr> else p)
               in b\<lparr>br_peers := hm_insert inst p peers\<rparr>)
      else if rr_type rr = TYPE_TXT then
        (case hm_get peers (rr_name rr) of
           None \<Rightarrow> b
         | Some p \<Rightarrow> b\<lparr>br_peers := hm_insert (rr_name rr) (heard now rr p) peers\<rparr>)
      else if rr_type rr = TYPE_SRV then
        (if length (rr_rdata rr) < 6 then b
         else
           let port = u16_from_be_bytes (rr_rdata rr ! 4) (rr_rdata rr ! 5);
               host = unwrap_or [] (fst (dns_name \<lparr>dr_buf = packet, dr_pos = rr_rdata_at rr + 6\<rparr>))
           in case hm_get peers (rr_name rr) of
                None \<Rightarrow> b
              | Some p \<Rightarrow>
                  let p = heard now rr (p\<lparr>ap_port := port, ap_host := host\<rparr>);
                      p = (if rr_ttl rr = 0 then p\<lparr>ap_withdrawn := True\<rparr> else p)
                  in b\<lparr>br_peers := hm_insert (rr_name rr) p peers\<rparr>)
      else if rr_type rr = TYPE_AAAA \<and> length (rr_rdata rr) = 16 then
        (if me = Some (rr_rdata rr) then b\<lparr>br_peers := filter (\<lambda>(_, p). ap_host p \<noteq> rr_name rr) peers\<rparr>
         else b\<lparr>br_peers := map (\<lambda>(k, p). (k, if ap_host p \<noteq> [] \<and> ap_host p = rr_name rr
                 then heard now rr (p\<lparr>ap_addr := Some (rr_rdata rr)\<rparr>) else p)) peers\<rparr>)
      else b)"

fun absorb_records :: "bytes option \<Rightarrow> rstring \<Rightarrow> bytes \<Rightarrow> nat \<Rightarrow> dns_rr list \<Rightarrow> browser \<Rightarrow> browser" where
  "absorb_records me own packet now [] b = b"
| "absorb_records me own packet now (rr # rrs) b =
     absorb_records me own packet now rrs (absorb_record me own packet now rr b)"

section \<open>Who is gone\<close>

definition eviction_ripe :: "nat \<Rightarrow> browser \<Rightarrow> bool" where
  "eviction_ripe now b = (case br_eviction_since b of Some t \<Rightarrow> LOST_AFTER \<le> now - t | None \<Rightarrow> False)"

definition stays :: "nat \<Rightarrow> nat \<Rightarrow> bool \<Rightarrow> ad_peer \<Rightarrow> bool" where
  "stays now min_grace ripe p =
     (let silent = now - ap_last_seen p
      in if ripe \<and> LOST_UNANSWERED \<le> ap_unanswered p \<and> LOST_AFTER \<le> silent then False
         else if ap_withdrawn p \<and> ap_expires_at p \<le> now then False
         else if \<not> ripe then True
         else now < ap_expires_at p \<or> silent < min_grace)"

definition mdns_expire :: "nat \<Rightarrow> nat \<Rightarrow> browser \<Rightarrow> browser" where
  "mdns_expire now min_grace b =
     (let ripe = br_probe_eviction b \<and> eviction_ripe now b
      in b\<lparr>br_peers := filter (\<lambda>(_, p). stays now min_grace ripe p) (br_peers b)\<rparr>)"

definition set_probe_eviction :: "nat \<Rightarrow> bool \<Rightarrow> browser \<Rightarrow> browser" where
  "set_probe_eviction now enabled b =
     (let b = (if br_probe_eviction b \<noteq> enabled then b\<lparr>br_eviction_since := if enabled then Some now else None\<rparr> else b)
      in b\<lparr>br_probe_eviction := enabled\<rparr>)"

definition each_peer :: "(ad_peer \<Rightarrow> ad_peer) \<Rightarrow> browser \<Rightarrow> browser" where
  "each_peer f b = b\<lparr>br_peers := map (\<lambda>(k, p). (k, f p)) (br_peers b)\<rparr>"

definition asked :: "ad_peer \<Rightarrow> ad_peer" where
  "asked p = p\<lparr>ap_unanswered := min (ap_unanswered p + 1) (2 ^ 32 - 1)\<rparr>"

definition mark_unreceptive :: "nat \<Rightarrow> bool \<Rightarrow> browser \<Rightarrow> browser" where
  "mark_unreceptive now unreceptive b =
     each_peer (\<lambda>p. if unreceptive then
         (if ap_unreceptive_since p = None then p\<lparr>ap_unreceptive_since := Some now\<rparr> else p)
       else p\<lparr>ap_unreceptive_since := None\<rparr>) b"

definition restart_query_burst :: "browser \<Rightarrow> browser" where
  "restart_query_burst b = b\<lparr>br_queries_sent := 0\<rparr>"

definition forget_peers :: "browser \<Rightarrow> browser" where
  "forget_peers b = b\<lparr>br_peers := []\<rparr>"

definition mdns_peers :: "bytes option \<Rightarrow> browser \<Rightarrow> ad_peer list" where
  "mdns_peers me b = filter (\<lambda>p. ap_addr p = None \<or> ap_addr p \<noteq> me) (map snd (br_peers b))"

text \<open>\<open>sent\<close> says whether the packet went out; the result is the packet.\<close>

definition mdns_query :: "bool \<Rightarrow> browser \<Rightarrow> bytes \<times> browser" where
  "mdns_query sent b =
     (let b = b\<lparr>br_queries_sent := min (br_queries_sent b + 1) (2 ^ 32 - 1)\<rparr>;
          unicast = (br_queries_sent b \<le> 3 \<or> br_queries_sent b mod 5 = 0)
      in (query_with AIRDROP_SERVICE unicast, if sent \<and> unicast then each_peer asked b else b))"

text \<open>\<open>sent addr\<close>: whether the probe of that address went out. The result is how many were asked.\<close>

definition probe :: "(bytes \<Rightarrow> bool) \<Rightarrow> browser \<Rightarrow> nat \<times> browser" where
  "probe sent b =
     (let hit = (\<lambda>p. case ap_addr p of Some a \<Rightarrow> sent a | None \<Rightarrow> False)
      in (length (filter (hit \<circ> snd) (br_peers b)), each_peer (\<lambda>p. if hit p then asked p else p) b))"

section \<open>What is announced and answered\<close>

text \<open>\<open>get(..8)\<close> is nothing where the eighth byte is inside a character; a name of this device is ASCII.\<close>

definition ascii_upper :: "u8 \<Rightarrow> u8" where
  "ascii_upper b = (if 0x61 \<le> b \<and> b \<le> 0x7A then b - 0x20 else b)"

definition mdns_host :: "rstring \<Rightarrow> rstring" where
  "mdns_host inst =
     str ''Android_'' @ map ascii_upper (if 8 \<le> length inst then take 8 inst else inst) @ str ''.local''"

definition hex_nibble :: "u8 \<Rightarrow> u8" where
  "hex_nibble n = (if n < 10 then 0x30 + n else 0x41 + (n - 10))"

definition reverse_name :: "bytes \<Rightarrow> rstring" where
  "reverse_name a = concat (map (\<lambda>b. [hex_nibble (b AND 0x0F), 0x2E, hex_nibble (drop_bit 4 b), 0x2E]) (rev a)) @ str ''ip6.arpa''"

definition records_with_ttl :: "bytes option \<Rightarrow> rstring \<Rightarrow> u32 \<Rightarrow> bytes list" where
  "records_with_ttl me instance_id ttl =
     (let inst = full_instance instance_id;
          host = mdns_host instance_id;
          srv = u16_to_be_bytes 0 @ u16_to_be_bytes 0 @ u16_to_be_bytes AIRDROP_PORT @ encode_name host
      in [dns_record SERVICE_ENUM TYPE_PTR ttl (encode_name AIRDROP_SERVICE) False,
          dns_record AIRDROP_SERVICE TYPE_PTR ttl (encode_name inst) False,
          dns_record inst TYPE_SRV ttl srv True,
          dns_record inst TYPE_TXT ttl (txt_rdata [AIRDROP_FLAGS]) True] @
         (case me of
            Some a \<Rightarrow> [dns_record host TYPE_AAAA ttl a True, dns_record (reverse_name a) TYPE_PTR ttl (encode_name host) True]
          | None \<Rightarrow> []) @
         [dns_record inst TYPE_NSEC ttl (nsec_rdata inst [TYPE_TXT, TYPE_SRV]) True,
          dns_record host TYPE_NSEC ttl (nsec_rdata host [TYPE_AAAA]) True])"

definition mdns_announce :: "bytes option \<Rightarrow> browser \<Rightarrow> bytes list" where
  "mdns_announce me b = (if br_advertising b then [dns_response (records_with_ttl me (br_instance b) MDNS_TTL)] else [])"

definition advertise :: "bytes option \<Rightarrow> browser \<Rightarrow> bytes list option \<times> browser" where
  "advertise me b =
     (if \<not> br_can_respond b then (None, b)
      else let b = b\<lparr>br_advertising := True\<rparr> in (Some (mdns_announce me b), b))"

definition goodbye :: "bytes option \<Rightarrow> browser \<Rightarrow> bytes list" where
  "goodbye me b = replicate 3 (dns_response (records_with_ttl me (br_instance b) 0))"

definition mdns_stop :: "bytes option \<Rightarrow> browser \<Rightarrow> bytes list \<times> browser" where
  "mdns_stop me b =
     (if \<not> br_advertising b then ([], b) else let b = b\<lparr>br_advertising := False\<rparr> in (goodbye me b, b))"

definition asks_us :: "rstring \<Rightarrow> question \<Rightarrow> bool" where
  "asks_us instance_id q =
     (let inst = full_instance instance_id; host = mdns_host instance_id; n = q_name q; t = q_type q
      in if \<not> (n = AIRDROP_SERVICE \<or> n = inst \<or> n = host) then False
         else if n = AIRDROP_SERVICE then t = TYPE_PTR \<or> t = 255
         else if n = inst then t = TYPE_SRV \<or> t = TYPE_TXT \<or> t = 255
         else t = TYPE_AAAA \<or> t = TYPE_A \<or> t = 255)"

definition mdns_answer :: "bytes option \<Rightarrow> question list \<Rightarrow> browser \<Rightarrow> bytes list" where
  "mdns_answer me questions b =
     (if list_ex (asks_us (br_instance b)) questions
      then [dns_response (records_with_ttl me (br_instance b) MDNS_TTL)] else [])"

text \<open>
  \<open>poll\<close>: the datagrams received before the first timeout, at most 32, each cut to the buffer; \<open>clock d\<close> is the
  time of the \<open>d\<close>-th. The result are the packets sent; the count returned is the number of datagrams. The name of this
  device and the address of the interface, which the code reads again for each record, are those of the whole poll.
\<close>

fun mdns_poll_loop :: "bytes option \<Rightarrow> rstring \<Rightarrow> (nat \<Rightarrow> nat) \<Rightarrow> nat \<Rightarrow> bytes list \<Rightarrow> browser \<Rightarrow> bytes list \<times> browser" where
  "mdns_poll_loop me own clock d [] b = ([], b)"
| "mdns_poll_loop me own clock d (dg # dgs) b =
     (let dg = take 4096 dg;
          (out, b) = (case dns_parse dg of
             None \<Rightarrow> ([], b)
           | Some msg \<Rightarrow>
               let b = absorb_records me own dg (clock d) (dm_records msg) b
               in (if br_advertising b then mdns_answer me (dm_questions msg) b else [], b));
          (outs, b) = mdns_poll_loop me own clock (Suc d) dgs b
      in (out @ outs, b))"

definition mdns_poll :: "bytes option \<Rightarrow> rstring \<Rightarrow> (nat \<Rightarrow> nat) \<Rightarrow> bytes list \<Rightarrow> browser \<Rightarrow> bytes list \<times> browser" where
  "mdns_poll me own clock dgs b = mdns_poll_loop me own clock 0 (take 32 dgs) b"

section \<open>The name of this device\<close>

definition all_hex :: "rstring \<Rightarrow> bool" where
  "all_hex s \<longleftrightarrow> length s = 12 \<and> list_all (\<lambda>b. hex_val b \<noteq> None) s"

definition mac_name :: "rstring option \<Rightarrow> rstring" where
  "mac_name mac =
     (case mac of
        Some m \<Rightarrow>
          (let hex = concat (split_on 0x3A (str_trim m))
           in if all_hex hex then map ascii_lower hex else str ''000000000000'')
      | None \<Rightarrow> str ''000000000000'')"

text \<open>The file of the identity, the random bytes if there are any, the address file; with what is written.\<close>

definition mint_identity :: "bytes option \<Rightarrow> rstring option \<Rightarrow> rstring \<times> rstring option" where
  "mint_identity rnd mac =
     (case rnd of
        None \<Rightarrow> (mac_name mac, None)
      | Some b \<Rightarrow> let i = concat (map hex_lower b) in (i, Some i))"

definition stable_instance :: "rstring option \<Rightarrow> bytes option \<Rightarrow> rstring option \<Rightarrow> rstring \<times> rstring option" where
  "stable_instance file rnd mac =
     (case file of
        Some s \<Rightarrow> if all_hex (str_trim s) then (map ascii_lower (str_trim s), None) else mint_identity rnd mac
      | None \<Rightarrow> mint_identity rnd mac)"

definition reset_identity :: "bytes option \<Rightarrow> rstring option \<Rightarrow> browser \<Rightarrow> browser \<times> rstring option" where
  "reset_identity rnd mac b = (case mint_identity rnd mac of (i, w) \<Rightarrow> (b\<lparr>br_instance := i\<rparr>, w))"


section \<open>The browser as a machine\<close>

datatype ad_event =
    Ad_Poll "bytes option" rstring "nat \<Rightarrow> nat" "bytes list"
  | Ad_Expire nat nat
  | Ad_Vouch nat bool
  | Ad_Mark nat bool
  | Ad_Query bool
  | Ad_Probe "bytes \<Rightarrow> bool"
  | Ad_Burst
  | Ad_Forget

fun ad_on :: "browser \<Rightarrow> ad_event \<Rightarrow> browser \<times> bytes list" where
  "ad_on b (Ad_Poll me own clock dgs) = (case mdns_poll me own clock dgs b of (out, b) \<Rightarrow> (b, out))"
| "ad_on b (Ad_Expire now grace) = (mdns_expire now grace b, [])"
| "ad_on b (Ad_Vouch now enabled) = (set_probe_eviction now enabled b, [])"
| "ad_on b (Ad_Mark now unreceptive) = (mark_unreceptive now unreceptive b, [])"
| "ad_on b (Ad_Query sent) = (case mdns_query sent b of (p, b) \<Rightarrow> (b, [p]))"
| "ad_on b (Ad_Probe sent) = (case probe sent b of (n, b) \<Rightarrow> (b, []))"
| "ad_on b Ad_Burst = (restart_query_burst b, [])"
| "ad_on b Ad_Forget = (forget_peers b, [])"

lemma get_filter: "hm_get xs k = Some p \<Longrightarrow> P p \<Longrightarrow> hm_get (filter (\<lambda>(_, p). P p) xs) k = Some p"
  by (induction xs) auto

lemma get_filter_none: "hm_wf xs \<Longrightarrow> hm_get xs k = Some p \<Longrightarrow> \<not> P p \<Longrightarrow> hm_get (filter (\<lambda>(_, p). P p) xs) k = None"
  by (induction xs) (auto simp: hm_wf_def map_of_eq_None_iff split: if_splits)

lemma get_each: "hm_get (map (\<lambda>(k, p). (k, f p)) xs) k = map_option f (hm_get xs k)"
  by (induction xs) auto

subsection \<open>A peer that Bluetooth vouches for\<close>

text \<open>
  The peer \<open>k\<close> is in the table, has not said goodbye, and none of the names of \<open>N\<close> is that of its host.
\<close>

definition listed :: "rstring list \<Rightarrow> rstring \<Rightarrow> browser \<Rightarrow> bool" where
  "listed N k b \<longleftrightarrow> \<not> br_probe_eviction b \<and>
     (\<exists>p. hm_get (br_peers b) k = Some p \<and> \<not> ap_withdrawn p \<and> ap_host p \<notin> set N)"

text \<open>
  A record that does not withdraw \<open>k\<close>, and does not make its host one whose address is that of this device: the names
  for which records give the address of this device are among \<open>N\<close>. Everything else may be in it, the goodbye of any
  other peer among it.
\<close>

definition leaves_be :: "rstring list \<Rightarrow> rstring \<Rightarrow> bytes option \<Rightarrow> bytes \<Rightarrow> dns_rr \<Rightarrow> bool" where
  "leaves_be N k me packet rr \<longleftrightarrow>
     \<not> (rr_ttl rr = 0 \<and> rr_type rr = TYPE_PTR \<and> rr_name rr = AIRDROP_SERVICE \<and>
        fst (dns_name \<lparr>dr_buf = packet, dr_pos = rr_rdata_at rr\<rparr>) = Some k) \<and>
     \<not> (rr_ttl rr = 0 \<and> rr_type rr = TYPE_SRV \<and> rr_name rr = k) \<and>
     (rr_type rr = TYPE_SRV \<and> rr_name rr = k \<longrightarrow>
        unwrap_or [] (fst (dns_name \<lparr>dr_buf = packet, dr_pos = rr_rdata_at rr + 6\<rparr>)) \<notin> set N) \<and>
     (rr_type rr = TYPE_AAAA \<and> me = Some (rr_rdata rr) \<longrightarrow> rr_name rr \<in> set N)"

fun vouched :: "rstring list \<Rightarrow> rstring \<Rightarrow> ad_event \<Rightarrow> bool" where
  "vouched N k (Ad_Poll me own clock dgs) \<longleftrightarrow>
     (\<forall>dg \<in> set dgs. \<forall>msg. dns_parse (take 4096 dg) = Some msg \<longrightarrow> list_all (leaves_be N k me (take 4096 dg)) (dm_records msg))"
| "vouched N k (Ad_Vouch now enabled) \<longleftrightarrow> \<not> enabled"
| "vouched N k Ad_Forget \<longleftrightarrow> False"
| "vouched N k _ \<longleftrightarrow> True"

lemma listed_insert:
  assumes "listed N k b" "j = k \<Longrightarrow> \<not> ap_withdrawn p \<and> ap_host p \<notin> set N"
  shows "listed N k (b\<lparr>br_peers := hm_insert j p (br_peers b)\<rparr>)"
  using assms by (cases "j = k") (auto simp: listed_def update_conv')

lemma listed_each:
  "listed N k b \<Longrightarrow> (\<And>p. ap_withdrawn (f p) = ap_withdrawn p \<and> ap_host (f p) = ap_host p) \<Longrightarrow> listed N k (each_peer f b)"
  by (auto simp: listed_def each_peer_def get_each)

lemma heard_same [simp]: "ap_withdrawn (heard now rr p) = ap_withdrawn p" "ap_host (heard now rr p) = ap_host p"
  by (simp_all add: heard_def Let_def)

lemma absorb_listed:
  assumes "leaves_be N k me packet rr" "listed N k b"
  shows "listed N k (absorb_record me own packet now rr b)"
proof -
  note be = assms(1) [unfolded leaves_be_def]
  obtain q where q: "hm_get (br_peers b) k = Some q" "\<not> ap_withdrawn q" "ap_host q \<notin> set N"
    using assms(2) by (auto simp: listed_def)
  have ptr: "listed N k (b\<lparr>br_peers := hm_insert k (q\<lparr>ap_last_seen := now, ap_unanswered := 0, ap_expires_at := t\<rparr>) (br_peers b)\<rparr>)" for t
    using q by (auto intro!: listed_insert [OF assms(2)])
  have ins: "listed N k (b\<lparr>br_peers := hm_insert j p (br_peers b)\<rparr>)" if "j \<noteq> k" for j p
    using that by (intro listed_insert [OF assms(2)]) simp
  have seen: "listed N k (b\<lparr>br_peers := hm_insert k (heard now rr q) (br_peers b)\<rparr>)"
    "host \<notin> set N \<Longrightarrow> listed N k (b\<lparr>br_peers := hm_insert k (heard now rr (q\<lparr>ap_port := port, ap_host := host\<rparr>)) (br_peers b)\<rparr>)"
    for port host
    using q by (auto intro!: listed_insert [OF assms(2)])
  have aaaa: "listed N k (b\<lparr>br_peers := map (\<lambda>(j, p). (j, if ap_host p \<noteq> [] \<and> ap_host p = rr_name rr
      then heard now rr (p\<lparr>ap_addr := Some (rr_rdata rr)\<rparr>) else p)) (br_peers b)\<rparr>)"
    unfolding each_peer_def [symmetric] by (rule listed_each [OF assms(2)]) simp
  have own: "listed N k (b\<lparr>br_peers := filter (\<lambda>(_, p). ap_host p \<noteq> rr_name rr) (br_peers b)\<rparr>)" if "rr_name rr \<in> set N"
  proof -
    have "hm_get (filter (\<lambda>(_, p). ap_host p \<noteq> rr_name rr) (br_peers b)) k = Some q"
      using q that by (intro get_filter) auto
    then show ?thesis using assms(2) q by (simp add: listed_def)
  qed
  consider "rr_type rr = TYPE_PTR \<and> rr_name rr = AIRDROP_SERVICE" | "rr_type rr = TYPE_TXT" | "rr_type rr = TYPE_SRV"
    | "rr_type rr = TYPE_AAAA \<and> length (rr_rdata rr) = 16"
    | "\<not> (rr_type rr = TYPE_PTR \<and> rr_name rr = AIRDROP_SERVICE)" "rr_type rr \<noteq> TYPE_TXT" "rr_type rr \<noteq> TYPE_SRV"
      "\<not> (rr_type rr = TYPE_AAAA \<and> length (rr_rdata rr) = 16)" by blast
  then show ?thesis
  proof cases
    case 1
    show ?thesis
    proof (cases "fst (dns_name \<lparr>dr_buf = packet, dr_pos = rr_rdata_at rr\<rparr>) = Some k")
      case True
      with 1 show ?thesis using be assms(2) ptr q(1) by (simp add: absorb_record_def Let_def)
    next
      case False
      with 1 show ?thesis using assms(2) ins by (auto simp: absorb_record_def Let_def split: option.split)
    qed
  next
    case 2
    then show ?thesis
      using assms(2) q seen(1) ins by (cases "rr_name rr = k") (auto simp: absorb_record_def Let_def split: option.split)
  next
    case 3
    then show ?thesis
      using assms(2) q seen(2) ins be by (cases "rr_name rr = k") (auto simp: absorb_record_def Let_def split: option.split)
  next
    case 4
    then show ?thesis using be own aaaa by (simp add: absorb_record_def Let_def)
  next
    case 5
    then show ?thesis using assms(2) by (auto simp: absorb_record_def Let_def)
  qed
qed

lemma absorb_all_listed:
  "list_all (leaves_be N k me packet) rrs \<Longrightarrow> listed N k b \<Longrightarrow> listed N k (absorb_records me own packet now rrs b)"
  by (induction rrs arbitrary: b) (simp_all add: absorb_listed)

lemma poll_listed:
  "listed N k b \<Longrightarrow>
   \<forall>dg \<in> set dgs. \<forall>msg. dns_parse (take 4096 dg) = Some msg \<longrightarrow> list_all (leaves_be N k me (take 4096 dg)) (dm_records msg) \<Longrightarrow>
   listed N k (snd (mdns_poll_loop me own clock d dgs b))"
proof (induction dgs arbitrary: d b)
  case (Cons dg dgs)
  then show ?case
    by (cases "dns_parse (take 4096 dg)") (simp_all add: Let_def absorb_all_listed case_prod_beta)
qed simp

interpretation ad_vouched: invariant_machine ad_on "vouched N k" "listed N k" for N k
proof
  fix b e
  assume l: "listed N k b" and v: "vouched N k e"
  show "listed N k (fst (ad_on b e))"
  proof (cases e)
    case (Ad_Poll me own clock dgs)
    from v have "\<forall>dg \<in> set (take 32 dgs). \<forall>msg. dns_parse (take 4096 dg) = Some msg \<longrightarrow>
        list_all (leaves_be N k me (take 4096 dg)) (dm_records msg)"
      unfolding Ad_Poll vouched.simps by (meson in_set_takeD)
    from poll_listed [OF l this] show ?thesis by (simp add: Ad_Poll mdns_poll_def case_prod_beta)
  next
    case (Ad_Expire now grace)
    with l show ?thesis
      by (auto simp: mdns_expire_def listed_def stays_def Let_def intro!: get_filter)
  next
    case (Ad_Mark now u)
    then show ?thesis by (auto simp: mark_unreceptive_def intro!: listed_each [OF l] split: if_splits)
  next
    case (Ad_Query sent)
    have "listed N k (b\<lparr>br_queries_sent := n\<rparr>)" for n using l by (simp add: listed_def)
    with Ad_Query show ?thesis by (auto simp: mdns_query_def Let_def asked_def intro!: listed_each)
  next
    case (Ad_Probe sent)
    then show ?thesis by (auto simp: probe_def Let_def asked_def intro!: listed_each [OF l] split: option.splits if_splits)
  qed (use l v in \<open>auto simp: listed_def set_probe_eviction_def restart_query_burst_def Let_def\<close>)
qed

subsection \<open>A peer that says goodbye\<close>

lemma wf_changes:
  "hm_wf xs \<Longrightarrow> hm_wf (hm_insert j p xs)" "hm_wf xs \<Longrightarrow> hm_wf (filter P xs)"
  "hm_wf (map (\<lambda>(k, p). (k, f p)) xs) = hm_wf xs"
proof -
  show "hm_wf xs \<Longrightarrow> hm_wf (hm_insert j p xs)" by (rule hm.wf_insert)
  show "hm_wf xs \<Longrightarrow> hm_wf (filter P xs)" by (simp add: hm_wf_def distinct_map_filter)
  have "map fst (map (\<lambda>(k, p). (k, f p)) xs) = map fst xs" by (induction xs) auto
  then show "hm_wf (map (\<lambda>(k, p). (k, f p)) xs) = hm_wf xs" unfolding hm_wf_def by (simp only:)
qed

lemma absorb_same [simp]: "br_instance (absorb_record me own packet now rr b) = br_instance b"
  by (simp add: absorb_record_def Let_def split: option.split)

lemma absorb_wf: "hm_wf (br_peers b) \<Longrightarrow> hm_wf (br_peers (absorb_record me own packet now rr b))"
  by (simp add: absorb_record_def Let_def wf_changes hm.wf_insert split: option.split)

text \<open>The entry of a device that has said goodbye: it stays marked, whatever the device says later.\<close>

definition marked :: "nat \<Rightarrow> rstring \<Rightarrow> browser \<Rightarrow> bool" where
  "marked t k b \<longleftrightarrow> hm_wf (br_peers b) \<and> (\<exists>p. hm_get (br_peers b) k = Some p \<and> ap_withdrawn p \<and> ap_expires_at p \<le> t)"

lemma absorb_bye:
  assumes "hm_wf (br_peers b)" "rr_ttl rr = 0" "rr_type rr = TYPE_PTR" "rr_name rr = AIRDROP_SERVICE"
    "fst (dns_name \<lparr>dr_buf = packet, dr_pos = rr_rdata_at rr\<rparr>) = Some k" "\<not> is_self_instance own b k"
  shows "marked (now + 1000) k (absorb_record me own packet now rr b)"
  using assms by (simp add: absorb_record_def Let_def marked_def update_conv' hm.wf_insert ttl_of_def)

text \<open>No record gives the entry a longer life than its own, or takes the mark away.\<close>

definition brief :: "nat \<Rightarrow> bytes option \<Rightarrow> dns_rr \<Rightarrow> bool" where
  "brief d me rr \<longleftrightarrow> ttl_of rr \<le> d \<and> \<not> (rr_type rr = TYPE_AAAA \<and> me = Some (rr_rdata rr))"

lemma heard_by: "ap_expires_at p \<le> t \<Longrightarrow> now + ttl_of rr \<le> t \<Longrightarrow> ap_expires_at (heard now rr p) \<le> t"
  by (simp add: heard_def Let_def)

lemma absorb_marked:
  assumes "marked t k b" "brief d me rr" "now + d \<le> t"
  shows "marked t k (absorb_record me own packet now rr b)"
proof -
  obtain q where q: "hm_get (br_peers b) k = Some q" "ap_withdrawn q" "ap_expires_at q \<le> t" and wf: "hm_wf (br_peers b)"
    using assms(1) by (auto simp: marked_def)
  have t: "now + ttl_of rr \<le> t" using assms(2,3) by (simp add: brief_def)
  have ins: "marked t k (b\<lparr>br_peers := hm_insert j p (br_peers b)\<rparr>)"
    if "j = k \<Longrightarrow> ap_withdrawn p \<and> ap_expires_at p \<le> t" for j p
    using q wf that by (cases "j = k") (auto simp: marked_def update_conv' hm.wf_insert)
  have seen: "marked t k (b\<lparr>br_peers := hm_insert j (heard now rr p) (br_peers b)\<rparr>)"
    "marked t k (b\<lparr>br_peers := hm_insert j (heard now rr (p\<lparr>ap_port := port, ap_host := host\<rparr>)) (br_peers b)\<rparr>)"
    "marked t k (b\<lparr>br_peers := hm_insert j (heard now rr (p\<lparr>ap_port := port, ap_host := host\<rparr>)\<lparr>ap_withdrawn := True\<rparr>) (br_peers b)\<rparr>)"
    if "hm_get (br_peers b) j = Some p" for j p port host
    using that q t by (auto intro!: ins heard_by)
  have ptr: "marked t k (b\<lparr>br_peers := hm_insert j ((case hm_get (br_peers b) j of Some p \<Rightarrow> p | None \<Rightarrow> found now rr j)
      \<lparr>ap_last_seen := now, ap_unanswered := 0, ap_expires_at := now + ttl_of rr\<rparr>) (br_peers b)\<rparr>)"
    "marked t k (b\<lparr>br_peers := hm_insert j ((case hm_get (br_peers b) j of Some p \<Rightarrow> p | None \<Rightarrow> found now rr j)
      \<lparr>ap_last_seen := now, ap_unanswered := 0, ap_expires_at := now + ttl_of rr, ap_withdrawn := True\<rparr>) (br_peers b)\<rparr>)" for j
    using q t by (auto intro!: ins)
  have aaaa: "marked t k (b\<lparr>br_peers := map (\<lambda>(k, p). (k, if ap_host p \<noteq> [] \<and> ap_host p = rr_name rr
      then heard now rr (p\<lparr>ap_addr := Some (rr_rdata rr)\<rparr>) else p)) (br_peers b)\<rparr>)"
    using q t wf by (simp add: marked_def wf_changes get_each heard_by)
  show ?thesis
    unfolding absorb_record_def Let_def using assms(1,2) ptr seen aaaa by (simp add: brief_def split: option.split)
qed

lemma absorb_all_marked:
  assumes "list_all (brief d me) rrs" "marked t k b" "now + d \<le> t"
  shows "marked t k (absorb_records me own packet now rrs b)"
  using assms by (induction rrs arbitrary: b) (simp_all add: absorb_marked [where d = d])

lemma expire_marked:
  assumes "marked t k b" "t \<le> now"
  shows "hm_get (br_peers (mdns_expire now grace b)) k = None"
proof -
  obtain q where q: "hm_get (br_peers b) k = Some q" "ap_withdrawn q" "ap_expires_at q \<le> t" "hm_wf (br_peers b)"
    using assms(1) by (auto simp: marked_def)
  then show ?thesis
    using assms(2) by (auto simp: mdns_expire_def Let_def stays_def intro!: get_filter_none [OF _ q(1)])
qed

subsection \<open>The packets of another device\<close>

definition ad_answers :: "bytes option \<Rightarrow> rstring \<Rightarrow> u32 \<Rightarrow> dns_answer list" where
  "ad_answers me i ttl =
     (let inst = full_instance i; host = mdns_host i;
          srv = u16_to_be_bytes 0 @ u16_to_be_bytes 0 @ u16_to_be_bytes AIRDROP_PORT @ encode_name host;
          answer = (\<lambda>n t d f. \<lparr>da_name = n, da_type = t, da_ttl = ttl, da_rdata = d, da_flush = f\<rparr>)
      in [answer SERVICE_ENUM TYPE_PTR (encode_name AIRDROP_SERVICE) False,
          answer AIRDROP_SERVICE TYPE_PTR (encode_name inst) False,
          answer inst TYPE_SRV srv True,
          answer inst TYPE_TXT (txt_rdata [AIRDROP_FLAGS]) True] @
         (case me of Some a \<Rightarrow> [answer host TYPE_AAAA a True, answer (reverse_name a) TYPE_PTR (encode_name host) True] | None \<Rightarrow> []) @
         [answer inst TYPE_NSEC (nsec_rdata inst [TYPE_TXT, TYPE_SRV]) True,
          answer host TYPE_NSEC (nsec_rdata host [TYPE_AAAA]) True])"

lemma records_eq: "records_with_ttl me i ttl = map answer_bytes (ad_answers me i ttl)"
  by (simp add: records_with_ttl_def ad_answers_def answer_bytes_def Let_def split: option.split)

lemma byte_of_unat: "word_of_nat (unat b) = (b :: u8)"
  by simp

lemma hex_nibble_ok: "n < 16 \<Longrightarrow> is_ascii_graphic (hex_nibble n) \<and> hex_nibble n \<noteq> 0x2E"
proof -
  assume "n < 16"
  then have "unat n \<in> set [0..<16]" by (simp add: word_less_nat_alt)
  moreover have "list_all (\<lambda>k. is_ascii_graphic (hex_nibble (word_of_nat k)) \<and> hex_nibble (word_of_nat k) \<noteq> 0x2E) [0..<16]"
    by code_simp
  ultimately show ?thesis unfolding list_all_iff by (metis byte_of_unat)
qed

lemma nibbles: "b AND 0x0F < (16 :: u8)" "drop_bit 4 b < (16 :: u8)"
proof -
  have "b AND 0x0F \<le> 0x0F" by (rule word_and_le1)
  then show "b AND 0x0F < 16" by (simp add: word_le_nat_alt word_less_nat_alt)
  have "unat b < 256" using unsigned_less [of b, where ?'a = nat] by simp
  then show "drop_bit 4 b < 16" by (simp add: word_less_nat_alt unat_drop_bit_eq drop_bit_eq_div unat_div_distrib)
qed

lemma reverse_labels:
  "split_on 0x2E (concat (map (\<lambda>b. [hex_nibble (b AND 0x0F), 0x2E, hex_nibble (drop_bit 4 b), 0x2E]) bs) @ s) =
     concat (map (\<lambda>b. [[hex_nibble (b AND 0x0F)], [hex_nibble (drop_bit 4 b)]]) bs) @ split_on 0x2E s"
proof (induction bs)
  case (Cons b bs)
  then show ?case
    using split_on_before [of "0x2E" "[hex_nibble (b AND 0x0F)]"] split_on_before [of "0x2E" "[hex_nibble (drop_bit 4 b)]"]
      hex_nibble_ok [OF nibbles(1), of b] hex_nibble_ok [OF nibbles(2), of b] by simp
qed simp

lemma ad_names:
  "is_ascii_graphic 0x2E" "list_all is_ascii_graphic AIRDROP_SERVICE" "length AIRDROP_SERVICE = 19"
  "list_all is_ascii_graphic SERVICE_ENUM" "length SERVICE_ENUM = 28"
  "dns_name_wf SERVICE_ENUM" "dns_name_wf AIRDROP_SERVICE" "SERVICE_ENUM \<noteq> AIRDROP_SERVICE"
  "split_on 0x2E AIRDROP_SERVICE = [str ''_airdrop'', str ''_tcp'', str ''local'']"
proof -
  show g: "is_ascii_graphic 0x2E" "list_all is_ascii_graphic AIRDROP_SERVICE" "length AIRDROP_SERVICE = 19"
    "list_all is_ascii_graphic SERVICE_ENUM" "length SERVICE_ENUM = 28" "SERVICE_ENUM \<noteq> AIRDROP_SERVICE"
    "split_on 0x2E AIRDROP_SERVICE = [str ''_airdrop'', str ''_tcp'', str ''local'']" by code_simp+
  have "list_all (\<lambda>l. l \<noteq> [] \<and> length l < 192) (split_on 0x2E SERVICE_ENUM)"
    "list_all (\<lambda>l. l \<noteq> [] \<and> length l < 192) (split_on 0x2E AIRDROP_SERVICE)" by code_simp+
  with g show "dns_name_wf SERVICE_ENUM" "dns_name_wf AIRDROP_SERVICE" by (simp_all add: dns_name_wf_def graphic_valid)
qed

text \<open>The id a device publishes: twelve hexadecimal digits.\<close>

lemma hex_graphic: "hex_val b \<noteq> None \<Longrightarrow> is_ascii_graphic b \<and> b \<noteq> 0x2E \<and> is_ascii_graphic (ascii_upper b) \<and> ascii_upper b \<noteq> 0x2E"
proof -
  have "list_all (\<lambda>k. let b = word_of_nat k in hex_val b \<noteq> None \<longrightarrow>
      is_ascii_graphic b \<and> b \<noteq> 0x2E \<and> is_ascii_graphic (ascii_upper b) \<and> ascii_upper b \<noteq> 0x2E) [0..<256]"
    by code_simp
  moreover have "unat b \<in> set [0..<256]" using unsigned_less [of b, where ?'a = nat] by simp
  ultimately show "hex_val b \<noteq> None \<Longrightarrow> ?thesis" unfolding list_all_iff Let_def by (metis byte_of_unat)
qed

lemma instance_wf:
  assumes "all_hex i"
  shows "dns_name_wf (full_instance i)" "length (full_instance i) = 32"
proof -
  have i: "length i = 12" "list_all is_ascii_graphic i" "0x2E \<notin> set i"
    using assms hex_graphic by (auto simp: all_hex_def list_all_iff)
      blast
  then show "length (full_instance i) = 32" by (simp add: full_instance_def ad_names)
  have "split_on 0x2E (full_instance i) = [i, str ''_airdrop'', str ''_tcp'', str ''local'']"
    using i(3) by (simp add: full_instance_def split_on_before ad_names)
  moreover have "list_all is_ascii_graphic (full_instance i)" using i by (simp add: full_instance_def ad_names)
  ultimately show "dns_name_wf (full_instance i)"
    using i by (auto simp: dns_name_wf_def graphic_valid full_instance_def ad_names) (simp_all add: str_def)
qed

lemma mdns_host_wf:
  assumes "all_hex i"
  shows "dns_name_wf (mdns_host i)" "length (mdns_host i) = 22"
proof -
  let ?u = "map ascii_upper (take 8 i)"
  have u: "length ?u = 8" "list_all is_ascii_graphic ?u" "0x2E \<notin> set ?u"
    using assms hex_graphic by (auto simp: all_hex_def list_all_iff dest: in_set_takeD)
  have h: "mdns_host i = (str ''Android_'' @ ?u) @ 0x2E # str ''local''"
    using assms by (simp add: mdns_host_def all_hex_def) (simp add: str_def)
  have p: "list_all is_ascii_graphic (str ''Android_'')" "0x2E \<notin> set (str ''Android_'')" "length (str ''Android_'') = 8"
    "list_all is_ascii_graphic (str ''local'')" "0x2E \<notin> set (str ''local'')" "length (str ''local'') = 5" by code_simp+
  show "length (mdns_host i) = 22" using u p by (simp add: h)
  have "split_on 0x2E (mdns_host i) = [str ''Android_'' @ ?u, str ''local'']"
    unfolding h using u p by (subst split_on_before) (auto simp: split_on_no)
  moreover have "list_all is_ascii_graphic (mdns_host i)" using u p ad_names(1) by (simp add: h)
  ultimately show "dns_name_wf (mdns_host i)"
    using u p by (auto simp: dns_name_wf_def graphic_valid h)
qed

lemma reverse_name_wf:
  assumes "length a = 16"
  shows "dns_name_wf (reverse_name a)" "length (reverse_name a) = 72"
proof -
  have l: "length (concat (map (\<lambda>b. [f b, 0x2E, g b, 0x2E]) bs)) = 4 * length bs" for f g :: "u8 \<Rightarrow> u8" and bs
    by (induction bs) simp_all
  have p: "list_all is_ascii_graphic (str ''ip6.arpa'')" "length (str ''ip6.arpa'') = 8"
    "list_all (\<lambda>l. l \<noteq> [] \<and> length l < 192) (split_on 0x2E (str ''ip6.arpa''))" by code_simp+
  show n: "length (reverse_name a) = 72" using assms p by (simp add: reverse_name_def l)
  have "list_all is_ascii_graphic (reverse_name a)"
    using p hex_nibble_ok [OF nibbles(1)] hex_nibble_ok [OF nibbles(2)] ad_names(1) by (auto simp: reverse_name_def list_all_iff)
  moreover have "list_all (\<lambda>l. l \<noteq> [] \<and> length l < 192) (split_on 0x2E (reverse_name a))"
    using p unfolding reverse_name_def reverse_labels by (auto simp: list_all_iff)
  ultimately show "dns_name_wf (reverse_name a)" using n by (simp add: dns_name_wf_def graphic_valid)
qed

lemma airdrop_packet:
  assumes "all_hex i" "me = None \<or> length (the me) = 16"
  shows "length (dns_response (records_with_ttl me i ttl)) \<le> 4096"
    "dns_parse (dns_response (records_with_ttl me i ttl)) = Some \<lparr>dm_questions = [], dm_records = answers_at 12 (ad_answers me i ttl)\<rparr>"
proof -
  note n = ad_names(3,5,6,7) instance_wf [OF assms(1)] mdns_host_wf [OF assms(1)]
  have t: "length (txt_rdata [AIRDROP_FLAGS]) = 10" "length (nsec_bitmap [TYPE_TXT, TYPE_SRV]) = 5"
    "length (nsec_bitmap [TYPE_AAAA]) = 4" by code_simp+
  have "list_all (\<lambda>a. answer_ok a \<and> length (da_name a) \<le> 72 \<and> length (da_rdata a) \<le> 100) (ad_answers me i ttl)"
    using n t assms(2) reverse_name_wf [of "the me"]
    by (auto simp: ad_answers_def Let_def answer_ok_def length_encode_name nsec_rdata_def u16_to_be_bytes_def split: option.split)
  then have ok: "list_all answer_ok (ad_answers me i ttl)"
    and bound: "\<forall>a \<in> set (ad_answers me i ttl). length (answer_bytes a) \<le> 184"
    by (auto simp: list_all_iff answer_ok_def length_answer)
  have l: "length (ad_answers me i ttl) \<le> 8" by (simp add: ad_answers_def Let_def split: option.split)
  have "length (concat (map answer_bytes as)) \<le> 184 * length as" if "\<forall>a \<in> set as. length (answer_bytes a) \<le> 184" for as
    using that by (induction as) auto
  from this [OF bound] l show len: "length (dns_response (records_with_ttl me i ttl)) \<le> 4096"
    by (simp add: records_eq dns_response_def u16_to_be_bytes_def)
  with ok l show "dns_parse (dns_response (records_with_ttl me i ttl)) =
      Some \<lparr>dm_questions = [], dm_records = answers_at 12 (ad_answers me i ttl)\<rparr>"
    unfolding records_eq by (intro dns_parse_response) (simp_all add: fits_def)
qed

lemma airdrop_ptr:
  assumes "all_hex i" "me = None \<or> length (the me) = 16"
  obtains r1 r2 rs where "answers_at 12 (ad_answers me i ttl) = r1 # r2 # rs" "rr_name r1 = SERVICE_ENUM" "rr_type r1 = TYPE_PTR"
    "rr_name r2 = AIRDROP_SERVICE" "rr_type r2 = TYPE_PTR" "rr_ttl r2 = ttl"
    "fst (dns_name \<lparr>dr_buf = dns_response (records_with_ttl me i ttl), dr_pos = rr_rdata_at r2\<rparr>) = Some (full_instance i)"
proof -
  obtain a1 a2 as where a: "ad_answers me i ttl = a1 # a2 # as" "da_name a1 = SERVICE_ENUM" "da_type a1 = TYPE_PTR"
    "da_name a2 = AIRDROP_SERVICE" "da_type a2 = TYPE_PTR" "da_ttl a2 = ttl" "da_rdata a2 = encode_name (full_instance i)"
    by (simp add: ad_answers_def Let_def)
  obtain r1 r2 rs where r: "answers_at 12 (ad_answers me i ttl) = r1 # r2 # rs" "r1 = answer_rr a1 12"
      "r2 = answer_rr a2 (12 + length (answer_bytes a1))"
    by (simp add: a answers_at_def)
  moreover have "fst (dns_name \<lparr>dr_buf = dns_response (records_with_ttl me i ttl), dr_pos = rr_rdata_at r2\<rparr>) = Some (full_instance i)"
    using name_in_answer [of a2 "[]" _ "[a1]" as] instance_wf [OF assms(1)] airdrop_packet(1) [OF assms, of ttl] a r(1)
    by (simp add: records_eq fits_def)
  ultimately show thesis using that a by (simp add: answer_rr_def)
qed

lemma placed_all: "(\<And>m p. m \<in> set ms \<Longrightarrow> P (snd m p)) \<Longrightarrow> list_all P (placed p ms)"
  by (induction ms arbitrary: p) simp_all

lemma airdrop_brief:
  assumes "me' = None \<or> me' \<noteq> me" "\<And>rr. rr_ttl rr = ttl \<Longrightarrow> ttl_of rr \<le> d"
  shows "list_all (brief d me) (answers_at 12 (ad_answers me' i ttl))"
proof -
  have "\<forall>a \<in> set (ad_answers me' i ttl). da_ttl a = ttl \<and> (da_type a = TYPE_AAAA \<longrightarrow> me' = Some (da_rdata a))"
    by (cases me') (auto simp: ad_answers_def Let_def)
  then show ?thesis
    unfolding answers_at_def using assms by (intro placed_all) (auto simp: brief_def answer_rr_def)
qed

text \<open>A packet of goodbye marks the entry, and later packets of the device leave the mark.\<close>

lemma goodbye_marks:
  assumes "all_hex i" "me' = None \<or> length (the me') = 16" "me' = None \<or> me' \<noteq> me" "hm_wf (br_peers b)"
    "\<not> is_self_instance own b (full_instance i)"
  shows "marked (now + 1000) (full_instance i)
    (absorb_records me own (dns_response (records_with_ttl me' i 0)) now (answers_at 12 (ad_answers me' i 0)) b)"
proof -
  let ?P = "dns_response (records_with_ttl me' i 0)"
  obtain r1 r2 rs where r: "answers_at 12 (ad_answers me' i 0) = r1 # r2 # rs" "rr_name r1 = SERVICE_ENUM" "rr_type r1 = TYPE_PTR"
    "rr_name r2 = AIRDROP_SERVICE" "rr_type r2 = TYPE_PTR" "rr_ttl r2 = 0"
    "fst (dns_name \<lparr>dr_buf = ?P, dr_pos = rr_rdata_at r2\<rparr>) = Some (full_instance i)"
    using airdrop_ptr [OF assms(1,2), of 0] by blast
  have "list_all (brief 1000 me) (r1 # r2 # rs)"
    using airdrop_brief [OF assms(3), of 0 1000 i] by (simp add: r(1) ttl_of_def)
  moreover have "absorb_record me own ?P now r1 b = b" using r(2,3) ad_names(8) by (simp add: absorb_record_def)
  ultimately show ?thesis
    using absorb_bye [OF assms(4) r(6,5,4,7) assms(5), of now me] by (auto simp: r(1) intro!: absorb_all_marked)
qed

lemma poll_marked:
  assumes "all_hex i" "me' = None \<or> length (the me') = 16" "me' = None \<or> me' \<noteq> me"
    "\<And>rr :: dns_rr. rr_ttl rr \<in> T \<Longrightarrow> ttl_of rr \<le> d"
  shows "marked t k b \<Longrightarrow> \<forall>dg \<in> set dgs. \<exists>ttl \<in> T. dg = dns_response (records_with_ttl me' i ttl) \<Longrightarrow>
    \<forall>j < length dgs. clock (n + j) + d \<le> t \<Longrightarrow> marked t k (snd (mdns_poll_loop me own clock n dgs b))"
proof (induction dgs arbitrary: n b)
  case (Cons dg dgs)
  then obtain ttl where ttl: "ttl \<in> T" "dg = dns_response (records_with_ttl me' i ttl)" by auto
  have "list_all (brief d me) (answers_at 12 (ad_answers me' i ttl))"
    using assms(3,4) ttl(1) by (intro airdrop_brief) auto
  with Cons.prems have "marked t k (absorb_records me own dg (clock n) (answers_at 12 (ad_answers me' i ttl)) b)"
    by (intro absorb_all_marked) auto
  moreover have "\<forall>j < length dgs. clock (Suc n + j) + d \<le> t" using Cons.prems(3) by auto
  ultimately show ?case
    using Cons.IH [of _ "Suc n"] Cons.prems(2) airdrop_packet [OF assms(1,2), of ttl] ttl(2)
    by (simp add: Let_def case_prod_beta)
qed simp

lemma stop_polled:
  assumes "all_hex i" "me' = None \<or> length (the me') = 16" "me' = None \<or> me' \<noteq> me" "hm_wf (br_peers b)"
    "\<not> is_self_instance own b (full_instance i)" "1000 \<le> d" "\<And>rr :: dns_rr. rr_ttl rr \<in> T \<Longrightarrow> ttl_of rr \<le> d"
    "\<forall>dg \<in> set dgs. \<exists>ttl \<in> T. dg = dns_response (records_with_ttl me' i ttl)" "length dgs < 32"
    "\<forall>j \<le> length dgs. clock j + d \<le> t"
  shows "marked t (full_instance i) (snd (mdns_poll me own clock (dns_response (records_with_ttl me' i 0) # dgs) b))"
proof -
  let ?P = "dns_response (records_with_ttl me' i 0)"
  let ?b = "absorb_records me own ?P (clock 0) (answers_at 12 (ad_answers me' i 0)) b"
  have "clock 0 + 1000 \<le> t" using assms(6,10) by (metis add_le_mono le_refl le_trans zero_le)
  then have "marked t (full_instance i) ?b"
    using goodbye_marks [OF assms(1-5), of "clock 0"] by (auto simp: marked_def)
  moreover have "\<forall>j < length dgs. clock (Suc 0 + j) + d \<le> t" using assms(10) by auto
  ultimately have "marked t (full_instance i) (snd (mdns_poll_loop me own clock (Suc 0) dgs ?b))"
    using poll_marked [OF assms(1-3,7)] assms(8) by blast
  then show ?thesis
    using airdrop_packet [OF assms(1,2), of 0] assms(9) by (simp add: mdns_poll_def Let_def case_prod_beta)
qed

section \<open>Properties\<close>

text \<open>A device with the address \<open>::101...\<close>, and a browser that has it in its table and knows another address as its own.\<close>

definition sample_device :: browser where
  "sample_device = (browser_new 0 True (str ''00a1b2c3d4e5''))\<lparr>br_advertising := True\<rparr>"

definition sample_address :: bytes where
  "sample_address = replicate 16 1"

definition sample_listing :: ad_peer where
  "sample_listing =
     \<lparr> ap_instance = full_instance (br_instance sample_device), ap_host = mdns_host (br_instance sample_device), ap_port = AIRDROP_PORT,
       ap_addr = Some sample_address, ap_last_seen = 0, ap_expires_at = 120000, ap_unanswered = 0, ap_unreceptive_since = None,
       ap_withdrawn = False \<rparr>"

definition sample_browser :: browser where
  "sample_browser = (browser_new 0 True (str ''ffeeddccbbaa''))
     \<lparr>br_peers := [(full_instance (br_instance sample_device), sample_listing)], br_probe_eviction := False, br_eviction_since := None\<rparr>"

lemma sample_browser_facts:
  "all_hex (br_instance sample_device)" "length sample_address = 16" "br_advertising sample_device" "br_can_respond sample_device"
  "hm_wf (br_peers sample_browser)" "\<not> is_self_instance (br_instance sample_browser) sample_browser (full_instance (br_instance sample_device))"
  "hm_get (br_peers sample_browser) (full_instance (br_instance sample_device)) = Some sample_listing"
  "\<not> ap_withdrawn sample_listing" "\<not> br_probe_eviction sample_browser"
proof -
  have n: "br_instance sample_device = str ''00a1b2c3d4e5''" "br_instance sample_browser = str ''ffeeddccbbaa''"
    by (simp_all add: sample_device_def sample_browser_def browser_new_def)
  have "str ''00a1b2c3d4e5'' \<noteq> str ''ffeeddccbbaa''" "all_hex (str ''00a1b2c3d4e5'')" by code_simp+
  then have i: "br_instance sample_device \<noteq> br_instance sample_browser" "all_hex (br_instance sample_device)" by (simp_all add: n)
  then show "\<not> is_self_instance (br_instance sample_browser) sample_browser (full_instance (br_instance sample_device))"
    "all_hex (br_instance sample_device)" by (simp_all add: is_self_instance_def full_instance_def)
qed (simp_all add: sample_device_def sample_address_def sample_browser_def sample_listing_def browser_new_def hm_wf_def)

lemma others_goodbye:
  assumes "all_hex i" "k \<noteq> full_instance i"
  defines "P \<equiv> dns_response (records_with_ttl None i 0)"
  shows "dns_parse (take 4096 P) = Some \<lparr>dm_questions = [], dm_records = answers_at 12 (ad_answers None i 0)\<rparr>"
    "list_all (leaves_be [] k me P) (answers_at 12 (ad_answers None i 0))"
proof -
  show "dns_parse (take 4096 P) = Some \<lparr>dm_questions = [], dm_records = answers_at 12 (ad_answers None i 0)\<rparr>"
    using airdrop_packet [OF assms(1), of None 0] by (simp add: P_def)
  obtain r1 r2 rs where r: "answers_at 12 (ad_answers None i 0) = r1 # r2 # rs"
    "fst (dns_name \<lparr>dr_buf = P, dr_pos = rr_rdata_at r2\<rparr>) = Some (full_instance i)"
    by (rule airdrop_ptr [OF assms(1), of None 0]) (simp_all add: P_def)
  then have r2: "r2 = answers_at 12 (ad_answers None i 0) ! 1" by simp
  show "list_all (leaves_be [] k me P) (answers_at 12 (ad_answers None i 0))"
    using assms(2) ad_names(8) r(2) unfolding r2
    by (simp add: answers_at_def ad_answers_def answer_rr_def leaves_be_def Let_def)
qed

text \<open>
  C35: a peer that Bluetooth vouches for is not taken from the list by its silence or by other peers. While probe
  eviction is off, a peer that has not said goodbye stays in the table, and is not taken for one that has, however long
  it has been silent and however many queries it has not answered: through every poll, expiry, query, probe and mark, and
  whatever the datagrams hold of other devices, their goodbyes among it. Excluded are a withdrawal of this very
  peer, its host being given the address of this device, and the explicit emptying of the table.
\<close>

theorem vouched_peer_kept:
  assumes "hm_get (br_peers b) k = Some p" "\<not> ap_withdrawn p" "ap_host p \<notin> set N" "\<not> br_probe_eviction b"
    and "list_all (vouched N k) es"
  shows "\<exists>p. hm_get (br_peers (fst (run ad_on b es))) k = Some p \<and> \<not> ap_withdrawn p"
proof -
  have "listed N k b" using assms by (simp add: listed_def)
  from ad_vouched.run_inv [OF this assms(5)] show ?thesis by (auto simp: listed_def)
qed

theorem vouched_peer_kept_witness:
  "\<exists>p. hm_get (br_peers (fst (run ad_on sample_browser
      [Ad_Query True, Ad_Poll None (str ''ffeeddccbbaa'') (\<lambda>d. 5000 + d) [dns_response (records_with_ttl None (str ''0123456789ab'') 0), [0, 0, 0x84]],
       Ad_Probe (\<lambda>_. True), Ad_Probe (\<lambda>_. True), Ad_Probe (\<lambda>_. True), Ad_Mark 70000 True, Ad_Burst, Ad_Vouch 80000 False,
       Ad_Expire 9000000 30000])))
    (full_instance (br_instance sample_device)) = Some p \<and> \<not> ap_withdrawn p"
proof -
  have "dns_parse (take 4096 [0, 0, 0x84]) = None" by code_simp
  moreover have i: "all_hex (str ''0123456789ab'')" "str ''00a1b2c3d4e5'' \<noteq> str ''0123456789ab''" by code_simp+
  moreover have "full_instance (br_instance sample_device) \<noteq> full_instance (str ''0123456789ab'')"
    using i(2) by (simp add: full_instance_def sample_device_def browser_new_def)
  moreover have "length (dns_response (records_with_ttl None (str ''0123456789ab'') 0)) \<le> 4096"
    using airdrop_packet(1) [OF i(1)] by simp
  ultimately show ?thesis
    using sample_browser_facts others_goodbye [OF i(1), of "full_instance (br_instance sample_device)"]
    by (intro vouched_peer_kept [where N = "[]"]) simp_all
qed

text \<open>
  C36: a device that withdraws its service is gone from the lists of the others. The three packets a device sends when
  it stops advertising, received by the browser of another device in any state, leave nothing of it in the table once
  a second has passed and the table is swept, whatever the grace the caller allows and whether or not the device had
  been seen before.
\<close>

theorem goodbye_honoured:
  assumes "all_hex (br_instance b')" "me' = None \<or> length (the me') = 16" "br_advertising b'"
    and "hm_wf (br_peers b)" "\<not> is_self_instance own b (full_instance (br_instance b'))" "me' = None \<or> me' \<noteq> me"
    and "\<forall>d < 3. clock d + 1000 \<le> t"
  shows "hm_get (br_peers (mdns_expire t grace (snd (mdns_poll me own clock (fst (mdns_stop me' b')) b))))
    (full_instance (br_instance b')) = None"
proof -
  have "fst (mdns_stop me' b') = replicate 3 (dns_response (records_with_ttl me' (br_instance b') 0))"
    using assms(3) by (simp add: mdns_stop_def goodbye_def)
  then show ?thesis
    using stop_polled [OF assms(1,2,6,4,5), where d = 1000 and T = "{0}"
        and dgs = "replicate 2 (dns_response (records_with_ttl me' (br_instance b') 0))" and clock = clock and t = t] assms(7)
    by (intro expire_marked [of t]) (simp_all add: ttl_of_def numeral_3_eq_3 numeral_2_eq_2 less_Suc_eq_le)
qed

theorem goodbye_honoured_witness:
  "hm_get (br_peers sample_browser) (full_instance (br_instance sample_device)) \<noteq> None \<and>
   hm_get (br_peers (mdns_expire 3000 90000 (snd (mdns_poll None (br_instance sample_browser) (\<lambda>d. 1000 + d)
     (fst (mdns_stop (Some sample_address) sample_device)) sample_browser)))) (full_instance (br_instance sample_device)) = None"
proof (intro conjI)
  show "hm_get (br_peers (mdns_expire 3000 90000 (snd (mdns_poll None (br_instance sample_browser) (\<lambda>d. 1000 + d)
     (fst (mdns_stop (Some sample_address) sample_device)) sample_browser)))) (full_instance (br_instance sample_device)) = None"
    using sample_browser_facts by (intro goodbye_honoured) simp_all
qed (simp add: sample_browser_facts)

text \<open>
  A goodbye is not taken back. A device that stops advertising and starts again before the table is swept is in
  the table, heard and current, but stays marked as withdrawn, since no record clears the mark: when the lease of its
  announcement runs out it is dropped as having said goodbye, also while probe eviction is off because Bluetooth vouches for the peers.
\<close>

theorem goodbye_sticks:
  assumes "all_hex (br_instance b')" "me' = None \<or> length (the me') = 16" "br_advertising b'" "br_can_respond b'"
    and "hm_wf (br_peers b)" "\<not> is_self_instance own b (full_instance (br_instance b'))" "me' = None \<or> me' \<noteq> me"
    and "mdns_stop me' b' = (bye, c)" "advertise me' c = (Some again, c')" "mdns_poll me own clock (bye @ again) b = (out, b1)"
    and "\<forall>d < 4. clock d + 120000 \<le> t"
  shows "(\<exists>p. hm_get (br_peers b1) (full_instance (br_instance b')) = Some p \<and> ap_withdrawn p) \<and>
    hm_get (br_peers (mdns_expire t grace (set_probe_eviction now False b1))) (full_instance (br_instance b')) = None"
proof -
  let ?P = "\<lambda>ttl. dns_response (records_with_ttl me' (br_instance b') ttl)"
  have ps: "bye @ again = ?P 0 # [?P 0, ?P 0, ?P MDNS_TTL]"
    using assms(3,4,8,9) by (auto simp: mdns_stop_def goodbye_def advertise_def mdns_announce_def numeral_3_eq_3)
  have "\<forall>j \<le> length [?P 0, ?P 0, ?P MDNS_TTL]. clock j + 120000 \<le> t"
    using assms(11) by (simp add: le_simps(2) [symmetric])
  moreover have "ttl_of rr \<le> 120000" if "rr_ttl rr \<in> {0, MDNS_TTL}" for rr
    using that by (auto simp: ttl_of_def)
  moreover have "\<forall>dg \<in> set [?P 0, ?P 0, ?P MDNS_TTL]. \<exists>ttl \<in> {0, MDNS_TTL}. dg = ?P ttl" by auto
  ultimately have "marked t (full_instance (br_instance b')) (snd (mdns_poll me own clock (?P 0 # [?P 0, ?P 0, ?P MDNS_TTL]) b))"
    by (intro stop_polled [OF assms(1,2,7,5,6), where d = 120000 and T = "{0, MDNS_TTL}"]) simp_all
  then have "marked t (full_instance (br_instance b')) b1" using assms(10) by (simp add: ps)
  moreover from this have "marked t (full_instance (br_instance b')) (set_probe_eviction now False b1)"
    by (simp add: marked_def set_probe_eviction_def Let_def)
  ultimately show ?thesis using expire_marked by (auto simp: marked_def)
qed

theorem goodbye_sticks_witness:
  "\<exists>b1. (\<exists>p. hm_get (br_peers b1) (full_instance (br_instance sample_device)) = Some p \<and> ap_withdrawn p) \<and>
     hm_get (br_peers (mdns_expire 200000 90000 (set_probe_eviction 5 False b1))) (full_instance (br_instance sample_device)) = None"
proof -
  obtain bye c where stop: "mdns_stop (Some sample_address) sample_device = (bye, c)" by fastforce
  then have "br_can_respond c" using sample_browser_facts(3,4) by (auto simp: mdns_stop_def Let_def)
  then obtain again c' where ad: "advertise (Some sample_address) c = (Some again, c')" by (auto simp: advertise_def Let_def)
  obtain out b1 where poll: "mdns_poll None (br_instance sample_browser) (\<lambda>d. 1000 + d) (bye @ again) sample_browser = (out, b1)"
    by fastforce
  show ?thesis
    using goodbye_sticks [OF sample_browser_facts(1) _ sample_browser_facts(3-6) _ stop ad poll, of 200000 90000 5]
      sample_browser_facts(2) by auto
qed

end
