(* ===== verification/Spec2Isabelle.thy ===== *)
theory Spec2Isabelle
  imports Prelude Protobuf Rust_Std Machines Framing Frames Payload Sharing Fsm Primitives Hkdf Secure_Message Channel
    Pin Ukey2 Multiplex Ble Upgrade Dns Endpoint Rust_Io Unicode Block_Container Plist Rust_Text Netlink Awdl_Daemon
    Endpoint_Id Discovery Stream_Frames L2cap_Mux Transfers Auth_Window Radio_Gate Inbox Http
    Airdrop_Send Airdrop_Server Mdns
begin

text \<open>
  A verification of tarish: a daemon that exchanges files with nearby devices over Quick Share (the
  protocol crate and \<open>sharingd/src/quickshare\<close>) and AirDrop (\<open>sharingd/src\<close>), with a smaller daemon
  that drives the Wi-Fi interface (\<open>src/src\<close>).

  \<^bold>\<open>How the program is put together.\<close> A peer is found through a Bluetooth advertisement or mDNS.
  The two sides run a UKEY2 handshake, show its PIN, and derive the keys of a secure channel. Every
  further message is an offline frame, encrypted and signed, in a length-prefixed frame on a stream
  that may be upgraded to a faster medium while it is used. Payload frames carry pieces of sharing
  frames and of files; an assembler puts them together, and two state machines decide what is sent and
  what is accepted. AirDrop carries property lists over HTTP and files in a container of blocks. One
  transfer runs at a time, whichever protocol brings it. The sharing daemon has no privileges: it
  publishes in system properties whether it wants the AWDL radio and whether a person has unlocked it,
  and the other daemon, which polls them, brings the link up and places its routing rule above or below
  the kill-switch of a VPN.

  \<^bold>\<open>What models what.\<close>
  \<^item> \<open>Prelude\<close>, \<open>Rust_Std\<close>, \<open>Rust_Text\<close>, \<open>Unicode\<close>, \<open>Rust_Io\<close>: integers at their width, results, UTF-8 and UTF-16,
    hash maps (an interface, interpreted on association lists), readers and writers that deliver in
    pieces and fail. \<open>Machines\<close>: what every event-driven machine and every codec shares, as locales.
  \<^item> \<open>Protobuf\<close> (\<open>protobuf.rs\<close>), \<open>Framing\<close> (\<open>framing.rs\<close>), \<open>Frames\<close> (\<open>frames.rs\<close>), \<open>Sharing\<close> (\<open>sharing.rs\<close>),
    \<open>Multiplex\<close> (\<open>multiplex.rs\<close>, \<open>service.rs\<close>), \<open>Ble\<close> (\<open>ble.rs\<close>, \<open>apple.rs\<close>), \<open>Upgrade\<close> (\<open>upgrade.rs\<close>), \<open>Dns\<close>
    (\<open>dns.rs\<close>), \<open>Endpoint\<close> (\<open>endpoint.rs\<close>), \<open>Plist\<close> (\<open>plist.rs\<close>), \<open>Block_Container\<close> (\<open>framed.rs\<close>): the wire
    formats. A struct is a record, an enum a datatype, each \<open>fn\<close> one definition of the same name, with
    the module's name first where two modules share it. Each has a round trip through the bytes, and the
    readers of strangers' bytes are shown to end, to stay inside their input and to build a bounded
    result.
  \<^item> \<open>Payload\<close> (\<open>payload.rs\<close>): the assembler; its bounds as an invariant, and a refinement of one automaton
    per payload. \<open>Fsm\<close> (\<open>fsm.rs\<close>): the receiving and the sending machine; consent before payload, final
    states, agreement of the two.
  \<^item> \<open>Primitives\<close>, \<open>Hkdf\<close> (\<open>hkdf.rs\<close>, \<open>d2d.rs\<close>), \<open>Secure_Message\<close>, \<open>Channel\<close>, \<open>Pin\<close>, \<open>Ukey2\<close>: key
    derivation equal to RFC 5869, authentication before decryption, no replay, agreement of the
    handshake. AES, HMAC, SHA, the curve and the random generator are arguments, collected in a record,
    with what is relied on (lengths, decryption undoing encryption, commuting Diffie-Hellman) as named
    hypotheses that \<open>sample_prims\<close> satisfies.
  \<^item> \<open>Endpoint_Id\<close> (\<open>quickshare/mod.rs\<close>), \<open>Discovery\<close> (\<open>quickshare/discovery.rs\<close>): the browser's table of
    peers and the responder; what is announced is discovered. \<open>Stream_Frames\<close> (\<open>Frames\<close> of
    \<open>quickshare/connection.rs\<close>), \<open>L2cap_Mux\<close> (\<open>quickshare/mux.rs\<close>): the flow-controlled socket between two
    devices; nothing is lost or reordered, the window holds, nobody waits forever.
  \<^item> \<open>Transfers\<close> (\<open>TransferState\<close> of \<open>sharingd/src/main.rs\<close>): the slot for the one transfer, its answers and
    its hold on the radio. \<open>Auth_Window\<close>: the window in which the exemption from the kill-switch is held,
    with its keepalive, its timer and the death of clients; what can leave the exemption in place after it, and that
    nothing else can. Both are systems of threads that interleave
    one access to a shared cell at a time. \<open>Radio_Gate\<close>: the loop that writes the property for the radio.
  \<^item> \<open>Inbox\<close>, \<open>Http\<close> (\<open>sharingd/src/httpd.rs\<close>): the names of received files and where they may lead; reading
    requests and bodies, and writing an upload to the disk. \<open>Airdrop_Send\<close> (\<open>sharingd/src/send.rs\<close>): the offer, the
    wait for its answer, the archive streamed into a chunked body, and the cancel. \<open>Airdrop_Server\<close>
    (\<open>sharingd/src/httpd.rs\<close>): what each request is answered, what a person is asked, and the way of an upload
    to the inbox. The archive format and the compressors (vendored or third-party) are arguments. \<open>Mdns\<close>
    (\<open>sharingd/src/mdns.rs\<close>): who is near, by the records heard, the leases, the probes and what Bluetooth vouches
    for; what is announced and answered. A peer vouched for is kept, a device that says goodbye is dropped.
  \<^item> \<open>Netlink\<close> (\<open>route.rs\<close>, \<open>nl80211.rs\<close>), \<open>Awdl_Daemon\<close> (\<open>src/src/main.rs\<close>, \<open>mosey.rs\<close>): the privileged daemon,
    its poll loop over a kernel that is an argument. A round reads the properties twice, in the loop and again when it
    brings the link up, and what they hold may have changed between.
  \<^item> This theory: the layers composed, from a handshake to a parsed sharing frame.

  \<^bold>\<open>Bounds and termination.\<close> \<open>usize\<close> is 64 bits. No loop runs on fuel that could end early: every
  \<open>function\<close> has a measure, and the recursion of the property list reader counts the levels its own
  depth limit leaves. The hypothesis \<open>fits\<close> says that a byte vector is shorter than \<open>isize::MAX\<close>, which
  Rust guarantees of every allocation. A panic is a value of the model where a check of the platform's
  build (array bounds, overflow) can fail.

  \<^bold>\<open>Not modelled.\<close> TLS, the creation of sockets, binder marshalling, and the calls of the binder service
  that only look something up or start a thread; the address of the interface; the protocol loops
  of \<open>connection.rs\<close> and \<open>outbound.rs\<close>; the vendored crates under \<open>third_party\<close>, whose use is modelled with
  what they do as arguments; logging and the text of errors. Memory is sequentially consistent, as the sources ask for with
  every atomic access.
\<close>

section \<open>A session from pairing to delivery\<close>

text \<open>
  The layers put together. A sender encrypts each offline frame on its channel and puts the result in
  a length-prefixed frame; a receiver feeds whatever its reads return to the frame decoder, decrypts
  each frame and parses it, and hands payload frames to the assembler.
\<close>

definition session_send ::
    "'k primitives \<Rightarrow> (bytes option \<times> outgoing) list \<Rightarrow> secure_channel \<Rightarrow> (channel_error + bytes list) \<times> secure_channel" where
  "session_send p ms c =
     (case send_all p (map (\<lambda>m. (fst m, outgoing_bytes (snd m))) ms) c of
        (r, c') \<Rightarrow> (and_then r (\<lambda>ws. Inr (map framing_encode ws)), c'))"

definition session_receive ::
    "'k primitives \<Rightarrow> secure_channel \<Rightarrow> bytes list \<Rightarrow> (channel_error + (frames_error + frame) list) \<times> secure_channel" where
  "session_receive p d reads =
     (case recv_all p (fst (feed decoder_new reads)) d of
        (r, d') \<Rightarrow> (and_then r (\<lambda>fs. Inr (map frames_parse fs)), d'))"

fun payload_transfer_of :: "frames_error + frame \<Rightarrow> payload_transfer list" where
  "payload_transfer_of (Inr (Frame_PayloadTransfer pt)) = [pt]"
| "payload_transfer_of _ = []"

definition payload_transfers :: "(frames_error + frame) list \<Rightarrow> payload_transfer list" where
  "payload_transfers fs = concat (map payload_transfer_of fs)"

definition sent_frames :: "(bytes option \<times> outgoing) list \<Rightarrow> (frames_error + frame) list" where
  "sent_frames ms = map (\<lambda>m. Inr (outgoing_frame (snd m))) ms"

definition sendable :: "bytes option \<times> outgoing \<Rightarrow> bool" where
  "sendable m \<longleftrightarrow> (case fst m of Some iv \<Rightarrow> length iv = IV_SIZE | None \<Rightarrow> False) \<and> outgoing_ok (snd m) \<and>
     length (outgoing_bytes (snd m)) + SM_OVERHEAD < MAX_FRAME"

lemma session_delivers:
  assumes "cipher_ok p" "hmac_ok p" "in_step c d" "list_all sendable ms"
  shows "\<exists>ws c' d'. session_send p ms c = (Inr ws, c') \<and> in_step c' d' \<and>
    (\<forall>reads. concat reads = concat ws \<longrightarrow> session_receive p d reads = (Inr (sent_frames ms), d'))"
proof -
  let ?fs = "map (\<lambda>m. (fst m, outgoing_bytes (snd m))) ms"
  have "list_all frame_fits ?fs" using assms(4) by (auto simp: list_all_iff sendable_def frame_fits_def)
  from stream_of_frames [OF assms(1-3) this] obtain ws c' d' where w: "send_all p ?fs c = (Inr ws, c')"
    "recv_all p ws d = (Inr (map snd ?fs), d')" "in_step c' d'"
    "list_all2 (\<lambda>w m. length w \<le> length (snd m) + SM_OVERHEAD) ws ?fs" by blast
  have small: "\<forall>w \<in> set ws. length w < MAX_FRAME"
  proof
    fix w assume "w \<in> set ws"
    then obtain i where i: "i < length ws" "w = ws ! i" by (auto simp: in_set_conv_nth)
    with list_all2_nthD [OF w(4), of i] list_all2_lengthD [OF w(4)]
    have "length w \<le> length (outgoing_bytes (snd (ms ! i))) + SM_OVERHEAD" "i < length ms" by simp_all
    moreover from this(2) assms(4) have "sendable (ms ! i)" by (simp add: list_all_length)
    ultimately show "length w < MAX_FRAME" by (simp add: sendable_def)
  qed
  have parse: "map frames_parse (map snd ?fs) = sent_frames ms"
    using frames_codec.dec_enc assms(4) by (auto simp: list_all_iff sendable_def sent_frames_def fits_def)
  have "session_receive p d reads = (Inr (sent_frames ms), d')" if "concat reads = concat (map framing_encode ws)" for reads
    using framing_feed [OF that small] w(2) parse by (simp add: session_receive_def)
  with w(1,3) show ?thesis by (auto simp: session_send_def)
qed

section \<open>Properties\<close>

text \<open>
  C2: pairing establishes a session. An undisturbed handshake gives both sides the same secrets, from
  which both show the same four-digit PIN and open channels that are in step in both directions.
\<close>

theorem pairing_establishes_session:
  assumes "hash_ok p" "curve_ok p" "hmac_ok p" "length rc = 32" "length rs = 32"
  shows "\<exists>c ci s si cf r sec keys pin. client_start p (Some kc) (Some rc) = Inr (c, ci) \<and>
    handle_client_init p (Some ks) (Some rs) ci = Inr (s, si) \<and>
    handle_server_init p c si = Inr (cf, r) \<and> handle_client_finished p s cf = Inr r \<and>
    d2d_derive_all p (hr_dhs r) (hr_client_init_msg r) (hr_server_init_msg r) = Inr (sec, keys) \<and>
    pin_derive (auth_string sec) = Some pin \<and> length pin = 4 \<and>
    in_step (channel_new keys Role_Client) (channel_new keys Role_Server) \<and>
    in_step (channel_new keys Role_Server) (channel_new keys Role_Client)"
proof -
  from honest_handshake [OF assms] obtain c ci s si cf r sec keys where h:
    "client_start p (Some kc) (Some rc) = Inr (c, ci)" "handle_client_init p (Some ks) (Some rs) ci = Inr (s, si)"
    "handle_server_init p c si = Inr (cf, r)" "handle_client_finished p s cf = Inr r"
    "hr_client_init_msg r = ci" "hr_server_init_msg r = si"
    "d2d_derive_all p (hr_dhs r) ci si = Inr (sec, keys)" "keys_ok keys" by blast
  obtain pin where "pin_derive (auth_string sec) = Some pin" "length pin = 4" using pin_derive_digits by blast
  moreover have "in_step (channel_new keys Role_Client) (channel_new keys Role_Server)"
      "in_step (channel_new keys Role_Server) (channel_new keys Role_Client)"
    using h(8) by (simp_all add: in_step_def channel_new_def)
  ultimately show ?thesis using h(1-7) by blast
qed

theorem pairing_establishes_session_witness:
  "\<exists>c ci s si cf r sec keys pin. client_start sample_prims (Some 5) (Some (replicate 32 1)) = Inr (c, ci) \<and>
    handle_client_init sample_prims (Some 6) (Some (replicate 32 2)) ci = Inr (s, si) \<and>
    handle_server_init sample_prims c si = Inr (cf, r) \<and> handle_client_finished sample_prims s cf = Inr r \<and>
    d2d_derive_all sample_prims (hr_dhs r) (hr_client_init_msg r) (hr_server_init_msg r) = Inr (sec, keys) \<and>
    pin_derive (auth_string sec) = Some pin \<and> length pin = 4"
  using pairing_establishes_session [OF sample_prims_ok(3,4,1), of "replicate 32 1" "replicate 32 2" 5 6]
  by fastforce

text \<open>
  C1: a sharing frame survives the whole stack. Cut into any pieces, sent as a BYTES payload between
  any other traffic (files, keep-alives, control frames), encrypted, framed, and read in whatever
  portions the socket returns, it reaches the peer's assembler complete, once, on its last piece, and
  parses to the frame that was sent.
\<close>

theorem sharing_frame_end_to_end:
  assumes "cipher_ok p" "hmac_ok p" "in_step c d" "list_all sendable ms"
    and "card (pids (payload_transfers (sent_frames ms))) \<le> MAX_IN_FLIGHT"
    and "frames_of (ph_id h) (payload_transfers (sent_frames ms)) = chunk_frames h 0 bs" "bs \<noteq> []"
    and "ph_payload_type h = Payload_Bytes" "size_ok h (length (concat bs))" "length (concat bs) \<le> MAX_BYTES_PAYLOAD"
    and "concat bs = sharing_bytes f" "sharing_ok f"
  shows "\<exists>ws c' d'. session_send p ms c = (Inr ws, c') \<and> in_step c' d' \<and>
    (\<forall>reads. concat reads = concat ws \<longrightarrow>
      (\<exists>fs. session_receive p d reads = (Inr fs, d') \<and>
        outputs_of (ph_id h) (snd (run asm_step assembler_new (payload_transfers fs))) =
          replicate (length bs - 1) (Inr Event_Pending) @ [Inr (Event_Bytes (ph_id h) (sharing_bytes f))])) \<and>
    sharing_parse (sharing_bytes f) = Inr f"
proof -
  have "outputs_of (ph_id h) (snd (run asm_step assembler_new (payload_transfers (sent_frames ms)))) =
      replicate (length bs - 1) (Inr Event_Pending) @ [Inr (Event_Bytes (ph_id h) (sharing_bytes f))]"
    using solo_bytes_run [OF assms(7,8), of 0 None "[]"] assms(5,6,9,10,11) by (simp add: asm_run_new_solo)
  moreover have "sharing_parse (sharing_bytes f) = Inr f"
    using assms(9-12) by (intro sharing_codec.dec_enc) (auto simp: fits_def)
  ultimately show ?thesis using session_delivers [OF assms(1-4)] by metis
qed

definition sample_session :: "(bytes option \<times> outgoing) list" where
  "sample_session =
     (let h = (sample_header Payload_Bytes)\<lparr>ph_total_size := 6\<rparr> in
      [(Some (replicate 16 1), Out_Data h \<lparr>pc_flags = 0, pc_offset = 0, pc_body = [8, 1, 18]\<rparr>),
       (Some (replicate 16 2), Out_KeepAlive True 5),
       (Some (replicate 16 3), Out_Data h \<lparr>pc_flags = 1, pc_offset = 3, pc_body = [2, 8, 6]\<rparr>)])"

lemma sample_session:
  "list_all sendable sample_session"
  "payload_transfers (sent_frames sample_session) =
     chunk_frames ((sample_header Payload_Bytes)\<lparr>ph_total_size := 6\<rparr>) 0 [[8, 1, 18], [2, 8, 6]]"
  "sharing_bytes SF_Cancel = [8, 1, 18, 2, 8, 6]"
proof -
  show "list_all sendable sample_session"
    by (simp add: sample_session_def sendable_def Let_def header_ok_def sample_header_def payload_header_default_def
        keep_alive_def payload_data_def offline_def bool_u64_def write_eval)
  show "payload_transfers (sent_frames sample_session) =
     chunk_frames ((sample_header Payload_Bytes)\<lparr>ph_total_size := 6\<rparr>) 0 [[8, 1, 18], [2, 8, 6]]"
    by (simp add: payload_transfers_def sent_frames_def sample_session_def data_frame_def Let_def)
  show "sharing_bytes SF_Cancel = [8, 1, 18, 2, 8, 6]"
    by (simp add: sharing_cancel_def write_eval)
qed

theorem sharing_frame_end_to_end_witness:
  "\<exists>ws c' d'. session_send sample_prims sample_session (channel_new sample_keys Role_Client) = (Inr ws, c') \<and>
    (\<forall>reads. concat reads = concat ws \<longrightarrow>
      (\<exists>fs. session_receive sample_prims (channel_new sample_keys Role_Server) reads = (Inr fs, d') \<and>
        outputs_of 7 (snd (run asm_step assembler_new (payload_transfers fs))) =
          [Inr Event_Pending, Inr (Event_Bytes 7 (sharing_bytes SF_Cancel))])) \<and>
    sharing_parse (sharing_bytes SF_Cancel) = Inr SF_Cancel"
proof -
  let ?h = "(sample_header Payload_Bytes)\<lparr>ph_total_size := 6\<rparr>"
  let ?bs = "[[8, 1, 18], [2, 8, 6]] :: bytes list"
  have h: "ph_id ?h = 7" "ph_payload_type ?h = Payload_Bytes" "size_ok ?h (length (concat ?bs))"
    by (simp_all add: sample_header_def size_ok_def)
  have t: "pids (chunk_frames ?h 0 ?bs) = {7}" "frames_of 7 (chunk_frames ?h 0 ?bs) = chunk_frames ?h 0 ?bs"
    using h(1) by (simp_all add: pids_def frames_of_def data_frame_def)
  have small: "card {7 :: i64} \<le> MAX_IN_FLIGHT" "length (concat ?bs) \<le> MAX_BYTES_PAYLOAD" by simp_all
  have f: "concat ?bs = sharing_bytes SF_Cancel" "sharing_ok SF_Cancel" "?bs \<noteq> []" using sample_session(3) by simp_all
  have out: "replicate (length ?bs - 1) (Inr Event_Pending) = [Inr Event_Pending :: payload_error + payload_event]" by simp
  note sharing_frame_end_to_end [OF sample_prims_ok(2,1) sample_in_step sample_session(1), of ?h ?bs SF_Cancel,
      unfolded sample_session(2) h(1) t, OF small(1) refl f(3) h(2,3) small(2) f(1,2), unfolded out append_Cons append_Nil]
  then show ?thesis by blast
qed

end
